(* ===== verification/Two9_Prelude.thy ===== *)
theory Two9_Prelude
  imports Main "HOL-Library.Word" "HOL-Library.Char_ord" "HOL-Library.List_Lexorder"
begin

text \<open>
  Shared ground of the development: the fragment of the C library the modelled files use
  (character classes of the C locale, \<open>strcmp\<close>, \<open>strchr\<close>, \<open>strrchr\<close>,
  \<open>strtok_r\<close>, decimal printing and parsing, big-endian integers), the generic lemmas on
  lists that several components need, and the interfaces (locales) that more than one
  component implements.

  A C string is the list of its bytes before the terminating NUL; a byte is a \<open>char\<close>,
  whose code is read by \<open>of_char\<close>.  \<open>*p\<close> at the end of a string is NUL, so a test
  \<open>*p\<close> is \<open>p \<noteq> []\<close> in the model.  Allocation failure is not modelled.
\<close>

named_theorems c_class \<open>facts on the character classes\<close>
named_theorems codec_simps \<open>one-step equations of readers applied to what the writers emit\<close>

type_synonym bytes = string

subsection \<open>Character classes of the C locale\<close>

definition c_isdigit :: "char \<Rightarrow> bool" where
  "c_isdigit c \<longleftrightarrow> (48::nat) \<le> of_char c \<and> of_char c \<le> (57::nat)"

definition c_isupper :: "char \<Rightarrow> bool" where
  "c_isupper c \<longleftrightarrow> (65::nat) \<le> of_char c \<and> of_char c \<le> (90::nat)"

definition c_islower :: "char \<Rightarrow> bool" where
  "c_islower c \<longleftrightarrow> (97::nat) \<le> of_char c \<and> of_char c \<le> (122::nat)"

definition c_isalpha :: "char \<Rightarrow> bool" where
  "c_isalpha c \<longleftrightarrow> c_isupper c \<or> c_islower c"

definition c_isalnum :: "char \<Rightarrow> bool" where
  "c_isalnum c \<longleftrightarrow> c_isalpha c \<or> c_isdigit c"

text \<open>\<open>isspace\<close>: space and the five control characters 9 to 13.\<close>

definition c_isspace :: "char \<Rightarrow> bool" where
  "c_isspace c \<longleftrightarrow> of_char c = (32::nat) \<or> ((9::nat) \<le> of_char c \<and> of_char c \<le> (13::nat))"

lemmas c_class_defs = c_isdigit_def c_isupper_def c_islower_def c_isalpha_def c_isalnum_def
  c_isspace_def

lemma digit_not_alpha [c_class]: "c_isdigit c \<Longrightarrow> \<not> c_isalpha c"
  by (auto simp: c_class_defs)

lemma digit_alnum [c_class]: "c_isdigit c \<Longrightarrow> c_isalnum c"
  by (simp add: c_isalnum_def)

lemma alpha_alnum [c_class]: "c_isalpha c \<Longrightarrow> c_isalnum c"
  by (simp add: c_isalnum_def)

lemma alnum_cases [c_class]: "c_isalnum c \<Longrightarrow> \<not> c_isdigit c \<Longrightarrow> c_isalpha c"
  by (simp add: c_isalnum_def)

subsection \<open>Strings\<close>

text \<open>Only the sign of \<open>strcmp\<close> is specified by C, and only its sign is used.\<close>

definition c_strcmp :: "string \<Rightarrow> string \<Rightarrow> int" where
  "c_strcmp a b = (if a = b then 0 else if a < b then -1 else 1)"

lemma c_strcmp_0 [simp]: "c_strcmp a b = 0 \<longleftrightarrow> a = b"
  by (simp add: c_strcmp_def)

lemma c_strcmp_anti: "c_strcmp b a = - c_strcmp a b"
  by (auto simp: c_strcmp_def)

text \<open>
  \<open>split_first c s\<close> is what a use of \<open>strchr(s, c)\<close> computes: \<open>None\<close> when there is
  none, otherwise the bytes before the first \<open>c\<close> and those after it; \<open>split_last\<close>
  is the same for \<open>strrchr\<close>.
\<close>

fun split_first :: "char \<Rightarrow> string \<Rightarrow> (string \<times> string) option" where
  "split_first c [] = None"
| "split_first c (x # xs) =
     (if x = c then Some ([], xs)
      else map_option (\<lambda>(a, b). (x # a, b)) (split_first c xs))"

fun split_last :: "char \<Rightarrow> string \<Rightarrow> (string \<times> string) option" where
  "split_last c [] = None"
| "split_last c (x # xs) =
     (case split_last c xs of
        Some (a, b) \<Rightarrow> Some (x # a, b)
      | None \<Rightarrow> (if x = c then Some ([], xs) else None))"

lemma split_first_None: "split_first c s = None \<longleftrightarrow> c \<notin> set s"
  by (induction s) (auto split: option.splits)

lemma split_first_none [simp]: "c \<notin> set s \<Longrightarrow> split_first c s = None"
  by (simp add: split_first_None)

lemma split_first_Some:
  "split_first c s = Some (a, b) \<longleftrightarrow> s = a @ c # b \<and> c \<notin> set a"
proof (induction s arbitrary: a)
  case Nil
  then show ?case by simp
next
  case (Cons x xs)
  show ?case by (cases a) (auto simp: Cons.IH)
qed

lemma split_first_append [simp]: "c \<notin> set a \<Longrightarrow> split_first c (a @ c # b) = Some (a, b)"
  by (simp add: split_first_Some)

lemma split_last_None: "split_last c s = None \<longleftrightarrow> c \<notin> set s"
  by (induction s) (auto split: option.splits)

lemma split_last_none [simp]: "c \<notin> set s \<Longrightarrow> split_last c s = None"
  by (simp add: split_last_None)

lemma split_last_append [simp]: "c \<notin> set b \<Longrightarrow> split_last c (a @ c # b) = Some (a, b)"
proof (induction a)
  case Nil
  then have "split_last c b = None" by simp
  then show ?case by simp
qed simp

lemma split_last_SomeD:
  "split_last c s = Some (a, b) \<Longrightarrow> s = a @ c # b \<and> c \<notin> set b"
proof (induction s arbitrary: a b)
  case (Cons x xs)
  show ?case
  proof (cases "split_last c xs")
    case None
    with Cons.prems have "x = c" "a = []" "b = xs"
      by (auto split: if_splits)
    with None show ?thesis by (simp add: split_last_None)
  next
    case (Some p)
    with Cons show ?thesis by (cases p) auto
  qed
qed simp

lemma split_last_Some:
  "split_last c s = Some (a, b) \<longleftrightarrow> s = a @ c # b \<and> c \<notin> set b"
  by (auto dest: split_last_SomeD)

definition c_basename :: "string \<Rightarrow> string" where
  "c_basename p = (case split_last (CHR ''/'') p of None \<Rightarrow> p | Some (_, b) \<Rightarrow> b)"

fun starts_with :: "string \<Rightarrow> string \<Rightarrow> bool" where
  "starts_with [] s = True"
| "starts_with (x # xs) [] = False"
| "starts_with (x # xs) (y # ys) = (x = y \<and> starts_with xs ys)"

lemma starts_with_iff: "starts_with p s \<longleftrightarrow> (\<exists>r. s = p @ r)"
  by (induction p s rule: starts_with.induct) auto

text \<open>\<open>strstr(s, n) != NULL\<close>\<close>

fun c_strstr :: "string \<Rightarrow> string \<Rightarrow> bool" where
  "c_strstr [] n = (n = [])"
| "c_strstr (x # xs) n = (starts_with n (x # xs) \<or> c_strstr xs n)"

lemma c_strstr_iff: "c_strstr s n \<longleftrightarrow> (\<exists>a b. s = a @ n @ b)"
proof (induction s)
  case Nil
  then show ?case by auto
next
  case (Cons x xs)
  have "c_strstr (x # xs) n \<longleftrightarrow> (\<exists>b. x # xs = n @ b) \<or> (\<exists>a b. xs = a @ n @ b)"
    by (simp add: Cons.IH starts_with_iff)
  also have "\<dots> \<longleftrightarrow> (\<exists>a b. x # xs = a @ n @ b)"
    by (metis append_Cons append_Nil neq_Nil_conv list.sel(3))
  finally show ?case .
qed

text \<open>
  A use of \<open>strstr\<close> that goes on right behind the match: \<open>None\<close> when there is none.
\<close>

fun strstr_after :: "string \<Rightarrow> string \<Rightarrow> string option" where
  "strstr_after n [] = (if n = [] then Some [] else None)"
| "strstr_after n (x # xs) =
     (if starts_with n (x # xs) then Some (drop (length n) (x # xs)) else strstr_after n xs)"

lemma strstr_after_skip: "x \<noteq> c \<Longrightarrow> strstr_after (c # n) (x # xs) = strstr_after (c # n) xs"
  by simp

lemma strstr_after_skip_all:
  "c \<notin> set a \<Longrightarrow> strstr_after (c # n) (a @ r) = strstr_after (c # n) r"
  by (induction a) auto

lemma strstr_after_here: "strstr_after n (n @ r) = Some r"
proof (cases "n @ r")
  case (Cons x xs)
  have "starts_with n (n @ r)" by (auto simp: starts_with_iff)
  then have "strstr_after n (n @ r) = Some (drop (length n) (n @ r))" unfolding Cons by simp
  then show ?thesis by simp
qed simp

declare strstr_after.simps [simp del]

text \<open>
  \<open>strtok_r\<close> over a whole string: the maximal runs of characters outside the delimiter
  set, in order.  The first argument is the token read so far.
\<close>

fun tokens_acc :: "(char \<Rightarrow> bool) \<Rightarrow> string \<Rightarrow> string \<Rightarrow> string list" where
  "tokens_acc d acc [] = (if acc = [] then [] else [acc])"
| "tokens_acc d acc (x # xs) =
     (if d x then (if acc = [] then tokens_acc d [] xs else acc # tokens_acc d [] xs)
      else tokens_acc d (acc @ [x]) xs)"

definition c_strtok :: "(char \<Rightarrow> bool) \<Rightarrow> string \<Rightarrow> string list" where
  "c_strtok d s = tokens_acc d [] s"

lemma tokens_acc_plain:
  "\<forall>c \<in> set w. \<not> d c \<Longrightarrow> tokens_acc d acc (w @ r) = tokens_acc d (acc @ w) r"
  by (induction w arbitrary: acc) auto

lemma c_strtok_Nil [simp]: "c_strtok d [] = []"
  by (simp add: c_strtok_def)

lemma c_strtok_sep [simp]: "d x \<Longrightarrow> c_strtok d (x # r) = c_strtok d r"
  by (simp add: c_strtok_def)

lemma c_strtok_word:
  assumes "w \<noteq> []" and "\<forall>c \<in> set w. \<not> d c" and "d x"
  shows "c_strtok d (w @ x # r) = w # c_strtok d r"
  using assms by (simp add: c_strtok_def tokens_acc_plain)

lemma c_strtok_last:
  assumes "w \<noteq> []" and "\<forall>c \<in> set w. \<not> d c"
  shows "c_strtok d w = [w]"
  using assms tokens_acc_plain [of w d "[]" "[]"] by (simp add: c_strtok_def)

lemma c_strtok_lines:
  assumes "\<forall>w \<in> set ws. w \<noteq> [] \<and> (\<forall>c \<in> set w. \<not> d c)" and "d x"
  shows "c_strtok d (concat (map (\<lambda>w. w @ [x]) ws)) = ws"
  using assms by (induction ws) (simp_all add: c_strtok_word)

subsection \<open>Lists\<close>

lemma takeWhile_all: "\<forall>x \<in> set xs. P x \<Longrightarrow> takeWhile P xs = xs"
  by (simp add: takeWhile_eq_all_conv)

lemma dropWhile_length [simp]: "length (dropWhile P xs) \<le> length xs"
  by (rule length_dropWhile_le)

lemma dropWhile_less: "xs \<noteq> [] \<Longrightarrow> P (hd xs) \<Longrightarrow> length (dropWhile P xs) < length xs"
  by (cases xs) (simp_all add: le_imp_less_Suc)

lemma dropWhile_hd: "dropWhile P xs \<noteq> [] \<Longrightarrow> \<not> P (hd (dropWhile P xs))"
  by (simp add: hd_dropWhile)

lemma take_drop_prefix: "take (length p) s = p \<Longrightarrow> s = p @ drop (length p) s"
  by (metis append_take_drop_id)

subsection \<open>Interface: a three-way comparison\<close>

text \<open>
  What a caller of a C comparison function relies on: the sign flips when the arguments are
  swapped.  Reflexivity and the coherence of the two strict readings follow.
\<close>

locale sign_comparison =
  fixes cmp :: "'a \<Rightarrow> 'a \<Rightarrow> int"
  assumes anti: "cmp b a = - cmp a b"
begin

lemma refl_0: "cmp a a = 0"
  using anti [of a a] by simp

lemma less_iff_greater: "cmp a b < 0 \<longleftrightarrow> cmp b a > 0"
  using anti [of a b] by simp

lemma eq_sym: "cmp a b = 0 \<longleftrightarrow> cmp b a = 0"
  using anti [of a b] by simp

lemma trichotomy: "cmp a b < 0 \<or> cmp a b = 0 \<or> cmp b a < 0"
  using anti [of a b] by linarith

end

interpretation strcmp: sign_comparison c_strcmp
  by unfold_locales (rule c_strcmp_anti)

subsection \<open>Buffers read as C strings\<close>

abbreviation c_nl :: char where
  "c_nl \<equiv> CHR 0x0A"

abbreviation c_nul :: char where
  "c_nul \<equiv> CHR 0x00"

text \<open>A buffer that holds arbitrary bytes, read with \<open>strlen\<close> or \<open>strcmp\<close>, ends at its first NUL.\<close>

definition c_str :: "bytes \<Rightarrow> string" where
  "c_str b = takeWhile (\<lambda>c. c \<noteq> c_nul) b"

lemma c_str_id [simp]: "c_nul \<notin> set s \<Longrightarrow> c_str s = s"
  unfolding c_str_def by (rule takeWhile_all) auto

lemma c_str_no_nul [simp]: "c_nul \<notin> set (c_str b)"
  by (auto simp: c_str_def dest: set_takeWhileD)

lemma length_c_str_le: "length (c_str b) \<le> length b"
  by (simp add: c_str_def length_takeWhile_le)

lemma set_c_str_subset: "set (c_str b) \<subseteq> set b"
  by (auto simp: c_str_def dest: set_takeWhileD)

subsection \<open>Reading lines into a buffer\<close>

text \<open>
  A loop over \<open>fgets(line, n, f)\<close>: pieces of at most \<open>n - 1\<close> bytes, each ending at a newline,
  which is kept, or where the buffer is full.
\<close>

definition fgets_take :: "nat \<Rightarrow> bytes \<Rightarrow> nat" where
  "fgets_take n s =
     min (n - 1) (case split_first c_nl s of None \<Rightarrow> length s | Some (a, b) \<Rightarrow> length a + 1)"

lemma fgets_take_pos: "s \<noteq> [] \<Longrightarrow> 1 < n \<Longrightarrow> 0 < fgets_take n s"
  by (auto simp: fgets_take_def split: option.split)

function c_fgets_lines :: "nat \<Rightarrow> bytes \<Rightarrow> string list" where
  "c_fgets_lines n s =
     (if s = [] \<or> n \<le> 1 then []
      else c_str (take (fgets_take n s) s) # c_fgets_lines n (drop (fgets_take n s) s))"
  by pat_completeness auto
termination
  by (relation "measure (\<lambda>(n, s). length s)") (auto simp: fgets_take_pos)

declare c_fgets_lines.simps [simp del]

lemma c_fgets_lines_Nil [simp]: "c_fgets_lines n [] = []"
  by (simp add: c_fgets_lines.simps)

lemma c_fgets_lines_line:
  assumes "c_nl \<notin> set l" and "c_nul \<notin> set l" and "length l + 1 < n"
  shows "c_fgets_lines n (l @ c_nl # r) = (l @ [c_nl]) # c_fgets_lines n r"
proof -
  have t: "fgets_take n (l @ c_nl # r) = length l + 1"
    using assms by (simp add: fgets_take_def)
  show ?thesis
    using assms by (subst c_fgets_lines.simps) (simp add: t)
qed

lemma c_fgets_lines_all:
  assumes "\<forall>l \<in> set ls. c_nl \<notin> set l \<and> c_nul \<notin> set l \<and> length l + 1 < n"
  shows "c_fgets_lines n (concat (map (\<lambda>l. l @ [c_nl]) ls)) = map (\<lambda>l. l @ [c_nl]) ls"
  using assms by (induction ls) (simp_all add: c_fgets_lines_line)

subsection \<open>Interface: an encoder and its reader\<close>

text \<open>
  \<open>dec\<close> undoes \<open>enc\<close> on valid values, up to \<open>norm\<close>, the part of the value the encoding
  keeps.  The client's gain is that the encoding then determines that part.
\<close>

locale codec =
  fixes valid :: "'a \<Rightarrow> bool" and enc :: "'a \<Rightarrow> 'b" and dec :: "'b \<Rightarrow> 'c option"
    and norm :: "'a \<Rightarrow> 'c"
  assumes dec_enc: "valid x \<Longrightarrow> dec (enc x) = Some (norm x)"
begin

lemma enc_determines: "valid x \<Longrightarrow> valid y \<Longrightarrow> enc x = enc y \<Longrightarrow> norm x = norm y"
  using dec_enc [of x] dec_enc [of y] by simp

lemma enc_eq_iff:
  assumes "valid x" and "valid y" and "norm x = norm y \<Longrightarrow> enc x = enc y"
  shows "enc x = enc y \<longleftrightarrow> norm x = norm y"
  using assms enc_determines [of x y] by blast

lemma enc_inj_on: "inj_on norm {x. valid x} \<Longrightarrow> inj_on enc {x. valid x}"
  by (auto intro!: inj_onI dest: enc_determines inj_onD)

end

subsection \<open>Interface: a registry of keys\<close>

text \<open>
  A store of keys under an invariant \<open>ok\<close>: what is registered after one addition or removal.
  The client's gain is the state after a whole loop of them.
\<close>

locale registry =
  fixes ok :: "'s \<Rightarrow> bool" and has :: "'s \<Rightarrow> 'k \<Rightarrow> bool"
    and add :: "'s \<Rightarrow> 'k \<Rightarrow> 's" and del :: "'s \<Rightarrow> 'k \<Rightarrow> 's"
  assumes ok_add: "ok s \<Longrightarrow> ok (add s k)" and ok_del: "ok s \<Longrightarrow> ok (del s k)"
    and has_add: "ok s \<Longrightarrow> has (add s k) q \<longleftrightarrow> q = k \<or> has s q"
    and has_del: "ok s \<Longrightarrow> has (del s k) q \<longleftrightarrow> q \<noteq> k \<and> has s q"
begin

lemma ok_add_all: "ok s \<Longrightarrow> ok (foldl add s ks)"
  by (induction ks arbitrary: s) (simp_all add: ok_add)

lemma ok_del_all: "ok s \<Longrightarrow> ok (foldl del s ks)"
  by (induction ks arbitrary: s) (simp_all add: ok_del)

lemma has_add_all: "ok s \<Longrightarrow> has (foldl add s ks) q \<longleftrightarrow> q \<in> set ks \<or> has s q"
  by (induction ks arbitrary: s) (auto simp: ok_add has_add)

lemma has_del_all: "ok s \<Longrightarrow> has (foldl del s ks) q \<longleftrightarrow> q \<notin> set ks \<and> has s q"
  by (induction ks arbitrary: s) (auto simp: ok_del has_del)

lemma del_add_has: "ok s \<Longrightarrow> has (del (add s k) k) q \<longleftrightarrow> q \<noteq> k \<and> has s q"
  by (auto simp: ok_add has_add has_del)

end

subsection \<open>Decimal digit strings\<close>

definition digit_val :: "char \<Rightarrow> nat" where
  "digit_val c = of_char c - 48"

definition dec_val :: "string \<Rightarrow> nat" where
  "dec_val s = foldl (\<lambda>n c. 10 * n + digit_val c) 0 s"

lemma digit_val_less: "c_isdigit c \<Longrightarrow> digit_val c < 10"
  by (auto simp: c_isdigit_def digit_val_def)

lemma digit_val_mono: "c_isdigit c \<Longrightarrow> c_isdigit d \<Longrightarrow> c < d \<longleftrightarrow> digit_val c < digit_val d"
  by (auto simp: c_isdigit_def digit_val_def less_char_def)

lemma dec_val_Nil [simp]: "dec_val [] = 0"
  by (simp add: dec_val_def)

lemma foldl_dec:
  "foldl (\<lambda>n c. 10 * n + digit_val c) a s = a * 10 ^ length s + dec_val s"
proof (induction s arbitrary: a)
  case (Cons c s)
  have "dec_val (c # s) = digit_val c * 10 ^ length s + dec_val s"
    using Cons [of "digit_val c"] by (simp add: dec_val_def)
  with Cons [of "10 * a + digit_val c"] show ?case
    by (simp add: algebra_simps)
qed simp

lemma dec_val_Cons: "dec_val (c # s) = digit_val c * 10 ^ length s + dec_val s"
  using foldl_dec [of "digit_val c" s] by (simp add: dec_val_def)

lemma dec_val_bound: "\<forall>c \<in> set s. c_isdigit c \<Longrightarrow> dec_val s < 10 ^ length s"
proof (induction s)
  case (Cons c s)
  then have "digit_val c * 10 ^ length s + dec_val s < (digit_val c + 1) * 10 ^ length s"
    by simp
  also have "\<dots> \<le> 10 * 10 ^ length s"
    using Cons.prems digit_val_less [of c] by (intro mult_le_mono1) auto
  finally show ?case by (simp add: dec_val_Cons)
qed simp

text \<open>Decimal printing, \<open>%lld\<close> and \<open>%zu\<close> of \<open>printf\<close>.\<close>

fun dec_str :: "nat \<Rightarrow> string" where
  "dec_str n = (if n < 10 then [char_of (48 + n)] else dec_str (n div 10) @ [char_of (48 + n mod 10)])"

declare dec_str.simps [simp del]

definition dec_int_str :: "int \<Rightarrow> string" where
  "dec_int_str i = (if i < 0 then ''-'' @ dec_str (nat (- i)) else dec_str (nat i))"

lemma digit_char: "n < 10 \<Longrightarrow> c_isdigit (char_of (48 + n)) \<and> digit_val (char_of (48 + n)) = n"
  by (simp add: c_isdigit_def digit_val_def)

lemma dec_val_snoc: "dec_val (s @ [c]) = 10 * dec_val s + digit_val c"
  by (simp add: dec_val_def)

lemma dec_str_digits: "\<forall>c \<in> set (dec_str n). c_isdigit c"
proof (induction n rule: dec_str.induct)
  case (1 n)
  then show ?case
    using digit_char [of n] digit_char [of "n mod 10"] by (subst dec_str.simps) auto
qed

lemma dec_str_not_Nil [simp]: "dec_str n \<noteq> []"
  by (subst dec_str.simps) simp

lemma dec_val_dec_str [simp]: "dec_val (dec_str n) = n"
proof (induction n rule: dec_str.induct)
  case (1 n)
  show ?case
  proof (cases "n < 10")
    case True
    then show ?thesis
      using digit_char [of n] dec_val_snoc [of "[]"] by (subst dec_str.simps) simp
  next
    case False
    then show ?thesis
      using 1 digit_char [of "n mod 10"] by (subst dec_str.simps) (simp add: dec_val_snoc)
  qed
qed

lemma dec_str_inj: "dec_str a = dec_str b \<longleftrightarrow> a = b"
  by (metis dec_val_dec_str)

text \<open>
  \<open>strtoll(s, NULL, 10)\<close>: white space, an optional sign, then digits up to the first other
  character; no digits give 0, and values outside the 64-bit range are clamped.
\<close>

definition clamp64 :: "int \<Rightarrow> int" where
  "clamp64 i = max (- (2 ^ 63)) (min (2 ^ 63 - 1) i)"

definition c_strtoll :: "string \<Rightarrow> int" where
  "c_strtoll s =
     (case dropWhile c_isspace s of
        [] \<Rightarrow> 0
      | c # t \<Rightarrow>
          if c = CHR ''-'' then clamp64 (- int (dec_val (takeWhile c_isdigit t)))
          else if c = CHR ''+'' then clamp64 (int (dec_val (takeWhile c_isdigit t)))
          else clamp64 (int (dec_val (takeWhile c_isdigit (c # t)))))"

lemma not_space_digit [c_class]: "c_isdigit c \<Longrightarrow> \<not> c_isspace c"
  by (auto simp: c_class_defs)

lemma c_strtoll_dec_str:
  assumes "n < 2 ^ 63"
  shows "c_strtoll (dec_str n) = int n"
proof -
  obtain c t where ct: "dec_str n = c # t" by (cases "dec_str n") auto
  then have d: "c_isdigit c" "\<forall>x \<in> set (c # t). c_isdigit x"
    using dec_str_digits [of n] by auto
  then have ne: "c \<noteq> CHR ''-''" "c \<noteq> CHR ''+''" by (auto simp: c_isdigit_def)
  have tw: "takeWhile c_isdigit t = t" using d(2) by (intro takeWhile_all) simp
  have "c_strtoll (dec_str n) = clamp64 (int (dec_val (dec_str n)))"
    using d(1) ne by (simp add: c_strtoll_def ct not_space_digit tw)
  then show ?thesis using assms by (simp add: clamp64_def)
qed

lemma dec_int_str_inj: "dec_int_str i = dec_int_str j \<longleftrightarrow> i = j"
proof
  assume eq: "dec_int_str i = dec_int_str j"
  have no_minus: "hd (dec_str n) \<noteq> CHR ''-''" for n
  proof -
    have "c_isdigit (hd (dec_str n))" using dec_str_digits [of n] by (auto simp: hd_in_set)
    then show ?thesis by (auto simp: c_isdigit_def)
  qed
  have sign: "i < 0 \<longleftrightarrow> j < 0"
  proof (rule ccontr)
    assume "\<not> (i < 0 \<longleftrightarrow> j < 0)"
    with eq have "hd (dec_str (nat i)) = CHR ''-'' \<or> hd (dec_str (nat j)) = CHR ''-''"
      unfolding dec_int_str_def by (auto split: if_splits) (metis list.sel(1))+
    with no_minus show False by blast
  qed
  with eq show "i = j"
    by (auto simp: dec_int_str_def dec_str_inj split: if_splits)
qed simp

lemma c_strtoll_dec_int: "0 \<le> n \<Longrightarrow> n < 2 ^ 63 \<Longrightarrow> c_strtoll (dec_int_str n) = n"
  using c_strtoll_dec_str [of "nat n"] by (simp add: dec_int_str_def nat_less_iff)

end
