(* ===== verification/Alpm_Version.thy ===== *)
theory Alpm_Version
  imports Two9_Prelude
begin

text \<open>
  \<open>lib/2O9/alpm/version.c\<close>: the version comparison of the dependency solver.
  \<open>parseEVR\<close> splits \<open>[epoch:]version[-release]\<close>, \<open>rpmvercmp\<close> compares two
  strings segment by segment, \<open>alpm_pkg_vercmp\<close> composes them.  A pointer into the
  buffer is the suffix it points at; the bytes written over (\<open>*ptr1 = 0\<close>, restored later)
  only delimit the segments, which are the \<open>takeWhile\<close>s below.
\<close>

subsection \<open>Epoch, version and release\<close>

record evr =
  evr_epoch :: string
  evr_version :: string
  evr_release :: "string option"

definition parseEVR :: "string \<Rightarrow> evr" where
  "parseEVR s0 =
     (let dig = takeWhile c_isdigit s0;
          s = dropWhile c_isdigit s0;
          colon = (s \<noteq> [] \<and> hd s = CHR '':'');
          epoch = (if colon then (if dig = [] then ''0'' else dig) else ''0'');
          ver = (if colon then tl s else s0)
      in case split_last (CHR ''-'') s of
           None \<Rightarrow> \<lparr>evr_epoch = epoch, evr_version = ver, evr_release = None\<rparr>
         | Some (_, rel) \<Rightarrow>
             \<lparr>evr_epoch = epoch,
              evr_version = take (length ver - length rel - 1) ver,
              evr_release = Some rel\<rparr>)"

subsection \<open>Segment comparison\<close>

text \<open>
  Two non-empty segments of the same kind: numbers lose their leading zeros, the longer one
  is the greater, and \<open>strcmp\<close> decides the rest.
\<close>

definition rpm_seg_cmp :: "bool \<Rightarrow> string \<Rightarrow> string \<Rightarrow> int" where
  "rpm_seg_cmp isnum one two =
     (let one' = (if isnum then dropWhile (\<lambda>c. c = CHR ''0'') one else one);
          two' = (if isnum then dropWhile (\<lambda>c. c = CHR ''0'') two else two)
      in if isnum \<and> length one' > length two' then 1
         else if isnum \<and> length two' > length one' then -1
         else c_strcmp one' two')"

text \<open>The tests after the loop, on what is left of both strings.\<close>

definition rpm_showdown :: "string \<Rightarrow> string \<Rightarrow> int" where
  "rpm_showdown one two =
     (if one = [] \<and> two = [] then 0
      else if (one = [] \<and> \<not> (two \<noteq> [] \<and> c_isalpha (hd two)))
              \<or> (one \<noteq> [] \<and> c_isalpha (hd one)) then -1
      else 1)"

text \<open>Skipping the separators, and the character class of the next segment.\<close>

definition skip_sep :: "string \<Rightarrow> string" where
  "skip_sep p = dropWhile (\<lambda>c. \<not> c_isalnum c) p"

definition seg_class :: "string \<Rightarrow> char \<Rightarrow> bool" where
  "seg_class p = (if p \<noteq> [] \<and> c_isdigit (hd p) then c_isdigit else c_isalpha)"

lemma takeWhile_dropWhile_less:
  "takeWhile p xs \<noteq> [] \<Longrightarrow> length (dropWhile p xs) < length xs"
  by (cases xs) (auto split: if_splits simp: le_imp_less_Suc)

lemma length_skip_sep: "length (skip_sep p) \<le> length p"
  by (simp add: skip_sep_def)

function rpm_loop :: "string \<Rightarrow> string \<Rightarrow> int" where
  "rpm_loop ptr1 ptr2 =
     (if ptr1 = [] \<or> ptr2 = [] then rpm_showdown ptr1 ptr2
      else
        let one = skip_sep ptr1; two = skip_sep ptr2
        in if one = [] \<or> two = [] then rpm_showdown one two
           else
             let sep1 = length ptr1 - length one; sep2 = length ptr2 - length two
             in if sep1 \<noteq> sep2 then (if sep1 < sep2 then -1 else 1)
                else
                  let isnum = c_isdigit (hd one); cls = seg_class one;
                      seg1 = takeWhile cls one; seg2 = takeWhile cls two
                  in if seg1 = [] then -1
                     else if seg2 = [] then (if isnum then 1 else -1)
                     else if rpm_seg_cmp isnum seg1 seg2 \<noteq> 0
                          then rpm_seg_cmp isnum seg1 seg2
                     else rpm_loop (dropWhile cls one) (dropWhile cls two))"
  by pat_completeness auto

termination
proof (relation "measure (\<lambda>(a, b). length a)", goal_cases)
  case 1
  show ?case by simp
next
  case (2 ptr1 ptr2 one two sep1 sep2 isnum cls seg1 seg2)
  then have "length (dropWhile cls one) < length one"
    by (simp add: takeWhile_dropWhile_less)
  also have "\<dots> \<le> length ptr1"
    using 2 by (simp add: length_skip_sep)
  finally show ?case by simp
qed

declare rpm_loop.simps [simp del]

definition rpmvercmp :: "string \<Rightarrow> string \<Rightarrow> int" where
  "rpmvercmp a b = (if c_strcmp a b = 0 then 0 else rpm_loop a b)"

subsection \<open>The public comparison\<close>

text \<open>A null pointer is \<open>None\<close>.\<close>

definition alpm_pkg_vercmp :: "string option \<Rightarrow> string option \<Rightarrow> int" where
  "alpm_pkg_vercmp a b =
     (case (a, b) of
        (None, None) \<Rightarrow> 0
      | (None, Some _) \<Rightarrow> -1
      | (Some _, None) \<Rightarrow> 1
      | (Some x, Some y) \<Rightarrow>
          if c_strcmp x y = 0 then 0
          else
            let e1 = parseEVR x; e2 = parseEVR y;
                r = rpmvercmp (evr_epoch e1) (evr_epoch e2)
            in if r \<noteq> 0 then r
               else
                 let r = rpmvercmp (evr_version e1) (evr_version e2)
                 in if r \<noteq> 0 then r
                    else case (evr_release e1, evr_release e2) of
                           (Some r1, Some r2) \<Rightarrow> rpmvercmp r1 r2
                         | _ \<Rightarrow> r)"

subsection \<open>The comparison as an ordering\<close>

lemma rpm_seg_cmp_anti: "rpm_seg_cmp n b a = - rpm_seg_cmp n a b"
  by (auto simp: rpm_seg_cmp_def Let_def c_strcmp_def)

lemma rpm_showdown_anti:
  "a = [] \<or> b = [] \<Longrightarrow> rpm_showdown b a = - rpm_showdown a b"
  by (auto simp: rpm_showdown_def)

text \<open>
  The loop, one equation per exit.  After the separators are skipped both strings start with
  an alphanumeric character, so the first character decides the class of a segment and the
  test \<open>one == ptr1\<close> never fires.
\<close>

lemma skip_sep_alnum: "skip_sep p \<noteq> [] \<Longrightarrow> c_isalnum (hd (skip_sep p))"
  using dropWhile_hd [of "\<lambda>c. \<not> c_isalnum c" p] by (simp add: skip_sep_def)

lemma takeWhile_Nil_iff: "xs \<noteq> [] \<Longrightarrow> takeWhile P xs = [] \<longleftrightarrow> \<not> P (hd xs)"
  by (cases xs) simp_all

lemma seg_first:
  assumes "skip_sep p \<noteq> []" and "skip_sep q \<noteq> []"
  shows "takeWhile (seg_class (skip_sep p)) (skip_sep q) = []
         \<longleftrightarrow> c_isdigit (hd (skip_sep p)) \<noteq> c_isdigit (hd (skip_sep q))"
proof -
  have "c_isalpha c \<longleftrightarrow> \<not> c_isdigit c" if "c_isalnum c" for c
    using that c_class by blast
  then show ?thesis
    using assms skip_sep_alnum [of p] skip_sep_alnum [of q]
    by (auto simp: takeWhile_Nil_iff seg_class_def)
qed

lemma rpm_loop_short: "p = [] \<or> q = [] \<Longrightarrow> rpm_loop p q = rpm_showdown p q"
  by (subst rpm_loop.simps) auto

lemma rpm_loop_end:
  assumes "p \<noteq> []" "q \<noteq> []" "skip_sep p = [] \<or> skip_sep q = []"
  shows "rpm_loop p q = rpm_showdown (skip_sep p) (skip_sep q)"
  using assms by (subst rpm_loop.simps) auto

definition sep_len :: "string \<Rightarrow> nat" where
  "sep_len p = length p - length (skip_sep p)"

lemma rpm_loop_sep:
  assumes "skip_sep p \<noteq> []" "skip_sep q \<noteq> []" "sep_len p \<noteq> sep_len q"
  shows "rpm_loop p q = (if sep_len p < sep_len q then -1 else 1)"
proof -
  have "p \<noteq> []" "q \<noteq> []" using assms by (auto simp: skip_sep_def)
  with assms show ?thesis
    by (subst rpm_loop.simps) (auto simp: sep_len_def)
qed

lemma rpm_loop_seg:
  assumes ne: "skip_sep p \<noteq> []" "skip_sep q \<noteq> []" and sep: "sep_len p = sep_len q"
    and one: "one = skip_sep p" and two: "two = skip_sep q"
    and cls: "cls = seg_class one" and isnum: "isnum = c_isdigit (hd one)"
  shows "rpm_loop p q =
     (if isnum \<noteq> c_isdigit (hd two) then (if isnum then 1 else -1)
      else if rpm_seg_cmp isnum (takeWhile cls one) (takeWhile cls two) \<noteq> 0
           then rpm_seg_cmp isnum (takeWhile cls one) (takeWhile cls two)
      else rpm_loop (dropWhile cls one) (dropWhile cls two))"
proof -
  have pq: "p \<noteq> []" "q \<noteq> []" using ne by (auto simp: skip_sep_def)
  have a: "(takeWhile cls one = []) = False"
    using seg_first [of p p] ne by (simp add: one cls)
  have b: "(takeWhile cls two = []) = (isnum \<noteq> c_isdigit (hd two))"
    using seg_first [of p q] ne by (simp add: one two cls isnum)
  have ne': "(one = []) = False" "(two = []) = False"
    using ne by (simp_all add: one two)
  have sep': "length p - length one = length q - length two"
    using sep by (simp add: one two sep_len_def)
  show ?thesis
    by (simp only: rpm_loop.simps [of p q] Let_def pq ne' simp_thms if_False if_True
          sep' one [symmetric] two [symmetric] cls [symmetric] isnum [symmetric] a b)
qed

lemma seg_class_cong:
  "skip_sep p \<noteq> [] \<Longrightarrow> skip_sep q \<noteq> [] \<Longrightarrow>
   c_isdigit (hd (skip_sep p)) = c_isdigit (hd (skip_sep q)) \<Longrightarrow>
   seg_class (skip_sep p) = seg_class (skip_sep q)"
  by (simp add: seg_class_def)

lemma seg_rest_less:
  assumes "skip_sep p \<noteq> []"
  shows "length (dropWhile (seg_class (skip_sep p)) (skip_sep p)) < length p"
proof -
  have "takeWhile (seg_class (skip_sep p)) (skip_sep p) \<noteq> []"
    using seg_first [of p p] assms by simp
  then show ?thesis
    using takeWhile_dropWhile_less length_skip_sep [of p] order_less_le_trans by blast
qed

lemma rpm_loop_anti: "rpm_loop q p = - rpm_loop p q"
proof (induction "length p" arbitrary: p q rule: less_induct)
  case less
  let ?one = "skip_sep p" and ?two = "skip_sep q"
  let ?c = "seg_class ?one"
  show ?case
  proof (cases "?one = [] \<or> ?two = []")
    case True
    then show ?thesis
      using rpm_showdown_anti [of p q] rpm_showdown_anti [of ?one ?two]
      by (cases "p = [] \<or> q = []") (auto simp: rpm_loop_short rpm_loop_end)
  next
    case False
    then have ne: "?one \<noteq> []" "?two \<noteq> []" by auto
    have ih: "rpm_loop (dropWhile ?c ?two) (dropWhile ?c ?one)
              = - rpm_loop (dropWhile ?c ?one) (dropWhile ?c ?two)"
      using less seg_rest_less [OF ne(1)] by blast
    show ?thesis
    proof (cases "sep_len p = sep_len q")
      case False
      with ne show ?thesis by (simp add: rpm_loop_sep)
    next
      case True
      show ?thesis
      proof (cases "c_isdigit (hd ?one) = c_isdigit (hd ?two)")
        case False
        then show ?thesis
          unfolding rpm_loop_seg [OF ne True refl refl refl refl]
            rpm_loop_seg [OF ne(2,1) True [symmetric] refl refl refl refl]
          by auto
      next
        case eq: True
        have "seg_class ?two = ?c"
          using seg_class_cong [OF ne(2,1)] eq by simp
        moreover have "rpm_seg_cmp n (takeWhile ?c ?two) (takeWhile ?c ?one)
                       = - rpm_seg_cmp n (takeWhile ?c ?one) (takeWhile ?c ?two)" for n
          by (rule rpm_seg_cmp_anti)
        ultimately show ?thesis
          unfolding rpm_loop_seg [OF ne True refl refl refl refl]
            rpm_loop_seg [OF ne(2,1) True [symmetric] refl refl refl refl]
          by (simp add: eq ih)
      qed
    qed
  qed
qed

lemma rpmvercmp_anti: "rpmvercmp b a = - rpmvercmp a b"
  by (auto simp: rpmvercmp_def rpm_loop_anti [of b a])

lemma alpm_pkg_vercmp_anti: "alpm_pkg_vercmp b a = - alpm_pkg_vercmp a b"
proof (cases "a = None \<or> b = None")
  case True
  then show ?thesis by (cases a; cases b) (auto simp: alpm_pkg_vercmp_def)
next
  case False
  then obtain x y where ab: "a = Some x" "b = Some y" by auto
  note anti = rpmvercmp_anti [of "evr_epoch (parseEVR y)" "evr_epoch (parseEVR x)"]
    rpmvercmp_anti [of "evr_version (parseEVR y)" "evr_version (parseEVR x)"]
    rpmvercmp_anti [of "the (evr_release (parseEVR y))" "the (evr_release (parseEVR x))"]
  show ?thesis
    using anti by (auto simp: ab alpm_pkg_vercmp_def Let_def split: option.splits)
qed

interpretation rpmver: sign_comparison rpmvercmp
  by unfold_locales (rule rpmvercmp_anti)

interpretation pkgver: sign_comparison alpm_pkg_vercmp
  by unfold_locales (rule alpm_pkg_vercmp_anti)

text \<open>C31. Swapping the two versions negates the result of the comparison the solver uses,
  null pointers included; so a version equals itself, and one version is older than another
  exactly when the other is newer.\<close>

theorem vercmp_antisymmetric:
  "alpm_pkg_vercmp b a = - alpm_pkg_vercmp a b \<and> alpm_pkg_vercmp a a = 0 \<and>
   (alpm_pkg_vercmp a b < 0 \<longleftrightarrow> alpm_pkg_vercmp b a > 0)"
  using pkgver.anti pkgver.refl_0 pkgver.less_iff_greater by blast

subsection \<open>Numeric segments\<close>

lemma strip_zeros_val: "dec_val (dropWhile (\<lambda>c. c = CHR ''0'') s) = dec_val s"
  by (induction s) (simp_all add: dec_val_Cons digit_val_def)

lemma dec_val_lead:
  assumes "s \<noteq> []" "hd s \<noteq> CHR ''0''" "\<forall>c \<in> set s. c_isdigit c"
  shows "10 ^ (length s - 1) \<le> dec_val s"
proof -
  obtain c r where s: "s = c # r" using assms(1) by (cases s) auto
  have "digit_val c \<noteq> 0"
  proof
    assume "digit_val c = 0"
    then have "of_char c = (48 :: nat)"
      using assms(3) by (auto simp: s digit_val_def c_isdigit_def)
    then have "of_char c = (of_char (CHR ''0'') :: nat)" by simp
    then have "c = CHR ''0''" by (simp only: of_char_eq_iff)
    then show False using assms(2) by (simp add: s)
  qed
  then show ?thesis by (cases "digit_val c") (simp_all add: s dec_val_Cons)
qed

lemma dec_val_longer:
  assumes "length a < length b" "hd b \<noteq> CHR ''0''"
    and "\<forall>c \<in> set a. c_isdigit c" "\<forall>c \<in> set b. c_isdigit c"
  shows "dec_val a < dec_val b"
proof -
  have "dec_val a < 10 ^ length a" using assms dec_val_bound by blast
  also have "\<dots> \<le> 10 ^ (length b - 1)" using assms(1) by (simp add: power_increasing)
  also have "\<dots> \<le> dec_val b" using assms by (intro dec_val_lead) auto
  finally show ?thesis .
qed

lemma dec_val_lex:
  assumes "length a = length b" "\<forall>c \<in> set a. c_isdigit c" "\<forall>c \<in> set b. c_isdigit c"
  shows "a < b \<longleftrightarrow> dec_val a < dec_val b"
  using assms
proof (induction a b rule: list_induct2)
  case (Cons c a d b)
  have bnd: "dec_val a < 10 ^ length a" "dec_val b < 10 ^ length a"
    using Cons dec_val_bound [of a] dec_val_bound [of b] by auto
  have lt: "m * 10 ^ k + x < n * 10 ^ k + y" if "m < n" "x < 10 ^ k" for m n k x y :: nat
  proof -
    have "m * 10 ^ k + x < (m + 1) * 10 ^ k" using that by simp
    also have "\<dots> \<le> n * 10 ^ k" using that by (intro mult_le_mono1) simp
    finally show ?thesis by simp
  qed
  have dig: "c < d \<longleftrightarrow> digit_val c < digit_val d" "d < c \<longleftrightarrow> digit_val d < digit_val c"
    using Cons.prems by (simp_all add: digit_val_mono)
  consider "c < d" | "c = d" | "d < c" by (cases c d rule: linorder_cases)
  then show ?case
  proof cases
    case 1
    then show ?thesis
      using lt [OF _ bnd(1), of "digit_val c" "digit_val d" "dec_val b"] Cons.hyps dig
      by (simp add: dec_val_Cons Cons_less_Cons)
  next
    case 2
    then show ?thesis using Cons by (simp add: dec_val_Cons Cons_less_Cons)
  next
    case 3
    then show ?thesis
      using lt [OF _ bnd(2), of "digit_val d" "digit_val c" "dec_val a"] Cons.hyps dig
      by (auto simp: dec_val_Cons Cons_less_Cons)
  qed
qed simp

lemma dec_val_inj:
  assumes "length a = length b" "\<forall>c \<in> set a. c_isdigit c" "\<forall>c \<in> set b. c_isdigit c"
  shows "dec_val a = dec_val b \<longleftrightarrow> a = b"
proof
  assume "dec_val a = dec_val b"
  then have "\<not> a < b" "\<not> b < a"
    using dec_val_lex [of a b] dec_val_lex [of b a] assms by auto
  then show "a = b" by simp
qed simp

lemma rpm_seg_cmp_numeric:
  assumes "\<forall>c \<in> set a. c_isdigit c" "\<forall>c \<in> set b. c_isdigit c"
  shows "rpm_seg_cmp True a b = sgn (int (dec_val a) - int (dec_val b))"
proof -
  define z where "z = dropWhile (\<lambda>c. c = CHR ''0'')"
  have za: "\<forall>c \<in> set (z a). c_isdigit c" "\<forall>c \<in> set (z b). c_isdigit c"
    using assms set_dropWhileD unfolding z_def by metis+
  have hd: "hd (z x) \<noteq> CHR ''0''" if "z x \<noteq> []" for x
    using that dropWhile_hd [of "\<lambda>c. c = CHR ''0''" x] by (simp add: z_def)
  have v: "dec_val (z a) = dec_val a" "dec_val (z b) = dec_val b"
    by (simp_all add: z_def strip_zeros_val)
  consider "length (z a) < length (z b)" | "length (z b) < length (z a)"
    | "length (z a) = length (z b)" by linarith
  then show ?thesis
  proof cases
    case 1
    then have "dec_val (z a) < dec_val (z b)"
      using za hd [of b] by (intro dec_val_longer) (cases "z b = []"; simp)+
    with 1 v show ?thesis by (simp add: rpm_seg_cmp_def z_def Let_def)
  next
    case 2
    then have "dec_val (z b) < dec_val (z a)"
      using za hd [of a] by (intro dec_val_longer) (cases "z a = []"; simp)+
    with 2 v show ?thesis by (simp add: rpm_seg_cmp_def z_def Let_def)
  next
    case 3
    then show ?thesis
      using dec_val_lex [OF 3 za] dec_val_inj [OF 3 za] v
      by (auto simp: rpm_seg_cmp_def z_def [symmetric] Let_def c_strcmp_def)
  qed
qed

lemma skip_sep_digits: "s \<noteq> [] \<Longrightarrow> c_isdigit (hd s) \<Longrightarrow> skip_sep s = s"
  by (cases s) (simp_all add: skip_sep_def digit_alnum)

text \<open>Two versions that are digit strings of any length are compared as the numbers
  they denote: no conversion overflows, and leading zeros do not matter.\<close>

theorem rpmvercmp_numeric:
  assumes "a \<noteq> []" "\<forall>c \<in> set a. c_isdigit c" "b \<noteq> []" "\<forall>c \<in> set b. c_isdigit c"
  shows "rpmvercmp a b = sgn (int (dec_val a) - int (dec_val b))"
proof (cases "a = b")
  case True
  then show ?thesis by (simp add: rpmvercmp_def)
next
  case False
  have hd: "c_isdigit (hd a)" "c_isdigit (hd b)" using assms by auto
  then have sk: "skip_sep a = a" "skip_sep b = b"
    using assms by (simp_all add: skip_sep_digits)
  have seg: "takeWhile c_isdigit a = a" "takeWhile c_isdigit b = b"
    "dropWhile c_isdigit a = []" "dropWhile c_isdigit b = []"
    using assms by (simp_all add: takeWhile_all)
  have cls: "c_isdigit = seg_class a" using hd assms by (simp add: seg_class_def)
  have "rpm_loop a b = (if rpm_seg_cmp True a b \<noteq> 0 then rpm_seg_cmp True a b else rpm_loop [] [])"
    using rpm_loop_seg [of a b a b "c_isdigit" True] sk assms hd
    unfolding seg by (simp add: sep_len_def cls [symmetric])
  then show ?thesis
    using False assms by (simp add: rpmvercmp_def rpm_loop_short rpm_showdown_def rpm_seg_cmp_numeric)
qed

theorem rpmvercmp_numeric_witness:
  "rpmvercmp ''0099999999999999999999'' ''100000000000000000000'' = - 1"
proof -
  have "rpmvercmp ''0099999999999999999999'' ''100000000000000000000''
        = sgn (int (dec_val ''0099999999999999999999'') - int (dec_val ''100000000000000000000''))"
    by (rule rpmvercmp_numeric) (simp_all add: c_isdigit_def)
  then show ?thesis by (simp add: dec_val_def digit_val_def)
qed

subsection \<open>Epoch and release\<close>

lemma takeWhile_digits_stop:
  "\<forall>c \<in> set e. c_isdigit c \<Longrightarrow> \<not> c_isdigit x \<Longrightarrow>
   takeWhile c_isdigit (e @ x # r) = e \<and> dropWhile c_isdigit (e @ x # r) = x # r"
  by (induction e) simp_all

lemma colon_dash_not_digit [simp]: "\<not> c_isdigit (CHR '':'')" "\<not> c_isdigit (CHR ''-'')"
  by (simp_all add: c_isdigit_def)

text \<open>A version string assembled from an epoch, a version and a release is split into
  exactly these parts: the epoch ends at the first colon, the release starts after the last
  dash, and an empty epoch reads as 0.\<close>

theorem parseEVR_assembled:
  assumes "\<forall>c \<in> set e. c_isdigit c" and "CHR ''-'' \<notin> set r"
  shows "parseEVR (e @ CHR '':'' # v @ CHR ''-'' # r) =
         \<lparr>evr_epoch = (if e = [] then ''0'' else e), evr_version = v, evr_release = Some r\<rparr>"
proof -
  let ?s = "CHR '':'' # v @ CHR ''-'' # r"
  have "split_last (CHR ''-'') (CHR '':'' # v @ CHR ''-'' # r) = Some (CHR '':'' # v, r)"
    using split_last_append [OF assms(2), of "CHR '':'' # v"] by simp
  then show ?thesis
    using takeWhile_digits_stop [OF assms(1), of "CHR '':''"]
    by (simp add: parseEVR_def Let_def)
qed

theorem parseEVR_assembled_witness:
  "parseEVR ''2:1.4-rc-3'' =
   \<lparr>evr_epoch = ''2'', evr_version = ''1.4-rc'', evr_release = Some ''3''\<rparr>"
  using parseEVR_assembled [of "''2''" "''3''" "''1.4-rc''"] by (simp add: c_isdigit_def)

lemma parseEVR_add_release:
  assumes "CHR ''-'' \<notin> set v" and "CHR ''-'' \<notin> set r"
  shows "parseEVR (v @ CHR ''-'' # r) = (parseEVR v)\<lparr>evr_release := Some r\<rparr>"
proof -
  define d where "d = takeWhile c_isdigit v"
  define s where "s = dropWhile c_isdigit v"
  have v: "v = d @ s" by (simp add: d_def s_def)
  have t: "takeWhile c_isdigit (v @ CHR ''-'' # r) = d"
    "dropWhile c_isdigit (v @ CHR ''-'' # r) = s @ CHR ''-'' # r"
    by (simp_all add: d_def s_def takeWhile_append dropWhile_append takeWhile_all
        dropWhile_eq_Nil_conv [symmetric] del: dropWhile_eq_Nil_conv)
  have l: "split_last (CHR ''-'') (s @ CHR ''-'' # r) = Some (s, r)"
    using assms(2) by simp
  have n: "split_last (CHR ''-'') s = None"
    using assms(1) by (simp add: v)
  define colon where "colon \<longleftrightarrow> s \<noteq> [] \<and> hd s = CHR '':''"
  define e where "e = (if colon then (if d = [] then ''0'' else d) else ''0'')"
  define w where "w = (if colon then tl s else v)"
  have a: "parseEVR v = \<lparr>evr_epoch = e, evr_version = w, evr_release = None\<rparr>"
    by (simp add: parseEVR_def Let_def n e_def w_def colon_def d_def [symmetric] s_def [symmetric])
  have c: "(s @ CHR ''-'' # r \<noteq> [] \<and> hd (s @ CHR ''-'' # r) = CHR '':'') = colon"
    by (cases s) (auto simp: colon_def)
  have "(if colon then tl (s @ CHR ''-'' # r) else v @ CHR ''-'' # r) = w @ CHR ''-'' # r"
    by (simp add: w_def colon_def)
  with c l t have "parseEVR (v @ CHR ''-'' # r)
      = \<lparr>evr_epoch = e, evr_version = w, evr_release = Some r\<rparr>"
    unfolding parseEVR_def Let_def t c by (simp add: e_def)
  with a show ?thesis by simp
qed

text \<open>A version without a release equals the same version with any release, so a
  dependency on \<open>1.0\<close> is met by \<open>1.0-3\<close>.\<close>

theorem vercmp_ignores_missing_release:
  assumes "CHR ''-'' \<notin> set v" and "CHR ''-'' \<notin> set r"
  shows "alpm_pkg_vercmp (Some v) (Some (v @ CHR ''-'' # r)) = 0 \<and>
         alpm_pkg_vercmp (Some (v @ CHR ''-'' # r)) (Some v) = 0"
proof -
  have "CHR ''-'' \<notin> set (dropWhile c_isdigit v)"
    using assms(1) set_dropWhileD [of "CHR ''-''" c_isdigit v] by blast
  then have "evr_release (parseEVR v) = None"
    by (simp add: parseEVR_def Let_def)
  then have "alpm_pkg_vercmp (Some v) (Some (v @ CHR ''-'' # r)) = 0"
    by (simp add: alpm_pkg_vercmp_def parseEVR_add_release [OF assms] rpmver.refl_0)
  then show ?thesis using pkgver.eq_sym by blast
qed

theorem vercmp_ignores_missing_release_witness:
  "alpm_pkg_vercmp (Some ''2:1.0'') (Some ''2:1.0-3'') = 0"
  using vercmp_ignores_missing_release [of "''2:1.0''" "''3''"] by simp

text \<open>The comparison is not a total preorder: there are three versions each newer than
  the next in a cycle, because trailing separators, an alphabetic segment behind separators
  and a numeric segment are ranked by three different rules.\<close>

theorem vercmp_cycle:
  "alpm_pkg_vercmp (Some ''1..'') (Some ''1..a'') = 1 \<and>
   alpm_pkg_vercmp (Some ''1..a'') (Some ''1.1'') = 1 \<and>
   alpm_pkg_vercmp (Some ''1.1'') (Some ''1..'') = 1"
proof -
  have "rpmvercmp ''1..'' ''1..a'' = 1" "rpmvercmp ''1..a'' ''1.1'' = 1"
    "rpmvercmp ''1.1'' ''1..'' = 1"
    by code_simp+
  moreover have "parseEVR v = \<lparr>evr_epoch = ''0'', evr_version = v, evr_release = None\<rparr>"
    if "v \<in> {''1..'', ''1..a'', ''1.1''}" for v
    using that by (auto simp: parseEVR_def Let_def c_isdigit_def)
  ultimately show ?thesis
    by (simp add: alpm_pkg_vercmp_def Let_def rpmver.refl_0)
qed

end
