(* ===== verification/Alpm_Deps.thy ===== *)
theory Alpm_Deps
  imports Alpm_Version
begin

text \<open>
  Dependencies between packages, \<open>lib/2O9/alpm/deps.c\<close>: the text form of a dependency, when a
  package satisfies one, the check of a transaction, and the resolution of what it still needs.

  A package is referred to by a pointer, here a number, and \<open>pk\<close> gives the package a pointer
  refers to; a list of packages is a list of pointers.
\<close>

subsection \<open>Packages and dependencies\<close>

datatype alpm_depmod =
    ALPM_DEP_MOD_ANY | ALPM_DEP_MOD_EQ | ALPM_DEP_MOD_GE | ALPM_DEP_MOD_LE | ALPM_DEP_MOD_GT | ALPM_DEP_MOD_LT

record alpm_depend =
  dep_name :: string
  dep_version :: "string option"
  dep_desc :: "string option"
  dep_name_hash :: "64 word"
  dep_mod :: alpm_depmod

datatype alpm_pkgfrom = ALPM_PKG_FROM_FILE | ALPM_PKG_FROM_LOCALDB | ALPM_PKG_FROM_SYNCDB

type_synonym pkg_ref = nat

text \<open>The database a package came from is a number; the last three fields are set by transactions.\<close>

record alpm_pkg =
  pkg_name_hash :: "64 word"
  pkg_name :: string
  pkg_version :: "string option"
  pkg_depends :: "alpm_depend list"
  pkg_provides :: "alpm_depend list"
  pkg_conflicts :: "alpm_depend list"
  pkg_groups :: "string list"
  pkg_explicit :: bool
  pkg_replaces :: "alpm_depend list"
  pkg_optdepends :: "alpm_depend list"
  pkg_filename :: "string option"
  pkg_arch :: "string option"
  pkg_size :: int
  pkg_origin :: alpm_pkgfrom
  pkg_db :: nat
  pkg_removes :: "pkg_ref list"
  pkg_oldpkg :: "pkg_ref option"
  pkg_download_size :: int

type_synonym pkg_store = "pkg_ref \<Rightarrow> alpm_pkg"

text \<open>The characters are signed.\<close>

definition signed_char :: "char \<Rightarrow> 64 word" where
  "signed_char c = word_of_int (if (of_char c :: int) < 128 then of_char c else of_char c - 256)"

definition alpm_hash_sdbm :: "string \<Rightarrow> 64 word" where
  "alpm_hash_sdbm s = foldl (\<lambda>hash c. signed_char c + hash * 65599) 0 s"

subsection \<open>The text form\<close>

text \<open>Splitting at the first colon that a space follows.\<close>

fun split_desc :: "string \<Rightarrow> (string \<times> string) option" where
  "split_desc [] = None"
| "split_desc (c # s) =
     (if c = CHR '':'' \<and> take 1 s = '' '' then Some ([], tl s)
      else map_option (\<lambda>(b, d). (c # b, d)) (split_desc s))"

text \<open>What follows the comparison sign: the operator is the one with an equals sign, or not.\<close>

definition dep_operator :: "alpm_depmod \<Rightarrow> alpm_depmod \<Rightarrow> string \<Rightarrow> alpm_depmod \<times> string" where
  "dep_operator with_eq without r = (if take 1 r = ''='' then (with_eq, tl r) else (without, r))"

definition dep_constraint :: "string \<Rightarrow> string \<times> alpm_depmod \<times> string option" where
  "dep_constraint body =
     (case split_first CHR ''<'' body of
        Some (name, r) \<Rightarrow>
          (case dep_operator ALPM_DEP_MOD_LE ALPM_DEP_MOD_LT r of (m, v) \<Rightarrow> (name, m, Some v))
      | None \<Rightarrow>
     (case split_first CHR ''>'' body of
        Some (name, r) \<Rightarrow>
          (case dep_operator ALPM_DEP_MOD_GE ALPM_DEP_MOD_GT r of (m, v) \<Rightarrow> (name, m, Some v))
      | None \<Rightarrow>
     (case split_first CHR ''='' body of
        Some (name, v) \<Rightarrow> (name, ALPM_DEP_MOD_EQ, Some v)
      | None \<Rightarrow> (body, ALPM_DEP_MOD_ANY, None))))"

definition alpm_dep_from_string :: "string \<Rightarrow> alpm_depend" where
  "alpm_dep_from_string depstring =
     (let (body, desc) = (case split_desc depstring of Some (b, d) \<Rightarrow> (b, Some d) | None \<Rightarrow> (depstring, None));
          (name, m, version) = dep_constraint body
      in \<lparr>dep_name = name, dep_version = version, dep_desc = desc, dep_name_hash = alpm_hash_sdbm name, dep_mod = m\<rparr>)"

definition mod_text :: "alpm_depmod \<Rightarrow> string" where
  "mod_text m =
     (case m of ALPM_DEP_MOD_ANY \<Rightarrow> '''' | ALPM_DEP_MOD_GE \<Rightarrow> ''>='' | ALPM_DEP_MOD_LE \<Rightarrow> ''<=''
      | ALPM_DEP_MOD_EQ \<Rightarrow> ''='' | ALPM_DEP_MOD_LT \<Rightarrow> ''<'' | ALPM_DEP_MOD_GT \<Rightarrow> ''>'')"

definition alpm_dep_compute_string :: "alpm_depend \<Rightarrow> string" where
  "alpm_dep_compute_string dep =
     dep_name dep @ mod_text (dep_mod dep) @
     (if dep_mod dep \<noteq> ALPM_DEP_MOD_ANY then (case dep_version dep of Some v \<Rightarrow> v | None \<Rightarrow> []) else []) @
     (case dep_desc dep of Some d \<Rightarrow> '': '' @ d | None \<Rightarrow> [])"

subsection \<open>Satisfaction\<close>

definition dep_vercmp :: "string option \<Rightarrow> alpm_depmod \<Rightarrow> string option \<Rightarrow> bool" where
  "dep_vercmp version1 m version2 =
     (let cmp = alpm_pkg_vercmp version1 version2 in
      case m of
        ALPM_DEP_MOD_ANY \<Rightarrow> True
      | ALPM_DEP_MOD_EQ \<Rightarrow> cmp = 0
      | ALPM_DEP_MOD_GE \<Rightarrow> cmp \<ge> 0
      | ALPM_DEP_MOD_LE \<Rightarrow> cmp \<le> 0
      | ALPM_DEP_MOD_LT \<Rightarrow> cmp < 0
      | ALPM_DEP_MOD_GT \<Rightarrow> cmp > 0)"

definition alpm_depcmp_literal :: "alpm_pkg \<Rightarrow> alpm_depend \<Rightarrow> bool" where
  "alpm_depcmp_literal pkg dep \<longleftrightarrow>
     pkg_name_hash pkg = dep_name_hash dep \<and> pkg_name pkg = dep_name dep \<and>
     dep_vercmp (pkg_version pkg) (dep_mod dep) (dep_version dep)"

fun alpm_depcmp_provides :: "alpm_depend \<Rightarrow> alpm_depend list \<Rightarrow> bool" where
  "alpm_depcmp_provides dep [] = False"
| "alpm_depcmp_provides dep (provision # ps) =
     (let same = dep_name_hash provision = dep_name_hash dep \<and> dep_name provision = dep_name dep;
          satisfy = (if dep_mod dep = ALPM_DEP_MOD_ANY then same
                     else if dep_mod provision = ALPM_DEP_MOD_EQ
                     then same \<and> dep_vercmp (dep_version provision) (dep_mod dep) (dep_version dep)
                     else False)
      in if satisfy then True else alpm_depcmp_provides dep ps)"

definition alpm_depcmp :: "alpm_pkg \<Rightarrow> alpm_depend \<Rightarrow> bool" where
  "alpm_depcmp pkg dep \<longleftrightarrow> alpm_depcmp_literal pkg dep \<or> alpm_depcmp_provides dep (pkg_provides pkg)"

definition alpm_pkg_depends_on :: "alpm_pkg \<Rightarrow> alpm_pkg \<Rightarrow> bool" where
  "alpm_pkg_depends_on pkg1 pkg2 \<longleftrightarrow> (\<exists>d \<in> set (pkg_depends pkg1). alpm_depcmp pkg2 d)"

definition find_dep_satisfier :: "pkg_store \<Rightarrow> pkg_ref list \<Rightarrow> alpm_depend \<Rightarrow> pkg_ref option" where
  "find_dep_satisfier pk pkgs dep = find (\<lambda>p. alpm_depcmp (pk p) dep) pkgs"

definition alpm_find_satisfier :: "pkg_store \<Rightarrow> pkg_ref list \<Rightarrow> string \<Rightarrow> pkg_ref option" where
  "alpm_find_satisfier pk pkgs depstring = find_dep_satisfier pk pkgs (alpm_dep_from_string depstring)"

definition alpm_pkg_find :: "pkg_store \<Rightarrow> pkg_ref list \<Rightarrow> string \<Rightarrow> pkg_ref option" where
  "alpm_pkg_find pk haystack needle =
     find (\<lambda>p. pkg_name_hash (pk p) = alpm_hash_sdbm needle \<and> pkg_name (pk p) = needle) haystack"

subsection \<open>Checking a transaction\<close>

text \<open>The status and the usage of a database are bit fields; these are the bits the code tests.\<close>

record alpm_db =
  db_id :: nat
  db_usable :: bool
  db_upgrade :: bool
  db_invalid :: bool
  db_missing :: bool
  db_pkgcache :: "pkg_ref list"

text \<open>
  What the functions here read of the handle.  \<open>fnmatch\<close> of the C library, and the answers to the
  questions a front end is asked, are parameters.
\<close>

record alpm_handle =
  nodepversion :: bool
  assumeinstalled :: "alpm_depend list"
  db_local :: alpm_db
  dbs_sync :: "alpm_db list"
  ignorepkg :: "string list"
  ignoregroup :: "string list"
  fnmatch :: "string \<Rightarrow> string \<Rightarrow> bool"
  ask_ignored :: "pkg_ref \<Rightarrow> bool"
  ask_provider :: "pkg_ref list \<Rightarrow> alpm_depend \<Rightarrow> int"

record alpm_depmissing =
  miss_target :: string
  miss_depend :: alpm_depend
  miss_causingpkg :: "string option"

text \<open>The constraint is dropped while a dependency is checked, when versions are to be ignored.\<close>

definition relaxed :: "alpm_handle \<Rightarrow> alpm_depend \<Rightarrow> alpm_depend" where
  "relaxed h d = (if nodepversion h then d\<lparr>dep_mod := ALPM_DEP_MOD_ANY\<rparr> else d)"

definition is_modified :: "pkg_store \<Rightarrow> pkg_ref list \<Rightarrow> pkg_ref list \<Rightarrow> pkg_ref \<Rightarrow> bool" where
  "is_modified pk rem upgrade p \<longleftrightarrow>
     alpm_pkg_find pk rem (pkg_name (pk p)) \<noteq> None \<or> alpm_pkg_find pk upgrade (pkg_name (pk p)) \<noteq> None"

definition dep_found :: "pkg_store \<Rightarrow> alpm_handle \<Rightarrow> pkg_ref list \<Rightarrow> pkg_ref list \<Rightarrow> alpm_depend \<Rightarrow> bool" where
  "dep_found pk h upgrade dblist d \<longleftrightarrow>
     find_dep_satisfier pk upgrade d \<noteq> None \<or> find_dep_satisfier pk dblist d \<noteq> None \<or>
     alpm_depcmp_provides d (assumeinstalled h)"

definition missing_deps ::
    "pkg_store \<Rightarrow> alpm_handle \<Rightarrow> pkg_ref list \<Rightarrow> pkg_ref list \<Rightarrow> pkg_ref \<Rightarrow> alpm_depmissing list" where
  "missing_deps pk h upgrade dblist tp =
     map (\<lambda>d. \<lparr>miss_target = pkg_name (pk tp), miss_depend = d, miss_causingpkg = None\<rparr>)
       (filter (\<lambda>d. \<not> dep_found pk h upgrade dblist d) (map (relaxed h) (pkg_depends (pk tp))))"

definition broken_deps ::
    "pkg_store \<Rightarrow> alpm_handle \<Rightarrow> pkg_ref list \<Rightarrow> pkg_ref list \<Rightarrow> pkg_ref list \<Rightarrow> pkg_ref \<Rightarrow> alpm_depmissing list" where
  "broken_deps pk h upgrade dblist modified lp =
     concat (map (\<lambda>d. case find_dep_satisfier pk modified d of
         Some c \<Rightarrow>
           if dep_found pk h upgrade dblist d then []
           else [\<lparr>miss_target = pkg_name (pk lp), miss_depend = d, miss_causingpkg = Some (pkg_name (pk c))\<rparr>]
       | None \<Rightarrow> []) (map (relaxed h) (pkg_depends (pk lp))))"

definition alpm_checkdeps ::
    "pkg_store \<Rightarrow> alpm_handle \<Rightarrow> pkg_ref list \<Rightarrow> pkg_ref list \<Rightarrow> pkg_ref list \<Rightarrow> bool \<Rightarrow> alpm_depmissing list" where
  "alpm_checkdeps pk h pkglist rem upgrade reversedeps =
     (let modified = filter (is_modified pk rem upgrade) pkglist;
          dblist = filter (\<lambda>p. \<not> is_modified pk rem upgrade p) pkglist
      in concat (map (missing_deps pk h upgrade dblist) upgrade) @
         (if reversedeps then concat (map (broken_deps pk h upgrade dblist modified) dblist) else []))"

subsection \<open>Text form: facts\<close>

lemma split_desc_eq: "split_desc s = Some (b, d) \<Longrightarrow> s = b @ '': '' @ d"
proof (induction s arbitrary: b)
  case (Cons c s)
  then show ?case by (cases s) (auto split: if_splits)
qed simp

lemma dep_operator_text:
  "dep_operator ALPM_DEP_MOD_LE ALPM_DEP_MOD_LT r = (m, v) \<Longrightarrow> m \<noteq> ALPM_DEP_MOD_ANY \<and> mod_text m @ v = ''<'' @ r"
  "dep_operator ALPM_DEP_MOD_GE ALPM_DEP_MOD_GT r = (m, v) \<Longrightarrow> m \<noteq> ALPM_DEP_MOD_ANY \<and> mod_text m @ v = ''>'' @ r"
  by (cases r; auto simp: dep_operator_def mod_text_def split: if_splits)+

definition constraint_text :: "string \<times> alpm_depmod \<times> string option \<Rightarrow> string" where
  "constraint_text c = (case c of (n, m, v) \<Rightarrow>
     n @ mod_text m @ (if m \<noteq> ALPM_DEP_MOD_ANY then (case v of Some x \<Rightarrow> x | None \<Rightarrow> []) else []))"

lemma dep_constraint_text: "constraint_text (dep_constraint body) = body"
proof -
  consider (lt) n r where "split_first CHR ''<'' body = Some (n, r)"
    | (gt) n r where "split_first CHR ''<'' body = None" "split_first CHR ''>'' body = Some (n, r)"
    | (eq) n r where "split_first CHR ''<'' body = None" "split_first CHR ''>'' body = None" "split_first CHR ''='' body = Some (n, r)"
    | (any) "split_first CHR ''<'' body = None" "split_first CHR ''>'' body = None" "split_first CHR ''='' body = None"
    by (metis not_Some_eq surj_pair)
  then show ?thesis
  proof cases
    case lt
    obtain m v where op: "dep_operator ALPM_DEP_MOD_LE ALPM_DEP_MOD_LT r = (m, v)" by (cases "dep_operator ALPM_DEP_MOD_LE ALPM_DEP_MOD_LT r")
    from lt have "body = n @ ''<'' @ r" by (simp add: split_first_Some)
    with lt op dep_operator_text(1) [OF op] show ?thesis by (simp add: dep_constraint_def constraint_text_def)
  next
    case gt
    obtain m v where op: "dep_operator ALPM_DEP_MOD_GE ALPM_DEP_MOD_GT r = (m, v)" by (cases "dep_operator ALPM_DEP_MOD_GE ALPM_DEP_MOD_GT r")
    from gt have "body = n @ ''>'' @ r" by (simp add: split_first_Some)
    with gt op dep_operator_text(2) [OF op] show ?thesis by (simp add: dep_constraint_def constraint_text_def)
  next
    case eq
    then have "body = n @ ''='' @ r" by (simp add: split_first_Some)
    with eq show ?thesis by (simp add: dep_constraint_def constraint_text_def mod_text_def)
  next
    case any
    then show ?thesis by (simp add: dep_constraint_def constraint_text_def mod_text_def)
  qed
qed

lemma compute_string_constraint:
  "alpm_dep_compute_string d = constraint_text (dep_name d, dep_mod d, dep_version d) @
     (case dep_desc d of Some t \<Rightarrow> '': '' @ t | None \<Rightarrow> [])"
  by (simp add: alpm_dep_compute_string_def constraint_text_def)

text \<open>
  C34.  A dependency that was read prints as the text it was read from, whatever that text is.
\<close>

theorem dep_text_exact: "alpm_dep_compute_string (alpm_dep_from_string s) = s"
proof (cases "split_desc s")
  case None
  with dep_constraint_text [of s] show ?thesis
    by (cases "dep_constraint s") (simp add: compute_string_constraint alpm_dep_from_string_def)
next
  case (Some p)
  obtain b t where "p = (b, t)" by (cases p)
  with Some split_desc_eq [of s b t] dep_constraint_text [of b] show ?thesis
    by (cases "dep_constraint b") (simp add: compute_string_constraint alpm_dep_from_string_def)
qed

text \<open>Dependencies whose text is read back: no comparison sign or description mark inside.\<close>

definition dep_clean :: "alpm_depend \<Rightarrow> bool" where
  "dep_clean d \<longleftrightarrow> dep_name_hash d = alpm_hash_sdbm (dep_name d) \<and>
     (dep_mod d = ALPM_DEP_MOD_ANY \<longleftrightarrow> dep_version d = None) \<and>
     (\<forall>c \<in> set (dep_name d @ (case dep_version d of Some v \<Rightarrow> v | None \<Rightarrow> [])). c \<notin> {CHR ''<'', CHR ''>'', CHR ''=''}) \<and>
     split_desc (constraint_text (dep_name d, dep_mod d, dep_version d)) = None"

lemma split_desc_append: "split_desc b = None \<Longrightarrow> split_desc (b @ '': '' @ t) = Some (b, t)"
proof (induction b)
  case (Cons c b)
  have "take 1 (b @ '': '' @ t) = take 1 (b @ '':'')" by (cases b) auto
  with Cons show ?case by (cases b) (auto split: if_splits)
qed simp

lemma take1_not: "\<forall>c \<in> set v. c \<noteq> x \<Longrightarrow> take 1 v \<noteq> [x]"
  by (cases v) auto

lemma dep_constraint_clean:
  assumes "\<forall>c \<in> set (n @ (case v of Some x \<Rightarrow> x | None \<Rightarrow> [])). c \<notin> {CHR ''<'', CHR ''>'', CHR ''=''}"
    and "m = ALPM_DEP_MOD_ANY \<longleftrightarrow> v = None"
  shows "dep_constraint (constraint_text (n, m, v)) = (n, m, v)"
proof (cases v)
  case None
  with assms have "split_first c n = None" if "c \<in> {CHR ''<'', CHR ''>'', CHR ''=''}" for c
    using that by (auto simp: split_first_None)
  with None assms(2) show ?thesis by (simp add: dep_constraint_def constraint_text_def mod_text_def)
next
  case (Some x)
  have n: "CHR ''<'' \<notin> set n" "CHR ''>'' \<notin> set n" "CHR ''='' \<notin> set n"
    and x: "CHR ''<'' \<notin> set x" "CHR ''>'' \<notin> set x" "CHR ''='' \<notin> set x"
    using assms(1) Some by auto
  then have split: "split_first c (n @ c # r) = Some (n, r)" if "c \<in> {CHR ''<'', CHR ''>'', CHR ''=''}" for c r
    using that by (auto simp: split_first_Some)
  have eq: "take 1 x \<noteq> ''=''" using x(3) by (cases x) auto
  show ?thesis
    by (cases m)
      (use Some assms(2) n x split eq in \<open>simp_all add: dep_constraint_def constraint_text_def mod_text_def dep_operator_def\<close>)
qed

lemma dep_text_read:
  assumes "dep_clean d"
  shows "alpm_dep_from_string (alpm_dep_compute_string d) = d"
proof -
  have c: "dep_constraint (constraint_text (dep_name d, dep_mod d, dep_version d)) = (dep_name d, dep_mod d, dep_version d)"
    using assms by (intro dep_constraint_clean) (auto simp: dep_clean_def)
  show ?thesis
  proof (cases "dep_desc d")
    case None
    with assms c show ?thesis
      by (simp add: alpm_dep_from_string_def compute_string_constraint dep_clean_def)
  next
    case (Some t)
    with assms c split_desc_append [of "constraint_text (dep_name d, dep_mod d, dep_version d)" t] show ?thesis
      by (simp add: alpm_dep_from_string_def compute_string_constraint dep_clean_def)
  qed
qed

interpretation dep_text: codec dep_clean alpm_dep_compute_string "\<lambda>s. Some (alpm_dep_from_string s)" "\<lambda>d. d"
  by unfold_locales (simp add: dep_text_read)

subsection \<open>Checking a transaction: facts\<close>

lemma find_not_None: "find P xs \<noteq> None \<longleftrightarrow> (\<exists>x \<in> set xs. P x)"
  by (induction xs) auto

lemma satisfier_iff: "find_dep_satisfier pk ps d \<noteq> None \<longleftrightarrow> (\<exists>p \<in> set ps. alpm_depcmp (pk p) d)"
  by (simp only: find_dep_satisfier_def find_not_None)

text \<open>Every dependency of every package of a system is satisfied in it or assumed to be.\<close>

definition satisfied :: "pkg_store \<Rightarrow> alpm_handle \<Rightarrow> pkg_ref set \<Rightarrow> alpm_depend \<Rightarrow> bool" where
  "satisfied pk h S d \<longleftrightarrow> (\<exists>p \<in> S. alpm_depcmp (pk p) d) \<or> alpm_depcmp_provides d (assumeinstalled h)"

definition consistent :: "pkg_store \<Rightarrow> alpm_handle \<Rightarrow> pkg_ref set \<Rightarrow> bool" where
  "consistent pk h S \<longleftrightarrow> (\<forall>p \<in> S. \<forall>d \<in> set (pkg_depends (pk p)). satisfied pk h S (relaxed h d))"

definition after_transaction :: "pkg_store \<Rightarrow> pkg_ref list \<Rightarrow> pkg_ref list \<Rightarrow> pkg_ref list \<Rightarrow> pkg_ref set" where
  "after_transaction pk pkglist rem upgrade =
     {p \<in> set pkglist. \<not> is_modified pk rem upgrade p} \<union> set upgrade"

lemma dep_found_iff: "dep_found pk h upgrade dblist d \<longleftrightarrow> satisfied pk h (set dblist \<union> set upgrade) d"
  unfolding dep_found_def satisfied_def satisfier_iff by auto

lemma checkdeps_exact:
  assumes "consistent pk h (set pkglist)"
  shows "alpm_checkdeps pk h pkglist rem upgrade True = [] \<longleftrightarrow>
    consistent pk h (after_transaction pk pkglist rem upgrade)"
proof -
  let ?mod = "filter (is_modified pk rem upgrade) pkglist"
  let ?db = "filter (\<lambda>p. \<not> is_modified pk rem upgrade p) pkglist"
  let ?S = "after_transaction pk pkglist rem upgrade"
  have S: "set ?db \<union> set upgrade = ?S" by (auto simp: after_transaction_def)
  have up: "concat (map (missing_deps pk h upgrade ?db) upgrade) = [] \<longleftrightarrow>
      (\<forall>p \<in> set upgrade. \<forall>d \<in> set (pkg_depends (pk p)). satisfied pk h ?S (relaxed h d))"
    by (auto simp: missing_deps_def filter_empty_conv dep_found_iff after_transaction_def)
  have old: "satisfied pk h ?S d" if "satisfied pk h (set pkglist) d" "find_dep_satisfier pk ?mod d = None" for d
  proof -
    from that(2) have "\<forall>p \<in> set ?mod. \<not> alpm_depcmp (pk p) d" using satisfier_iff [of pk ?mod d] by auto
    with that(1) S show ?thesis by (auto simp: satisfied_def)
  qed
  have down: "concat (map (broken_deps pk h upgrade ?db ?mod) ?db) = [] \<longleftrightarrow>
      (\<forall>p \<in> set ?db. \<forall>d \<in> set (pkg_depends (pk p)). satisfied pk h ?S (relaxed h d))"
    (is "?L \<longleftrightarrow> ?R")
  proof -
    have "?L \<longleftrightarrow> (\<forall>p \<in> set ?db. \<forall>d \<in> set (pkg_depends (pk p)).
        find_dep_satisfier pk ?mod (relaxed h d) = None \<or> satisfied pk h ?S (relaxed h d))"
      by (auto simp: broken_deps_def dep_found_iff after_transaction_def split: option.splits if_splits)
    also have "\<dots> \<longleftrightarrow> ?R"
    proof -
      have "satisfied pk h (set pkglist) (relaxed h d)" if "p \<in> set ?db" "d \<in> set (pkg_depends (pk p))" for p d
        using that assms by (auto simp: consistent_def)
      with old show ?thesis by blast
    qed
    finally show ?thesis .
  qed
  have "alpm_checkdeps pk h pkglist rem upgrade True = [] \<longleftrightarrow>
      concat (map (missing_deps pk h upgrade ?db) upgrade) = [] \<and>
      concat (map (broken_deps pk h upgrade ?db ?mod) ?db) = []"
    by (simp add: alpm_checkdeps_def Let_def)
  also have "\<dots> \<longleftrightarrow> consistent pk h ?S"
    unfolding up down consistent_def using S by blast
  finally show ?thesis .
qed

subsection \<open>A small system\<close>

text \<open>A package that needs another, which needs a third of at least some version.\<close>

definition sample_pkg :: "string \<Rightarrow> string list \<Rightarrow> bool \<Rightarrow> alpm_pkg" where
  "sample_pkg name deps explicit =
     \<lparr>pkg_name_hash = alpm_hash_sdbm name, pkg_name = name, pkg_version = Some ''1'',
      pkg_depends = map alpm_dep_from_string deps, pkg_provides = [], pkg_conflicts = [], pkg_groups = [],
      pkg_explicit = explicit, pkg_replaces = [], pkg_optdepends = [], pkg_filename = Some (name @ ''-1.pkg''),
      pkg_arch = Some ''any'', pkg_size = 1, pkg_origin = ALPM_PKG_FROM_SYNCDB, pkg_db = 1,
      pkg_removes = [], pkg_oldpkg = None, pkg_download_size = 0\<rparr>"

definition sample_db :: "nat \<Rightarrow> pkg_ref list \<Rightarrow> alpm_db" where
  "sample_db i ps = \<lparr>db_id = i, db_usable = True, db_upgrade = True, db_invalid = False, db_missing = False, db_pkgcache = ps\<rparr>"

definition sample_store :: pkg_store where
  "sample_store p = (if p = 0 then sample_pkg ''a'' [''b''] True else if p = 1 then sample_pkg ''b'' [''c>=1''] False
     else sample_pkg ''c'' [] False)"

definition sample_handle :: alpm_handle where
  "sample_handle =
     \<lparr>nodepversion = False, assumeinstalled = [], db_local = sample_db 0 [0, 1, 2],
      dbs_sync = [sample_db 1 [0, 1, 2]], ignorepkg = [], ignoregroup = [], fnmatch = (\<lambda>_ _. False),
      ask_ignored = (\<lambda>_. False), ask_provider = (\<lambda>_ _. 0)\<rparr>"

lemma sample_consistent: "consistent sample_store sample_handle {0, 1, 2}"
  by code_simp


text \<open>
  C15.  The check of a transaction is exact.  When every dependency of the installed packages is
  satisfied, it reports nothing if and only if that is so again after the packages to remove
  are gone and the ones to install have replaced those of their names.
\<close>

theorem checkdeps_preserves_consistency:
  assumes "consistent pk h (set pkglist)"
  shows "alpm_checkdeps pk h pkglist rem upgrade True = [] \<longleftrightarrow>
    consistent pk h (after_transaction pk pkglist rem upgrade)"
  by (rule checkdeps_exact [OF assms])

theorem checkdeps_preserves_consistency_witness:
  "\<not> consistent sample_store sample_handle (after_transaction sample_store [0, 1, 2] [1] [])"
proof -
  have "alpm_checkdeps sample_store sample_handle [0, 1, 2] [1] [] True \<noteq> []" by code_simp
  then show ?thesis
    using checkdeps_preserves_consistency [of sample_store sample_handle "[0, 1, 2]" "[1]" "[]"] sample_consistent by simp
qed

end
