(* ===== verification/Alpm_Resolve.thy ===== *)
theory Alpm_Resolve
  imports Alpm_Deps
begin

text \<open>
  Resolving what a package needs, \<open>lib/2O9/alpm/deps.c\<close>: the search for a package that satisfies a
  dependency, the recursive resolution of a target, and the dependencies only removed packages need.
\<close>

subsection \<open>Finding a package\<close>

datatype alpm_errno =
    ALPM_ERR_WRONG_ARGS | ALPM_ERR_HANDLE_LOCK | ALPM_ERR_DB_NOT_FOUND | ALPM_ERR_DB_INVALID
  | ALPM_ERR_TRANS_NOT_NULL | ALPM_ERR_TRANS_NULL | ALPM_ERR_TRANS_DUP_TARGET | ALPM_ERR_TRANS_DUP_FILENAME
  | ALPM_ERR_TRANS_NOT_INITIALIZED | ALPM_ERR_PKG_NOT_FOUND | ALPM_ERR_PKG_IGNORED | ALPM_ERR_PKG_INVALID_NAME
  | ALPM_ERR_PKG_INVALID_ARCH | ALPM_ERR_UNSATISFIED_DEPS | ALPM_ERR_CONFLICTING_DEPS

definition alpm_pkg_should_ignore :: "alpm_handle \<Rightarrow> alpm_pkg \<Rightarrow> bool" where
  "alpm_pkg_should_ignore h pkg \<longleftrightarrow>
     (\<exists>pat \<in> set (ignorepkg h). fnmatch h pat (pkg_name pkg)) \<or>
     (\<exists>grp \<in> set (pkg_groups pkg). \<exists>pat \<in> set (ignoregroup h). fnmatch h pat grp)"

text \<open>An ignored package is taken only if the user says so, and only if the user is asked.\<close>

definition accepted :: "pkg_store \<Rightarrow> alpm_handle \<Rightarrow> bool \<Rightarrow> pkg_ref \<Rightarrow> bool" where
  "accepted pk h prompt p \<longleftrightarrow> (if alpm_pkg_should_ignore h (pk p) then prompt \<and> ask_ignored h p else True)"

text \<open>The first package of that name, with the flag that one was ignored.\<close>

fun find_literal ::
    "pkg_store \<Rightarrow> alpm_handle \<Rightarrow> alpm_depend \<Rightarrow> pkg_ref list \<Rightarrow> bool \<Rightarrow> alpm_db list \<Rightarrow> bool \<Rightarrow> pkg_ref option \<times> bool" where
  "find_literal pk h dep excluding prompt [] ignored = (None, ignored)"
| "find_literal pk h dep excluding prompt (db # dbs) ignored =
     (if \<not> db_usable db then find_literal pk h dep excluding prompt dbs ignored
      else case alpm_pkg_find pk (db_pkgcache db) (dep_name dep) of
          None \<Rightarrow> find_literal pk h dep excluding prompt dbs ignored
        | Some p \<Rightarrow>
            if alpm_depcmp_literal (pk p) dep \<and> alpm_pkg_find pk excluding (pkg_name (pk p)) = None then
              if accepted pk h prompt p then (Some p, ignored)
              else find_literal pk h dep excluding prompt dbs True
            else find_literal pk h dep excluding prompt dbs ignored)"

text \<open>The packages that provide it: one that is installed ends the search.\<close>

fun find_providers ::
    "pkg_store \<Rightarrow> alpm_handle \<Rightarrow> alpm_depend \<Rightarrow> pkg_ref list \<Rightarrow> bool \<Rightarrow> pkg_ref list \<Rightarrow> pkg_ref list \<Rightarrow> bool \<Rightarrow>
     pkg_ref option \<times> pkg_ref list \<times> bool" where
  "find_providers pk h dep excluding prompt [] providers ignored = (None, providers, ignored)"
| "find_providers pk h dep excluding prompt (p # ps) providers ignored =
     (if (pkg_name_hash (pk p) \<noteq> dep_name_hash dep \<or> pkg_name (pk p) \<noteq> dep_name dep) \<and>
         alpm_depcmp_provides dep (pkg_provides (pk p)) \<and> alpm_pkg_find pk excluding (pkg_name (pk p)) = None then
        if \<not> accepted pk h prompt p then find_providers pk h dep excluding prompt ps providers True
        else if alpm_pkg_find pk (db_pkgcache (db_local h)) (pkg_name (pk p)) \<noteq> None then (Some p, providers, ignored)
        else find_providers pk h dep excluding prompt ps (providers @ [p]) ignored
      else find_providers pk h dep excluding prompt ps providers ignored)"

definition select_provider :: "alpm_handle \<Rightarrow> alpm_depend \<Rightarrow> pkg_ref list \<Rightarrow> pkg_ref option" where
  "select_provider h dep providers =
     (let count = int (length providers);
          use_index = (if count > 1 then ask_provider h providers dep else 0)
      in if count \<ge> 1 \<and> use_index \<ge> 0 \<and> use_index < count then Some (providers ! nat use_index) else None)"

definition resolvedep ::
    "pkg_store \<Rightarrow> alpm_handle \<Rightarrow> alpm_depend \<Rightarrow> alpm_db list \<Rightarrow> pkg_ref list \<Rightarrow> bool \<Rightarrow> alpm_errno + pkg_ref" where
  "resolvedep pk h dep dbs excluding prompt =
     (case find_literal pk h dep excluding prompt dbs False of
        (Some p, _) \<Rightarrow> Inr p
      | (None, ignored) \<Rightarrow>
          (case find_providers pk h dep excluding prompt
                  (concat (map db_pkgcache (filter db_usable dbs))) [] ignored of
             (Some p, _, _) \<Rightarrow> Inr p
           | (None, providers, ignored') \<Rightarrow>
               (case select_provider h dep providers of
                  Some p \<Rightarrow> Inr p
                | None \<Rightarrow> Inl (if ignored' then ALPM_ERR_PKG_IGNORED else ALPM_ERR_PKG_NOT_FOUND))))"

definition alpm_find_dbs_satisfier :: "pkg_store \<Rightarrow> alpm_handle \<Rightarrow> alpm_db list \<Rightarrow> string \<Rightarrow> pkg_ref option" where
  "alpm_find_dbs_satisfier pk h dbs depstring =
     (case resolvedep pk h (alpm_dep_from_string depstring) dbs [] True of Inr p \<Rightarrow> Some p | Inl _ \<Rightarrow> None)"

subsection \<open>Resolving a target\<close>

text \<open>The lists the recursion changes, and the error code of the handle.\<close>

record resolve_state =
  rs_packages :: "pkg_ref list"
  rs_data :: "alpm_depmissing list"
  rs_errno :: "alpm_errno option"

text \<open>
  The loop over the dependencies that are missing: \<open>step\<close> resolves a package.  The first component
  of the result is \<open>True\<close> when all could be resolved.
\<close>

fun resolve_missing ::
    "(pkg_ref \<Rightarrow> resolve_state \<Rightarrow> (bool \<times> resolve_state) option) \<Rightarrow> pkg_store \<Rightarrow> alpm_handle \<Rightarrow> pkg_ref list \<Rightarrow>
     pkg_ref list \<Rightarrow> alpm_depmissing list \<Rightarrow> bool \<Rightarrow> resolve_state \<Rightarrow> (bool \<times> resolve_state) option" where
  "resolve_missing step pk h preferred rem [] ok st = Some (ok, st)"
| "resolve_missing step pk h preferred rem (miss # ms) ok st =
     (let d = miss_depend miss;
          next = resolve_missing step pk h preferred rem ms;
          local_or_fail = (\<lambda>st.
            case resolvedep pk h d [db_local h] rem False of
              Inr _ \<Rightarrow> next ok st
            | Inl _ \<Rightarrow> next False (st\<lparr>rs_errno := Some ALPM_ERR_UNSATISFIED_DEPS, rs_data := rs_data st @ [miss]\<rparr>))
      in
      if find_dep_satisfier pk (rs_packages st) d \<noteq> None then next ok st
      else case (case find_dep_satisfier pk preferred d of
                   Some s \<Rightarrow> Inr s
                 | None \<Rightarrow> resolvedep pk h d (dbs_sync h) (rs_packages st) False) of
          Inl e \<Rightarrow> local_or_fail (st\<lparr>rs_errno := Some e\<rparr>)
        | Inr spkg \<Rightarrow>
            (case step spkg st of
               None \<Rightarrow> None
             | Some (ok', st') \<Rightarrow> if ok' then next ok st' else local_or_fail st'))"

fun alpm_resolvedeps ::
    "nat \<Rightarrow> pkg_store \<Rightarrow> alpm_handle \<Rightarrow> pkg_ref list \<Rightarrow> pkg_ref list \<Rightarrow> pkg_ref list \<Rightarrow> pkg_ref \<Rightarrow> resolve_state \<Rightarrow>
     (bool \<times> resolve_state) option" where
  "alpm_resolvedeps 0 pk h localpkgs preferred rem pkg st = None"
| "alpm_resolvedeps (Suc n) pk h localpkgs preferred rem pkg st =
     (if alpm_pkg_find pk (rs_packages st) (pkg_name (pk pkg)) \<noteq> None then Some (True, st)
      else case resolve_missing (alpm_resolvedeps n pk h localpkgs preferred rem) pk h preferred rem
                  (alpm_checkdeps pk h localpkgs rem [pkg] False) True
                  (st\<lparr>rs_packages := rs_packages st @ [pkg]\<rparr>) of
          None \<Rightarrow> None
        | Some (ok, st') \<Rightarrow> Some (ok, if ok then st' else st'\<lparr>rs_packages := rs_packages st\<rparr>))"

subsection \<open>Dependencies nothing else needs\<close>

definition selected :: "pkg_store \<Rightarrow> pkg_ref \<Rightarrow> bool \<Rightarrow> pkg_ref \<Rightarrow> bool" where
  "selected pk pkg explicit deppkg \<longleftrightarrow>
     (explicit \<or> \<not> pkg_explicit (pk deppkg)) \<and> alpm_pkg_depends_on (pk pkg) (pk deppkg)"

definition alpm_select_depends ::
    "pkg_store \<Rightarrow> pkg_ref list \<Rightarrow> pkg_ref list \<Rightarrow> pkg_ref \<Rightarrow> bool \<Rightarrow> pkg_ref list \<times> pkg_ref list" where
  "alpm_select_depends pk from to pkg explicit =
     (filter (\<lambda>p. \<not> selected pk pkg explicit p) from, to @ filter (selected pk pkg explicit) from)"

lemma select_depends_length:
  "alpm_select_depends pk from to pkg explicit = (f, t) \<Longrightarrow> length f + length t = length from + length to"
  using sum_length_filter_compl [of "selected pk pkg explicit" "from"] by (auto simp: alpm_select_depends_def)

text \<open>
  A loop over a list that grows while it runs: what is \<open>done\<close> and what is still to come.  Nothing
  can be selected once \<open>from\<close> is empty, which is where the last loop of the caller also stops.
\<close>

function select_closure ::
    "pkg_store \<Rightarrow> bool \<Rightarrow> pkg_ref list \<Rightarrow> pkg_ref list \<Rightarrow> pkg_ref list \<Rightarrow> pkg_ref list \<times> pkg_ref list" where
  "select_closure pk explicit from done [] = (from, done)"
| "select_closure pk explicit from done (p # todo) =
     (case alpm_select_depends pk from todo p explicit of
        (from', todo') \<Rightarrow> select_closure pk explicit from' (done @ [p]) todo')"
  by pat_completeness auto
termination
proof (relation "measure (\<lambda>(pk, explicit, from, done, todo). length from + length todo)")
qed (auto dest!: sym [THEN select_depends_length])

fun remove_named :: "pkg_store \<Rightarrow> string \<Rightarrow> pkg_ref list \<Rightarrow> pkg_ref list" where
  "remove_named pk name [] = []"
| "remove_named pk name (p # ps) = (if c_strcmp (pkg_name (pk p)) name = 0 then ps else p # remove_named pk name ps)"

text \<open>Every selected package is duplicated into the targets; \<open>dup\<close> fails when its files cannot be read.\<close>

fun add_copies :: "(pkg_ref \<Rightarrow> pkg_ref option) \<Rightarrow> pkg_ref list \<Rightarrow> pkg_ref list \<Rightarrow> int \<times> pkg_ref list" where
  "add_copies dup [] targs = (0, targs)"
| "add_copies dup (p # ps) targs =
     (case dup p of None \<Rightarrow> (-1, targs) | Some copy \<Rightarrow> add_copies dup ps (targs @ [copy]))"

definition unneeded :: "pkg_store \<Rightarrow> pkg_ref list \<Rightarrow> pkg_ref list \<Rightarrow> bool \<Rightarrow> pkg_ref list" where
  "unneeded pk pkgcache targs include_explicit =
     (let keep = fold (\<lambda>t. remove_named pk (pkg_name (pk t))) targs pkgcache;
          (keep, rem) = fold (\<lambda>t (keep, rem). alpm_select_depends pk keep rem t include_explicit) targs (keep, []);
          (keep, rem) = select_closure pk include_explicit keep [] rem;
          (rem, keep) = select_closure pk True rem [] keep
      in rem)"

definition alpm_recursedeps ::
    "pkg_store \<Rightarrow> (pkg_ref \<Rightarrow> pkg_ref option) \<Rightarrow> alpm_db \<Rightarrow> pkg_ref list \<Rightarrow> bool \<Rightarrow> int \<times> pkg_ref list" where
  "alpm_recursedeps pk dup db targs include_explicit =
     add_copies dup (unneeded pk (db_pkgcache db) targs include_explicit) targs"

subsection \<open>Dependencies nothing else needs: facts\<close>

text \<open>What is selected through \<open>T\<close> out of \<open>F\<close>.\<close>

inductive pulled :: "pkg_store \<Rightarrow> bool \<Rightarrow> pkg_ref set \<Rightarrow> pkg_ref set \<Rightarrow> pkg_ref \<Rightarrow> bool"
  for pk explicit F T where
  pulled_first: "t \<in> T \<Longrightarrow> q \<in> F \<Longrightarrow> selected pk t explicit q \<Longrightarrow> pulled pk explicit F T q"
| pulled_next: "pulled pk explicit F T p \<Longrightarrow> q \<in> F \<Longrightarrow> selected pk p explicit q \<Longrightarrow> pulled pk explicit F T q"

inductive_cases pulledE: "pulled pk explicit F T q"

lemma pulled_in: "pulled pk e F T q \<Longrightarrow> q \<in> F"
  by (cases rule: pulled.cases)

lemma pulled_mono:
  assumes "pulled pk e F T q" and "F \<subseteq> F'" and "\<And>t. t \<in> T \<Longrightarrow> t \<in> T' \<or> pulled pk e F' T' t"
  shows "pulled pk e F' T' q"
  using assms(1)
proof induction
  case (pulled_first t q)
  with assms(2,3) show ?case by (blast intro: pulled.intros)
next
  case (pulled_next p q)
  with assms(2) show ?case by (blast intro: pulled.intros)
qed

text \<open>One selection, on sets: what was to be pulled still is.\<close>

lemma pulled_select:
  assumes "F' = {q \<in> F. \<not> selected pk p e q}" and "S = {q \<in> F. selected pk p e q}"
  shows "pulled pk e F (insert p T) q \<longleftrightarrow> q \<in> S \<or> pulled pk e F' (T \<union> S) q"
proof
  assume "pulled pk e F (insert p T) q"
  then show "q \<in> S \<or> pulled pk e F' (T \<union> S) q"
    by induction (use assms in \<open>auto intro: pulled.intros\<close>)
next
  assume "q \<in> S \<or> pulled pk e F' (T \<union> S) q"
  then show "pulled pk e F (insert p T) q"
  proof
    assume "q \<in> S"
    then show ?thesis using assms(2) by (auto intro: pulled.intros)
  next
    assume "pulled pk e F' (T \<union> S) q"
    then show ?thesis
      by (rule pulled_mono) (use assms in \<open>auto intro: pulled.intros\<close>)
  qed
qed

lemma select_depends_sets:
  assumes "alpm_select_depends pk from to p e = (from', to')"
  shows "set from' = {q \<in> set from. \<not> selected pk p e q}" and "set to' = set to \<union> {q \<in> set from. selected pk p e q}"
  using assms by (auto simp: alpm_select_depends_def)

lemma select_closure_sets:
  "select_closure pk e from ds todo = (from', ds') \<Longrightarrow>
   set ds' = set ds \<union> set todo \<union> {q. pulled pk e (set from) (set todo) q} \<and>
   set from' = {q \<in> set from. \<not> pulled pk e (set from) (set todo) q}"
proof (induction pk e "from" ds todo arbitrary: from' ds' rule: select_closure.induct)
  case (1 pk e "from" ds)
  have "\<not> pulled pk e F {} q" for F q
  proof
    assume "pulled pk e F {} q"
    then show False by induction auto
  qed
  with 1 show ?case by auto
next
  case (2 pk e "from" ds p todo)
  obtain f t where sel: "alpm_select_depends pk from todo p e = (f, t)" by fastforce
  note sets = select_depends_sets [OF sel]
  let ?S = "{q \<in> set from. selected pk p e q}"
  from 2(2) sel have "select_closure pk e f (ds @ [p]) t = (from', ds')" by simp
  from 2(1) [OF sel [symmetric] this]
  have "set ds' = insert p (set ds \<union> set t \<union> {q. pulled pk e (set f) (set t) q})"
    and "set from' = {q \<in> set f. \<not> pulled pk e (set f) (set t) q}" by auto
  moreover have "pulled pk e (set from) (insert p (set todo)) q \<longleftrightarrow> q \<in> ?S \<or> pulled pk e (set f) (set t) q" for q
    using pulled_select [OF sets(1) refl] sets(2) by metis
  ultimately show ?case using sets by auto
qed

lemma select_targets_sets:
  "fold (\<lambda>t (keep, rem). alpm_select_depends pk keep rem t e) targs (keep, rem) = (keep', rem') \<Longrightarrow>
   set rem' = set rem \<union> {q \<in> set keep. \<exists>t \<in> set targs. selected pk t e q} \<and>
   set keep' = {q \<in> set keep. \<not> (\<exists>t \<in> set targs. selected pk t e q)}"
proof (induction targs arbitrary: keep rem)
  case (Cons t targs)
  obtain k r where sel: "alpm_select_depends pk keep rem t e = (k, r)" by fastforce
  from Cons(2) sel have "fold (\<lambda>t (keep, rem). alpm_select_depends pk keep rem t e) targs (k, r) = (keep', rem')" by simp
  from Cons(1) [OF this] select_depends_sets [OF sel] show ?case by auto
qed simp

text \<open>The packages the removal of \<open>targs\<close> is about: the installed ones no target names.\<close>

definition others :: "pkg_store \<Rightarrow> pkg_ref list \<Rightarrow> pkg_ref list \<Rightarrow> pkg_ref set" where
  "others pk pkgcache targs = {p \<in> set pkgcache. pkg_name (pk p) \<notin> (\<lambda>t. pkg_name (pk t)) ` set targs}"

text \<open>
  A set of packages that can go with \<open>targs\<close>: dependencies, direct or not, of the targets, that no
  package that stays depends on.
\<close>

definition removable :: "pkg_store \<Rightarrow> pkg_ref list \<Rightarrow> pkg_ref list \<Rightarrow> bool \<Rightarrow> pkg_ref set \<Rightarrow> bool" where
  "removable pk pkgcache targs e R \<longleftrightarrow>
     (\<forall>q \<in> R. pulled pk e (others pk pkgcache targs) (set targs) q) \<and>
     (\<forall>p \<in> others pk pkgcache targs - R. \<forall>q \<in> R. \<not> alpm_pkg_depends_on (pk p) (pk q))"

lemma remove_named_set:
  "distinct (map (\<lambda>p. pkg_name (pk p)) ps) \<Longrightarrow> remove_named pk n ps = filter (\<lambda>p. pkg_name (pk p) \<noteq> n) ps"
proof (induction ps)
  case (Cons p ps)
  have "filter (\<lambda>q. pkg_name (pk q) \<noteq> pkg_name (pk p)) ps = ps"
  proof (rule filter_True)
    show "\<forall>q \<in> set ps. pkg_name (pk q) \<noteq> pkg_name (pk p)"
    proof
      fix q assume "q \<in> set ps"
      then have "pkg_name (pk q) \<in> (\<lambda>p. pkg_name (pk p)) ` set ps" by blast
      then show "pkg_name (pk q) \<noteq> pkg_name (pk p)" using Cons.prems by force
    qed
  qed
  with Cons show ?case by auto
qed simp

lemma remove_targets_set:
  "distinct (map (\<lambda>p. pkg_name (pk p)) ps) \<Longrightarrow>
   set (fold (\<lambda>t. remove_named pk (pkg_name (pk t))) targs ps) = others pk ps targs"
proof (induction targs arbitrary: ps)
  case Nil
  then show ?case by (auto simp: others_def)
next
  case (Cons t targs)
  have "distinct (map (\<lambda>p. pkg_name (pk p)) (filter (\<lambda>p. pkg_name (pk p) \<noteq> pkg_name (pk t)) ps))"
    using Cons.prems by (rule distinct_map_filter)
  with Cons show ?case by (auto simp: remove_named_set others_def)
qed

lemma pulled_through:
  assumes "K' = {q \<in> K. \<not> (\<exists>t \<in> T. selected pk t e q)}" and "R = {q \<in> K. \<exists>t \<in> T. selected pk t e q}"
  shows "pulled pk e K T q \<longleftrightarrow> q \<in> R \<or> pulled pk e K' R q"
proof
  assume "pulled pk e K T q"
  then show "q \<in> R \<or> pulled pk e K' R q"
    by induction (use assms in \<open>auto intro: pulled.intros\<close>)
next
  assume "q \<in> R \<or> pulled pk e K' R q"
  then show "pulled pk e K T q"
  proof
    assume "q \<in> R"
    then show ?thesis using assms(2) by (auto intro: pulled.intros)
  next
    assume "pulled pk e K' R q"
    then show ?thesis by (rule pulled_mono) (use assms in \<open>auto intro: pulled.intros\<close>)
  qed
qed

lemma unneeded_greatest:
  assumes "distinct (map (\<lambda>p. pkg_name (pk p)) pkgcache)"
  shows "removable pk pkgcache targs e (set (unneeded pk pkgcache targs e))" (is ?A)
    and "removable pk pkgcache targs e R \<Longrightarrow> R \<subseteq> set (unneeded pk pkgcache targs e)"
proof -
  define keep where "keep = fold (\<lambda>t. remove_named pk (pkg_name (pk t))) targs pkgcache"
  obtain k1 r1 where s1: "fold (\<lambda>t (keep, rem). alpm_select_depends pk keep rem t e) targs (keep, []) = (k1, r1)"
    by fastforce
  obtain k2 r2 where s2: "select_closure pk e k1 [] r1 = (k2, r2)" by fastforce
  obtain r3 k3 where s3: "select_closure pk True r2 [] k2 = (r3, k3)" by fastforce
  have u: "unneeded pk pkgcache targs e = r3"
    using s1 s2 s3 by (simp add: unneeded_def keep_def Let_def)
  let ?K = "others pk pkgcache targs" and ?P = "pulled pk e (others pk pkgcache targs) (set targs)"
  have K: "set keep = ?K" unfolding keep_def by (rule remove_targets_set [OF assms])
  note S1 = select_targets_sets [OF s1, unfolded K]
  have P: "?P q \<longleftrightarrow> q \<in> set r1 \<or> pulled pk e (set k1) (set r1) q" for q
    by (rule pulled_through) (use S1 in auto)
  have r2: "set r2 = {q. ?P q}" using select_closure_sets [OF s2] P by auto
  have k2: "set k2 = {q \<in> ?K. \<not> ?P q}" using select_closure_sets [OF s2] P S1 by auto
  have r3: "set r3 = {q. ?P q \<and> \<not> pulled pk True (set r2) (set k2) q}"
    using select_closure_sets [OF s3] r2 by auto
  have dep: "selected pk p True q \<longleftrightarrow> alpm_pkg_depends_on (pk p) (pk q)" for p q by (simp add: selected_def)
  show ?A
    unfolding removable_def u
  proof (intro conjI ballI)
    fix p q assume p: "p \<in> ?K - set r3" and q: "q \<in> set r3"
    then have "q \<in> set r2" using r2 r3 by auto
    from p have "p \<in> set k2 \<or> pulled pk True (set r2) (set k2) p" using k2 r3 by auto
    with \<open>q \<in> set r2\<close> q r3 show "\<not> alpm_pkg_depends_on (pk p) (pk q)"
      unfolding dep [symmetric] by (auto intro: pulled.intros)
  qed (simp add: r3)
  assume R: "removable pk pkgcache targs e R"
  have "q \<notin> R" if "pulled pk True (set r2) (set k2) q" for q
    using that
  proof induction
    case (pulled_first t q)
    then have "t \<in> ?K - R" using R k2 by (auto simp: removable_def)
    with pulled_first R show ?case by (auto simp: removable_def dep)
  next
    case (pulled_next p q)
    then have "p \<in> ?K - R" using pulled_in [OF pulled_next(1)] r2 pulled_in by auto
    with pulled_next R show ?case by (auto simp: removable_def dep)
  qed
  with R show "R \<subseteq> set (unneeded pk pkgcache targs e)" by (auto simp: u r3 removable_def)
qed

lemma add_copies_all:
  "\<forall>p. dup p \<noteq> None \<Longrightarrow> add_copies dup ps targs = (0, targs @ map (the \<circ> dup) ps)"
  by (induction ps arbitrary: targs) (auto split: option.splits)

lemma add_copies_fails:
  "dup p = None \<Longrightarrow> p \<in> set ps \<Longrightarrow> fst (add_copies dup ps targs) = -1"
  by (induction ps arbitrary: targs) (auto split: option.splits)

text \<open>
  C18.  With the targets go exactly the packages that can: of the dependencies of the targets, direct
  or not, the largest set that nothing left installed depends on.  A package that was installed on
  request is among them only if the caller asks for it.
\<close>

theorem recursedeps_exact:
  assumes "distinct (map (\<lambda>p. pkg_name (pk p)) (db_pkgcache db))" and "\<forall>p. dup p \<noteq> None"
  shows "\<exists>rem. alpm_recursedeps pk dup db targs e = (0, targs @ map (the \<circ> dup) rem) \<and>
    removable pk (db_pkgcache db) targs e (set rem) \<and>
    (\<forall>R. removable pk (db_pkgcache db) targs e R \<longrightarrow> R \<subseteq> set rem) \<and>
    (\<forall>p \<in> set rem. pkg_explicit (pk p) \<longrightarrow> e)"
proof (intro exI conjI)
  let ?rem = "unneeded pk (db_pkgcache db) targs e"
  show "alpm_recursedeps pk dup db targs e = (0, targs @ map (the \<circ> dup) ?rem)"
    unfolding alpm_recursedeps_def by (rule add_copies_all [OF assms(2)])
  show rem: "removable pk (db_pkgcache db) targs e (set ?rem)"
    by (rule unneeded_greatest(1) [OF assms(1)])
  show "\<forall>R. removable pk (db_pkgcache db) targs e R \<longrightarrow> R \<subseteq> set ?rem"
    using unneeded_greatest(2) [OF assms(1)] by blast
  have "pkg_explicit (pk p) \<longrightarrow> e" if "pulled pk e F T p" for F T p
    using that by cases (auto simp: selected_def)
  with rem show "\<forall>p \<in> set ?rem. pkg_explicit (pk p) \<longrightarrow> e" unfolding removable_def by blast
qed

theorem recursedeps_exact_witness:
  "\<exists>rem. alpm_recursedeps sample_store Some (db_local sample_handle) [0] False = (0, [0] @ map (the \<circ> Some) rem) \<and>
    removable sample_store [0, 1, 2] [0] False (set rem)"
  proof -
  have "distinct (map (\<lambda>p. pkg_name (sample_store p)) (db_pkgcache (db_local sample_handle)))" by code_simp
  then show ?thesis
    using recursedeps_exact [of sample_store "db_local sample_handle" Some "[0]" False] by (auto simp: sample_handle_def sample_db_def)
qed

text \<open>Names and their hashes agree.\<close>

definition hashed :: "pkg_store \<Rightarrow> pkg_ref set \<Rightarrow> bool" where
  "hashed pk S \<longleftrightarrow> (\<forall>p \<in> S. pkg_name_hash (pk p) = alpm_hash_sdbm (pkg_name (pk p)))"

lemma pkg_find_None:
  "hashed pk (set ps) \<Longrightarrow> alpm_pkg_find pk ps n = None \<longleftrightarrow> (\<forall>p \<in> set ps. pkg_name (pk p) \<noteq> n)"
  by (auto simp: alpm_pkg_find_def find_None_iff hashed_def)

lemma after_removal:
  assumes "hashed pk (set targs)"
  shows "after_transaction pk cache targs [] = others pk cache targs"
proof -
  have "alpm_pkg_find pk [] n = None" for n by (simp add: alpm_pkg_find_def)
  then have "is_modified pk targs [] p \<longleftrightarrow> pkg_name (pk p) \<in> (\<lambda>t. pkg_name (pk t)) ` set targs" for p
    using pkg_find_None [OF assms, of "pkg_name (pk p)"] unfolding is_modified_def \<open>\<And>n. alpm_pkg_find pk [] n = None\<close> by (auto simp: image_iff) metis
  then show ?thesis by (simp add: after_transaction_def others_def)
qed

lemma recursedeps_keep:
  assumes "consistent pk h (set (db_pkgcache db))" and "\<not> nodepversion h"
    and "distinct (map (\<lambda>p. pkg_name (pk p)) (db_pkgcache db))"
    and "hashed pk (set (db_pkgcache db) \<union> set targs)"
    and "\<forall>p. \<exists>c. dup p = Some c \<and> pk c = pk p"
    and "alpm_recursedeps pk dup db targs e = (r, targs')"
    and "alpm_checkdeps pk h (db_pkgcache db) targs [] True = []"
  shows "alpm_checkdeps pk h (db_pkgcache db) targs' [] True = []"
proof -
  let ?cache = "db_pkgcache db" and ?rem = "unneeded pk (db_pkgcache db) targs e"
  have dup: "\<forall>p. dup p \<noteq> None" and same: "pk ((the \<circ> dup) p) = pk p" for p
    using assms(5) by (auto, metis option.sel)
  have targs': "targs' = targs @ map (the \<circ> dup) ?rem"
    using assms(6) add_copies_all [OF dup, of ?rem targs] by (simp add: alpm_recursedeps_def)
  note rem = unneeded_greatest(1) [OF assms(3), of targs e]
  then have sub: "set ?rem \<subseteq> others pk ?cache targs" using pulled_in by (auto simp: removable_def)
  then have "hashed pk (set ?rem)" using assms(4) by (auto simp: hashed_def others_def)
  then have hashed: "hashed pk (set targs')" using assms(4) same by (auto simp: targs' hashed_def)
  have left: "others pk ?cache targs' = others pk ?cache targs - set ?rem"
  proof -
    have "pkg_name (pk p) \<in> (\<lambda>t. pkg_name (pk t)) ` set ?rem \<longleftrightarrow> p \<in> set ?rem" if "p \<in> set ?cache" for p
      using that sub assms(3) by (auto simp: others_def distinct_map inj_on_def)
    moreover have "(\<lambda>t. pkg_name (pk t)) ` set targs' =
        (\<lambda>t. pkg_name (pk t)) ` set targs \<union> (\<lambda>t. pkg_name (pk t)) ` set ?rem"
      using same by (simp add: targs' image_Un image_image)
    ultimately show ?thesis by (auto simp: others_def)
  qed
  have S: "consistent pk h (others pk ?cache targs)"
    using checkdeps_exact [OF assms(1), of targs "[]"] assms(4,7) after_removal [of pk targs ?cache]
    by (auto simp: hashed_def)
  have "satisfied pk h (others pk ?cache targs - set ?rem) d"
    if p: "p \<in> others pk ?cache targs - set ?rem" and d: "d \<in> set (pkg_depends (pk p))" for p d
  proof -
    have "satisfied pk h (others pk ?cache targs) d"
      using S p d assms(2) by (auto simp: consistent_def relaxed_def)
    moreover have "q \<notin> set ?rem" if "alpm_depcmp (pk q) d" for q
      using rem p d that by (auto simp: removable_def alpm_pkg_depends_on_def)
    ultimately show ?thesis by (auto simp: satisfied_def)
  qed
  then have "consistent pk h (others pk ?cache targs')"
    using assms(2) unfolding left consistent_def relaxed_def by simp
  with checkdeps_exact [OF assms(1), of targs' "[]"] after_removal [OF hashed] show ?thesis by simp
qed



subsection \<open>Resolving a target: facts\<close>

text \<open>The packages the databases offer.\<close>

definition offered :: "alpm_db list \<Rightarrow> pkg_ref set" where
  "offered dbs = (\<Union>db \<in> {db \<in> set dbs. db_usable db}. set (db_pkgcache db))"

lemma find_literal_Some:
  "find_literal pk h dep excluding prompt dbs ignored = (Some p, i) \<Longrightarrow>
   p \<in> offered dbs \<and> alpm_depcmp (pk p) dep \<and> alpm_pkg_find pk excluding (pkg_name (pk p)) = None"
proof (induction pk h dep excluding prompt dbs ignored rule: find_literal.induct)
  case (2 pk h dep excluding prompt db dbs ignored)
  have "p \<in> set (db_pkgcache db)" if "alpm_pkg_find pk (db_pkgcache db) n = Some p" for p n
    using that by (auto simp: alpm_pkg_find_def find_Some_iff)
  with 2 show ?case by (auto simp: offered_def alpm_depcmp_def split: if_splits option.splits)
qed simp

lemma find_providers_sound:
  assumes "find_providers pk h dep excluding prompt ps providers ignored = (found, providers', i)"
    and "\<forall>p \<in> set providers. Q p"
    and "\<And>p. p \<in> set ps \<Longrightarrow> alpm_depcmp_provides dep (pkg_provides (pk p)) \<Longrightarrow>
      alpm_pkg_find pk excluding (pkg_name (pk p)) = None \<Longrightarrow> Q p"
  shows "(\<forall>p. found = Some p \<longrightarrow> Q p) \<and> (\<forall>p \<in> set providers'. Q p)"
  using assms
proof (induction pk h dep excluding prompt ps providers ignored rule: find_providers.induct)
  case (2 pk h dep excluding prompt p ps providers ignored)
  then show ?case by (auto split: if_splits)
qed auto

lemma select_provider_in: "select_provider h dep providers = Some p \<Longrightarrow> p \<in> set providers"
  by (auto simp: select_provider_def Let_def split: if_splits)

text \<open>A package that is found is offered, satisfies the dependency, and is none of the excluded ones.\<close>

lemma resolvedep_sound:
  assumes "resolvedep pk h dep dbs excluding prompt = Inr p"
  shows "p \<in> offered dbs \<and> alpm_depcmp (pk p) dep \<and> alpm_pkg_find pk excluding (pkg_name (pk p)) = None"
proof -
  let ?Q = "\<lambda>p. p \<in> offered dbs \<and> alpm_depcmp (pk p) dep \<and> alpm_pkg_find pk excluding (pkg_name (pk p)) = None"
  obtain lit i where lit: "find_literal pk h dep excluding prompt dbs False = (lit, i)" by fastforce
  obtain found provs j where prov: "find_providers pk h dep excluding prompt
      (concat (map db_pkgcache (filter db_usable dbs))) [] i = (found, provs, j)" by (metis prod_cases3)
  have "(\<forall>p. found = Some p \<longrightarrow> ?Q p) \<and> (\<forall>p \<in> set provs. ?Q p)"
    by (rule find_providers_sound [OF prov]) (auto simp: offered_def alpm_depcmp_def)
  with assms lit prov find_literal_Some [of pk h dep excluding prompt dbs False] select_provider_in [of h dep provs]
  show ?thesis by (auto simp: resolvedep_def split: option.splits)
qed

text \<open>
  What is left of a dependency that was missing: a package to install satisfies it, the installed
  packages do, or a preferred package of a name that is already to be installed does.
\<close>

definition covered ::
    "pkg_store \<Rightarrow> alpm_handle \<Rightarrow> pkg_ref list \<Rightarrow> pkg_ref list \<Rightarrow> pkg_ref list \<Rightarrow> alpm_depend \<Rightarrow> bool" where
  "covered pk h preferred rem packages d \<longleftrightarrow>
     (\<exists>q \<in> set packages. alpm_depcmp (pk q) d) \<or>
     (\<exists>q. resolvedep pk h d [db_local h] rem False = Inr q) \<or>
     (\<exists>q \<in> set preferred. alpm_depcmp (pk q) d \<and> alpm_pkg_find pk packages (pkg_name (pk q)) \<noteq> None)"

lemma pkg_find_append: "alpm_pkg_find pk ps n \<noteq> None \<Longrightarrow> alpm_pkg_find pk (ps @ qs) n \<noteq> None"
  by (auto simp: alpm_pkg_find_def find_None_iff)

lemma covered_append: "covered pk h preferred rem ps d \<Longrightarrow> covered pk h preferred rem (ps @ qs) d"
  unfolding covered_def using pkg_find_append by (metis Un_iff set_append)

definition all_covered ::
    "pkg_store \<Rightarrow> alpm_handle \<Rightarrow> pkg_ref list \<Rightarrow> pkg_ref list \<Rightarrow> pkg_ref list \<Rightarrow> pkg_ref list \<Rightarrow> pkg_ref \<Rightarrow> bool" where
  "all_covered pk h localpkgs preferred rem packages p \<longleftrightarrow>
     (\<forall>m \<in> set (alpm_checkdeps pk h localpkgs rem [p] False). covered pk h preferred rem packages (miss_depend m))"

lemma all_covered_append:
  "all_covered pk h localpkgs preferred rem ps p \<Longrightarrow> all_covered pk h localpkgs preferred rem (ps @ qs) p"
  by (simp add: all_covered_def covered_append)

text \<open>What the resolution of \<open>p\<close> promises, and what its loop does.\<close>

definition resolves ::
    "pkg_store \<Rightarrow> alpm_handle \<Rightarrow> pkg_ref list \<Rightarrow> pkg_ref list \<Rightarrow> pkg_ref list \<Rightarrow> pkg_ref \<Rightarrow> resolve_state \<Rightarrow>
     bool \<Rightarrow> resolve_state \<Rightarrow> bool" where
  "resolves pk h localpkgs preferred rem p st ok st' \<longleftrightarrow>
     (\<exists>new. rs_packages st' = rs_packages st @ new \<and> (\<not> ok \<longrightarrow> new = []) \<and>
       (ok \<longrightarrow> (alpm_pkg_find pk (rs_packages st) (pkg_name (pk p)) \<noteq> None \<or> p \<in> set new) \<and>
         (\<forall>q \<in> set new. all_covered pk h localpkgs preferred rem (rs_packages st') q)))"

definition resolves_all ::
    "pkg_store \<Rightarrow> alpm_handle \<Rightarrow> pkg_ref list \<Rightarrow> pkg_ref list \<Rightarrow> pkg_ref list \<Rightarrow> alpm_depmissing list \<Rightarrow>
     resolve_state \<Rightarrow> bool \<Rightarrow> resolve_state \<Rightarrow> bool" where
  "resolves_all pk h localpkgs preferred rem ms st ok st' \<longleftrightarrow>
     (\<exists>new. rs_packages st' = rs_packages st @ new \<and>
       (ok \<longrightarrow> (\<forall>m \<in> set ms. covered pk h preferred rem (rs_packages st') (miss_depend m)) \<and>
         (\<forall>q \<in> set new. all_covered pk h localpkgs preferred rem (rs_packages st') q)))"

lemma resolves_all_skip:
  assumes "resolves_all pk h localpkgs preferred rem ms st ok st'"
    and "covered pk h preferred rem (rs_packages st) (miss_depend m)"
  shows "resolves_all pk h localpkgs preferred rem (m # ms) st ok st'"
  using assms covered_append [of pk h preferred rem "rs_packages st" "miss_depend m"]
  unfolding resolves_all_def by auto

lemma resolves_all_step:
  assumes "resolves_all pk h localpkgs preferred rem ms st1 ok st'"
    and "rs_packages st1 = rs_packages st @ new1"
    and "\<forall>q \<in> set new1. all_covered pk h localpkgs preferred rem (rs_packages st1) q"
    and "covered pk h preferred rem (rs_packages st1) (miss_depend m)"
  shows "resolves_all pk h localpkgs preferred rem (m # ms) st ok st'"
proof -
  from assms(1) obtain new where new: "rs_packages st' = rs_packages st1 @ new"
    "ok \<Longrightarrow> (\<forall>m \<in> set ms. covered pk h preferred rem (rs_packages st') (miss_depend m)) \<and>
         (\<forall>q \<in> set new. all_covered pk h localpkgs preferred rem (rs_packages st') q)"
    unfolding resolves_all_def by blast
  have "\<forall>q \<in> set new1. all_covered pk h localpkgs preferred rem (rs_packages st') q"
    using assms(3) all_covered_append unfolding new(1) by blast
  moreover have "covered pk h preferred rem (rs_packages st') (miss_depend m)"
    unfolding new(1) by (rule covered_append [OF assms(4)])
  ultimately show ?thesis
    unfolding resolves_all_def using new assms(2) by (intro exI [of _ "new1 @ new"]) auto
qed

lemma resolve_missing_not_ok:
  "resolve_missing step pk h preferred rem ms False st = Some (ok, st') \<Longrightarrow> \<not> ok"
proof (induction ms arbitrary: st)
  case (Cons m ms)
  then show ?case by (auto simp: Let_def split: if_splits option.splits sum.splits)
qed simp

lemma resolve_missing_sound:
  assumes "\<And>p st ok st'. step p st = Some (ok, st') \<Longrightarrow> resolves pk h localpkgs preferred rem p st ok st'"
  shows "resolve_missing step pk h preferred rem ms ok st = Some (ok', st') \<Longrightarrow>
    resolves_all pk h localpkgs preferred rem ms st ok' st'"
proof (induction ms arbitrary: ok st)
  case Nil
  then show ?case by (auto simp: resolves_all_def)
next
  case (Cons m ms)
  let ?d = "miss_depend m" and ?all = "resolves_all pk h localpkgs preferred rem"
  define local_or_fail where "local_or_fail = (\<lambda>st.
      case resolvedep pk h ?d [db_local h] rem False of
        Inr _ \<Rightarrow> resolve_missing step pk h preferred rem ms ok st
      | Inl _ \<Rightarrow> resolve_missing step pk h preferred rem ms False
          (st\<lparr>rs_errno := Some ALPM_ERR_UNSATISFIED_DEPS, rs_data := rs_data st @ [m]\<rparr>))"
  have local: "?all (m # ms) st ok' st'"
    if "local_or_fail st1 = Some (ok', st')" "rs_packages st1 = rs_packages st" for st1
  proof (cases "resolvedep pk h ?d [db_local h] rem False")
    case (Inr q)
    then have "?all ms st1 ok' st'" using that(1) Cons.IH by (auto simp: local_or_fail_def)
    moreover have "covered pk h preferred rem (rs_packages st1) ?d" using Inr by (auto simp: covered_def)
    ultimately show ?thesis using resolves_all_step [of pk h localpkgs preferred rem ms st1 ok' st' st "[]"] that(2) by simp
  next
    case (Inl e)
    let ?st2 = "st1\<lparr>rs_errno := Some ALPM_ERR_UNSATISFIED_DEPS, rs_data := rs_data st1 @ [m]\<rparr>"
    from Inl that(1) have r: "resolve_missing step pk h preferred rem ms False ?st2 = Some (ok', st')"
      by (simp add: local_or_fail_def)
    then have "?all ms ?st2 ok' st'" by (rule Cons.IH)
    with resolve_missing_not_ok [OF r] that(2) show ?thesis by (auto simp: resolves_all_def)
  qed
  define found where "found = (case find_dep_satisfier pk preferred ?d of
      Some s \<Rightarrow> Inr s | None \<Rightarrow> resolvedep pk h ?d (dbs_sync h) (rs_packages st) False)"
  have eq: "resolve_missing step pk h preferred rem (m # ms) ok st =
     (if find_dep_satisfier pk (rs_packages st) ?d \<noteq> None then resolve_missing step pk h preferred rem ms ok st
      else case found of
          Inl e \<Rightarrow> local_or_fail (st\<lparr>rs_errno := Some e\<rparr>)
        | Inr spkg \<Rightarrow>
            (case step spkg st of
               None \<Rightarrow> None
             | Some (ok1, st1) \<Rightarrow> if ok1 then resolve_missing step pk h preferred rem ms ok st1 else local_or_fail st1))"
    unfolding resolve_missing.simps Let_def found_def local_or_fail_def by (rule refl)
  note prems = Cons.prems [unfolded eq]
  show ?case
  proof (cases "find_dep_satisfier pk (rs_packages st) ?d")
    case (Some q)
    then have "covered pk h preferred rem (rs_packages st) ?d"
      using satisfier_iff [of pk "rs_packages st" ?d] by (auto simp: covered_def)
    moreover have "?all ms st ok' st'" using Some prems Cons.IH by simp
    ultimately show ?thesis by (rule resolves_all_skip [rotated])
  next
    case None
    show ?thesis
    proof (cases found)
      case (Inl e)
      then have "local_or_fail (st\<lparr>rs_errno := Some e\<rparr>) = Some (ok', st')"
        using prems None by simp
      then show ?thesis by (rule local) simp
    next
      case (Inr spkg)
      have sat: "alpm_depcmp (pk spkg) ?d"
        and pref: "alpm_pkg_find pk (rs_packages st) (pkg_name (pk spkg)) = None \<or> spkg \<in> set preferred"
        using Inr resolvedep_sound [of pk h ?d "dbs_sync h" "rs_packages st" False spkg]
        unfolding found_def find_dep_satisfier_def by (auto simp: find_Some_iff split: option.splits)
      from prems None Inr obtain ok1 st1 where step: "step spkg st = Some (ok1, st1)"
        and rest: "(if ok1 then resolve_missing step pk h preferred rem ms ok st1 else local_or_fail st1) = Some (ok', st')"
        by (auto split: option.splits)
      from assms [OF step] obtain new1 where new1: "rs_packages st1 = rs_packages st @ new1" "\<not> ok1 \<longrightarrow> new1 = []"
        "ok1 \<longrightarrow> (alpm_pkg_find pk (rs_packages st) (pkg_name (pk spkg)) \<noteq> None \<or> spkg \<in> set new1) \<and>
         (\<forall>q \<in> set new1. all_covered pk h localpkgs preferred rem (rs_packages st1) q)"
        unfolding resolves_def by blast
      show ?thesis
      proof (cases ok1)
        case True
        have cov: "covered pk h preferred rem (rs_packages st1) ?d"
          using new1(1,3) True pref sat pkg_find_append [of pk "rs_packages st" _ new1]
          unfolding covered_def new1(1) by (metis UnCI set_append)
        have "?all ms st1 ok' st'" using rest True by (simp add: Cons.IH)
        moreover have "\<forall>q \<in> set new1. all_covered pk h localpkgs preferred rem (rs_packages st1) q"
          using new1(3) True by simp
        ultimately show ?thesis by (rule resolves_all_step [OF _ new1(1) _ cov])
      next
        case False
        with rest new1 show ?thesis by (auto intro: local)
      qed
    qed
  qed
qed

lemma resolvedeps_resolves:
  "alpm_resolvedeps n pk h localpkgs preferred rem p st = Some (ok, st') \<Longrightarrow>
   resolves pk h localpkgs preferred rem p st ok st'"
proof (induction n arbitrary: p st ok st')
  case (Suc n)
  show ?case
  proof (cases "alpm_pkg_find pk (rs_packages st) (pkg_name (pk p))")
    case None
    let ?st0 = "st\<lparr>rs_packages := rs_packages st @ [p]\<rparr>" and ?ms = "alpm_checkdeps pk h localpkgs rem [p] False"
    from Suc.prems None obtain st1 where
      run: "resolve_missing (alpm_resolvedeps n pk h localpkgs preferred rem) pk h preferred rem ?ms True ?st0 = Some (ok, st1)"
      and st': "st' = (if ok then st1 else st1\<lparr>rs_packages := rs_packages st\<rparr>)"
      by (auto split: option.splits)
    have "resolves_all pk h localpkgs preferred rem ?ms ?st0 ok st1"
      by (rule resolve_missing_sound [OF Suc.IH run])
    then show ?thesis
      unfolding st' resolves_all_def resolves_def by (cases ok) (auto simp: all_covered_def)
  qed (use Suc.prems in \<open>auto simp: resolves_def\<close>)
qed simp

text \<open>
  The recursion ends: every call inside adds a package of a name that was not to be installed before.
\<close>

definition candidates :: "alpm_handle \<Rightarrow> pkg_ref list \<Rightarrow> pkg_ref list" where
  "candidates h preferred = preferred @ concat (map db_pkgcache (filter db_usable (dbs_sync h)))"

definition fresh_names :: "pkg_store \<Rightarrow> alpm_handle \<Rightarrow> pkg_ref list \<Rightarrow> pkg_ref list \<Rightarrow> string set" where
  "fresh_names pk h preferred packages =
     {n \<in> (\<lambda>p. pkg_name (pk p)) ` set (candidates h preferred). alpm_pkg_find pk packages n = None}"

lemma finite_fresh_names [simp]: "finite (fresh_names pk h preferred packages)"
  by (simp add: fresh_names_def)

lemma fresh_names_append: "fresh_names pk h preferred (ps @ qs) \<subseteq> fresh_names pk h preferred ps"
  unfolding fresh_names_def using pkg_find_append [of pk ps _ qs] by blast

lemma resolve_missing_ends:
  assumes "\<And>p st ok st'. step p st = Some (ok, st') \<Longrightarrow> resolves pk h localpkgs preferred rem p st ok st'"
    and "\<And>p st. p \<in> set (candidates h preferred) \<Longrightarrow> fresh_names pk h preferred (rs_packages st) \<subseteq> F \<Longrightarrow> step p st \<noteq> None"
  shows "fresh_names pk h preferred (rs_packages st) \<subseteq> F \<Longrightarrow> resolve_missing step pk h preferred rem ms ok st \<noteq> None"
proof (induction ms arbitrary: ok st)
  case (Cons m ms)
  let ?d = "miss_depend m"
  have step: "\<exists>ok' st'. step p st = Some (ok', st') \<and> fresh_names pk h preferred (rs_packages st') \<subseteq> F"
    if "p \<in> set (candidates h preferred)" for p
  proof -
    from assms(2) [OF that Cons.prems] obtain ok' st' where r: "step p st = Some (ok', st')" by auto
    from assms(1) [OF r] obtain new where "rs_packages st' = rs_packages st @ new" unfolding resolves_def by blast
    with r Cons.prems fresh_names_append [of pk h preferred "rs_packages st" new] show ?thesis by auto
  qed
  have local: "(case resolvedep pk h ?d [db_local h] rem False of
      Inr _ \<Rightarrow> resolve_missing step pk h preferred rem ms ok st
    | Inl _ \<Rightarrow> resolve_missing step pk h preferred rem ms False
        (st\<lparr>rs_errno := Some ALPM_ERR_UNSATISFIED_DEPS, rs_data := rs_data st @ [m]\<rparr>)) \<noteq> None"
    if "fresh_names pk h preferred (rs_packages st) \<subseteq> F" for ok st
    using Cons.IH that by (simp split: sum.split)
  have cand: "p \<in> set (candidates h preferred)"
    if "(case find_dep_satisfier pk preferred ?d of
         Some s \<Rightarrow> Inr s | None \<Rightarrow> resolvedep pk h ?d (dbs_sync h) (rs_packages st) False) = Inr p" for p
    using that resolvedep_sound [of pk h ?d "dbs_sync h" "rs_packages st" False p]
    by (auto simp: candidates_def find_dep_satisfier_def find_Some_iff offered_def split: option.splits)
  show ?case
    unfolding resolve_missing.simps Let_def
    using step [OF cand] Cons.IH [OF Cons.prems] Cons.IH local Cons.prems
    by (fastforce split: sum.splits)
qed simp

lemma resolvedeps_ends:
  assumes "hashed pk (set (candidates h preferred))"
  shows "p \<in> set (candidates h preferred) \<Longrightarrow> card (fresh_names pk h preferred (rs_packages st)) < n \<Longrightarrow>
    alpm_resolvedeps n pk h localpkgs preferred rem p st \<noteq> None"
proof (induction n arbitrary: p st)
  case (Suc n)
  show ?case
  proof (cases "alpm_pkg_find pk (rs_packages st) (pkg_name (pk p))")
    case None
    let ?F = "fresh_names pk h preferred (rs_packages st @ [p])"
    have "alpm_pkg_find pk (rs_packages st @ [p]) (pkg_name (pk p)) \<noteq> None"
      using assms Suc.prems(1) by (auto simp: alpm_pkg_find_def find_None_iff hashed_def)
    then have "pkg_name (pk p) \<in> fresh_names pk h preferred (rs_packages st) - ?F"
      using Suc.prems(1) None by (auto simp: fresh_names_def)
    then have "?F \<subset> fresh_names pk h preferred (rs_packages st)"
      using fresh_names_append [of pk h preferred "rs_packages st" "[p]"] by blast
    then have "card ?F < card (fresh_names pk h preferred (rs_packages st))"
      by (intro psubset_card_mono) auto
    with Suc.prems(2) have "card ?F < n" by simp
    then have "alpm_resolvedeps n pk h localpkgs preferred rem q st' \<noteq> None"
      if "q \<in> set (candidates h preferred)" "fresh_names pk h preferred (rs_packages st') \<subseteq> ?F" for q st'
      using that card_mono [OF _ that(2)] by (intro Suc.IH) auto
    then have "resolve_missing (alpm_resolvedeps n pk h localpkgs preferred rem) pk h preferred rem
        (alpm_checkdeps pk h localpkgs rem [p] False) True (st\<lparr>rs_packages := rs_packages st @ [p]\<rparr>) \<noteq> None"
      by (intro resolve_missing_ends [OF resolvedeps_resolves]) auto
    with None show ?thesis by (auto split: option.splits)
  qed simp
qed simp

lemma card_fresh_names: "card (fresh_names pk h preferred packages) \<le> length (candidates h preferred)"
proof -
  have "card (fresh_names pk h preferred packages) \<le> card ((\<lambda>p. pkg_name (pk p)) ` set (candidates h preferred))"
    by (intro card_mono) (auto simp: fresh_names_def)
  also have "\<dots> \<le> length (candidates h preferred)"
    by (meson card_image_le card_length finite_set le_trans)
  finally show ?thesis .
qed

text \<open>A failure reports what could not be resolved.\<close>

definition reports :: "resolve_state \<Rightarrow> bool \<Rightarrow> resolve_state \<Rightarrow> bool" where
  "reports st ok st' \<longleftrightarrow> (\<exists>ms. rs_data st' = rs_data st @ ms \<and> (\<not> ok \<longrightarrow> ms \<noteq> []))"

lemma reports_trans: "reports st ok1 st1 \<Longrightarrow> reports st1 ok st2 \<Longrightarrow> reports st ok st2"
  by (auto simp: reports_def)

lemma resolve_missing_reports:
  assumes "\<And>p st ok st'. step p st = Some (ok, st') \<Longrightarrow> reports st ok st'"
  shows "resolve_missing step pk h preferred rem ms ok st = Some (ok', st') \<Longrightarrow> reports st (ok' \<or> \<not> ok) st'"
proof (induction ms arbitrary: ok st)
  case (Cons m ms)
  let ?d = "miss_depend m"
  define local_or_fail where "local_or_fail = (\<lambda>st.
      case resolvedep pk h ?d [db_local h] rem False of
        Inr _ \<Rightarrow> resolve_missing step pk h preferred rem ms ok st
      | Inl _ \<Rightarrow> resolve_missing step pk h preferred rem ms False
          (st\<lparr>rs_errno := Some ALPM_ERR_UNSATISFIED_DEPS, rs_data := rs_data st @ [m]\<rparr>))"
  have local: "reports st (ok' \<or> \<not> ok) st'" if "local_or_fail st = Some (ok', st')" for st
  proof (cases "resolvedep pk h ?d [db_local h] rem False")
    case (Inl e)
    with that have "reports (st\<lparr>rs_errno := Some ALPM_ERR_UNSATISFIED_DEPS, rs_data := rs_data st @ [m]\<rparr>) True st'"
      using Cons.IH [of False] by (simp add: local_or_fail_def)
    then show ?thesis by (auto simp: reports_def)
  qed (use that Cons.IH in \<open>simp add: local_or_fail_def\<close>)
  define found where "found = (case find_dep_satisfier pk preferred ?d of
      Some s \<Rightarrow> Inr s | None \<Rightarrow> resolvedep pk h ?d (dbs_sync h) (rs_packages st) False)"
  have "(if find_dep_satisfier pk (rs_packages st) ?d \<noteq> None then resolve_missing step pk h preferred rem ms ok st
      else case found of
          Inl e \<Rightarrow> local_or_fail (st\<lparr>rs_errno := Some e\<rparr>)
        | Inr spkg \<Rightarrow>
            (case step spkg st of
               None \<Rightarrow> None
             | Some (ok1, st1) \<Rightarrow> if ok1 then resolve_missing step pk h preferred rem ms ok st1 else local_or_fail st1))
      = Some (ok', st')"
    using Cons.prems unfolding resolve_missing.simps Let_def found_def local_or_fail_def .
  then consider
      "resolve_missing step pk h preferred rem ms ok st = Some (ok', st')"
    | e where "local_or_fail (st\<lparr>rs_errno := Some e\<rparr>) = Some (ok', st')"
    | p ok1 st1 where "step p st = Some (ok1, st1)" "resolve_missing step pk h preferred rem ms ok st1 = Some (ok', st')"
    | p ok1 st1 where "step p st = Some (ok1, st1)" "local_or_fail st1 = Some (ok', st')"
    by (auto split: if_splits sum.splits option.splits)
  then show ?case
  proof cases
    case 2
    from local [OF this] show ?thesis by (simp add: reports_def)
  qed (use Cons.IH local assms reports_trans in blast)+
qed (simp add: reports_def)

lemma resolvedeps_reports:
  "alpm_resolvedeps n pk h localpkgs preferred rem p st = Some (ok, st') \<Longrightarrow> reports st ok st'"
proof (induction n arbitrary: p st ok st')
  case (Suc n)
  show ?case
  proof (cases "alpm_pkg_find pk (rs_packages st) (pkg_name (pk p))")
    case None
    let ?st0 = "st\<lparr>rs_packages := rs_packages st @ [p]\<rparr>"
    from Suc.prems None obtain st1 where
      run: "resolve_missing (alpm_resolvedeps n pk h localpkgs preferred rem) pk h preferred rem
        (alpm_checkdeps pk h localpkgs rem [p] False) True ?st0 = Some (ok, st1)"
      and st': "st' = (if ok then st1 else st1\<lparr>rs_packages := rs_packages st\<rparr>)"
      by (auto split: option.splits)
    from resolve_missing_reports [OF Suc.IH run] show ?thesis by (auto simp: st' reports_def)
  qed (use Suc.prems in \<open>auto simp: reports_def\<close>)
qed simp

lemma resolvedeps_spec:
  assumes "p \<in> set preferred" and "hashed pk (set (candidates h preferred))"
  shows "\<exists>ok st' new. alpm_resolvedeps (Suc (length (candidates h preferred))) pk h localpkgs preferred rem p st = Some (ok, st') \<and>
    rs_packages st' = rs_packages st @ new \<and>
    (if ok then alpm_pkg_find pk (rs_packages st') (pkg_name (pk p)) \<noteq> None \<and>
       (\<forall>q \<in> set new. all_covered pk h localpkgs preferred rem (rs_packages st') q)
     else new = [] \<and> (\<exists>m ms. rs_data st' = rs_data st @ m # ms))"
proof -
  let ?n = "Suc (length (candidates h preferred))"
  have p: "p \<in> set (candidates h preferred)" using assms(1) by (simp add: candidates_def)
  have "alpm_resolvedeps ?n pk h localpkgs preferred rem p st \<noteq> None"
    using resolvedeps_ends [OF assms(2) p] card_fresh_names le_imp_less_Suc by blast
  then obtain ok st' where run: "alpm_resolvedeps ?n pk h localpkgs preferred rem p st = Some (ok, st')" by auto
  from resolvedeps_resolves [OF run] obtain new where new: "rs_packages st' = rs_packages st @ new" "\<not> ok \<longrightarrow> new = []"
    "ok \<longrightarrow> (alpm_pkg_find pk (rs_packages st) (pkg_name (pk p)) \<noteq> None \<or> p \<in> set new) \<and>
       (\<forall>q \<in> set new. all_covered pk h localpkgs preferred rem (rs_packages st') q)"
    unfolding resolves_def by blast
  have "alpm_pkg_find pk (rs_packages st') (pkg_name (pk p)) \<noteq> None" if ok
  proof (cases "p \<in> set new")
    case True
    with new(1) p assms(2) show ?thesis by (auto simp: alpm_pkg_find_def find_None_iff hashed_def)
  next
    case False
    with new that show ?thesis using pkg_find_append by metis
  qed
  moreover have "\<exists>m ms. rs_data st' = rs_data st @ m # ms" if "\<not> ok"
    using resolvedeps_reports [OF run] that by (auto simp: reports_def neq_Nil_conv)
  ultimately show ?thesis using run new by (metis (full_types))
qed



end
