(* ===== verification/Alpm_List.thy ===== *)
theory Alpm_List
  imports Two9_Prelude "HOL-Library.Monad_Syntax" "HOL-Library.Sorting_Algorithms" "HOL-Library.Sublist" "HOL-Library.Option_ord"
begin

text \<open>
  The lists of the package library, \<open>lib/2O9/alpm/alpm_list.c\<close>: nodes linked both ways, where the
  first node points back at the last one.

  A pointer is an option, \<open>None\<close> for NULL; the heap gives the node at an address.  A function
  returns \<open>None\<close> when it follows a pointer that leads to no node, which the program does not
  survive, or when a loop never ends.  \<open>lh_room\<close> is how many allocations still succeed.
\<close>

subsection \<open>The heap\<close>

type_synonym ptr = "nat option"

record alpm_list_t =
  ln_data :: ptr
  ln_prev :: ptr
  ln_next :: ptr

record lheap =
  lh_cells :: "nat \<Rightarrow> alpm_list_t option"
  lh_brk :: nat
  lh_room :: nat

type_synonym list_cmp = "ptr \<Rightarrow> ptr \<Rightarrow> int"

definition node_at :: "lheap \<Rightarrow> ptr \<Rightarrow> alpm_list_t option" where
  "node_at h p = Option.bind p (lh_cells h)"

definition set_node :: "(alpm_list_t \<Rightarrow> alpm_list_t) \<Rightarrow> ptr \<Rightarrow> lheap \<Rightarrow> lheap option" where
  "set_node f p h = do { a \<leftarrow> p; n \<leftarrow> lh_cells h a; Some (h\<lparr>lh_cells := (lh_cells h)(a \<mapsto> f n)\<rparr>) }"

abbreviation "set_next p v \<equiv> set_node (ln_next_update (\<lambda>_. v)) p"
abbreviation "set_prev p v \<equiv> set_node (ln_prev_update (\<lambda>_. v)) p"
abbreviation "set_data p v \<equiv> set_node (ln_data_update (\<lambda>_. v)) p"

definition list_malloc :: "lheap \<Rightarrow> ptr \<times> lheap" where
  "list_malloc h =
     (if lh_room h = 0 then (None, h)
      else (Some (lh_brk h),
        h\<lparr>lh_cells := (lh_cells h)(lh_brk h \<mapsto> \<lparr>ln_data = None, ln_prev = None, ln_next = None\<rparr>),
          lh_brk := Suc (lh_brk h), lh_room := lh_room h - 1\<rparr>))"

definition list_free_node :: "ptr \<Rightarrow> lheap \<Rightarrow> lheap option" where
  "list_free_node p h = do { a \<leftarrow> p; n \<leftarrow> lh_cells h a; Some (h\<lparr>lh_cells := (lh_cells h)(a := None)\<rparr>) }"

subsection \<open>Adding\<close>

definition alpm_list_append :: "ptr \<Rightarrow> ptr \<Rightarrow> lheap \<Rightarrow> (ptr \<times> ptr \<times> lheap) option" where
  "alpm_list_append lst d h =
     (case list_malloc h of
        (None, h) \<Rightarrow> Some (None, lst, h)
      | (Some a, h) \<Rightarrow> do {
          let ptr = Some a;
          h \<leftarrow> set_data ptr d h;
          h \<leftarrow> set_next ptr None h;
          if lst = None then do {
            h \<leftarrow> set_prev ptr ptr h;
            Some (ptr, ptr, h)
          } else do {
            n \<leftarrow> node_at h lst;
            let lp = ln_prev n;
            h \<leftarrow> set_next lp ptr h;
            h \<leftarrow> set_prev ptr lp h;
            h \<leftarrow> set_prev lst ptr h;
            Some (ptr, lst, h)
          }
        })"

definition alpm_list_add :: "ptr \<Rightarrow> ptr \<Rightarrow> lheap \<Rightarrow> (ptr \<times> lheap) option" where
  "alpm_list_add lst d h = map_option (\<lambda>(_, lst, h). (lst, h)) (alpm_list_append lst d h)"

text \<open>The node to insert before, and the one it follows.\<close>

partial_function (option) insertion_point :: "lheap \<Rightarrow> list_cmp \<Rightarrow> ptr \<Rightarrow> ptr \<Rightarrow> ptr \<Rightarrow> (ptr \<times> ptr) option" where
  "insertion_point h fn d prev nxt =
     (if nxt = None then Some (prev, nxt)
      else do {
        n \<leftarrow> node_at h nxt;
        if fn d (ln_data n) \<le> 0 then Some (prev, nxt)
        else insertion_point h fn d nxt (ln_next n)
      })"

text \<open>Linking the node \<open>add\<close> in: before the first, after the last, or in between.\<close>

definition insert_node :: "ptr \<Rightarrow> ptr \<Rightarrow> ptr \<Rightarrow> ptr \<Rightarrow> lheap \<Rightarrow> (ptr \<times> lheap) option" where
  "insert_node lst add prev nxt h =
     (if prev = None then do {
        n \<leftarrow> node_at h lst;
        h \<leftarrow> set_prev add (ln_prev n) h;
        h \<leftarrow> set_next add lst h;
        h \<leftarrow> set_prev lst add h;
        Some (add, h)
      } else if nxt = None then do {
        h \<leftarrow> set_prev add prev h;
        h \<leftarrow> set_next add None h;
        h \<leftarrow> set_next prev add h;
        h \<leftarrow> set_prev lst add h;
        Some (lst, h)
      } else do {
        h \<leftarrow> set_prev add prev h;
        h \<leftarrow> set_next add nxt h;
        h \<leftarrow> set_prev nxt add h;
        h \<leftarrow> set_next prev add h;
        Some (lst, h)
      })"

definition alpm_list_add_sorted :: "list_cmp \<Rightarrow> ptr \<Rightarrow> ptr \<Rightarrow> lheap \<Rightarrow> (ptr \<times> lheap) option" where
  "alpm_list_add_sorted fn lst d h =
     (if lst = None then alpm_list_add lst d h
      else case list_malloc h of
        (None, h) \<Rightarrow> Some (lst, h)
      | (Some a, h) \<Rightarrow> do {
          h \<leftarrow> set_data (Some a) d h;
          (prev, nxt) \<leftarrow> insertion_point h fn d None lst;
          insert_node lst (Some a) prev nxt h
        })"

definition alpm_list_join :: "ptr \<Rightarrow> ptr \<Rightarrow> lheap \<Rightarrow> (ptr \<times> lheap) option" where
  "alpm_list_join first second h =
     (if first = None then Some (second, h)
      else if second = None then Some (first, h)
      else do {
        nf \<leftarrow> node_at h first;
        let tmp = ln_prev nf;
        h \<leftarrow> set_next tmp second h;
        ns \<leftarrow> node_at h second;
        h \<leftarrow> set_prev first (ln_prev ns) h;
        h \<leftarrow> set_prev second tmp h;
        Some (first, h)
      })"

subsection \<open>Merge sort\<close>

partial_function (option) mmerge_loop ::
    "list_cmp \<Rightarrow> ptr \<Rightarrow> ptr \<Rightarrow> ptr \<Rightarrow> lheap \<Rightarrow> (ptr \<times> ptr \<times> ptr \<times> lheap) option" where
  "mmerge_loop fn left right lp h =
     (if left = None \<or> right = None then Some (left, right, lp, h)
      else do {
        l \<leftarrow> node_at h left;
        r \<leftarrow> node_at h right;
        (left, right, h) \<leftarrow>
          (if fn (ln_data l) (ln_data r) \<le> 0 then do {
             h \<leftarrow> set_next lp left h;
             h \<leftarrow> set_prev left lp h;
             n \<leftarrow> node_at h left;
             Some (ln_next n, right, h)
           } else do {
             h \<leftarrow> set_next lp right h;
             h \<leftarrow> set_prev right lp h;
             n \<leftarrow> node_at h right;
             Some (left, ln_next n, h)
           });
        n \<leftarrow> node_at h lp;
        let lp = ln_next n;
        h \<leftarrow> set_next lp None h;
        mmerge_loop fn left right lp h
      })"

text \<open>What is left of one of the lists goes behind what is merged.\<close>

definition link_rest :: "ptr \<Rightarrow> ptr \<Rightarrow> ptr \<Rightarrow> ptr \<Rightarrow> ptr \<Rightarrow> lheap \<Rightarrow> (ptr \<times> lheap) option" where
  "link_rest left right lp left_tail_ptr right_tail_ptr h =
     (if left \<noteq> None then do {
        h \<leftarrow> set_next lp left h;
        h \<leftarrow> set_prev left lp h;
        Some (left_tail_ptr, h)
      } else if right \<noteq> None then do {
        h \<leftarrow> set_next lp right h;
        h \<leftarrow> set_prev right lp h;
        Some (right_tail_ptr, h)
      } else Some (lp, h))"

definition alpm_list_mmerge :: "list_cmp \<Rightarrow> ptr \<Rightarrow> ptr \<Rightarrow> lheap \<Rightarrow> (ptr \<times> lheap) option" where
  "alpm_list_mmerge fn left right h =
     (if left = None then Some (right, h)
      else if right = None then Some (left, h)
      else do {
        l \<leftarrow> node_at h left;
        r \<leftarrow> node_at h right;
        let left_tail_ptr = ln_prev l;
        let right_tail_ptr = ln_prev r;
        let (newlist, left, right) =
          (if fn (ln_data l) (ln_data r) \<le> 0 then (left, ln_next l, right) else (right, left, ln_next r));
        h \<leftarrow> set_prev newlist None h;
        h \<leftarrow> set_next newlist None h;
        (left, right, lp, h) \<leftarrow> mmerge_loop fn left right newlist h;
        (tail_ptr, h) \<leftarrow> link_rest left right lp left_tail_ptr right_tail_ptr h;
        h \<leftarrow> set_prev newlist tail_ptr h;
        Some (newlist, h)
      })"

text \<open>\<open>n\<close> steps along the list.\<close>

fun alpm_list_nth :: "lheap \<Rightarrow> ptr \<Rightarrow> nat \<Rightarrow> ptr option" where
  "alpm_list_nth h i 0 = Some i"
| "alpm_list_nth h i (Suc n) = do { c \<leftarrow> node_at h i; alpm_list_nth h (ln_next c) n }"

function alpm_list_msort :: "list_cmp \<Rightarrow> ptr \<Rightarrow> nat \<Rightarrow> lheap \<Rightarrow> (ptr \<times> lheap) option" where
  "alpm_list_msort fn lst n h =
     (if n > 1 then do {
        let half = n div 2;
        lastleft \<leftarrow> alpm_list_nth h lst (half - 1);
        c \<leftarrow> node_at h lastleft;
        let right = ln_next c;
        h \<leftarrow> set_next lastleft None h;
        l \<leftarrow> node_at h lst;
        h \<leftarrow> set_prev right (ln_prev l) h;
        h \<leftarrow> set_prev lst lastleft h;
        (left, h) \<leftarrow> alpm_list_msort fn lst half h;
        (right, h) \<leftarrow> alpm_list_msort fn right (n - half) h;
        alpm_list_mmerge fn left right h
      } else Some (lst, h))"
  by pat_completeness auto
termination
  by (relation "measure (\<lambda>(fn, lst, n, h). n)") auto

subsection \<open>Reading\<close>

definition alpm_list_next :: "lheap \<Rightarrow> ptr \<Rightarrow> ptr option" where
  "alpm_list_next h node = (if node = None then Some None else map_option ln_next (node_at h node))"

definition alpm_list_previous :: "lheap \<Rightarrow> ptr \<Rightarrow> ptr option" where
  "alpm_list_previous h lst =
     (if lst = None then Some None
      else do {
        n \<leftarrow> node_at h lst;
        p \<leftarrow> node_at h (ln_prev n);
        Some (if ln_next p \<noteq> None then ln_prev n else None)
      })"

definition alpm_list_last :: "lheap \<Rightarrow> ptr \<Rightarrow> ptr option" where
  "alpm_list_last h lst = (if lst = None then Some None else map_option ln_prev (node_at h lst))"

partial_function (option) count_loop :: "lheap \<Rightarrow> ptr \<Rightarrow> nat \<Rightarrow> nat option" where
  "count_loop h lp i =
     (if lp = None then Some i else do { n \<leftarrow> node_at h lp; count_loop h (ln_next n) (Suc i) })"

definition alpm_list_count :: "lheap \<Rightarrow> ptr \<Rightarrow> nat option" where
  "alpm_list_count h lst = count_loop h lst 0"

partial_function (option) alpm_list_find :: "lheap \<Rightarrow> ptr \<Rightarrow> ptr \<Rightarrow> list_cmp \<Rightarrow> ptr option" where
  "alpm_list_find h lp needle fn =
     (if lp = None then Some None
      else do {
        n \<leftarrow> node_at h lp;
        if ln_data n \<noteq> None \<and> fn (ln_data n) needle = 0 then Some (ln_data n)
        else alpm_list_find h (ln_next n) needle fn
      })"

definition ptr_cmp :: list_cmp where
  "ptr_cmp p q = (if p \<noteq> q then 1 else 0)"

definition alpm_list_find_ptr :: "lheap \<Rightarrow> ptr \<Rightarrow> ptr \<Rightarrow> ptr option" where
  "alpm_list_find_ptr h haystack needle = alpm_list_find h haystack needle ptr_cmp"

subsection \<open>Removing\<close>

definition alpm_list_remove_item :: "ptr \<Rightarrow> ptr \<Rightarrow> lheap \<Rightarrow> (ptr \<times> lheap) option" where
  "alpm_list_remove_item haystack item h =
     (if haystack = None \<or> item = None then Some (haystack, h)
      else do {
        ni \<leftarrow> node_at h item;
        nh \<leftarrow> node_at h haystack;
        if item = haystack then do {
          let haystack = ln_next ni;
          h \<leftarrow> (if haystack \<noteq> None then set_prev haystack (ln_prev ni) h else Some h);
          h \<leftarrow> set_prev item None h;
          Some (haystack, h)
        } else if item = ln_prev nh then
          (if ln_prev ni \<noteq> None then do {
             h \<leftarrow> set_next (ln_prev ni) (ln_next ni) h;
             h \<leftarrow> set_prev haystack (ln_prev ni) h;
             h \<leftarrow> set_prev item None h;
             Some (haystack, h)
           } else Some (haystack, h))
        else do {
          h \<leftarrow> (if ln_next ni \<noteq> None then set_prev (ln_next ni) (ln_prev ni) h else Some h);
          h \<leftarrow> (if ln_prev ni \<noteq> None then set_next (ln_prev ni) (ln_next ni) h else Some h);
          Some (haystack, h)
        }
      })"

text \<open>The node that holds an element the comparison takes for the needle.\<close>

partial_function (option) remove_search :: "lheap \<Rightarrow> ptr \<Rightarrow> ptr \<Rightarrow> list_cmp \<Rightarrow> ptr option" where
  "remove_search h i needle fn =
     (if i = None then Some None
      else do {
        n \<leftarrow> node_at h i;
        if ln_data n \<noteq> None \<and> fn (ln_data n) needle = 0 then Some i
        else remove_search h (ln_next n) needle fn
      })"

definition alpm_list_remove :: "ptr \<Rightarrow> ptr \<Rightarrow> list_cmp \<Rightarrow> lheap \<Rightarrow> (ptr \<times> ptr \<times> lheap) option" where
  "alpm_list_remove haystack needle fn h =
     (if needle = None then Some (haystack, None, h)
      else do {
        i \<leftarrow> remove_search h haystack needle fn;
        if i = None then Some (haystack, None, h)
        else do {
          (haystack, h) \<leftarrow> alpm_list_remove_item haystack i h;
          n \<leftarrow> node_at h i;
          h \<leftarrow> list_free_node i h;
          Some (haystack, ln_data n, h)
        }
      })"

partial_function (option) alpm_list_free :: "ptr \<Rightarrow> lheap \<Rightarrow> lheap option" where
  "alpm_list_free it h =
     (if it = None then Some h
      else do {
        n \<leftarrow> node_at h it;
        h \<leftarrow> list_free_node it h;
        alpm_list_free (ln_next n) h
      })"

subsection \<open>Copying\<close>

text \<open>
  Copies of the elements \<open>pick\<close> lets through, read forwards or, for a reversed copy, backwards; a
  copy that runs out of memory is given up.
\<close>

partial_function (option) copy_loop ::
    "(alpm_list_t \<Rightarrow> ptr) \<Rightarrow> ptr \<Rightarrow> ptr \<Rightarrow> lheap \<Rightarrow> (ptr \<times> lheap) option" where
  "copy_loop step lp newlist h =
     (if lp = None then Some (newlist, h)
      else do {
        n \<leftarrow> node_at h lp;
        (added, newlist, h) \<leftarrow> alpm_list_append newlist (ln_data n) h;
        if added = None then do { h \<leftarrow> alpm_list_free newlist h; Some (None, h) }
        else do {
          n \<leftarrow> node_at h lp;
          copy_loop step (step n) newlist h
        }
      })"

definition alpm_list_copy :: "ptr \<Rightarrow> lheap \<Rightarrow> (ptr \<times> lheap) option" where
  "alpm_list_copy lst h = copy_loop ln_next lst None h"

definition alpm_list_reverse :: "ptr \<Rightarrow> lheap \<Rightarrow> (ptr \<times> lheap) option" where
  "alpm_list_reverse lst h =
     (if lst = None then Some (None, h)
      else do {
        n \<leftarrow> node_at h lst;
        lp \<leftarrow> alpm_list_last h lst;
        let backup = ln_prev n;
        h \<leftarrow> set_prev lst None h;
        (newlist, h) \<leftarrow> copy_loop ln_prev lp None h;
        h \<leftarrow> set_prev lst backup h;
        Some (newlist, h)
      })"

subsection \<open>Differences\<close>

text \<open>A list to add to, or none when the caller does not want it.\<close>

definition add_out :: "ptr option \<Rightarrow> ptr \<Rightarrow> lheap \<Rightarrow> (ptr option \<times> lheap) option" where
  "add_out out d h =
     (case out of None \<Rightarrow> Some (None, h)
      | Some lst \<Rightarrow> map_option (\<lambda>(lst, h). (Some lst, h)) (alpm_list_add lst d h))"

partial_function (option) add_rest :: "ptr \<Rightarrow> ptr option \<Rightarrow> lheap \<Rightarrow> (ptr option \<times> lheap) option" where
  "add_rest l out h =
     (if l = None then Some (out, h)
      else do {
        n \<leftarrow> node_at h l;
        (out, h) \<leftarrow> add_out out (ln_data n) h;
        n \<leftarrow> node_at h l;
        add_rest (ln_next n) out h
      })"

partial_function (option) diff_loop ::
    "list_cmp \<Rightarrow> ptr \<Rightarrow> ptr \<Rightarrow> ptr option \<Rightarrow> ptr option \<Rightarrow> lheap \<Rightarrow> (ptr option \<times> ptr option \<times> lheap) option" where
  "diff_loop fn l r onlyleft onlyright h =
     (if l = None \<or> r = None then do {
        (onlyleft, h) \<leftarrow> add_rest l onlyleft h;
        (onlyright, h) \<leftarrow> add_rest r onlyright h;
        Some (onlyleft, onlyright, h)
      } else do {
        nl \<leftarrow> node_at h l;
        nr \<leftarrow> node_at h r;
        let cmp = fn (ln_data nl) (ln_data nr);
        if cmp < 0 then do {
          (onlyleft, h) \<leftarrow> add_out onlyleft (ln_data nl) h;
          nl \<leftarrow> node_at h l;
          diff_loop fn (ln_next nl) r onlyleft onlyright h
        } else if cmp > 0 then do {
          (onlyright, h) \<leftarrow> add_out onlyright (ln_data nr) h;
          nr \<leftarrow> node_at h r;
          diff_loop fn l (ln_next nr) onlyleft onlyright h
        } else diff_loop fn (ln_next nl) (ln_next nr) onlyleft onlyright h
      })"

definition alpm_list_diff_sorted ::
    "ptr \<Rightarrow> ptr \<Rightarrow> list_cmp \<Rightarrow> ptr option \<Rightarrow> ptr option \<Rightarrow> lheap \<Rightarrow> (ptr option \<times> ptr option \<times> lheap) option" where
  "alpm_list_diff_sorted left right fn onlyleft onlyright h =
     (if onlyleft = None \<and> onlyright = None then Some (None, None, h)
      else diff_loop fn left right onlyleft onlyright h)"

definition sorted_copy :: "ptr \<Rightarrow> list_cmp \<Rightarrow> lheap \<Rightarrow> (ptr \<times> lheap) option" where
  "sorted_copy lst fn h = do {
     (copy, h) \<leftarrow> alpm_list_copy lst h;
     n \<leftarrow> alpm_list_count h copy;
     alpm_list_msort fn copy n h
   }"

definition alpm_list_diff :: "ptr \<Rightarrow> ptr \<Rightarrow> list_cmp \<Rightarrow> lheap \<Rightarrow> (ptr \<times> lheap) option" where
  "alpm_list_diff lhs rhs fn h = do {
     (left, h) \<leftarrow> sorted_copy lhs fn h;
     (right, h) \<leftarrow> sorted_copy rhs fn h;
     (ret, _, h) \<leftarrow> alpm_list_diff_sorted left right fn (Some None) None h;
     h \<leftarrow> alpm_list_free left h;
     h \<leftarrow> alpm_list_free right h;
     Some (case ret of Some l \<Rightarrow> l | None \<Rightarrow> None, h)
   }"

subsection \<open>What a list is on the heap\<close>

text \<open>
  A piece of a list: its nodes with their addresses and data, what the first points back at and
  what comes after the last.
\<close>

type_synonym nodes = "(nat \<times> ptr) list"

definition addrs :: "nodes \<Rightarrow> nat set" where
  "addrs ns = fst ` set ns"

definition first_of :: "nodes \<Rightarrow> ptr \<Rightarrow> ptr" where
  "first_of ns nx = (case ns of [] \<Rightarrow> nx | n # _ \<Rightarrow> Some (fst n))"

definition last_of :: "nodes \<Rightarrow> ptr \<Rightarrow> ptr" where
  "last_of ns pr = (if ns = [] then pr else Some (fst (last ns)))"

fun seg :: "lheap \<Rightarrow> ptr \<Rightarrow> nodes \<Rightarrow> ptr \<Rightarrow> bool" where
  "seg h pr [] nx = True"
| "seg h pr (n # ns) nx \<longleftrightarrow>
     lh_cells h (fst n) = Some \<lparr>ln_data = snd n, ln_prev = pr, ln_next = first_of ns nx\<rparr> \<and> seg h (Some (fst n)) ns nx"

definition is_list :: "lheap \<Rightarrow> ptr \<Rightarrow> nodes \<Rightarrow> bool" where
  "is_list h p ns \<longleftrightarrow> distinct (map fst ns) \<and> p = first_of ns None \<and> seg h (last_of ns None) ns None"

text \<open>The heap holds a list of these elements.\<close>

definition holds :: "lheap \<Rightarrow> ptr \<Rightarrow> ptr list \<Rightarrow> bool" where
  "holds h p xs \<longleftrightarrow> (\<exists>ns. is_list h p ns \<and> map snd ns = xs)"

text \<open>The heap changed at most at these addresses.\<close>

definition only_at :: "nat set \<Rightarrow> lheap \<Rightarrow> lheap \<Rightarrow> bool" where
  "only_at A h h' \<longleftrightarrow> (\<forall>a. a \<notin> A \<longrightarrow> lh_cells h' a = lh_cells h a) \<and> lh_brk h' = lh_brk h \<and> lh_room h' = lh_room h"

named_theorems list_simps

lemma addrs_simps [simp]:
  "addrs [] = {}" "addrs (n # ns) = insert (fst n) (addrs ns)" "addrs (ns @ ms) = addrs ns \<union> addrs ms"
  by (auto simp: addrs_def)

lemma first_of_simps [simp]:
  "first_of [] nx = nx" "first_of (n # ns) nx = Some (fst n)"
  "first_of (ns @ ms) nx = first_of ns (first_of ms nx)"
  by (auto simp: first_of_def split: list.splits)

lemma last_of_simps [simp]:
  "last_of [] pr = pr" "last_of (n # ns) pr = last_of ns (Some (fst n))"
  "last_of (ns @ ms) pr = last_of ms (last_of ns pr)"
  by (auto simp: last_of_def)

lemma first_of_None [simp]: "first_of ns None = None \<longleftrightarrow> ns = []"
  by (cases ns) auto

lemma last_of_None [simp]: "last_of ns None = None \<longleftrightarrow> ns = []"
  by (auto simp: last_of_def)

lemma seg_append [simp]:
  "seg h pr (ns @ ms) nx \<longleftrightarrow> seg h pr ns (first_of ms nx) \<and> seg h (last_of ns pr) ms nx"
proof (induction ns arbitrary: pr)
  case (Cons n ns)
  then show ?case by (cases n) simp
qed simp

lemma seg_cong:
  assumes "\<And>a. a \<in> addrs ns \<Longrightarrow> lh_cells h' a = lh_cells h a"
  shows "seg h' pr ns nx \<longleftrightarrow> seg h pr ns nx"
  using assms
proof (induction ns arbitrary: pr)
  case (Cons n ns)
  then have "seg h' (Some (fst n)) ns nx \<longleftrightarrow> seg h (Some (fst n)) ns nx" by simp
  with Cons.prems [of "fst n"] show ?case by (cases n) simp
qed simp

lemma only_at_seg: "only_at A h h' \<Longrightarrow> A \<inter> addrs ns = {} \<Longrightarrow> seg h' pr ns nx \<longleftrightarrow> seg h pr ns nx"
  by (rule seg_cong) (auto simp: only_at_def)

lemma only_at_keeps: "only_at A h h' \<Longrightarrow> seg h pr ns nx \<Longrightarrow> A \<inter> addrs ns = {} \<Longrightarrow> seg h' pr ns nx"
  using only_at_seg by blast

lemma list_keeps: "only_at A h h' \<Longrightarrow> is_list h p ns \<Longrightarrow> A \<inter> addrs ns = {} \<Longrightarrow> is_list h' p ns"
  using only_at_keeps by (auto simp: is_list_def)

lemma only_at_refl [simp]: "only_at A h h"
  by (simp add: only_at_def)

lemma only_at_trans: "only_at A h h1 \<Longrightarrow> only_at B h1 h2 \<Longrightarrow> A \<union> B \<subseteq> C \<Longrightarrow> only_at C h h2"
  unfolding only_at_def by (metis UnI1 UnI2 subsetD)

lemma addrs_fst: "a \<in> set (map fst ns) \<longleftrightarrow> a \<in> addrs ns"
  by (simp add: addrs_def)

text \<open>Reading and writing a node of a piece.\<close>

lemma node_at_seg [simp]: "seg h pr (n # ns) nx \<Longrightarrow>
    node_at h (Some (fst n)) = Some \<lparr>ln_data = snd n, ln_prev = pr, ln_next = first_of ns nx\<rparr>"
  by (cases n) (simp add: node_at_def)

lemma set_node_Some:
  "lh_cells h a = Some n \<Longrightarrow> set_node f (Some a) h = Some (h\<lparr>lh_cells := (lh_cells h)(a \<mapsto> f n)\<rparr>)"
  by (simp add: set_node_def)

lemma set_prev_seg:
  assumes "seg h pr (n # ns) nx" and "distinct (map fst (n # ns))"
  shows "\<exists>h'. set_prev (Some (fst n)) v h = Some h' \<and> seg h' v (n # ns) nx \<and> only_at {fst n} h h'"
proof -
  obtain a d where n: "n = (a, d)" by (cases n)
  let ?h = "h\<lparr>lh_cells := (lh_cells h)(a \<mapsto> \<lparr>ln_data = d, ln_prev = v, ln_next = first_of ns nx\<rparr>)\<rparr>"
  have "seg ?h (Some a) ns nx"
    using assms n by (subst seg_cong [where h = h]) (auto simp: addrs_def)
  with assms n show ?thesis by (simp add: set_node_Some only_at_def)
qed

lemma set_next_seg:
  assumes "seg h pr (ns @ [n]) nx" and "distinct (map fst (ns @ [n]))"
  shows "\<exists>h'. set_next (Some (fst n)) v h = Some h' \<and> seg h' pr (ns @ [n]) v \<and> only_at {fst n} h h'"
proof -
  obtain a d where n: "n = (a, d)" by (cases n)
  let ?h = "h\<lparr>lh_cells := (lh_cells h)(a \<mapsto> \<lparr>ln_data = d, ln_prev = last_of ns pr, ln_next = v\<rparr>)\<rparr>"
  have "seg ?h pr ns (Some a)"
    using assms n by (subst seg_cong [where h = h]) (auto simp: addrs_def)
  with assms n show ?thesis by (simp add: set_node_Some only_at_def)
qed

text \<open>Addresses from \<open>lh_brk\<close> on are free, and nothing below changes but at \<open>A\<close>.\<close>

definition heap_ok :: "lheap \<Rightarrow> bool" where
  "heap_ok h \<longleftrightarrow> (\<forall>a \<ge> lh_brk h. lh_cells h a = None)"

definition below :: "nat set \<Rightarrow> lheap \<Rightarrow> lheap \<Rightarrow> bool" where
  "below A h h' \<longleftrightarrow> (\<forall>a < lh_brk h. a \<notin> A \<longrightarrow> lh_cells h' a = lh_cells h a) \<and> lh_brk h \<le> lh_brk h'"

lemma seg_addr: "seg h pr ns nx \<Longrightarrow> a \<in> addrs ns \<Longrightarrow> lh_cells h a \<noteq> None"
proof (induction ns arbitrary: pr)
  case (Cons n ns)
  then show ?case by (cases n) auto
qed simp

lemma seg_brk: "heap_ok h \<Longrightarrow> seg h pr ns nx \<Longrightarrow> a \<in> addrs ns \<Longrightarrow> a < lh_brk h"
  using seg_addr unfolding heap_ok_def by (meson not_less)

lemma below_seg:
  assumes "below A h h'" and "heap_ok h" and "A \<inter> addrs ns = {}" and "seg h pr ns nx"
  shows "seg h' pr ns nx"
proof -
  have "lh_cells h' a = lh_cells h a" if "a \<in> addrs ns" for a
    using that assms seg_brk [OF assms(2,4) that] unfolding below_def by blast
  then show ?thesis using assms(4) seg_cong by blast
qed

lemma below_refl [simp]: "below A h h"
  by (simp add: below_def)

lemma below_trans: "below A h h1 \<Longrightarrow> below B h1 h2 \<Longrightarrow> A \<union> B \<subseteq> C \<union> {lh_brk h..} \<Longrightarrow> below C h h2"
  unfolding below_def
  by (smt (verit, best) UnCI UnE atLeast_iff leD le_trans order_less_le_trans subsetD)

lemma only_at_below: "only_at A h h' \<Longrightarrow> below A h h'"
  by (simp add: below_def only_at_def)

lemma only_at_ok: "only_at A h h' \<Longrightarrow> heap_ok h \<Longrightarrow> A \<subseteq> {..<lh_brk h} \<Longrightarrow> heap_ok h'"
  unfolding only_at_def heap_ok_def by (metis lessThan_iff not_less subset_iff)

subsection \<open>Adding: facts\<close>

lemma malloc_node:
  assumes "heap_ok h" and "lh_room h > 0"
  shows "\<exists>h'. list_malloc h = (Some (lh_brk h), h') \<and> seg h' None [(lh_brk h, None)] None \<and> heap_ok h' \<and>
    below {} h h' \<and> lh_brk h' = Suc (lh_brk h) \<and> lh_room h' = lh_room h - 1"
  using assms by (auto simp: list_malloc_def heap_ok_def below_def)

lemma set_data_seg:
  "seg h pr [(a, d)] nx \<Longrightarrow> \<exists>h'. set_data (Some a) v h = Some h' \<and> seg h' pr [(a, v)] nx \<and> only_at {a} h h'"
  by (auto simp: set_node_Some only_at_def)

lemma append_spec:
  assumes "heap_ok h" and "is_list h p ns" and "lh_room h > 0"
  shows "\<exists>h'. alpm_list_append p d h = Some (Some (lh_brk h), first_of (ns @ [(lh_brk h, d)]) None, h') \<and>
    is_list h' (first_of (ns @ [(lh_brk h, d)]) None) (ns @ [(lh_brk h, d)]) \<and> heap_ok h' \<and>
    below (addrs ns) h h' \<and> lh_brk h' = Suc (lh_brk h) \<and> lh_room h' = lh_room h - 1"
proof -
  let ?a = "lh_brk h"
  from assms(2) have p: "p = first_of ns None" and dist: "distinct (map fst ns)" and seg: "seg h (last_of ns None) ns None"
    by (auto simp: is_list_def)
  have new: "?a \<notin> addrs ns" using seg_brk [OF assms(1) seg] by blast
  obtain h0 where h0: "list_malloc h = (Some ?a, h0)" "seg h0 None [(?a, None)] None" "heap_ok h0" "below {} h h0"
      "lh_brk h0 = Suc ?a" "lh_room h0 = lh_room h - 1"
    using malloc_node [OF assms(1,3)] by blast
  obtain h1 where h1: "set_data (Some ?a) d h0 = Some h1" "seg h1 None [(?a, d)] None" "only_at {?a} h0 h1"
    using set_data_seg [OF h0(2)] by blast
  obtain h2 where h2: "set_next (Some ?a) None h1 = Some h2" "seg h2 None [(?a, d)] None" "only_at {?a} h1 h2"
    using set_next_seg [of h1 None "[]" "(?a, d)" None None] h1(2) by auto
  have at2: "only_at {?a} h0 h2" by (rule only_at_trans [OF h1(3) h2(3)]) simp
  show ?thesis
  proof (cases ns rule: rev_cases)
    case Nil
    obtain h3 where h3: "set_prev (Some ?a) (Some ?a) h2 = Some h3" "seg h3 (Some ?a) [(?a, d)] None" "only_at {?a} h2 h3"
      using set_prev_seg [of h2 None "(?a, d)" "[]" None "Some ?a"] h2(2) by auto
    have at: "only_at {?a} h0 h3" by (rule only_at_trans [OF at2 h3(3)]) simp
    have "heap_ok h3" by (rule only_at_ok [OF at h0(3)]) (simp add: h0(5))
    moreover have "below (addrs ns) h h3" by (rule below_trans [OF h0(4) only_at_below [OF at]]) simp
    ultimately show ?thesis
      using Nil p h0 h1(1) h2(1) h3 at by (auto simp: alpm_list_append_def is_list_def only_at_def Let_def)
  next
    case (snoc ms l)
    then have "ns \<noteq> []" by simp
    then obtain n ns' where ns: "ns = n # ns'" by (meson list.exhaust)
    have seg2: "seg h2 (Some (fst l)) ns None"
    proof -
      have "seg h0 (last_of ns None) ns None" by (rule below_seg [OF h0(4) assms(1) _ seg]) simp
      then show ?thesis using only_at_seg [OF at2, of ns] new snoc by simp
    qed
    have read: "node_at h2 p = Some \<lparr>ln_data = snd n, ln_prev = Some (fst l), ln_next = first_of ns' None\<rparr>"
      using seg2 p unfolding ns by simp
    obtain h3 where h3: "set_next (Some (fst l)) (Some ?a) h2 = Some h3" "seg h3 (Some (fst l)) ns (Some ?a)"
        "only_at {fst l} h2 h3"
      using set_next_seg [of h2 "Some (fst l)" ms l None "Some ?a"] seg2 dist snoc by auto
    have la: "fst l \<noteq> ?a" using new snoc by auto
    have na: "fst n \<noteq> ?a" using new unfolding ns by auto
    have "seg h3 None [(?a, d)] None" using only_at_seg [OF h3(3), of "[(?a, d)]"] h2(2) la by auto
    then obtain h4 where h4: "set_prev (Some ?a) (Some (fst l)) h3 = Some h4" "seg h4 (Some (fst l)) [(?a, d)] None"
        "only_at {?a} h3 h4"
      using set_prev_seg [of h3 None "(?a, d)" "[]" None "Some (fst l)"] by auto
    have "seg h4 (Some (fst l)) ns (Some ?a)" using only_at_seg [OF h4(3), of ns] h3(2) new by simp
    then obtain h5 where h5: "set_prev p (Some ?a) h4 = Some h5" "seg h5 (Some ?a) ns (Some ?a)" "only_at {fst n} h4 h5"
      using set_prev_seg [of h4 "Some (fst l)" n ns' "Some ?a" "Some ?a"] dist p unfolding ns by auto
    have "seg h5 (Some (fst l)) [(?a, d)] None" using only_at_seg [OF h5(3), of "[(?a, d)]"] h4(2) na by auto
    with h5(2) snoc dist new have list: "is_list h5 p (ns @ [(?a, d)])"
      by (auto simp: is_list_def p addrs_def)
    have at: "only_at (insert ?a (addrs ns)) h0 h5"
    proof -
      have "only_at (insert ?a (addrs ns)) h0 h3" by (rule only_at_trans [OF at2 h3(3)]) (simp add: snoc)
      then have "only_at (insert ?a (addrs ns)) h0 h4" by (rule only_at_trans [OF _ h4(3)]) simp
      then show ?thesis by (rule only_at_trans [OF _ h5(3)]) (simp add: ns)
    qed
    have "addrs ns \<subseteq> {..<lh_brk h}" using seg_brk [OF assms(1) seg] by auto
    then have "heap_ok h5" by (intro only_at_ok [OF at h0(3)]) (auto simp: h0(5))
    moreover have "below (addrs ns) h h5" by (rule below_trans [OF h0(4) only_at_below [OF at]]) auto
    moreover have "alpm_list_append p d h = Some (Some ?a, p, h5)"
      using h0(1) h1(1) h2(1) read h3(1) h4(1) h5(1) p ns by (simp add: alpm_list_append_def)
    ultimately show ?thesis using list p at h0 unfolding ns by (auto simp: only_at_def)
  qed
qed

lemma append_no_memory: "lh_room h = 0 \<Longrightarrow> alpm_list_append p d h = Some (None, p, h)"
  by (simp add: alpm_list_append_def list_malloc_def)

subsection \<open>Walking\<close>

text \<open>The nodes a loop visits that starts at \<open>p\<close> and follows \<open>step\<close> to NULL.\<close>

fun walks :: "lheap \<Rightarrow> (alpm_list_t \<Rightarrow> ptr) \<Rightarrow> ptr \<Rightarrow> nodes \<Rightarrow> bool" where
  "walks h step p [] \<longleftrightarrow> p = None"
| "walks h step p (n # ns) \<longleftrightarrow>
     p = Some (fst n) \<and> (\<exists>c. lh_cells h (fst n) = Some c \<and> ln_data c = snd n \<and> walks h step (step c) ns)"

lemma seg_walks: "seg h pr ns None \<Longrightarrow> walks h ln_next (first_of ns None) ns"
proof (induction ns arbitrary: pr)
  case (Cons n ns)
  then show ?case by (cases n) auto
qed simp

lemma seg_walks_back: "seg h None ns nx \<Longrightarrow> walks h ln_prev (last_of ns None) (rev ns)"
proof (induction ns arbitrary: nx rule: rev_induct)
  case (snoc n ns)
  then show ?case by (cases n) auto
qed simp

lemma list_walks: "is_list h p ns \<Longrightarrow> walks h ln_next p ns"
  using seg_walks by (auto simp: is_list_def)

lemma walks_cong:
  assumes "\<And>a. a \<in> addrs ns \<Longrightarrow> lh_cells h' a = lh_cells h a"
  shows "walks h' step p ns \<longleftrightarrow> walks h step p ns"
  using assms
proof (induction ns arbitrary: p)
  case (Cons n ns)
  then have "walks h' step q ns \<longleftrightarrow> walks h step q ns" for q by simp
  with Cons.prems [of "fst n"] show ?case by simp
qed simp

lemma walks_brk: "heap_ok h \<Longrightarrow> walks h step p ns \<Longrightarrow> a \<in> addrs ns \<Longrightarrow> a < lh_brk h"
proof (induction ns arbitrary: p)
  case (Cons n ns)
  then show ?case by (auto simp: heap_ok_def) (metis not_less option.distinct(1))
qed simp

lemma below_walks:
  assumes "below A h h'" and "heap_ok h" and "A \<inter> addrs ns = {}" and "walks h step p ns"
  shows "walks h' step p ns"
proof -
  have "lh_cells h' a = lh_cells h a" if "a \<in> addrs ns" for a
    using that assms walks_brk [OF assms(2,4) that] unfolding below_def by blast
  then show ?thesis using assms(4) walks_cong by blast
qed

lemma count_walks: "walks h ln_next p ns \<Longrightarrow> count_loop h p i = Some (i + length ns)"
proof (induction ns arbitrary: p i)
  case Nil
  then show ?case by (subst count_loop.simps) simp
next
  case (Cons n ns)
  then show ?case by (subst count_loop.simps) (auto simp: node_at_def)
qed

lemma find_walks:
  "walks h ln_next p ns \<Longrightarrow>
   alpm_list_find h p needle fn = Some (Option.bind (find (\<lambda>d. d \<noteq> None \<and> fn d needle = 0) (map snd ns)) (\<lambda>d. d))"
proof (induction ns arbitrary: p)
  case Nil
  then show ?case by (subst alpm_list_find.simps) simp
next
  case (Cons n ns)
  then show ?case by (subst alpm_list_find.simps) (auto simp: node_at_def)
qed

lemma search_walks:
  "walks h ln_next p ns \<Longrightarrow>
   remove_search h p needle fn = Some (map_option fst (find (\<lambda>n. snd n \<noteq> None \<and> fn (snd n) needle = 0) ns))"
proof (induction ns arbitrary: p)
  case Nil
  then show ?case by (subst remove_search.simps) simp
next
  case (Cons n ns)
  then show ?case by (subst remove_search.simps) (auto simp: node_at_def)
qed

text \<open>Freeing a list frees its nodes and no others.\<close>

lemma free_walks:
  "walks h ln_next p ns \<Longrightarrow> distinct (map fst ns) \<Longrightarrow>
   \<exists>h'. alpm_list_free p h = Some h' \<and> only_at (addrs ns) h h' \<and> (\<forall>a \<in> addrs ns. lh_cells h' a = None)"
proof (induction ns arbitrary: p h)
  case Nil
  then show ?case by (subst alpm_list_free.simps) simp
next
  case (Cons n ns)
  then obtain c where c: "p = Some (fst n)" "lh_cells h (fst n) = Some c" "walks h ln_next (ln_next c) ns" by auto
  let ?h = "h\<lparr>lh_cells := (lh_cells h)(fst n := None)\<rparr>"
  have "fst n \<notin> addrs ns" using Cons.prems(2) by (simp add: addrs_def)
  then have "walks ?h ln_next (ln_next c) ns"
    using c(3) by (subst walks_cong [where h = h]) auto
  from Cons.IH [OF this] Cons.prems(2) obtain h' where
    h': "alpm_list_free (ln_next c) ?h = Some h'" "only_at (addrs ns) ?h h'" "\<forall>a \<in> addrs ns. lh_cells h' a = None"
    by auto
  then have "alpm_list_free p h = Some h'"
    using c by (subst alpm_list_free.simps) (simp add: node_at_def list_free_node_def)
  moreover have "only_at (addrs (n # ns)) h h'" using h'(2) by (auto simp: only_at_def)
  moreover have "lh_cells h' (fst n) = None"
    using h'(2) Cons.prems(2) by (auto simp: only_at_def addrs_def)
  ultimately show ?case using h'(3) by auto
qed

lemma only_at_ok_free:
  "only_at A h h' \<Longrightarrow> \<forall>a \<in> A. lh_cells h' a = None \<Longrightarrow> heap_ok h \<Longrightarrow> heap_ok h'"
  unfolding only_at_def heap_ok_def by metis

lemma copy_loop_spec:
  "heap_ok h \<Longrightarrow> walks h step p rest \<Longrightarrow> is_list h (first_of acc None) acc \<Longrightarrow> addrs acc \<inter> addrs rest = {} \<Longrightarrow>
   \<exists>h' acc'. copy_loop step p (first_of acc None) h =
       Some (if length rest \<le> lh_room h then first_of acc' None else None, h') \<and>
     heap_ok h' \<and> below (addrs acc) h h' \<and>
     (length rest \<le> lh_room h \<longrightarrow> is_list h' (first_of acc' None) acc' \<and> map snd acc' = map snd acc @ map snd rest \<and>
        addrs acc' \<subseteq> addrs acc \<union> {lh_brk h..} \<and> lh_room h' = lh_room h - length rest)"
proof (induction rest arbitrary: p h acc)
  case Nil
  have "copy_loop step p (first_of acc None) h = Some (first_of acc None, h)"
    using Nil by (subst copy_loop.simps) simp
  with Nil show ?case by (intro exI [of _ h] exI [of _ acc]) simp
next
  case (Cons n rest)
  then obtain c where c: "p = Some (fst n)" "lh_cells h (fst n) = Some c" "ln_data c = snd n" "walks h step (step c) rest" by auto
  have nb: "fst n < lh_brk h" using walks_brk [OF Cons.prems(1,2)] by simp
  have dist: "distinct (map fst acc)" using Cons.prems(3) by (simp add: is_list_def)
  show ?case
  proof (cases "lh_room h = 0")
    case True
    obtain h' where h': "alpm_list_free (first_of acc None) h = Some h'" "only_at (addrs acc) h h'"
        "\<forall>a \<in> addrs acc. lh_cells h' a = None"
      using free_walks [OF list_walks [OF Cons.prems(3)] dist] by blast
    have "copy_loop step p (first_of acc None) h = Some (None, h')"
      using c True h'(1) append_no_memory [of h] by (subst copy_loop.simps) (simp add: node_at_def)
    moreover have "heap_ok h'" using only_at_ok_free [OF h'(2,3) Cons.prems(1)] .
    ultimately show ?thesis using True only_at_below [OF h'(2)] by auto
  next
    case False
    let ?acc = "acc @ [(lh_brk h, snd n)]"
    obtain h1 where h1: "alpm_list_append (first_of acc None) (snd n) h = Some (Some (lh_brk h), first_of ?acc None, h1)"
        "is_list h1 (first_of ?acc None) ?acc" "heap_ok h1" "below (addrs acc) h h1"
        "lh_brk h1 = Suc (lh_brk h)" "lh_room h1 = lh_room h - 1"
      using append_spec [OF Cons.prems(1,3), of "snd n"] False by blast
    have "lh_cells h1 (fst n) = Some c"
      using h1(4) c(2) nb Cons.prems(4) by (auto simp: below_def)
    then have eq: "copy_loop step p (first_of acc None) h = copy_loop step (step c) (first_of ?acc None) h1"
      using c h1(1) by (subst copy_loop.simps) (simp add: node_at_def)
    have "walks h1 step (step c) rest"
      by (rule below_walks [OF h1(4) Cons.prems(1) _ c(4)]) (use Cons.prems(4) in auto)
    moreover have "addrs ?acc \<inter> addrs rest = {}"
      using Cons.prems(4) walks_brk [OF Cons.prems(1) c(4), of "lh_brk h"] by auto
    ultimately obtain h' acc' where
      run: "copy_loop step (step c) (first_of ?acc None) h1 =
          Some (if length rest \<le> lh_room h1 then first_of acc' None else None, h')"
      and ok: "heap_ok h'" "below (addrs ?acc) h1 h'"
      and res: "length rest \<le> lh_room h1 \<longrightarrow> is_list h' (first_of acc' None) acc' \<and>
        map snd acc' = map snd ?acc @ map snd rest \<and> addrs acc' \<subseteq> addrs ?acc \<union> {lh_brk h1..} \<and>
        lh_room h' = lh_room h1 - length rest"
      using Cons.IH [OF h1(3) _ h1(2)] by blast
    have room: "length (n # rest) \<le> lh_room h \<longleftrightarrow> length rest \<le> lh_room h1" using False h1(6) by auto
    have "below (addrs acc) h h'" by (rule below_trans [OF h1(4) ok(2)]) auto
    moreover have "addrs acc' \<subseteq> addrs acc \<union> {lh_brk h..}" if "length rest \<le> lh_room h1"
      using res that h1(5) by force
    ultimately show ?thesis
      using run ok(1) res room h1(6) unfolding eq room by (intro exI [of _ h'] exI [of _ acc']) auto
  qed
qed

text \<open>
  A copy is a list of its own: with memory enough it holds the same elements at fresh addresses, and
  without it is NULL; what was there is unchanged either way.
\<close>

lemma copy_spec:
  assumes "heap_ok h" and "is_list h p ns"
  shows "\<exists>h' ns'. alpm_list_copy p h = Some (if length ns \<le> lh_room h then first_of ns' None else None, h') \<and>
    heap_ok h' \<and> below {} h h' \<and>
    (length ns \<le> lh_room h \<longrightarrow> is_list h' (first_of ns' None) ns' \<and> map snd ns' = map snd ns \<and>
      addrs ns' \<subseteq> {lh_brk h..} \<and> lh_room h' = lh_room h - length ns)"
  using copy_loop_spec [OF assms(1) list_walks [OF assms(2)], of "[]"] unfolding alpm_list_copy_def
  by (simp add: is_list_def)

lemma set_prev_first:
  assumes "seg h pr ns nx" and "distinct (map fst ns)" and "ns \<noteq> []"
  shows "\<exists>h'. set_prev (first_of ns x) v h = Some h' \<and> seg h' v ns nx \<and> only_at (addrs ns) h h'"
proof (cases ns)
  case (Cons n ms)
  have "only_at {fst n} h h' \<Longrightarrow> only_at (addrs ns) h h'" for h' using Cons by (auto simp: only_at_def)
  then show ?thesis using set_prev_seg [of h pr n ms nx v] assms(1,2) Cons by auto
qed (use assms in simp)

lemma set_next_last:
  assumes "seg h pr ns nx" and "distinct (map fst ns)" and "ns \<noteq> []"
  shows "\<exists>h'. set_next (last_of ns x) v h = Some h' \<and> seg h' pr ns v \<and> only_at (addrs ns) h h'"
proof (cases ns rule: rev_cases)
  case (snoc ms n)
  have "only_at {fst n} h h' \<Longrightarrow> only_at (addrs ns) h h'" for h' using snoc by (auto simp: only_at_def)
  then show ?thesis using set_next_seg [of h pr ms n nx v] assms(1,2) snoc by auto
qed (use assms in simp)

lemma last_of_any: "ns \<noteq> [] \<Longrightarrow> last_of ns x = last_of ns y"
  by (simp add: last_of_def)

lemma first_of_any: "ns \<noteq> [] \<Longrightarrow> first_of ns x = first_of ns y"
  by (cases ns) auto

lemma node_at_first: "seg h pr ns nx \<Longrightarrow> ns \<noteq> [] \<Longrightarrow>
    node_at h (first_of ns x) = Some \<lparr>ln_data = snd (hd ns), ln_prev = pr, ln_next = first_of (tl ns) nx\<rparr>"
  by (cases ns) (simp_all add: node_at_def)

subsection \<open>Joining and sorting: facts\<close>

lemma join_spec:
  assumes "is_list h p ns" and "is_list h q ms" and "addrs ns \<inter> addrs ms = {}"
  shows "\<exists>h'. alpm_list_join p q h = Some (first_of (ns @ ms) None, h') \<and>
    is_list h' (first_of (ns @ ms) None) (ns @ ms) \<and> only_at (addrs ns \<union> addrs ms) h h'"
proof (cases "ns = [] \<or> ms = []")
  case True
  then show ?thesis using assms(1,2) by (auto simp: alpm_list_join_def is_list_def)
next
  case False
  then have ne: "ns \<noteq> []" "ms \<noteq> []" by auto
  from assms have dist: "distinct (map fst ns)" "distinct (map fst ms)"
    and seg: "seg h (last_of ns None) ns None" "seg h (last_of ms None) ms None"
    and p: "p = first_of ns None" "q = first_of ms None"
    by (auto simp: is_list_def)
  obtain h1 where h1: "set_next (last_of ns None) q h = Some h1" "seg h1 (last_of ns None) ns q" "only_at (addrs ns) h h1"
    using set_next_last [OF seg(1) dist(1) ne(1)] by blast
  have m1: "seg h1 (last_of ms None) ms None" using only_at_seg [OF h1(3) assms(3)] seg(2) by blast
  obtain h2 where h2: "set_prev p (last_of ms None) h1 = Some h2" "seg h2 (last_of ms None) ns q" "only_at (addrs ns) h1 h2"
    using set_prev_first [OF h1(2) dist(1) ne(1)] p by blast
  have m2: "seg h2 (last_of ms None) ms None" using only_at_seg [OF h2(3) assms(3)] m1 by blast
  obtain h3 where h3: "set_prev q (last_of ns None) h2 = Some h3" "seg h3 (last_of ns None) ms None" "only_at (addrs ms) h2 h3"
    using set_prev_first [OF m2 dist(2) ne(2)] p by blast
  have n3: "seg h3 (last_of ms None) ns q" using only_at_seg [OF h3(3)] h2(2) assms(3) by blast
  have "is_list h3 p (ns @ ms)"
    using n3 h3(2) dist assms(3) p last_of_any [OF ne(1), of "last_of ms None" None]
      last_of_any [OF ne(2), of "last_of ns None" None]
      first_of_any [OF ne(1), of None "first_of ms None"] by (auto simp: is_list_def addrs_def)
  moreover have "alpm_list_join p q h = Some (p, h3)"
    using node_at_first [OF seg(1) ne(1), of None] node_at_first [OF m1 ne(2), of None] h1(1) h2(1) h3(1) p ne
    by (simp add: alpm_list_join_def Let_def)
  moreover have "only_at (addrs ns \<union> addrs ms) h h3"
    using only_at_trans [OF only_at_trans [OF h1(3) h2(3) Un_least [OF subset_refl subset_refl]] h3(3)] by blast
  ultimately show ?thesis using p ne by (cases ns) auto
qed

fun merge_by :: "('a \<Rightarrow> 'a \<Rightarrow> bool) \<Rightarrow> 'a list \<Rightarrow> 'a list \<Rightarrow> 'a list" where
  "merge_by le [] ys = ys"
| "merge_by le xs [] = xs"
| "merge_by le (x # xs) (y # ys) = (if le x y then x # merge_by le xs (y # ys) else y # merge_by le (x # xs) ys)"

lemma merge_by_Nil [simp]: "merge_by le xs [] = xs"
  by (cases xs) auto

lemma merge_by_mset [simp]: "mset (merge_by le xs ys) = mset xs + mset ys"
  by (induction le xs ys rule: merge_by.induct) auto

lemma merge_by_map: "map f (merge_by (\<lambda>x y. le (f x) (f y)) xs ys) = merge_by le (map f xs) (map f ys)"
  by (induction "\<lambda>x y. le (f x) (f y)" xs ys rule: merge_by.induct) auto

lemma addrs_mset: "mset ns = mset ms \<Longrightarrow> addrs ns = addrs ms"
  using mset_eq_setD unfolding addrs_def by metis

lemma distinct_mset: "mset ns = mset ms \<Longrightarrow> distinct (map fst ns) \<longleftrightarrow> distinct (map fst ms)"
  by (metis mset_map mset_eq_imp_distinct_iff)

text \<open>One step of the merge: the first node of a list goes to the end of what is merged.\<close>

lemma merge_step:
  assumes "seg h None acc None" and "acc \<noteq> []" and "seg h pl (n # ns) None"
    and "distinct (map fst (acc @ n # ns))"
  shows "\<exists>h1 h2 h3. set_next (last_of acc None) (Some (fst n)) h = Some h1 \<and>
    set_prev (Some (fst n)) (last_of acc None) h1 = Some h2 \<and>
    node_at h2 (Some (fst n)) = Some \<lparr>ln_data = snd n, ln_prev = last_of acc None, ln_next = first_of ns None\<rparr> \<and>
    map_option ln_next (node_at h2 (last_of acc None)) = Some (Some (fst n)) \<and>
    set_next (Some (fst n)) None h2 = Some h3 \<and>
    seg h3 None (acc @ [n]) None \<and> seg h3 (Some (fst n)) ns None \<and> only_at (addrs acc \<union> addrs (n # ns)) h h3"
proof -
  have dist: "distinct (map fst acc)" "distinct (map fst (n # ns))" "distinct (map fst (acc @ [n]))"
    and disj: "addrs acc \<inter> addrs (n # ns) = {}" "addrs (acc @ [n]) \<inter> addrs ns = {}"
    using assms(4) by (auto simp: addrs_def)
  obtain h1 where h1: "set_next (last_of acc None) (Some (fst n)) h = Some h1" "seg h1 None acc (Some (fst n))"
      "only_at (addrs acc) h h1"
    using set_next_last [OF assms(1) dist(1) assms(2)] by blast
  have n1: "seg h1 pl (n # ns) None" using only_at_seg [OF h1(3) disj(1)] assms(3) by blast
  obtain h2 where h2: "set_prev (Some (fst n)) (last_of acc None) h1 = Some h2" "seg h2 (last_of acc None) (n # ns) None"
      "only_at {fst n} h1 h2"
    using set_prev_seg [OF n1 dist(2), of "last_of acc None"] by blast
  have "seg h2 None acc (Some (fst n))" using only_at_seg [OF h2(3), of acc] disj(1) h1(2) by auto
  with h2(2) have all: "seg h2 None (acc @ [n]) (first_of ns None)" "seg h2 (Some (fst n)) ns None" by auto
  obtain h3 where h3: "set_next (Some (fst n)) None h2 = Some h3" "seg h3 None (acc @ [n]) None" "only_at {fst n} h2 h3"
    using set_next_seg [OF all(1) dist(3), of None] by blast
  have "seg h3 (Some (fst n)) ns None" using only_at_seg [OF h3(3), of ns] disj(2) all(2) by auto
  moreover have "map_option ln_next (node_at h2 (last_of acc None)) = Some (Some (fst n))"
    using all(1) assms(2) by (cases acc rule: rev_cases) (auto simp: node_at_def)
  moreover have "only_at (addrs acc \<union> addrs (n # ns)) h h3"
    by (rule only_at_trans [OF only_at_trans [OF h1(3) h2(3) subset_refl] h3(3)]) auto
  ultimately show ?thesis using h1(1) h2(1,2) h3(1,2) by auto
qed

abbreviation data_le :: "list_cmp \<Rightarrow> nat \<times> ptr \<Rightarrow> nat \<times> ptr \<Rightarrow> bool" where
  "data_le fn n m \<equiv> fn (snd n) (snd m) \<le> 0"

lemma mmerge_loop_spec:
  "seg h None acc None \<Longrightarrow> acc \<noteq> [] \<Longrightarrow> seg h pl ls None \<Longrightarrow> seg h pr rs None \<Longrightarrow>
   distinct (map fst (acc @ ls @ rs)) \<Longrightarrow>
   \<exists>h' acc' ls' rs' pl' pr'. mmerge_loop fn (first_of ls None) (first_of rs None) (last_of acc None) h =
       Some (first_of ls' None, first_of rs' None, last_of acc' None, h') \<and>
     seg h' None acc' None \<and> acc' \<noteq> [] \<and> seg h' pl' ls' None \<and> seg h' pr' rs' None \<and> (ls' = [] \<or> rs' = []) \<and>
     acc' @ ls' @ rs' = acc @ merge_by (data_le fn) ls rs \<and> suffix ls' ls \<and> suffix rs' rs \<and>
     only_at (addrs (acc @ ls @ rs)) h h'"
proof (induction "data_le fn" ls rs arbitrary: acc h pl pr rule: merge_by.induct)
  case (1 rs)
  have "mmerge_loop fn None (first_of rs None) (last_of acc None) h = Some (None, first_of rs None, last_of acc None, h)"
    by (subst mmerge_loop.simps) simp
  with 1 show ?case
    by (intro exI [of _ h] exI [of _ acc] exI [of _ "[]"] exI [of _ rs] exI [of _ pl] exI [of _ pr]) auto
next
  case (2 l ls)
  have "mmerge_loop fn (Some (fst l)) None (last_of acc None) h = Some (Some (fst l), None, last_of acc None, h)"
    by (subst mmerge_loop.simps) simp
  with 2 show ?case
    by (intro exI [of _ h] exI [of _ acc] exI [of _ "l # ls"] exI [of _ "[]"] exI [of _ pl] exI [of _ pr]) auto
next
  case (3 l ls r rs)
  have nl: "node_at h (Some (fst l)) = Some \<lparr>ln_data = snd l, ln_prev = pl, ln_next = first_of ls None\<rparr>"
    and nr: "node_at h (Some (fst r)) = Some \<lparr>ln_data = snd r, ln_prev = pr, ln_next = first_of rs None\<rparr>"
    using 3(5,6) by (simp_all add: node_at_def)
  show ?case
  proof (cases "data_le fn l r")
    case True
    have d: "distinct (map fst (acc @ l # ls))" using 3(7) by auto
    obtain h1 h2 h3 where s: "set_next (last_of acc None) (Some (fst l)) h = Some h1"
      "set_prev (Some (fst l)) (last_of acc None) h1 = Some h2"
      "node_at h2 (Some (fst l)) = Some \<lparr>ln_data = snd l, ln_prev = last_of acc None, ln_next = first_of ls None\<rparr>"
      "map_option ln_next (node_at h2 (last_of acc None)) = Some (Some (fst l))"
      "set_next (Some (fst l)) None h2 = Some h3"
      "seg h3 None (acc @ [l]) None" "seg h3 (Some (fst l)) ls None" "only_at (addrs acc \<union> addrs (l # ls)) h h3"
      using merge_step [OF 3(3,4,5) d] by blast
    have "seg h3 pr (r # rs) None" by (rule only_at_keeps [OF s(8) 3(6)]) (use 3(7) in \<open>auto simp: addrs_def\<close>)
    moreover obtain c where c: "node_at h2 (last_of acc None) = Some c" "ln_next c = Some (fst l)" using s(4) by auto
    moreover have "distinct (map fst ((acc @ [l]) @ ls @ r # rs))" using 3(7) by simp
    moreover have eq: "mmerge_loop fn (Some (fst l)) (Some (fst r)) (last_of acc None) h =
        mmerge_loop fn (first_of ls None) (Some (fst r)) (Some (fst l)) h3"
      using True nl nr s(1-3,5) c by (subst mmerge_loop.simps) simp
    ultimately obtain h' acc' ls' rs' pl' pr' where
      run: "mmerge_loop fn (first_of ls None) (first_of (r # rs) None) (last_of (acc @ [l]) None) h3 =
        Some (first_of ls' None, first_of rs' None, last_of acc' None, h')" and
      res: "seg h' None acc' None \<and> acc' \<noteq> [] \<and> seg h' pl' ls' None \<and> seg h' pr' rs' None \<and> (ls' = [] \<or> rs' = []) \<and>
        acc' @ ls' @ rs' = (acc @ [l]) @ merge_by (data_le fn) ls (r # rs) \<and> suffix ls' ls \<and> suffix rs' (r # rs)" and
      at: "only_at (addrs ((acc @ [l]) @ ls @ r # rs)) h3 h'"
      using 3(1) [OF True s(6) _ s(7)] by blast
    have "only_at (addrs (acc @ (l # ls) @ r # rs)) h h'" by (rule only_at_trans [OF s(8) at]) auto
    moreover have "mmerge_loop fn (first_of (l # ls) None) (first_of (r # rs) None) (last_of acc None) h =
        Some (first_of ls' None, first_of rs' None, last_of acc' None, h')" using run eq by simp
    moreover have "acc' @ ls' @ rs' = acc @ merge_by (data_le fn) (l # ls) (r # rs)" using res True by simp
    moreover have "suffix ls' (l # ls)" "suffix rs' (r # rs)" using res by (simp_all add: suffix_Cons)
    ultimately show ?thesis using res by blast
  next
    case False
    have d: "distinct (map fst (acc @ r # rs))" using 3(7) by auto
    obtain h1 h2 h3 where s: "set_next (last_of acc None) (Some (fst r)) h = Some h1"
      "set_prev (Some (fst r)) (last_of acc None) h1 = Some h2"
      "node_at h2 (Some (fst r)) = Some \<lparr>ln_data = snd r, ln_prev = last_of acc None, ln_next = first_of rs None\<rparr>"
      "map_option ln_next (node_at h2 (last_of acc None)) = Some (Some (fst r))"
      "set_next (Some (fst r)) None h2 = Some h3"
      "seg h3 None (acc @ [r]) None" "seg h3 (Some (fst r)) rs None" "only_at (addrs acc \<union> addrs (r # rs)) h h3"
      using merge_step [OF 3(3,4,6) d] by blast
    have "seg h3 pl (l # ls) None" by (rule only_at_keeps [OF s(8) 3(5)]) (use 3(7) in \<open>auto simp: addrs_def\<close>)
    moreover obtain c where c: "node_at h2 (last_of acc None) = Some c" "ln_next c = Some (fst r)" using s(4) by auto
    moreover have "distinct (map fst ((acc @ [r]) @ (l # ls) @ rs))" using 3(7) by auto
    moreover have eq: "mmerge_loop fn (Some (fst l)) (Some (fst r)) (last_of acc None) h =
        mmerge_loop fn (Some (fst l)) (first_of rs None) (Some (fst r)) h3"
      using False nl nr s(1-3,5) c by (subst mmerge_loop.simps) simp
    ultimately obtain h' acc' ls' rs' pl' pr' where
      run: "mmerge_loop fn (first_of (l # ls) None) (first_of rs None) (last_of (acc @ [r]) None) h3 =
        Some (first_of ls' None, first_of rs' None, last_of acc' None, h')" and
      res: "seg h' None acc' None \<and> acc' \<noteq> [] \<and> seg h' pl' ls' None \<and> seg h' pr' rs' None \<and> (ls' = [] \<or> rs' = []) \<and>
        acc' @ ls' @ rs' = (acc @ [r]) @ merge_by (data_le fn) (l # ls) rs \<and> suffix ls' (l # ls) \<and> suffix rs' rs" and
      at: "only_at (addrs ((acc @ [r]) @ (l # ls) @ rs)) h3 h'"
      using 3(2) [OF False s(6) _ _ s(7)] by blast
    have "only_at (addrs (acc @ (l # ls) @ r # rs)) h h'" by (rule only_at_trans [OF s(8) at]) auto
    moreover have "mmerge_loop fn (first_of (l # ls) None) (first_of (r # rs) None) (last_of acc None) h =
        Some (first_of ls' None, first_of rs' None, last_of acc' None, h')" using run eq by simp
    moreover have "acc' @ ls' @ rs' = acc @ merge_by (data_le fn) (l # ls) (r # rs)" using res False by simp
    moreover have "suffix ls' (l # ls)" "suffix rs' (r # rs)" using res by (simp_all add: suffix_Cons)
    ultimately show ?thesis using res by blast
  qed
qed

lemma seg_same: "seg h pr ns nx \<Longrightarrow> seg h' pr ns nx \<Longrightarrow> a \<in> addrs ns \<Longrightarrow> lh_cells h' a = lh_cells h a"
  by (induction ns arbitrary: pr) auto

lemma last_suffix: "suffix xs ys \<Longrightarrow> xs \<noteq> [] \<Longrightarrow> last_of xs a = last_of ys b"
  by (auto simp: suffix_def last_of_def)

text \<open>
  The end of the merge: what is left of one of the lists is linked behind what is merged.
\<close>

lemma merge_end:
  assumes "seg h None acc None" and "acc \<noteq> []" and "seg h pl ls None" and "ls \<noteq> []"
    and "distinct (map fst (acc @ ls))"
  shows "\<exists>h1 h2. set_next (last_of acc None) (first_of ls None) h = Some h1 \<and>
    set_prev (first_of ls None) (last_of acc None) h1 = Some h2 \<and> seg h2 None (acc @ ls) None \<and>
    only_at (addrs (acc @ ls)) h h2"
proof -
  have dist: "distinct (map fst acc)" "distinct (map fst ls)" and disj: "addrs acc \<inter> addrs ls = {}"
    using assms(5) by (auto simp: addrs_def)
  obtain h1 where h1: "set_next (last_of acc None) (first_of ls None) h = Some h1" "seg h1 None acc (first_of ls None)"
      "only_at (addrs acc) h h1"
    using set_next_last [OF assms(1) dist(1) assms(2)] by blast
  have "seg h1 pl ls None" by (rule only_at_keeps [OF h1(3) assms(3) disj])
  then obtain h2 where h2: "set_prev (first_of ls None) (last_of acc None) h1 = Some h2" "seg h2 (last_of acc None) ls None"
      "only_at (addrs ls) h1 h2"
    using set_prev_first [OF _ dist(2) assms(4)] by blast
  have "seg h2 None acc (first_of ls None)" by (rule only_at_keeps [OF h2(3) h1(2)]) (use disj in auto)
  with h2(2) have "seg h2 None (acc @ ls) None" by simp
  moreover have "only_at (addrs (acc @ ls)) h h2" by (rule only_at_trans [OF h1(3) h2(3)]) auto
  ultimately show ?thesis using h1(1) h2(1) by blast
qed

lemma mmerge_spec:
  assumes "is_list h p ns" and "is_list h q ms" and "addrs ns \<inter> addrs ms = {}"
  shows "\<exists>h'. alpm_list_mmerge fn p q h = Some (first_of (merge_by (data_le fn) ns ms) None, h') \<and>
    is_list h' (first_of (merge_by (data_le fn) ns ms) None) (merge_by (data_le fn) ns ms) \<and>
    only_at (addrs ns \<union> addrs ms) h h'"
proof (cases "ns = [] \<or> ms = []")
  case True
  then show ?thesis using assms(1,2) by (auto simp: alpm_list_mmerge_def is_list_def)
next
  case False
  then obtain l ls r rs where ns: "ns = l # ls" and ms: "ms = r # rs" by (meson list.exhaust)
  from assms have dist: "distinct (map fst (ns @ ms))"
    and seg: "seg h (last_of ns None) ns None" "seg h (last_of ms None) ms None"
    and p: "p = Some (fst l)" "q = Some (fst r)"
    by (auto simp: is_list_def addrs_def ns ms)
  let ?M = "merge_by (data_le fn) ns ms"
  define c where "c = (if data_le fn l r then l else r)"
  define cl where "cl = (if data_le fn l r then ls else l # ls)"
  define cr where "cr = (if data_le fn l r then r # rs else rs)"
  have M: "?M = c # merge_by (data_le fn) cl cr" by (simp add: ns ms c_def cl_def cr_def)
  have msetM: "mset ?M = mset (ns @ ms)" by simp
  then have distM: "distinct (map fst ?M)" and addrM: "addrs ?M = addrs ns \<union> addrs ms"
    using dist distinct_mset [OF msetM] addrs_mset [OF msetM] by simp_all
  have distc: "distinct (map fst ([c] @ cl @ cr))"
    using dist by (auto simp: c_def cl_def cr_def ns ms)
  have sub: "addrs ([c] @ cl @ cr) = addrs ns \<union> addrs ms" by (auto simp: c_def cl_def cr_def ns ms)
  have segc: "\<exists>pr nx. seg h pr [c] nx" using seg by (auto simp: c_def ns ms)
  have "\<exists>pl. seg h pl cl None" "\<exists>pr. seg h pr cr None"
    using seg by (auto simp: cl_def cr_def ns ms)
  then obtain pl pr where segs: "seg h pl cl None" "seg h pr cr None" by blast
  obtain h1 where h1: "set_prev (Some (fst c)) None h = Some h1" "\<exists>nx. seg h1 None [c] nx" "only_at {fst c} h h1"
    using segc set_prev_seg [of h _ c "[]" _ None] by fastforce
  obtain h2 where h2: "set_next (Some (fst c)) None h1 = Some h2" "seg h2 None [c] None" "only_at {fst c} h1 h2"
    using h1(2) set_next_seg [of h1 None "[]" c _ None] by fastforce
  have at2: "only_at {fst c} h h2" by (rule only_at_trans [OF h1(3) h2(3)]) simp
  have segs2: "seg h2 pl cl None" "seg h2 pr cr None"
    by (rule only_at_keeps [OF at2 segs(1)], use distc in \<open>force simp: addrs_def\<close>)
      (rule only_at_keeps [OF at2 segs(2)], use distc in \<open>force simp: addrs_def\<close>)
  have lc: "last_of [c] None = Some (fst c)" and M': "[c] @ merge_by (data_le fn) cl cr = ?M" using M by simp_all
  obtain h3 acc' ls' rs' pl' pr' where
    run: "mmerge_loop fn (first_of cl None) (first_of cr None) (Some (fst c)) h2 =
       Some (first_of ls' None, first_of rs' None, last_of acc' None, h3)" and
    res: "seg h3 None acc' None" "acc' \<noteq> []" "seg h3 pl' ls' None" "seg h3 pr' rs' None" "ls' = [] \<or> rs' = []"
     "acc' @ ls' @ rs' = ?M" "suffix ls' cl" "suffix rs' cr" and
    at3: "only_at (addrs ns \<union> addrs ms) h2 h3"
    using mmerge_loop_spec [OF h2(2) list.distinct(2) segs2 distc, of fn, unfolded lc M' sub] by blast
  have d: "distinct (map fst (acc' @ ls' @ rs'))" using distM res(6) by simp
  have "\<exists>h4. link_rest (first_of ls' None) (first_of rs' None) (last_of acc' None) (last_of ns None) (last_of ms None) h3 =
      Some (last_of ?M None, h4) \<and> seg h4 None ?M None \<and> only_at (addrs ns \<union> addrs ms) h3 h4"
  proof (cases "ls' = []")
    case False
    have "last_of ls' None = last_of ns None"
      using last_suffix [OF res(7) False, of None None] res(7) False
      by (auto simp: cl_def ns last_of_def split: if_splits)
    moreover have "?M = acc' @ ls'" using res(5,6) False by auto
    moreover from this have "last_of ?M None = last_of ls' None" using last_of_any [OF False] by simp
    ultimately show ?thesis
      using merge_end [OF res(1,2,3) False] d addrM False res(5) by (auto simp: link_rest_def)
  next
    case True
    show ?thesis
    proof (cases "rs' = []")
      case False
      have "last_of rs' None = last_of ms None"
        using last_suffix [OF res(8) False, of None None] res(8) False
        by (auto simp: cr_def ms last_of_def split: if_splits)
      moreover have "?M = acc' @ rs'" using res(6) True by auto
      moreover from this have "last_of ?M None = last_of rs' None" using last_of_any [OF False] by simp
      ultimately show ?thesis
        using merge_end [OF res(1,2,4) False] d addrM False True by (auto simp: link_rest_def)
    qed (use True res in \<open>auto simp: link_rest_def\<close>)
  qed
  then obtain h4 where h4: "link_rest (first_of ls' None) (first_of rs' None) (last_of acc' None) (last_of ns None) (last_of ms None) h3 =
      Some (last_of ?M None, h4)"
    "seg h4 None ?M None" "only_at (addrs ns \<union> addrs ms) h3 h4"
    by blast
  obtain h5 where h5: "set_prev (Some (fst c)) (last_of ?M None) h4 = Some h5" "seg h5 (last_of ?M None) ?M None"
      "only_at (addrs ns \<union> addrs ms) h4 h5"
    using set_prev_first [OF h4(2) distM, where x = None and v = "last_of ?M None"] addrM unfolding M by auto
  have "alpm_list_mmerge fn p q h = Some (Some (fst c), h5)"
    using run h4(1) h1(1) h2(1) h5(1) seg p
    by (cases "data_le fn l r")
      (simp_all add: alpm_list_mmerge_def node_at_def ns ms Let_def c_def cl_def cr_def)
  moreover have "only_at (addrs ns \<union> addrs ms) h h5"
  proof -
    have "fst c \<in> addrs ns \<union> addrs ms" by (auto simp: c_def ns ms)
    then have "only_at (addrs ns \<union> addrs ms) h h3" by (intro only_at_trans [OF at2 at3]) auto
    then have "only_at (addrs ns \<union> addrs ms) h h4" by (rule only_at_trans [OF _ h4(3)]) simp
    then show ?thesis by (rule only_at_trans [OF _ h5(3)]) simp
  qed
  ultimately show ?thesis using h5(2) distM unfolding is_list_def M by auto
qed

fun msort_by :: "('a \<Rightarrow> 'a \<Rightarrow> bool) \<Rightarrow> 'a list \<Rightarrow> 'a list" where
  "msort_by le [] = []"
| "msort_by le [x] = [x]"
| "msort_by le (x # y # zs) =
     (let xs = x # y # zs; half = length xs div 2
      in merge_by le (msort_by le (take half xs)) (msort_by le (drop half xs)))"

lemma msort_by_split:
  "length xs > 1 \<Longrightarrow> msort_by le xs =
     merge_by le (msort_by le (take (length xs div 2) xs)) (msort_by le (drop (length xs div 2) xs))"
  by (induction le xs rule: msort_by.induct) (simp_all add: Let_def)

lemma msort_by_short: "length xs \<le> 1 \<Longrightarrow> msort_by le xs = xs"
  by (induction le xs rule: msort_by.induct) simp_all

lemma msort_induct [case_names short split]:
  assumes "\<And>xs. length xs \<le> 1 \<Longrightarrow> P xs"
    and "\<And>xs. length xs > 1 \<Longrightarrow> P (take (length xs div 2) xs) \<Longrightarrow> P (drop (length xs div 2) xs) \<Longrightarrow> P xs"
  shows "P xs"
proof (induction xs rule: length_induct)
  case (1 xs)
  then show ?case by (cases "length xs > 1") (auto intro: assms)
qed

lemma msort_by_mset [simp]: "mset (msort_by le xs) = mset xs"
proof (induction xs rule: msort_induct)
  case (split xs)
  have "mset (take (length xs div 2) xs) + mset (drop (length xs div 2) xs) = mset xs"
    by (metis append_take_drop_id mset_append)
  with split show ?case by (simp add: msort_by_split)
qed (simp add: msort_by_short)

lemma msort_by_map: "map f (msort_by (\<lambda>x y. le (f x) (f y)) xs) = msort_by le (map f xs)"
proof (induction xs rule: msort_induct)
  case (split xs)
  then show ?case
    by (simp add: msort_by_split [of xs] msort_by_split [of "map f xs"] merge_by_map take_map drop_map)
qed (simp add: msort_by_short)

lemma nth_seg:
  "seg h pr ns nx \<Longrightarrow> k < length ns \<Longrightarrow> alpm_list_nth h (first_of ns x) k = Some (Some (fst (ns ! k)))"
proof (induction ns arbitrary: pr k x)
  case (Cons n ns)
  show ?case
  proof (cases k)
    case (Suc m)
    with Cons.prems have "first_of ns nx = first_of ns x" by (intro first_of_any) auto
    with Suc Cons show ?thesis by (simp add: node_at_def) metis
  qed simp
qed simp

text \<open>Cutting a list in two: what the sort does before it recurs.\<close>

lemma cut_spec:
  assumes "is_list h p (ns @ ms)" and "ns \<noteq> []" and "ms \<noteq> []"
  shows "\<exists>h1 h2 h3. alpm_list_nth h p (length ns - 1) = Some (last_of ns None) \<and>
    map_option ln_next (node_at h (last_of ns None)) = Some (first_of ms None) \<and>
    set_next (last_of ns None) None h = Some h1 \<and>
    map_option ln_prev (node_at h1 p) = Some (last_of ms None) \<and>
    set_prev (first_of ms None) (last_of ms None) h1 = Some h2 \<and>
    set_prev p (last_of ns None) h2 = Some h3 \<and>
    is_list h3 p ns \<and> is_list h3 (first_of ms None) ms \<and> only_at (addrs ns \<union> addrs ms) h h3"
proof -
  have lm: "last_of ms x = last_of ms None" for x by (rule last_of_any [OF assms(3)])
  have p: "p = first_of ns None" using assms(1) first_of_any [OF assms(2)] by (auto simp: is_list_def)
  have dist: "distinct (map fst ns)" "distinct (map fst ms)" and disj: "addrs ns \<inter> addrs ms = {}"
    using assms(1) by (auto simp: is_list_def addrs_def)
  have ln: "last_of ns x = last_of ns None" for x by (rule last_of_any [OF assms(2)])
  from assms(1) have seg: "seg h (last_of ms None) ns (first_of ms None)" "seg h (last_of ns None) ms None"
    by (simp_all add: is_list_def lm [of "last_of ns None"] ln [of "last_of ms None"])
  have lastn: "fst (ns ! (length ns - 1)) = fst (last ns)" using assms(2) by (simp add: last_conv_nth)
  have nth: "alpm_list_nth h p (length ns - 1) = Some (last_of ns None)"
    using nth_seg [OF seg(1), of "length ns - 1" None] assms(2) lastn by (simp add: p last_of_def)
  have nxt: "map_option ln_next (node_at h (last_of ns None)) = Some (first_of ms None)"
    using seg(1) assms(2) by (cases ns rule: rev_cases) (auto simp: node_at_def)
  obtain h1 where h1: "set_next (last_of ns None) None h = Some h1" "seg h1 (last_of ms None) ns None" "only_at (addrs ns) h h1"
    using set_next_last [OF seg(1) dist(1) assms(2)] by blast
  have "seg h1 (last_of ns None) ms None" by (rule only_at_keeps [OF h1(3) seg(2) disj])
  then obtain h2 where h2: "set_prev (first_of ms None) (last_of ms None) h1 = Some h2"
      "seg h2 (last_of ms None) ms None" "only_at (addrs ms) h1 h2"
    using set_prev_first [OF _ dist(2) assms(3)] by blast
  have "seg h2 (last_of ms None) ns None" by (rule only_at_keeps [OF h2(3) h1(2)]) (use disj in auto)
  then obtain h3 where h3: "set_prev p (last_of ns None) h2 = Some h3" "seg h3 (last_of ns None) ns None"
      "only_at (addrs ns) h2 h3"
    using set_prev_first [OF _ dist(1) assms(2)] p by blast
  have "seg h3 (last_of ms None) ms None" by (rule only_at_keeps [OF h3(3) h2(2) disj])
  moreover have "only_at (addrs ns \<union> addrs ms) h h3"
    by (rule only_at_trans [OF only_at_trans [OF h1(3) h2(3) subset_refl] h3(3)]) auto
  moreover have "map_option ln_prev (node_at h1 p) = Some (last_of ms None)"
    using node_at_first [OF h1(2) assms(2), of None] by (simp add: p)
  ultimately show ?thesis using nth nxt h1(1) h2(1) h3(1,2) dist p by (auto simp: is_list_def)
qed

lemma msort_spec:
  "is_list h p ns \<Longrightarrow>
   \<exists>h'. alpm_list_msort fn p (length ns) h = Some (first_of (msort_by (data_le fn) ns) None, h') \<and>
     is_list h' (first_of (msort_by (data_le fn) ns) None) (msort_by (data_le fn) ns) \<and> only_at (addrs ns) h h'"
proof (induction ns arbitrary: h p rule: msort_induct)
  case (short ns)
  then show ?case by (simp add: msort_by_short is_list_def)
next
  case (split ns)
  let ?half = "length ns div 2"
  define ls rs where "ls = take ?half ns" and "rs = drop ?half ns"
  have ns: "ns = ls @ rs" and ne: "ls \<noteq> []" "rs \<noteq> []" and len: "length ls = ?half" "length rs = length ns - ?half"
    using split(1) by (auto simp: ls_def rs_def)
  obtain h1 h2 h3 where cut: "alpm_list_nth h p (?half - 1) = Some (last_of ls None)"
    "map_option ln_next (node_at h (last_of ls None)) = Some (first_of rs None)"
    "set_next (last_of ls None) None h = Some h1"
    "map_option ln_prev (node_at h1 p) = Some (last_of rs None)"
    "set_prev (first_of rs None) (last_of rs None) h1 = Some h2"
    "set_prev p (last_of ls None) h2 = Some h3"
    "is_list h3 p ls" "is_list h3 (first_of rs None) rs" "only_at (addrs ls \<union> addrs rs) h h3"
    using cut_spec [OF _ ne, of h p, unfolded len] split.prems unfolding ns by blast
  have disj: "addrs ls \<inter> addrs rs = {}" using split.prems by (auto simp: is_list_def ns addrs_def)
  let ?L = "msort_by (data_le fn) ls" and ?R = "msort_by (data_le fn) rs"
  obtain h4 where left: "alpm_list_msort fn p ?half h3 = Some (first_of ?L None, h4)" "is_list h4 (first_of ?L None) ?L"
      "only_at (addrs ls) h3 h4"
    using split.IH(1) [folded ls_def, OF cut(7)] len by auto
  have "is_list h4 (first_of rs None) rs"
    by (rule list_keeps [OF left(3) cut(8) disj])
  then obtain h5 where right: "alpm_list_msort fn (first_of rs None) (length ns - ?half) h4 = Some (first_of ?R None, h5)"
      "is_list h5 (first_of ?R None) ?R" "only_at (addrs rs) h4 h5"
    using split.IH(2) [folded rs_def] len by metis
  have addr: "addrs ?L = addrs ls" "addrs ?R = addrs rs" using addrs_mset msort_by_mset by blast+
  have list5: "is_list h5 (first_of ?L None) ?L"
    by (rule list_keeps [OF right(3) left(2)]) (use disj addr in auto)
  obtain h6 where merge: "alpm_list_mmerge fn (first_of ?L None) (first_of ?R None) h5 =
        Some (first_of (merge_by (data_le fn) ?L ?R) None, h6)"
      "is_list h6 (first_of (merge_by (data_le fn) ?L ?R) None) (merge_by (data_le fn) ?L ?R)"
      "only_at (addrs ls \<union> addrs rs) h5 h6"
    using mmerge_spec [OF list5 right(2), unfolded addr, OF disj, of fn] by blast
  have eq: "msort_by (data_le fn) ns = merge_by (data_le fn) ?L ?R"
    using msort_by_split [OF split(1)] by (simp add: ls_def rs_def)
  have "alpm_list_msort fn p (length ns) h = Some (first_of (merge_by (data_le fn) ?L ?R) None, h6)"
    using cut left(1) right(1) merge(1) split(1)
    by (subst alpm_list_msort.simps) (auto simp: Let_def simp del: alpm_list_msort.simps)
  moreover have "only_at (addrs ns) h h6"
  proof -
    have "only_at (addrs ns) h h4" by (rule only_at_trans [OF cut(9) left(3)]) (simp add: ns)
    then have "only_at (addrs ns) h h5" by (rule only_at_trans [OF _ right(3)]) (simp add: ns)
    then show ?thesis by (rule only_at_trans [OF _ merge(3)]) (simp add: ns)
  qed
  ultimately show ?case using merge(2) unfolding eq by blast
qed

text \<open>A comparison function of C and a comparator of the library that agree.\<close>

definition compares :: "('a \<Rightarrow> 'a \<Rightarrow> int) \<Rightarrow> 'a comparator \<Rightarrow> bool" where
  "compares fn cmp \<longleftrightarrow> (\<forall>a b. compare cmp a b =
     (if fn a b < 0 then comp.Less else if fn a b = 0 then comp.Equiv else comp.Greater))"

lemma compares_le: "compares fn cmp \<Longrightarrow> fn a b \<le> 0 \<longleftrightarrow> compare cmp a b \<noteq> comp.Greater"
  by (auto simp: compares_def)

lemma merge_by_merge: "compares fn cmp \<Longrightarrow> merge_by (\<lambda>x y. fn x y \<le> 0) xs ys = Sorting_Algorithms.merge cmp xs ys"
  by (induction "\<lambda>x y. fn x y \<le> 0" xs ys rule: merge_by.induct) (auto simp: compares_le)

lemma msort_by_sort:
  assumes "compares fn cmp"
  shows "msort_by (\<lambda>x y. fn x y \<le> 0) xs = Sorting_Algorithms.sort cmp xs"
proof (induction xs rule: msort_induct)
  case (short xs)
  then show ?case by (cases xs) auto
next
  case (split xs)
  then show ?case
    using sort_by_mergesort_rec [of cmp xs] by (simp add: msort_by_split merge_by_merge [OF assms])
qed

subsection \<open>Reversing, inserting and removing: facts\<close>

lemma reverse_spec:
  assumes "heap_ok h" and "is_list h p ns" and "length ns \<le> lh_room h"
  shows "\<exists>h' ns'. alpm_list_reverse p h = Some (first_of ns' None, h') \<and> heap_ok h' \<and> is_list h' (first_of ns' None) ns' \<and>
    map snd ns' = rev (map snd ns) \<and> addrs ns' \<subseteq> {lh_brk h..} \<and> below {} h h'"
proof (cases "ns = []")
  case True
  then show ?thesis using assms by (intro exI [of _ h] exI [of _ "[]"]) (simp add: alpm_list_reverse_def is_list_def)
next
  case False
  from assms(2) have p: "p = first_of ns None" and dist: "distinct (map fst ns)" and seg: "seg h (last_of ns None) ns None"
    by (auto simp: is_list_def)
  note read = node_at_first [OF seg False, of None, folded p]
  have pne: "p \<noteq> None" using False by (simp add: p)
  obtain h1 where h1: "set_prev p None h = Some h1" "seg h1 None ns None" "only_at (addrs ns) h h1"
    using set_prev_first [OF seg dist False, where x = None and v = None] p by blast
  have "addrs ns \<subseteq> {..<lh_brk h}" using seg_brk [OF assms(1) seg] by auto
  then have ok1: "heap_ok h1" by (rule only_at_ok [OF h1(3) assms(1)])
  have brk: "lh_brk h1 = lh_brk h" "lh_room h1 = lh_room h" using h1(3) by (auto simp: only_at_def)
  obtain h2 ns' where copy: "copy_loop ln_prev (last_of ns None) None h1 = Some (first_of ns' None, h2)" "heap_ok h2"
      "below {} h1 h2" "is_list h2 (first_of ns' None) ns'" "map snd ns' = rev (map snd ns)" "addrs ns' \<subseteq> {lh_brk h..}"
    using copy_loop_spec [OF ok1 seg_walks_back [OF h1(2)], of "[]"] assms(3) brk by (auto simp: is_list_def rev_map)
  have "seg h2 None ns None" by (rule below_seg [OF copy(3) ok1 _ h1(2)]) simp
  then obtain h3 where h3: "set_prev p (last_of ns None) h2 = Some h3" "seg h3 (last_of ns None) ns None" "only_at (addrs ns) h2 h3"
    using set_prev_first [OF _ dist False, where x = None and v = "last_of ns None"] p by blast
  have disj: "addrs ns \<inter> addrs ns' = {}" using copy(6) \<open>addrs ns \<subseteq> {..<lh_brk h}\<close> by fastforce
  have "is_list h3 (first_of ns' None) ns'" by (rule list_keeps [OF h3(3) copy(4) disj])
  moreover have "heap_ok h3"
    by (rule only_at_ok [OF h3(3) copy(2)]) (use copy(3) \<open>addrs ns \<subseteq> {..<lh_brk h}\<close> brk in \<open>auto simp: below_def\<close>)
  moreover have "below {} h h3"
  proof -
    have "lh_cells h3 a = lh_cells h a" if "a < lh_brk h" for a
    proof (cases "a \<in> addrs ns")
      case True
      then show ?thesis by (rule seg_same [OF seg h3(2)])
    next
      case False
      then show ?thesis using that h1(3) copy(3) h3(3) brk by (simp add: only_at_def below_def)
    qed
    then show ?thesis using copy(3) h3(3) brk by (simp add: below_def only_at_def)
  qed
  moreover have "alpm_list_reverse p h = Some (first_of ns' None, h3)"
    using pne read h1(1) copy(1) h3(1) by (auto simp: alpm_list_reverse_def alpm_list_last_def)
  ultimately show ?thesis using copy by blast
qed

lemma insertion_point_spec:
  "seg h pr ns None \<Longrightarrow> insertion_point h fn d prev (first_of ns None) =
     Some (last_of (takeWhile (\<lambda>n. \<not> fn d (snd n) \<le> 0) ns) prev, first_of (dropWhile (\<lambda>n. \<not> fn d (snd n) \<le> 0) ns) None)"
proof (induction ns arbitrary: pr prev)
  case Nil
  then show ?case by (subst insertion_point.simps) simp
next
  case (Cons n ns)
  then show ?case using Cons.IH [of "Some (fst n)" "Some (fst n)"] by (subst insertion_point.simps) (simp add: node_at_def)
qed

text \<open>Linking a fresh node in between.\<close>

lemma insert_between:
  assumes "is_list h p (xs @ ys)" and "xs @ ys \<noteq> []" and "seg h pr [(a, d)] nx" and "a \<notin> addrs (xs @ ys)"
  shows "\<exists>h'. insert_node p (Some a) (last_of xs None) (first_of ys None) h = Some (first_of (xs @ (a, d) # ys) None, h') \<and>
    is_list h' (first_of (xs @ (a, d) # ys) None) (xs @ (a, d) # ys) \<and> only_at (insert a (addrs (xs @ ys))) h h'"
proof -
  from assms(1,4) have dist: "distinct (map fst xs)" "distinct (map fst ys)" and disj: "addrs xs \<inter> addrs ys = {}"
    and new: "a \<notin> addrs xs" "a \<notin> addrs ys" and p: "p = first_of (xs @ ys) None"
    and seg: "seg h (last_of (xs @ ys) None) (xs @ ys) None"
    and all: "distinct (map fst (xs @ (a, d) # ys))"
    by (auto simp: is_list_def addrs_def)
  have link: "\<exists>h1 h2. set_prev (Some a) u h = Some h1 \<and> set_next (Some a) v h1 = Some h2 \<and>
      seg h2 u [(a, d)] v \<and> only_at {a} h h2" for u v
    using assms(3) by (auto simp: set_node_Some only_at_def)
  show ?thesis
  proof (cases "xs = []")
    case True
    then have ys: "ys \<noteq> []" using assms(2) by simp
    let ?l = "last_of ys None"
    obtain h1 h2 where h2: "set_prev (Some a) ?l h = Some h1" "set_next (Some a) p h1 = Some h2" "seg h2 ?l [(a, d)] p"
        "only_at {a} h h2"
      using link by blast
    have segy: "seg h ?l ys None" using seg True by simp
    have py: "p = first_of ys None" using p True by simp
    have sy: "seg h2 ?l ys None" by (rule only_at_keeps [OF h2(4) segy]) (use new in auto)
    obtain h3 where h3: "set_prev p (Some a) h2 = Some h3" "seg h3 (Some a) ys None" "only_at (addrs ys) h2 h3"
      using set_prev_first [OF sy dist(2) ys, where x = None and v = "Some a"] unfolding py by blast
    have "seg h3 ?l [(a, d)] p" by (rule only_at_keeps [OF h3(3) h2(3)]) (use new in auto)
    then have "is_list h3 (Some a) ((a, d) # ys)"
      using h3(2) all True last_of_any [OF ys, of "Some a" None] p by (simp add: is_list_def)
    moreover have "only_at (insert a (addrs (xs @ ys))) h h3" by (rule only_at_trans [OF h2(4) h3(3)]) (simp add: True)
    ultimately show ?thesis
      using True h2(1,2) h3(1) node_at_first [OF segy ys, of None] p by (simp add: insert_node_def)
  next
    case False
    then have pn: "p = first_of xs v" for v using p first_of_any [OF False] by simp
    show ?thesis
    proof (cases "ys = []")
      case True
      let ?l = "last_of xs None"
      have segx: "seg h ?l xs None" using seg True by simp
      obtain h1 h2 where h2: "set_prev (Some a) ?l h = Some h1" "set_next (Some a) None h1 = Some h2" "seg h2 ?l [(a, d)] None"
          "only_at {a} h h2"
        using link by blast
      have "seg h2 ?l xs None" by (rule only_at_keeps [OF h2(4) segx]) (use new in auto)
      then obtain h3 where h3: "set_next ?l (Some a) h2 = Some h3" "seg h3 ?l xs (Some a)" "only_at (addrs xs) h2 h3"
        using set_next_last [OF _ dist(1) False] by blast
      obtain h4 where h4: "set_prev p (Some a) h3 = Some h4" "seg h4 (Some a) xs (Some a)" "only_at (addrs xs) h3 h4"
        using set_prev_first [OF h3(2) dist(1) False, where x = None and v = "Some a"] pn by metis
      have at: "only_at (addrs xs) h2 h4" by (rule only_at_trans [OF h3(3) h4(3)]) simp
      have "seg h4 ?l [(a, d)] None" by (rule only_at_keeps [OF at h2(3)]) (use new in auto)
      then have "is_list h4 p (xs @ [(a, d)])"
        using h4(2) all True last_of_any [OF False, of "Some a" None] pn by (simp add: is_list_def)
      moreover have "only_at (insert a (addrs (xs @ ys))) h h4" by (rule only_at_trans [OF h2(4) at]) auto
      ultimately show ?thesis
        using True False h2(1,2) h3(1) h4(1) pn by (auto simp: insert_node_def)
    next
      case ys: False
      let ?l = "last_of xs None" and ?f = "first_of ys None" and ?e = "last_of ys None"
      have ee: "last_of ys u = ?e" and ll: "last_of xs u = ?l" for u using last_of_any ys False by blast+
      have segs: "seg h ?e xs ?f" "seg h ?l ys None" using seg ee [of ?l] ll [of ?e] by auto
      obtain h1 h2 where h2: "set_prev (Some a) ?l h = Some h1" "set_next (Some a) ?f h1 = Some h2" "seg h2 ?l [(a, d)] ?f"
          "only_at {a} h h2"
        using link by blast
      have sx: "seg h2 ?e xs ?f" by (rule only_at_keeps [OF h2(4) segs(1)]) (use new in auto)
      have "seg h2 ?l ys None" by (rule only_at_keeps [OF h2(4) segs(2)]) (use new in auto)
      then obtain h3 where h3: "set_prev ?f (Some a) h2 = Some h3" "seg h3 (Some a) ys None" "only_at (addrs ys) h2 h3"
        using set_prev_first [OF _ dist(2) ys] by blast
      have "seg h3 ?e xs ?f" by (rule only_at_keeps [OF h3(3) sx]) (use disj in auto)
      then obtain h4 where h4: "set_next ?l (Some a) h3 = Some h4" "seg h4 ?e xs (Some a)" "only_at (addrs xs) h3 h4"
        using set_next_last [OF _ dist(1) False] by blast
      have "seg h4 (Some a) ys None" by (rule only_at_keeps [OF h4(3) h3(2) disj])
      moreover have at: "only_at (addrs xs \<union> addrs ys) h2 h4" by (rule only_at_trans [OF h3(3) h4(3)]) auto
      moreover have "seg h4 ?l [(a, d)] ?f" by (rule only_at_keeps [OF at h2(3)]) (use new in auto)
      ultimately have "is_list h4 p (xs @ (a, d) # ys)"
        using h4(2) all ee [of "Some a"] ll [of ?e] pn by (simp add: is_list_def)
      moreover have "only_at (insert a (addrs (xs @ ys))) h h4" by (rule only_at_trans [OF h2(4) at]) auto
      moreover have "?l \<noteq> None" "?f \<noteq> None" using ys False by auto
      ultimately show ?thesis
        using ys False h2(1,2) h3(1) h4(1) pn by (auto simp: insert_node_def)
    qed
  qed
qed

lemma add_sorted_spec:
  assumes "heap_ok h" and "is_list h p ns" and "lh_room h > 0"
  shows "\<exists>h' ns'. alpm_list_add_sorted fn p d h = Some (first_of ns' None, h') \<and> is_list h' (first_of ns' None) ns' \<and>
    heap_ok h' \<and> below (addrs ns) h h' \<and>
    map snd ns' = takeWhile (\<lambda>x. \<not> fn d x \<le> 0) (map snd ns) @ d # dropWhile (\<lambda>x. \<not> fn d x \<le> 0) (map snd ns)"
proof (cases "ns = []")
  case True
  then have "p = None" using assms(2) by (simp add: is_list_def)
  with True assms append_spec [OF assms, of d] show ?thesis
    by (auto simp: alpm_list_add_sorted_def alpm_list_add_def intro!: exI [of _ "[(lh_brk h, d)]"])
next
  case False
  let ?a = "lh_brk h"
  define xs ys where "xs = takeWhile (\<lambda>n. \<not> fn d (snd n) \<le> 0) ns" and "ys = dropWhile (\<lambda>n. \<not> fn d (snd n) \<le> 0) ns"
  have ns: "ns = xs @ ys" by (simp add: xs_def ys_def)
  from assms(2) have p: "p = first_of ns None" and seg: "seg h (last_of ns None) ns None" by (auto simp: is_list_def)
  have new: "?a \<notin> addrs ns" using seg_brk [OF assms(1) seg] by blast
  obtain h0 where h0: "list_malloc h = (Some ?a, h0)" "seg h0 None [(?a, None)] None" "heap_ok h0" "below {} h h0"
      "lh_brk h0 = Suc ?a"
    using malloc_node [OF assms(1,3)] by blast
  obtain h1 where h1: "set_data (Some ?a) d h0 = Some h1" "seg h1 None [(?a, d)] None" "only_at {?a} h0 h1"
    using set_data_seg [OF h0(2)] by blast
  have "seg h0 (last_of ns None) ns None" by (rule below_seg [OF h0(4) assms(1) _ seg]) simp
  then have seg1: "seg h1 (last_of ns None) ns None" by (rule only_at_keeps [OF h1(3)]) (use new in simp)
  then have list1: "is_list h1 p (xs @ ys)" using assms(2) by (simp add: is_list_def ns)
  have point: "insertion_point h1 fn d None p = Some (last_of xs None, first_of ys None)"
    using insertion_point_spec [OF seg1, of fn d None] by (simp add: p xs_def ys_def)
  obtain h2 where h2: "alpm_list_add_sorted fn p d h = Some (first_of (xs @ (?a, d) # ys) None, h2)"
      "is_list h2 (first_of (xs @ (?a, d) # ys) None) (xs @ (?a, d) # ys)" "only_at (insert ?a (addrs ns)) h1 h2"
  proof -
    have "p \<noteq> None" using False by (simp add: p)
    moreover have "xs @ ys \<noteq> []" using False ns by simp
    ultimately have "alpm_list_add_sorted fn p d h = insert_node p (Some ?a) (last_of xs None) (first_of ys None) h1"
      and ne: "xs @ ys \<noteq> []"
      by (auto simp: alpm_list_add_sorted_def h0(1) h1(1) point)
    then show thesis using insert_between [OF list1 ne h1(2)] new that unfolding ns by metis
  qed
  have at: "only_at (insert ?a (addrs ns)) h0 h2" by (rule only_at_trans [OF h1(3) h2(3)]) simp
  have "addrs ns \<subseteq> {..<lh_brk h}" using seg_brk [OF assms(1) seg] by auto
  then have "heap_ok h2" by (intro only_at_ok [OF at h0(3)]) (auto simp: h0(5))
  moreover have "below (addrs ns) h h2" by (rule below_trans [OF h0(4) only_at_below [OF at]]) auto
  moreover have "map snd (xs @ (?a, d) # ys) =
      takeWhile (\<lambda>x. \<not> fn d x \<le> 0) (map snd ns) @ d # dropWhile (\<lambda>x. \<not> fn d x \<le> 0) (map snd ns)"
    by (simp add: xs_def ys_def takeWhile_map dropWhile_map comp_def)
  ultimately show ?thesis using h2(1,2) by blast
qed

lemma insort_split:
  "compares fn cmp \<Longrightarrow>
   takeWhile (\<lambda>x. \<not> fn d x \<le> 0) xs @ d # dropWhile (\<lambda>x. \<not> fn d x \<le> 0) xs = Sorting_Algorithms.insort cmp d xs"
  by (induction xs) (auto simp: compares_le)

text \<open>Taking a node out of a list.\<close>

lemma remove_item_spec:
  assumes "is_list h p (xs @ n # ys)"
  shows "\<exists>h'. alpm_list_remove_item p (Some (fst n)) h = Some (first_of (xs @ ys) None, h') \<and>
    is_list h' (first_of (xs @ ys) None) (xs @ ys) \<and> only_at (addrs (xs @ n # ys)) h h' \<and>
    map_option ln_data (lh_cells h' (fst n)) = Some (snd n)"
proof -
  let ?ns = "xs @ n # ys"
  from assms have dist: "distinct (map fst xs)" "distinct (map fst ys)" and disj: "addrs xs \<inter> addrs ys = {}"
    and nn: "fst n \<notin> addrs xs" "fst n \<notin> addrs ys" and p: "p = first_of ?ns None"
    and seg: "seg h (last_of ?ns None) ?ns None"
    by (auto simp: is_list_def addrs_def)
  have distxy: "distinct (map fst (xs @ ys))" using dist disj by (auto simp: addrs_def)
  show ?thesis
  proof (cases "xs = []")
    case True
    let ?l = "last_of ys (Some (fst n))"
    have segn: "seg h ?l [n] (first_of ys None)" "seg h (Some (fst n)) ys None" using seg True by auto
    have rn: "node_at h (Some (fst n)) = Some \<lparr>ln_data = snd n, ln_prev = ?l, ln_next = first_of ys None\<rparr>"
      using segn(1) by (simp add: node_at_def)
    have pn: "p = Some (fst n)" using p True by simp
    have "\<exists>h1. (if first_of ys None \<noteq> None then set_prev (first_of ys None) ?l h else Some h) = Some h1 \<and>
        seg h1 (last_of ys None) ys None \<and> seg h1 ?l [n] (first_of ys None) \<and> only_at (addrs ys) h h1"
    proof (cases "ys = []")
      case False
      obtain h1 where h1: "set_prev (first_of ys None) ?l h = Some h1" "seg h1 ?l ys None" "only_at (addrs ys) h h1"
        using set_prev_first [OF segn(2) dist(2) False] by blast
      have "seg h1 ?l [n] (first_of ys None)" by (rule only_at_keeps [OF h1(3) segn(1)]) (use nn in auto)
      with h1 False last_of_any [OF False, of "Some (fst n)" None] show ?thesis by simp
    qed (use segn in simp)
    then obtain h1 where h1: "(if first_of ys None \<noteq> None then set_prev (first_of ys None) ?l h else Some h) = Some h1"
        "seg h1 (last_of ys None) ys None" "seg h1 ?l [n] (first_of ys None)" "only_at (addrs ys) h h1" by blast
    obtain h2 where h2: "set_prev (Some (fst n)) None h1 = Some h2" "seg h2 None [n] (first_of ys None)" "only_at {fst n} h1 h2"
      using set_prev_seg [OF h1(3), of None] by auto
    have "seg h2 (last_of ys None) ys None" by (rule only_at_keeps [OF h2(3) h1(2)]) (use nn in auto)
    then have "is_list h2 (first_of ys None) ys" using dist by (simp add: is_list_def)
    moreover have "only_at (addrs ?ns) h h2" by (rule only_at_trans [OF h1(4) h2(3)]) auto
    moreover have "alpm_list_remove_item p (Some (fst n)) h = Some (first_of ys None, h2)"
    proof -
      have "alpm_list_remove_item p (Some (fst n)) h =
          (do { h \<leftarrow> (if first_of ys None \<noteq> None then set_prev (first_of ys None) ?l h else Some h);
                h \<leftarrow> set_prev (Some (fst n)) None h; Some (first_of ys None, h) })"
        unfolding alpm_list_remove_item_def pn rn by (simp add: Let_def)
      then show ?thesis unfolding h1(1) by (simp add: h2(1))
    qed
    ultimately show ?thesis using True h2(2) by auto
  next
    case False
    let ?l = "last_of xs None" and ?e = "last_of ys (Some (fst n))"
    have ll: "last_of xs u = ?l" for u by (rule last_of_any [OF False])
    have segs: "seg h ?e xs (Some (fst n))" "seg h ?l [n] (first_of ys None)" "seg h (Some (fst n)) ys None"
      using seg ll [of ?e] by auto
    have pf: "p = first_of xs None" using p first_of_any [OF False, of "Some (fst n)" None] by simp
    have pne: "p \<noteq> None" "?l \<noteq> None" using False pf by simp_all
    have pn: "p \<noteq> Some (fst n)" using nn(1) False unfolding pf by (cases xs) simp_all
    have rn: "node_at h (Some (fst n)) = Some \<lparr>ln_data = snd n, ln_prev = ?l, ln_next = first_of ys None\<rparr>"
      using segs(2) by (simp add: node_at_def)
    note rp = node_at_first [OF segs(1) False, of None, folded pf]
    show ?thesis
    proof (cases "ys = []")
      case True
      obtain h1 where h1: "set_next ?l None h = Some h1" "seg h1 ?e xs None" "only_at (addrs xs) h h1"
        using set_next_last [OF segs(1) dist(1) False] by blast
      obtain h2 where h2: "set_prev p ?l h1 = Some h2" "seg h2 ?l xs None" "only_at (addrs xs) h1 h2"
        using set_prev_first [OF h1(2) dist(1) False, where x = None and v = ?l] pf by blast
      have at2: "only_at (addrs xs) h h2" by (rule only_at_trans [OF h1(3) h2(3)]) simp
      have "seg h2 ?l [n] None" by (rule only_at_keeps [OF at2]) (use segs(2) nn True in auto)
      then obtain h3 where h3: "set_prev (Some (fst n)) None h2 = Some h3" "seg h3 None [n] None" "only_at {fst n} h2 h3"
        using set_prev_seg [of h2 ?l n "[]" None None] by auto
      have "seg h3 ?l xs None" by (rule only_at_keeps [OF h3(3) h2(2)]) (use nn in auto)
      then have "is_list h3 p xs" using dist pf by (simp add: is_list_def)
      moreover have "only_at (addrs ?ns) h h3" by (rule only_at_trans [OF at2 h3(3)]) auto
      moreover have "alpm_list_remove_item p (Some (fst n)) h = Some (p, h3)"
        using rn rp pn pne h1(1) h2(1) h3(1) True by (auto simp: alpm_list_remove_item_def)
      ultimately show ?thesis using True h3(2) pf by auto
    next
      case ys: False
      have ee: "?e = last_of ys None" by (rule last_of_any [OF ys])
      have "fst (last ys) \<in> addrs ys" using ys by (simp add: addrs_def)
      then have en: "?e \<noteq> Some (fst n)" using nn(2) ys by (auto simp: last_of_def)
      obtain h1 where h1: "set_prev (first_of ys None) ?l h = Some h1" "seg h1 ?l ys None" "only_at (addrs ys) h h1"
        using set_prev_first [OF segs(3) dist(2) ys] by blast
      have "seg h1 ?e xs (Some (fst n))" by (rule only_at_keeps [OF h1(3) segs(1)]) (use disj in auto)
      then obtain h2 where h2: "set_next ?l (first_of ys None) h1 = Some h2" "seg h2 ?e xs (first_of ys None)"
          "only_at (addrs xs) h1 h2"
        using set_next_last [OF _ dist(1) False] by blast
      have "seg h2 ?l ys None" by (rule only_at_keeps [OF h2(3) h1(2) disj])
      with h2(2) have "is_list h2 p (xs @ ys)"
        using distxy ll [of ?e] ee last_of_any [OF ys, of "last_of xs None" None] pf
          first_of_any [OF False, of "first_of ys None" None] by (simp add: is_list_def)
      moreover have at: "only_at (addrs ys \<union> addrs xs) h h2" by (rule only_at_trans [OF h1(3) h2(3)]) auto
      moreover have "seg h2 ?l [n] (first_of ys None)" by (rule only_at_keeps [OF at segs(2)]) (use nn in auto)
      moreover have "alpm_list_remove_item p (Some (fst n)) h = Some (p, h2)"
        using rn rp pn pne h1(1) h2(1) en ys by (auto simp: alpm_list_remove_item_def)
      moreover have "p = first_of (xs @ ys) None" using p first_of_any [OF False] by simp
      moreover have "only_at (addrs ?ns) h h2" using at by (auto simp: only_at_def)
      ultimately show ?thesis by auto
    qed
  qed
qed

lemma find_split: "find P xs = Some x \<Longrightarrow> \<exists>ys zs. xs = ys @ x # zs \<and> (\<forall>y \<in> set ys. \<not> P y) \<and> P x"
proof (induction xs)
  case (Cons a xs)
  show ?case
  proof (cases "P a")
    case True
    with Cons.prems show ?thesis by (intro exI [of _ "[]"] exI [of _ xs]) auto
  next
    case False
    with Cons obtain ys zs where "xs = ys @ x # zs" "\<forall>y \<in> set ys. \<not> P y" "P x" by auto
    with False show ?thesis by (intro exI [of _ "a # ys"] exI [of _ zs]) auto
  qed
qed simp

text \<open>The first element that \<open>P\<close> holds of goes.\<close>

fun remove_first :: "('a \<Rightarrow> bool) \<Rightarrow> 'a list \<Rightarrow> 'a list" where
  "remove_first P [] = []"
| "remove_first P (x # xs) = (if P x then xs else x # remove_first P xs)"

lemma remove_first_split: "\<forall>y \<in> set ys. \<not> P y \<Longrightarrow> P x \<Longrightarrow> remove_first P (ys @ x # zs) = ys @ zs"
  by (induction ys) auto

lemma remove_first_none: "\<forall>y \<in> set ys. \<not> P y \<Longrightarrow> remove_first P ys = ys"
  by (induction ys) auto

lemma remove_spec:
  fixes fn :: list_cmp
  assumes "heap_ok h" and "is_list h p ns" and "needle \<noteq> None"
  defines "P \<equiv> \<lambda>d. d \<noteq> None \<and> fn d needle = 0"
  shows "\<exists>h' ns'. alpm_list_remove p needle fn h =
      Some (first_of ns' None, Option.bind (find P (map snd ns)) (\<lambda>d. d), h') \<and>
    is_list h' (first_of ns' None) ns' \<and> heap_ok h' \<and> only_at (addrs ns) h h' \<and>
    map snd ns' = remove_first P (map snd ns) \<and> addrs ns' \<subseteq> addrs ns"
proof -
  have search: "remove_search h p needle fn = Some (map_option fst (find (\<lambda>n. P (snd n)) ns))"
    using search_walks [OF list_walks [OF assms(2)]] by (simp add: P_def)
  have found: "find P (map snd ns) = map_option snd (find (\<lambda>n. P (snd n)) ns)"
    by (induction ns) auto
  show ?thesis
  proof (cases "find (\<lambda>n. P (snd n)) ns")
    case None
    then have "\<forall>d \<in> set (map snd ns). \<not> P d" by (auto simp: find_None_iff)
    moreover have "p = first_of ns None" using assms(2) by (simp add: is_list_def)
    ultimately show ?thesis
      using None search assms(1-3) found
      by (intro exI [of _ h] exI [of _ ns]) (simp add: alpm_list_remove_def remove_first_none)
  next
    case (Some n)
    then obtain xs ys where ns: "ns = xs @ n # ys" and xs: "\<forall>y \<in> set xs. \<not> P (snd y)" and n: "P (snd n)"
      using find_split by fast
    obtain h1 where h1: "alpm_list_remove_item p (Some (fst n)) h = Some (first_of (xs @ ys) None, h1)"
        "is_list h1 (first_of (xs @ ys) None) (xs @ ys)" "only_at (addrs ns) h h1"
        "map_option ln_data (lh_cells h1 (fst n)) = Some (snd n)"
      using remove_item_spec [of h p xs n ys] assms(2) unfolding ns by blast
    then obtain c where c: "lh_cells h1 (fst n) = Some c" "ln_data c = snd n" by auto
    let ?h = "h1\<lparr>lh_cells := (lh_cells h1)(fst n := None)\<rparr>"
    have at: "only_at {fst n} h1 ?h" by (simp add: only_at_def)
    have "fst n \<notin> addrs (xs @ ys)" using assms(2) by (auto simp: is_list_def ns addrs_def)
    then have "is_list ?h (first_of (xs @ ys) None) (xs @ ys)" by (intro list_keeps [OF at h1(2)]) simp
    moreover have "only_at (addrs ns) h ?h" by (rule only_at_trans [OF h1(3) at]) (simp add: ns)
    moreover have "heap_ok ?h"
    proof -
      have "addrs ns \<subseteq> {..<lh_brk h}" using assms(2) seg_brk [OF assms(1)] by (auto simp: is_list_def)
      from only_at_ok [OF h1(3) assms(1) this] show ?thesis by (simp add: heap_ok_def)
    qed
    moreover have "alpm_list_remove p needle fn h = Some (first_of (xs @ ys) None, snd n, ?h)"
      using assms(3) search Some h1(1) c by (auto simp: alpm_list_remove_def node_at_def list_free_node_def)
    moreover have "map snd (xs @ ys) = remove_first P (map snd ns)"
      using remove_first_split [of "map snd xs" P "snd n" "map snd ys"] xs n by (simp add: ns)
    ultimately show ?thesis using found Some by (intro exI [of _ ?h] exI [of _ "xs @ ys"]) (auto simp: ns)
  qed
qed

subsection \<open>Differences: facts\<close>

fun diff_by :: "('a \<Rightarrow> 'a \<Rightarrow> int) \<Rightarrow> 'a list \<Rightarrow> 'a list \<Rightarrow> 'a list" where
  "diff_by fn [] ys = []"
| "diff_by fn xs [] = xs"
| "diff_by fn (x # xs) (y # ys) =
     (if fn x y < 0 then x # diff_by fn xs (y # ys)
      else if fn x y > 0 then diff_by fn (x # xs) ys
      else diff_by fn xs ys)"

lemma diff_by_Nil [simp]: "diff_by fn xs [] = xs"
  by (cases xs) auto

lemma length_diff_by: "length (diff_by fn xs ys) \<le> length xs"
  by (induction fn xs ys rule: diff_by.induct) auto

lemma add_rest_none: "walks h ln_next p ns \<Longrightarrow> add_rest p None h = Some (None, h)"
proof (induction ns arbitrary: p)
  case Nil
  then show ?case by (subst add_rest.simps) simp
next
  case (Cons n ns)
  then show ?case by (subst add_rest.simps) (auto simp: node_at_def add_out_def)
qed

lemma add_out_some:
  assumes "heap_ok h" and "is_list h l acc" and "lh_room h > 0"
  shows "\<exists>h' a. add_out (Some l) d h = Some (Some (first_of (acc @ [(a, d)]) None), h') \<and>
    is_list h' (first_of (acc @ [(a, d)]) None) (acc @ [(a, d)]) \<and> heap_ok h' \<and> below (addrs acc) h h' \<and>
    lh_room h' = lh_room h - 1 \<and> a \<ge> lh_brk h \<and> lh_brk h \<le> lh_brk h'"
  using append_spec [OF assms, of d] by (auto simp: add_out_def alpm_list_add_def)

lemma add_rest_some:
  "heap_ok h \<Longrightarrow> walks h ln_next p ns \<Longrightarrow> is_list h l acc \<Longrightarrow> addrs acc \<inter> addrs ns = {} \<Longrightarrow> length ns \<le> lh_room h \<Longrightarrow>
   \<exists>h' acc'. add_rest p (Some l) h = Some (Some (first_of acc' None), h') \<and> is_list h' (first_of acc' None) acc' \<and>
     map snd acc' = map snd acc @ map snd ns \<and> heap_ok h' \<and> below (addrs acc) h h' \<and> addrs acc' \<subseteq> addrs acc \<union> {lh_brk h..}"
proof (induction ns arbitrary: p h l acc)
  case Nil
  then have "add_rest p (Some l) h = Some (Some l, h)" by (subst add_rest.simps) simp
  moreover have "l = first_of acc None" using Nil by (simp add: is_list_def)
  ultimately show ?case using Nil by (intro exI [of _ h] exI [of _ acc]) auto
next
  case (Cons n ns)
  then obtain c where c: "p = Some (fst n)" "lh_cells h (fst n) = Some c" "ln_data c = snd n" "walks h ln_next (ln_next c) ns" by auto
  have nb: "fst n < lh_brk h" using walks_brk [OF Cons.prems(1,2)] by simp
  have "lh_room h > 0" using Cons.prems(5) by simp
  from add_out_some [OF Cons.prems(1,3) this, of "snd n"] obtain h1 a where
    h1: "add_out (Some l) (snd n) h = Some (Some (first_of (acc @ [(a, snd n)]) None), h1)"
    "is_list h1 (first_of (acc @ [(a, snd n)]) None) (acc @ [(a, snd n)])" "heap_ok h1" "below (addrs acc) h h1"
    "lh_room h1 = lh_room h - 1" "a \<ge> lh_brk h" "lh_brk h \<le> lh_brk h1" by blast
  have "lh_cells h1 (fst n) = Some c" using h1(4) c(2) nb Cons.prems(4) by (auto simp: below_def)
  then have eq: "add_rest p (Some l) h = add_rest (ln_next c) (Some (first_of (acc @ [(a, snd n)]) None)) h1"
    using c h1(1) by (subst add_rest.simps) (simp add: node_at_def)
  have w: "walks h1 ln_next (ln_next c) ns"
    by (rule below_walks [OF h1(4) Cons.prems(1) _ c(4)]) (use Cons.prems(4) in auto)
  have "addrs (acc @ [(a, snd n)]) \<inter> addrs ns = {}"
    using Cons.prems(4) walks_brk [OF Cons.prems(1) c(4)] h1(6) by fastforce
  from Cons.IH [OF h1(3) w h1(2) this] Cons.prems(5) h1(5) obtain h' acc' where
    r: "add_rest (ln_next c) (Some (first_of (acc @ [(a, snd n)]) None)) h1 = Some (Some (first_of acc' None), h')"
    "is_list h' (first_of acc' None) acc'" "map snd acc' = map snd (acc @ [(a, snd n)]) @ map snd ns" "heap_ok h'"
    "below (addrs (acc @ [(a, snd n)])) h1 h'" "addrs acc' \<subseteq> addrs (acc @ [(a, snd n)]) \<union> {lh_brk h1..}"
    by fastforce
  have "below (addrs acc) h h'" by (rule below_trans [OF h1(4) r(5)]) (use h1(6) in auto)
  moreover have "addrs acc' \<subseteq> addrs acc \<union> {lh_brk h..}" using r(6) h1(6,7) by fastforce
  ultimately show ?case unfolding eq using r(1-4) by (intro exI [of _ h'] exI [of _ acc']) simp
qed

lemma diff_loop_spec:
  "heap_ok h \<Longrightarrow> walks h ln_next p ns \<Longrightarrow> walks h ln_next q ms \<Longrightarrow> is_list h l acc \<Longrightarrow>
   addrs acc \<inter> (addrs ns \<union> addrs ms) = {} \<Longrightarrow> length ns \<le> lh_room h \<Longrightarrow>
   \<exists>h' acc'. diff_loop fn p q (Some l) None h = Some (Some (first_of acc' None), None, h') \<and>
     is_list h' (first_of acc' None) acc' \<and> map snd acc' = map snd acc @ diff_by fn (map snd ns) (map snd ms) \<and>
     heap_ok h' \<and> below (addrs acc) h h' \<and> addrs acc' \<subseteq> addrs acc \<union> {lh_brk h..}"
proof (induction "\<lambda>(n :: nat \<times> ptr) (m :: nat \<times> ptr). fn (snd n) (snd m)" ns ms arbitrary: p q h l acc rule: diff_by.induct)
  case (1 ms)
  then have "add_rest p (Some l) h = Some (Some l, h)" by (subst add_rest.simps) simp
  moreover have "l = first_of acc None" using 1 by (simp add: is_list_def)
  moreover have "diff_loop fn p q (Some l) None h = do {
      (o1, h) \<leftarrow> add_rest p (Some l) h; (o2, h) \<leftarrow> add_rest q None h; Some (o1, o2, h) }"
    using 1 by (subst diff_loop.simps) simp
  ultimately show ?case using 1 add_rest_none [OF 1(3)] by (intro exI [of _ h] exI [of _ acc]) auto
next
  case (2 n ns)
  have "add_rest q None h' = Some (None, h')" for h' using 2 by (subst add_rest.simps) simp
  moreover have "diff_loop fn p q (Some l) None h = do {
      (o1, h) \<leftarrow> add_rest p (Some l) h; (o2, h) \<leftarrow> add_rest q None h; Some (o1, o2, h) }"
    using 2 by (subst diff_loop.simps) simp
  moreover from 2 have "addrs acc \<inter> addrs (n # ns) = {}" by auto
  ultimately show ?case using add_rest_some [OF 2(1,2,4) _ 2(6)] by fastforce
next
  case (3 n ns m ms)
  then obtain c where c: "p = Some (fst n)" "lh_cells h (fst n) = Some c" "ln_data c = snd n" "walks h ln_next (ln_next c) ns" by auto
  from 3 obtain d where d: "q = Some (fst m)" "lh_cells h (fst m) = Some d" "ln_data d = snd m" "walks h ln_next (ln_next d) ms" by auto
  have unfold: "diff_loop fn p q (Some l) None h =
      (let cmp = fn (snd n) (snd m) in
       if cmp < 0 then do {
         (o1, h) \<leftarrow> add_out (Some l) (snd n) h;
         nl \<leftarrow> node_at h p;
         diff_loop fn (ln_next nl) q o1 None h
       } else if cmp > 0 then diff_loop fn p (ln_next d) (Some l) None h
       else diff_loop fn (ln_next c) (ln_next d) (Some l) None h)"
    using c d by (subst diff_loop.simps) (simp add: node_at_def add_out_def Let_def)
  consider (lt) "fn (snd n) (snd m) < 0" | (gt) "fn (snd n) (snd m) > 0" | (eq) "fn (snd n) (snd m) = 0" by linarith
  then show ?case
  proof cases
    case gt
    with unfold have "diff_loop fn p q (Some l) None h = diff_loop fn p (ln_next d) (Some l) None h" by simp
    with gt 3(2) [OF _ gt 3(4,5) d(4) 3(7)] 3(8,9) show ?thesis by (auto simp: Int_Un_distrib)
  next
    case eq
    with unfold have "diff_loop fn p q (Some l) None h = diff_loop fn (ln_next c) (ln_next d) (Some l) None h" by simp
    with eq 3(3) [OF _ _ 3(4) c(4) d(4) 3(7)] 3(8,9) show ?thesis by auto
  next
    case lt
    have nb: "fst n < lh_brk h" using walks_brk [OF 3(4,5)] by simp
    have "lh_room h > 0" using 3(9) by simp
    from add_out_some [OF 3(4,7) this, of "snd n"] obtain h1 a where
      h1: "add_out (Some l) (snd n) h = Some (Some (first_of (acc @ [(a, snd n)]) None), h1)"
      "is_list h1 (first_of (acc @ [(a, snd n)]) None) (acc @ [(a, snd n)])" "heap_ok h1" "below (addrs acc) h h1"
      "lh_room h1 = lh_room h - 1" "a \<ge> lh_brk h" "lh_brk h \<le> lh_brk h1" by blast
    have "lh_cells h1 (fst n) = Some c" using h1(4) c(2) nb 3(8) by (auto simp: below_def)
    then have eq: "diff_loop fn p q (Some l) None h =
        diff_loop fn (ln_next c) q (Some (first_of (acc @ [(a, snd n)]) None)) None h1"
      using lt h1(1) unfold c(1) by (simp add: node_at_def)
    have w: "walks h1 ln_next (ln_next c) ns"
      by (rule below_walks [OF h1(4) 3(4) _ c(4)]) (use 3(8) in auto)
    have w2: "walks h1 ln_next q (m # ms)"
      by (rule below_walks [OF h1(4) 3(4) _ 3(6)]) (use 3(8) in auto)
    have "addrs (acc @ [(a, snd n)]) \<inter> (addrs ns \<union> addrs (m # ms)) = {}"
      using 3(8) walks_brk [OF 3(4) c(4)] walks_brk [OF 3(4,6)] h1(6) by fastforce
    from 3(1) [OF lt h1(3) w w2 h1(2) this] 3(9) h1(5) obtain h' acc' where
      r: "diff_loop fn (ln_next c) q (Some (first_of (acc @ [(a, snd n)]) None)) None h1 = Some (Some (first_of acc' None), None, h')"
      "is_list h' (first_of acc' None) acc'"
      "map snd acc' = map snd (acc @ [(a, snd n)]) @ diff_by fn (map snd ns) (map snd (m # ms))" "heap_ok h'"
      "below (addrs (acc @ [(a, snd n)])) h1 h'" "addrs acc' \<subseteq> addrs (acc @ [(a, snd n)]) \<union> {lh_brk h1..}"
      by fastforce
    have "below (addrs acc) h h'" by (rule below_trans [OF h1(4) r(5)]) (use h1(6) in auto)
    moreover have "addrs acc' \<subseteq> addrs acc \<union> {lh_brk h..}" using r(6) h1(6,7) by fastforce
    ultimately show ?thesis unfolding eq using r(1-4) lt by (intro exI [of _ h'] exI [of _ acc']) simp
  qed
qed

lemma sorted_copy_spec:
  assumes "heap_ok h" and "is_list h p ns" and "length ns \<le> lh_room h"
  shows "\<exists>h' ns'. sorted_copy p fn h = Some (first_of ns' None, h') \<and> is_list h' (first_of ns' None) ns' \<and>
    map snd ns' = msort_by (\<lambda>x y. fn x y \<le> 0) (map snd ns) \<and> heap_ok h' \<and> below {} h h' \<and>
    addrs ns' \<subseteq> {lh_brk h..} \<and> lh_room h' = lh_room h - length ns"
proof -
  obtain h1 cs where copy: "alpm_list_copy p h = Some (first_of cs None, h1)" "heap_ok h1" "below {} h h1"
      "is_list h1 (first_of cs None) cs" "map snd cs = map snd ns" "addrs cs \<subseteq> {lh_brk h..}" "lh_room h1 = lh_room h - length ns"
    using copy_spec [OF assms(1,2)] assms(3) by auto
  have count: "alpm_list_count h1 (first_of cs None) = Some (length cs)"
    using count_walks [OF list_walks [OF copy(4)], of 0] by (simp add: alpm_list_count_def)
  obtain h2 where sort: "alpm_list_msort fn (first_of cs None) (length cs) h1 = Some (first_of (msort_by (data_le fn) cs) None, h2)"
      "is_list h2 (first_of (msort_by (data_le fn) cs) None) (msort_by (data_le fn) cs)" "only_at (addrs cs) h1 h2"
    using msort_spec [OF copy(4)] by blast
  have "addrs cs \<subseteq> {..<lh_brk h1}" using copy(4) seg_brk [OF copy(2)] by (auto simp: is_list_def)
  then have "heap_ok h2" by (rule only_at_ok [OF sort(3) copy(2)])
  moreover have "below {} h h2" by (rule below_trans [OF copy(3) only_at_below [OF sort(3)]]) (use copy(6) in auto)
  moreover have "addrs (msort_by (data_le fn) cs) \<subseteq> {lh_brk h..}"
    using copy(6) addrs_mset [OF msort_by_mset] by metis
  moreover have "map snd (msort_by (data_le fn) cs) = msort_by (\<lambda>x y. fn x y \<le> 0) (map snd ns)"
    using msort_by_map [of snd "\<lambda>x y. fn x y \<le> 0" cs] by (simp add: copy(5))
  ultimately show ?thesis
    using sort copy(1,7) count
    by (intro exI [of _ h2] exI [of _ "msort_by (data_le fn) cs"]) (auto simp: sorted_copy_def only_at_def)
qed

lemma below_free:
  assumes "only_at A h h'" and "A \<subseteq> {b..}" and "b \<le> lh_brk h"
  shows "\<forall>a < b. lh_cells h' a = lh_cells h a"
  using assms by (auto simp: only_at_def)

text \<open>
  The difference of two lists is a list of its own, and the copies it was computed from are freed.
\<close>

lemma diff_spec:
  assumes "heap_ok h" and "is_list h p ns" and "is_list h q ms" and "2 * length ns + length ms \<le> lh_room h"
  shows "\<exists>h' ns'. alpm_list_diff p q fn h = Some (first_of ns' None, h') \<and> is_list h' (first_of ns' None) ns' \<and>
    map snd ns' = diff_by fn (msort_by (\<lambda>x y. fn x y \<le> 0) (map snd ns)) (msort_by (\<lambda>x y. fn x y \<le> 0) (map snd ms)) \<and>
    heap_ok h' \<and> (\<forall>a < lh_brk h. lh_cells h' a = lh_cells h a)"
proof -
  obtain h1 ls where left: "sorted_copy p fn h = Some (first_of ls None, h1)" "is_list h1 (first_of ls None) ls"
      "map snd ls = msort_by (\<lambda>x y. fn x y \<le> 0) (map snd ns)" "heap_ok h1" "below {} h h1" "addrs ls \<subseteq> {lh_brk h..}"
      "lh_room h1 = lh_room h - length ns"
  proof -
    have "length ns \<le> lh_room h" using assms(4) by simp
    from sorted_copy_spec [OF assms(1,2) this, of fn] show thesis using that by blast
  qed
  have q1: "is_list h1 q ms" using assms(3) below_seg [OF left(5) assms(1)] by (auto simp: is_list_def)
  obtain h2 rs where right: "sorted_copy q fn h1 = Some (first_of rs None, h2)" "is_list h2 (first_of rs None) rs"
      "map snd rs = msort_by (\<lambda>x y. fn x y \<le> 0) (map snd ms)" "heap_ok h2" "below {} h1 h2" "addrs rs \<subseteq> {lh_brk h1..}"
      "lh_room h2 = lh_room h1 - length ms"
  proof -
    have "length ms \<le> lh_room h1" using assms(4) left(7) by simp
    from sorted_copy_spec [OF left(4) q1 this, of fn] show thesis using that by blast
  qed
  have l2: "is_list h2 (first_of ls None) ls" using left(2) below_seg [OF right(5) left(4)] by (auto simp: is_list_def)
  have len: "length ls = length ns"
    using left(3) by (metis length_map mset_map msort_by_mset size_mset)
  have lb: "addrs ls \<subseteq> {..<lh_brk h1}" using left(2) seg_brk [OF left(4)] by (auto simp: is_list_def)
  then have disj: "addrs ls \<inter> addrs rs = {}" using right(6) by fastforce
  obtain h3 ds where diff: "diff_loop fn (first_of ls None) (first_of rs None) (Some None) None h2 = Some (Some (first_of ds None), None, h3)"
      "is_list h3 (first_of ds None) ds" "map snd ds = diff_by fn (map snd ls) (map snd rs)" "heap_ok h3" "below {} h2 h3"
      "addrs ds \<subseteq> {lh_brk h2..}"
  proof -
    have nil: "is_list h2 None []" "addrs [] \<inter> (addrs ls \<union> addrs rs) = {}" by (simp_all add: is_list_def)
    have "length ls \<le> lh_room h2" using assms(4) left(7) right(7) len by simp
    from diff_loop_spec [OF right(4) list_walks [OF l2] list_walks [OF right(2)] nil this, of fn] show thesis
      using that by auto
  qed
  have l3: "is_list h3 (first_of ls None) ls" and r3: "is_list h3 (first_of rs None) rs"
    using l2 right(2) below_seg [OF diff(5) right(4)] by (auto simp: is_list_def)
  obtain h4 where f1: "alpm_list_free (first_of ls None) h3 = Some h4" "only_at (addrs ls) h3 h4" "\<forall>a \<in> addrs ls. lh_cells h4 a = None"
    using free_walks [OF list_walks [OF l3]] l3 by (auto simp: is_list_def)
  have r4: "is_list h4 (first_of rs None) rs" by (rule list_keeps [OF f1(2) r3 disj])
  obtain h5 where f2: "alpm_list_free (first_of rs None) h4 = Some h5" "only_at (addrs rs) h4 h5" "\<forall>a \<in> addrs rs. lh_cells h5 a = None"
    using free_walks [OF list_walks [OF r4]] r4 by (auto simp: is_list_def)
  have rb: "addrs rs \<subseteq> {..<lh_brk h2}" using right(2) seg_brk [OF right(4)] by (auto simp: is_list_def)
  have brk: "lh_brk h \<le> lh_brk h1" "lh_brk h1 \<le> lh_brk h2" "lh_brk h2 \<le> lh_brk h3"
    using left(5) right(5) diff(5) by (auto simp: below_def)
  have "is_list h4 (first_of ds None) ds"
    by (rule list_keeps [OF f1(2) diff(2)]) (use lb brk diff(6) in fastforce)
  then have "is_list h5 (first_of ds None) ds"
    by (rule list_keeps [OF f2(2)]) (use rb diff(6) in fastforce)
  moreover have "heap_ok h5"
    by (rule only_at_ok_free [OF f2(2,3) only_at_ok_free [OF f1(2,3) diff(4)]])
  moreover have "\<forall>a < lh_brk h. lh_cells h5 a = lh_cells h a"
  proof (intro allI impI)
    fix a assume a: "a < lh_brk h"
    then have "a \<notin> addrs ls" "a \<notin> addrs rs" using left(6) right(6) brk by fastforce+
    then have "lh_cells h5 a = lh_cells h3 a" using f1(2) f2(2) by (simp add: only_at_def)
    then show "lh_cells h5 a = lh_cells h a" using a left(5) right(5) diff(5) brk by (simp add: below_def)
  qed
  moreover have "alpm_list_diff p q fn h = Some (first_of ds None, h5)"
    using left(1) right(1) diff(1) f1(1) f2(1) by (simp add: alpm_list_diff_def alpm_list_diff_sorted_def)
  ultimately show ?thesis using diff(3) left(3) right(3) by (intro exI [of _ h5] exI [of _ ds]) simp
qed

subsection \<open>A small heap\<close>

definition order_cmp :: list_cmp where
  "order_cmp a b = (if a < b then -1 else if a = b then 0 else 1)"

lemma order_cmp_compares: "compares order_cmp default"
  by (auto simp: compares_def order_cmp_def default_comparator.rep_eq)

text \<open>A list of the elements 3, 1 and 2, at the addresses 0, 1 and 2.\<close>

definition sample_heap :: lheap where
  "sample_heap = \<lparr>lh_cells = (\<lambda>_. None)(0 \<mapsto> \<lparr>ln_data = Some 3, ln_prev = Some 2, ln_next = Some 1\<rparr>,
      1 \<mapsto> \<lparr>ln_data = Some 1, ln_prev = Some 0, ln_next = Some 2\<rparr>,
      2 \<mapsto> \<lparr>ln_data = Some 2, ln_prev = Some 1, ln_next = None\<rparr>), lh_brk = 3, lh_room = 9\<rparr>"

lemma sample_heap_list: "is_list sample_heap (Some 0) [(0, Some 3), (1, Some 1), (2, Some 2)]" "heap_ok sample_heap"
  by (simp_all add: is_list_def sample_heap_def heap_ok_def)

text \<open>
  C22.  The merge sort of the heap computes the stable sort: given a list and its length, it relinks the
  same nodes, and no others, into the list of the sorted elements.
\<close>

theorem msort_is_stable_sort:
  assumes "is_list h p ns" and "compares fn cmp"
  shows "\<exists>p' h' ns'. alpm_list_msort fn p (length ns) h = Some (p', h') \<and> is_list h' p' ns' \<and>
    map snd ns' = Sorting_Algorithms.sort cmp (map snd ns) \<and> addrs ns' = addrs ns \<and> only_at (addrs ns) h h'"
proof -
  have "map snd (msort_by (data_le fn) ns) = Sorting_Algorithms.sort cmp (map snd ns)"
    using msort_by_map [of snd "\<lambda>x y. fn x y \<le> 0" ns] msort_by_sort [OF assms(2)] by simp
  with msort_spec [OF assms(1), of fn] addrs_mset [OF msort_by_mset] show ?thesis by blast
qed

theorem msort_is_stable_sort_witness:
  "\<exists>p' h' ns'. alpm_list_msort order_cmp (Some 0) 3 sample_heap = Some (p', h') \<and> is_list h' p' ns' \<and>
    map snd ns' = Sorting_Algorithms.sort default [Some 3, Some 1, Some 2]"
  using msort_is_stable_sort [OF sample_heap_list(1) order_cmp_compares] by fastforce

text \<open>The operations on the elements.\<close>

lemma holds_list: "is_list h p ns \<Longrightarrow> map snd ns = xs \<Longrightarrow> holds h p xs"
  by (auto simp: holds_def)

lemma add_refines:
  assumes "heap_ok h" and "holds h p xs" and "lh_room h > 0"
  shows "\<exists>p' h'. alpm_list_add p d h = Some (p', h') \<and> holds h' p' (xs @ [d])"
proof -
  from assms(2) obtain ns where "is_list h p ns" "map snd ns = xs" by (auto simp: holds_def)
  with append_spec [OF assms(1) _ assms(3), of p ns d] show ?thesis
    by (fastforce simp: alpm_list_add_def intro: holds_list)
qed

lemma add_sorted_refines:
  assumes "heap_ok h" and "holds h p xs" and "lh_room h > 0" and "compares fn cmp"
  shows "\<exists>p' h'. alpm_list_add_sorted fn p d h = Some (p', h') \<and> holds h' p' (Sorting_Algorithms.insort cmp d xs)"
proof -
  from assms(2) obtain ns where ns: "is_list h p ns" "map snd ns = xs" by (auto simp: holds_def)
  from add_sorted_spec [OF assms(1) ns(1) assms(3), of fn d] show ?thesis
    unfolding ns(2) insort_split [OF assms(4)] by (blast intro: holds_list)
qed

lemma copy_refines:
  assumes "heap_ok h" and "holds h p xs" and "length xs \<le> lh_room h"
  shows "\<exists>p' h'. alpm_list_copy p h = Some (p', h') \<and> holds h' p' xs \<and> holds h' p xs"
proof -
  from assms(2) obtain ns where ns: "is_list h p ns" "map snd ns = xs" by (auto simp: holds_def)
  then have room: "length ns \<le> lh_room h" using assms(3) by auto
  from copy_spec [OF assms(1) ns(1)] room obtain h' cs where c: "alpm_list_copy p h = Some (first_of cs None, h')"
    "below {} h h'" "is_list h' (first_of cs None) cs" "map snd cs = map snd ns" by auto
  have "is_list h' p ns" using ns(1) below_seg [OF c(2) assms(1)] by (auto simp: is_list_def)
  with c ns show ?thesis by (metis holds_list)
qed

lemma reverse_refines:
  assumes "heap_ok h" and "holds h p xs" and "length xs \<le> lh_room h"
  shows "\<exists>p' h'. alpm_list_reverse p h = Some (p', h') \<and> holds h' p' (rev xs) \<and> holds h' p xs"
proof -
  from assms(2) obtain ns where ns: "is_list h p ns" "map snd ns = xs" by (auto simp: holds_def)
  then have room: "length ns \<le> lh_room h" using assms(3) by auto
  from reverse_spec [OF assms(1) ns(1) room] obtain h' cs where c: "alpm_list_reverse p h = Some (first_of cs None, h')"
    "below {} h h'" "is_list h' (first_of cs None) cs" "map snd cs = rev (map snd ns)" by auto
  have "is_list h' p ns" using ns(1) below_seg [OF c(2) assms(1)] by (auto simp: is_list_def)
  with c ns show ?thesis by (metis holds_list)
qed

lemma remove_refines:
  assumes "heap_ok h" and "holds h p xs" and "needle \<noteq> None"
  shows "\<exists>p' x h'. alpm_list_remove p needle fn h = Some (p', x, h') \<and>
    holds h' p' (remove_first (\<lambda>d. d \<noteq> None \<and> fn d needle = 0) xs)"
proof -
  from assms(2) obtain ns where ns: "is_list h p ns" "map snd ns = xs" by (auto simp: holds_def)
  from remove_spec [OF assms(1) ns(1) assms(3), of fn] show ?thesis
    unfolding ns(2) by (blast intro: holds_list)
qed

lemma count_refines: "holds h p xs \<Longrightarrow> alpm_list_count h p = Some (length xs)"
  using count_walks [OF list_walks, of h p _ 0] by (auto simp: holds_def alpm_list_count_def)

lemma find_refines:
  "holds h p xs \<Longrightarrow>
   alpm_list_find h p needle fn = Some (Option.bind (find (\<lambda>d. d \<noteq> None \<and> fn d needle = 0) xs) (\<lambda>d. d))"
  using find_walks [OF list_walks] by (auto simp: holds_def)



end
