(* ===== verification/Alpm_Sort.thy ===== *)
theory Alpm_Sort
  imports Alpm_Deps Alpm_List "HOL-Library.While_Combinator"
begin

text \<open>
  Ordering the packages of a transaction, \<open>lib/2O9/alpm/deps.c\<close> and \<open>graph.c\<close>: the graph of the
  dependencies between the targets, also through packages that stay installed, and the depth-first
  search that lists a package after what it depends on.

  A vertex is referred to by its position in the list of the vertices.  The warnings about cycles are
  only logged and left out.
\<close>

subsection \<open>The graph\<close>

datatype alpm_graph_vertex_state =
    ALPM_GRAPH_STATE_UNPROCESSED | ALPM_GRAPH_STATE_PROCESSING | ALPM_GRAPH_STATE_PROCESSED

record alpm_graph =
  gr_data :: pkg_ref
  gr_parent :: "nat option"
  gr_children :: "nat list"
  gr_iterator :: "nat list"
  gr_state :: alpm_graph_vertex_state

definition alpm_graph_new :: "pkg_ref \<Rightarrow> alpm_graph" where
  "alpm_graph_new p =
     \<lparr>gr_data = p, gr_parent = None, gr_children = [], gr_iterator = [], gr_state = ALPM_GRAPH_STATE_UNPROCESSED\<rparr>"

definition alpm_pkg_cmp :: "pkg_store \<Rightarrow> pkg_ref \<Rightarrow> pkg_ref \<Rightarrow> int" where
  "alpm_pkg_cmp pk p q = c_strcmp (pkg_name (pk p)) (pkg_name (pk q))"

text \<open>What \<open>alpm_list_diff\<close> gives for the names of packages.\<close>

definition pkg_diff :: "pkg_store \<Rightarrow> pkg_ref list \<Rightarrow> pkg_ref list \<Rightarrow> pkg_ref list" where
  "pkg_diff pk lhs rhs =
     (let le = \<lambda>p q. alpm_pkg_cmp pk p q \<le> 0
      in diff_by (alpm_pkg_cmp pk) (msort_by le lhs) (msort_by le rhs))"

definition local_candidates :: "pkg_store \<Rightarrow> pkg_ref list \<Rightarrow> pkg_ref list \<Rightarrow> pkg_ref list \<Rightarrow> pkg_ref list" where
  "local_candidates pk pkgcache targets ignore =
     (let localpkgs = pkg_diff pk pkgcache targets
      in if ignore \<noteq> [] then pkg_diff pk localpkgs ignore else localpkgs)"

text \<open>The edges from vertex \<open>i\<close>, and from the ones after it: installed packages that are needed join the list.\<close>

function graph_edges :: "pkg_store \<Rightarrow> nat \<Rightarrow> alpm_graph list \<Rightarrow> pkg_ref list \<Rightarrow> alpm_graph list" where
  "graph_edges pk i vertices localpkgs =
     (if i < length vertices then
        let needs = (\<lambda>q. alpm_pkg_depends_on (pk (gr_data (vertices ! i))) (pk q));
            children = filter (\<lambda>j. needs (gr_data (vertices ! j))) [0..<length vertices];
            pulled = filter needs localpkgs;
            children' = children @ [length vertices..<length vertices + length pulled];
            vertices' = vertices @ map alpm_graph_new pulled
        in graph_edges pk (Suc i)
             (vertices'[i := (vertices' ! i)\<lparr>gr_children := children', gr_iterator := children'\<rparr>])
             (filter (\<lambda>q. \<not> needs q) localpkgs)
      else vertices)"
  by pat_completeness auto
termination
proof (relation "measure (\<lambda>(pk, i, vertices, localpkgs). length vertices - i + length localpkgs)", goal_cases)
  case (2 pk i vertices localpkgs needs children pulled children' vertices')
  have "length pulled + length (filter (\<lambda>q. \<not> needs q) localpkgs) = length localpkgs"
    using sum_length_filter_compl [of needs localpkgs] 2(4) by simp
  with 2 show ?case by auto
qed simp

declare graph_edges.simps [simp del]

definition dep_graph_init ::
    "pkg_store \<Rightarrow> alpm_handle \<Rightarrow> pkg_ref list \<Rightarrow> pkg_ref list \<Rightarrow> alpm_graph list" where
  "dep_graph_init pk h targets ignore =
     graph_edges pk 0 (map alpm_graph_new targets)
       (local_candidates pk (db_pkgcache (db_local h)) targets ignore)"

subsection \<open>The search\<close>

text \<open>\<open>ss_i\<close> is the vertex of the list the search came to, the length of the list at its end.\<close>

record sort_state =
  ss_vertices :: "alpm_graph list"
  ss_i :: nat
  ss_vertex :: nat
  ss_newtargs :: "pkg_ref list"

text \<open>The next child that was not visited, and what is left of the iterator after it.\<close>

fun next_child :: "alpm_graph list \<Rightarrow> nat list \<Rightarrow> nat option \<times> nat list" where
  "next_child vertices [] = (None, [])"
| "next_child vertices (c # it) =
     (if gr_state (vertices ! c) = ALPM_GRAPH_STATE_UNPROCESSED then (Some c, it) else next_child vertices it)"

text \<open>The first vertex from \<open>i\<close> on that was not visited, or the end of the list.\<close>

function next_vertex :: "alpm_graph list \<Rightarrow> nat \<Rightarrow> nat" where
  "next_vertex vertices i =
     (if i < length vertices \<and> gr_state (vertices ! i) \<noteq> ALPM_GRAPH_STATE_UNPROCESSED
      then next_vertex vertices (Suc i) else i)"
  by pat_completeness auto
termination
  by (relation "measure (\<lambda>(vertices, i). length vertices - i)") auto

declare next_vertex.simps [simp del]

definition sort_step :: "pkg_ref list \<Rightarrow> sort_state \<Rightarrow> sort_state" where
  "sort_step targets st =
     (let v = ss_vertex st;
          vertices = (ss_vertices st)[v := (ss_vertices st ! v)\<lparr>gr_state := ALPM_GRAPH_STATE_PROCESSING\<rparr>];
          (child, it) = next_child vertices (gr_iterator (vertices ! v));
          vertices = vertices[v := (vertices ! v)\<lparr>gr_iterator := it\<rparr>]
      in case child of
           Some c \<Rightarrow>
             st\<lparr>ss_vertices := vertices[c := (vertices ! c)\<lparr>gr_parent := Some v\<rparr>], ss_vertex := c\<rparr>
         | None \<Rightarrow>
             let p = gr_data (vertices ! v);
                 newtargs = (if p \<in> set targets then ss_newtargs st @ [p] else ss_newtargs st);
                 vertices = vertices[v := (vertices ! v)\<lparr>gr_state := ALPM_GRAPH_STATE_PROCESSED\<rparr>]
             in case gr_parent (vertices ! v) of
                  Some u \<Rightarrow> st\<lparr>ss_vertices := vertices, ss_vertex := u, ss_newtargs := newtargs\<rparr>
                | None \<Rightarrow>
                    let i = next_vertex vertices (Suc (ss_i st))
                    in st\<lparr>ss_vertices := vertices, ss_i := i, ss_vertex := i, ss_newtargs := newtargs\<rparr>)"

definition alpm_sortbydeps ::
    "pkg_store \<Rightarrow> alpm_handle \<Rightarrow> pkg_ref list \<Rightarrow> pkg_ref list \<Rightarrow> bool \<Rightarrow> pkg_ref list option" where
  "alpm_sortbydeps pk h targets ignore reverse =
     (if targets = [] then Some []
      else map_option (\<lambda>st. if reverse then rev (ss_newtargs st) else ss_newtargs st)
             (while_option (\<lambda>st. ss_i st < length (ss_vertices st)) (sort_step targets)
               \<lparr>ss_vertices = dep_graph_init pk h targets ignore, ss_i = 0, ss_vertex = 0, ss_newtargs = []\<rparr>))"

subsection \<open>The search: facts\<close>

lemma next_child_Some:
  "next_child V it = (Some c, it') \<Longrightarrow>
   \<exists>pre. it = pre @ c # it' \<and> gr_state (V ! c) = ALPM_GRAPH_STATE_UNPROCESSED \<and>
     (\<forall>x \<in> set pre. gr_state (V ! x) \<noteq> ALPM_GRAPH_STATE_UNPROCESSED)"
proof (induction it)
  case (Cons x it)
  show ?case
  proof (cases "gr_state (V ! x) = ALPM_GRAPH_STATE_UNPROCESSED")
    case True
    with Cons.prems show ?thesis by (intro exI [of _ "[]"]) simp
  next
    case False
    with Cons obtain pre where "it = pre @ c # it'" "gr_state (V ! c) = ALPM_GRAPH_STATE_UNPROCESSED"
      "\<forall>x \<in> set pre. gr_state (V ! x) \<noteq> ALPM_GRAPH_STATE_UNPROCESSED" by auto
    with False show ?thesis by (intro exI [of _ "x # pre"]) simp
  qed
qed simp

lemma next_child_None:
  "next_child V it = (None, it') \<Longrightarrow> it' = [] \<and> (\<forall>x \<in> set it. gr_state (V ! x) \<noteq> ALPM_GRAPH_STATE_UNPROCESSED)"
  by (induction it) (auto split: if_splits)

lemma next_vertex_spec:
  "i \<le> length V \<Longrightarrow> i \<le> next_vertex V i \<and> next_vertex V i \<le> length V \<and>
   (\<forall>k. i \<le> k \<longrightarrow> k < next_vertex V i \<longrightarrow> gr_state (V ! k) \<noteq> ALPM_GRAPH_STATE_UNPROCESSED) \<and>
   (next_vertex V i < length V \<longrightarrow> gr_state (V ! next_vertex V i) = ALPM_GRAPH_STATE_UNPROCESSED)"
proof (induction V i rule: next_vertex.induct)
  case (1 V i)
  show ?case
  proof (cases "i < length V \<and> gr_state (V ! i) \<noteq> ALPM_GRAPH_STATE_UNPROCESSED")
    case True
    then have eq: "next_vertex V i = next_vertex V (Suc i)" by (subst next_vertex.simps) simp
    from 1(1) [OF True] True have ih: "Suc i \<le> next_vertex V (Suc i)" "next_vertex V (Suc i) \<le> length V"
      "\<forall>k. Suc i \<le> k \<longrightarrow> k < next_vertex V (Suc i) \<longrightarrow> gr_state (V ! k) \<noteq> ALPM_GRAPH_STATE_UNPROCESSED"
      "next_vertex V (Suc i) < length V \<longrightarrow> gr_state (V ! next_vertex V (Suc i)) = ALPM_GRAPH_STATE_UNPROCESSED"
      by auto
    have "gr_state (V ! k) \<noteq> ALPM_GRAPH_STATE_UNPROCESSED" if "i \<le> k" "k < next_vertex V (Suc i)" for k
      using that True ih(3) by (cases "k = i") auto
    with ih show ?thesis unfolding eq by auto
  next
    case False
    then have "next_vertex V i = i" by (subst next_vertex.simps) auto
    with False 1(2) show ?thesis by auto
  qed
qed

text \<open>A path of the search: every vertex is a child of the one after it, which is its parent.\<close>

fun search_path :: "alpm_graph list \<Rightarrow> nat list \<Rightarrow> bool" where
  "search_path V [] = True"
| "search_path V [v] \<longleftrightarrow> gr_parent (V ! v) = None"
| "search_path V (v # u # S) \<longleftrightarrow> v \<in> set (gr_children (V ! u)) \<and> gr_parent (V ! v) = Some u \<and> search_path V (u # S)"

definition graph_rel :: "alpm_graph list \<Rightarrow> (nat \<times> nat) set" where
  "graph_rel V = {(v, c). v < length V \<and> c \<in> set (gr_children (V ! v)) \<and> c \<noteq> v}"

definition wf_graph :: "alpm_graph list \<Rightarrow> bool" where
  "wf_graph V \<longleftrightarrow> (\<forall>v < length V. gr_state (V ! v) = ALPM_GRAPH_STATE_UNPROCESSED \<and> gr_parent (V ! v) = None \<and>
     gr_iterator (V ! v) = gr_children (V ! v) \<and> set (gr_children (V ! v)) \<subseteq> {..<length V})"

text \<open>The vertices in the order they were left: children first.\<close>

definition children_first :: "alpm_graph list \<Rightarrow> nat list \<Rightarrow> bool" where
  "children_first V F \<longleftrightarrow> (\<forall>xs v ys. F = xs @ v # ys \<longrightarrow> (\<forall>c \<in> set (gr_children (V ! v)). c = v \<or> c \<in> set xs))"

lemma children_first_snoc:
  "children_first V (F @ [v]) \<longleftrightarrow> children_first V F \<and> (\<forall>c \<in> set (gr_children (V ! v)). c = v \<or> c \<in> set F)"
proof
  assume "children_first V (F @ [v])"
  then show "children_first V F \<and> (\<forall>c \<in> set (gr_children (V ! v)). c = v \<or> c \<in> set F)"
    unfolding children_first_def by (metis append_Cons append_assoc)
next
  assume a: "children_first V F \<and> (\<forall>c \<in> set (gr_children (V ! v)). c = v \<or> c \<in> set F)"
  show "children_first V (F @ [v])"
    unfolding children_first_def
  proof (intro allI impI)
    fix xs u ys assume eq: "F @ [v] = xs @ u # ys"
    show "\<forall>c \<in> set (gr_children (V ! u)). c = u \<or> c \<in> set xs"
    proof (cases ys rule: rev_cases)
      case Nil
      with eq a show ?thesis by simp
    next
      case (snoc zs w)
      with eq have "F = xs @ u # zs" by simp
      with a show ?thesis unfolding children_first_def by blast
    qed
  qed
qed

text \<open>
  What holds between two steps: \<open>S\<close> is the path from the current vertex to the root of the search,
  \<open>F\<close> what was left already.
\<close>

definition search_inv ::
    "alpm_graph list \<Rightarrow> pkg_ref list \<Rightarrow> sort_state \<Rightarrow> nat list \<Rightarrow> nat list \<Rightarrow> bool" where
  "search_inv V0 targets st S F \<longleftrightarrow>
     (let V = ss_vertices st in
      length V = length V0 \<and>
      (\<forall>v < length V. gr_children (V ! v) = gr_children (V0 ! v) \<and> gr_data (V ! v) = gr_data (V0 ! v)) \<and>
      distinct (S @ F) \<and> set (S @ F) \<subseteq> {..<length V} \<and> search_path V S \<and>
      (\<forall>v < length V. gr_state (V ! v) = ALPM_GRAPH_STATE_PROCESSED \<longleftrightarrow> v \<in> set F) \<and>
      (\<forall>v < length V. gr_state (V ! v) = ALPM_GRAPH_STATE_PROCESSING \<longrightarrow> v \<in> set S) \<and>
      (\<forall>v \<in> set (tl S). gr_state (V ! v) = ALPM_GRAPH_STATE_PROCESSING) \<and>
      (\<forall>v < length V. v \<notin> set S \<longrightarrow> v \<notin> set F \<longrightarrow> gr_parent (V ! v) = None) \<and>
      (\<forall>v < length V. gr_state (V ! v) = ALPM_GRAPH_STATE_UNPROCESSED \<longrightarrow> gr_iterator (V ! v) = gr_children (V ! v)) \<and>
      (\<forall>v \<in> set S. \<exists>pre. gr_children (V ! v) = pre @ gr_iterator (V ! v) \<and> set pre \<subseteq> set S \<union> set F) \<and>
      (if ss_i st < length V then S \<noteq> [] \<and> hd S = ss_vertex st \<and> last S = ss_i st else S = []) \<and>
      ss_i st \<le> length V \<and> {..<ss_i st} \<subseteq> set F \<and>
      (acyclic (graph_rel V0) \<longrightarrow> children_first V0 F) \<and>
      ss_newtargs st = filter (\<lambda>p. p \<in> set targets) (map (\<lambda>v. gr_data (V0 ! v)) F))"

lemma search_path_cong:
  "(\<And>v. v \<in> set S \<Longrightarrow> gr_children (V' ! v) = gr_children (V ! v) \<and> gr_parent (V' ! v) = gr_parent (V ! v)) \<Longrightarrow>
   search_path V' S \<longleftrightarrow> search_path V S"
  by (induction V S rule: search_path.induct) auto

lemma search_path_back:
  assumes "search_path V (v # S)" and "distinct (v # S)" and "set (v # S) \<subseteq> {..<length V}" and "c \<in> set S"
  shows "(c, v) \<in> (graph_rel V)\<^sup>+"
  using assms
proof (induction S arbitrary: v)
  case (Cons u S)
  then have uv: "(u, v) \<in> graph_rel V" by (auto simp: graph_rel_def)
  show ?case
  proof (cases "c = u")
    case False
    with Cons have "(c, u) \<in> (graph_rel V)\<^sup>+" by auto
    with uv show ?thesis by (rule trancl_into_trancl [rotated])
  qed (use uv in auto)
qed simp

text \<open>The step, on the vertices before it.\<close>

definition visited :: "alpm_graph list \<Rightarrow> nat \<Rightarrow> alpm_graph list" where
  "visited V v = V[v := (V ! v)\<lparr>gr_state := ALPM_GRAPH_STATE_PROCESSING\<rparr>]"

lemma visited_nth: "v < length V \<Longrightarrow> visited V v ! x =
    (if x = v then (V ! v)\<lparr>gr_state := ALPM_GRAPH_STATE_PROCESSING\<rparr> else V ! x)"
  by (simp add: visited_def nth_list_update)

lemma length_visited [simp]: "length (visited V v) = length V"
  by (simp add: visited_def)

lemma sort_step_child:
  assumes "ss_vertices st = V" and "ss_vertex st = v" and "next_child (visited V v) (gr_iterator (V ! v)) = (Some c, it)"
    and "v < length V"
  shows "sort_step targets st = st\<lparr>ss_vertices :=
      (V[v := (V ! v)\<lparr>gr_state := ALPM_GRAPH_STATE_PROCESSING, gr_iterator := it\<rparr>])
        [c := (V[v := (V ! v)\<lparr>gr_state := ALPM_GRAPH_STATE_PROCESSING, gr_iterator := it\<rparr>] ! c)\<lparr>gr_parent := Some v\<rparr>],
      ss_vertex := c\<rparr>"
  using assms by (simp add: sort_step_def Let_def visited_def)

definition left :: "alpm_graph list \<Rightarrow> nat \<Rightarrow> alpm_graph list" where
  "left V v = V[v := (V ! v)\<lparr>gr_iterator := [], gr_state := ALPM_GRAPH_STATE_PROCESSED\<rparr>]"

lemma left_nth: "v < length V \<Longrightarrow> left V v ! x =
    (if x = v then (V ! v)\<lparr>gr_iterator := [], gr_state := ALPM_GRAPH_STATE_PROCESSED\<rparr> else V ! x)"
  by (simp add: left_def nth_list_update)

lemma length_left [simp]: "length (left V v) = length V"
  by (simp add: left_def)

lemma sort_step_leave:
  assumes "ss_vertices st = V" and "ss_vertex st = v" and "next_child (visited V v) (gr_iterator (V ! v)) = (None, [])"
    and "v < length V"
  shows "sort_step targets st =
    (let newtargs = (if gr_data (V ! v) \<in> set targets then ss_newtargs st @ [gr_data (V ! v)] else ss_newtargs st)
     in case gr_parent (V ! v) of
          Some u \<Rightarrow> st\<lparr>ss_vertices := left V v, ss_vertex := u, ss_newtargs := newtargs\<rparr>
        | None \<Rightarrow> let i = next_vertex (left V v) (Suc (ss_i st))
                  in st\<lparr>ss_vertices := left V v, ss_i := i, ss_vertex := i, ss_newtargs := newtargs\<rparr>)"
  using assms unfolding left_def by (simp add: sort_step_def Let_def visited_def split: option.split)

lemma sum_list_less:
  "v < length V \<Longrightarrow> f x < f (V ! v) \<Longrightarrow> sum_list (map f (V[v := x])) < sum_list (map f V)" for f :: "'a \<Rightarrow> nat"
  using elem_le_sum_list [of v "map f V"] by (simp add: map_update sum_list_update)

lemma sum_list_same: "v < length V \<Longrightarrow> f x = f (V ! v) \<Longrightarrow> sum_list (map f (V[v := x])) = sum_list (map f V)"
  for f :: "'a \<Rightarrow> nat"
  using elem_le_sum_list [of v "map f V"] by (simp add: map_update sum_list_update)

lemma search_step:
  assumes wf: "wf_graph V0" and inv: "search_inv V0 targets st S F" and i: "ss_i st < length (ss_vertices st)"
  shows "\<exists>S' F'. search_inv V0 targets (sort_step targets st) S' F' \<and>
    sum_list (map (\<lambda>v. length (gr_iterator v)) (ss_vertices (sort_step targets st))) + (length V0 - length F') <
    sum_list (map (\<lambda>v. length (gr_iterator v)) (ss_vertices st)) + (length V0 - length F)"
proof -
  define V where "V = ss_vertices st"
  define v where "v = ss_vertex st"
  note I = inv [unfolded search_inv_def Let_def, folded V_def v_def]
  have len: "length V = length V0" using I by blast
  have same: "gr_children (V ! x) = gr_children (V0 ! x)" "gr_data (V ! x) = gr_data (V0 ! x)" if "x < length V" for x
    using I that by blast+
  have dist: "distinct (S @ F)" and sub: "set (S @ F) \<subseteq> {..<length V}" and path: "search_path V S" using I by blast+
  have fin: "gr_state (V ! x) = ALPM_GRAPH_STATE_PROCESSED \<longleftrightarrow> x \<in> set F" if "x < length V" for x using I that by blast
  have proc: "gr_state (V ! x) = ALPM_GRAPH_STATE_PROCESSING \<Longrightarrow> x \<in> set S" if "x < length V" for x using I that by blast
  have above: "gr_state (V ! x) = ALPM_GRAPH_STATE_PROCESSING" if "x \<in> set (tl S)" for x using I that by blast
  have nopar: "gr_parent (V ! x) = None" if "x < length V" "x \<notin> set S" "x \<notin> set F" for x using I that by blast
  have fresh: "gr_iterator (V ! x) = gr_children (V ! x)" if "x < length V" "gr_state (V ! x) = ALPM_GRAPH_STATE_UNPROCESSED" for x
    using I that by blast
  have seen: "\<exists>pre. gr_children (V ! x) = pre @ gr_iterator (V ! x) \<and> set pre \<subseteq> set S \<union> set F" if "x \<in> set S" for x
    using I that by blast
  have iV: "ss_i st < length V" using i V_def by simp
  then have S: "S \<noteq> []" "hd S = v" "last S = ss_i st" using I by auto
  have before: "{..<ss_i st} \<subseteq> set F" and topo: "acyclic (graph_rel V0) \<longrightarrow> children_first V0 F"
    and out: "ss_newtargs st = filter (\<lambda>p. p \<in> set targets) (map (\<lambda>v. gr_data (V0 ! v)) F)" using I by blast+
  from S obtain S1 where Sv: "S = v # S1" by (cases S) auto
  have v: "v < length V" and vF: "v \<notin> set F" and S1: "v \<notin> set S1" using sub dist Sv by auto
  obtain child it where nc: "next_child (visited V v) (gr_iterator (V ! v)) = (child, it)" by fastforce
  obtain pre where pre: "gr_children (V ! v) = pre @ gr_iterator (V ! v)" "set pre \<subseteq> set S \<union> set F"
    using seen [of v] Sv by auto
  have kids: "set (gr_children (V ! v)) \<subseteq> {..<length V}" using wf same(1) [OF v] v len by (simp add: wf_graph_def)
  have old: "x \<in> set S \<union> set F" if "x < length V" "gr_state (visited V v ! x) \<noteq> ALPM_GRAPH_STATE_UNPROCESSED" for x
    using that fin proc Sv v by (cases "gr_state (V ! x)") (auto simp: visited_nth split: if_splits)
  show ?thesis
  proof (cases child)
    case (Some c)
    from next_child_Some [OF nc [unfolded Some]] obtain mid where
      mid: "gr_iterator (V ! v) = mid @ c # it" "gr_state (visited V v ! c) = ALPM_GRAPH_STATE_UNPROCESSED"
      "\<forall>x \<in> set mid. gr_state (visited V v ! x) \<noteq> ALPM_GRAPH_STATE_UNPROCESSED" by blast
    have c: "c < length V" using kids pre(1) mid(1) by auto
    have cv: "c \<noteq> v" using mid(2) v by (auto simp: visited_nth)
    then have cs: "gr_state (V ! c) = ALPM_GRAPH_STATE_UNPROCESSED" using mid(2) v by (simp add: visited_nth)
    have cS: "c \<notin> set S" "c \<notin> set F" using cs cv above fin [OF c] Sv by auto
    define V' where "V' = (V[v := (V ! v)\<lparr>gr_state := ALPM_GRAPH_STATE_PROCESSING, gr_iterator := it\<rparr>])
        [c := (V[v := (V ! v)\<lparr>gr_state := ALPM_GRAPH_STATE_PROCESSING, gr_iterator := it\<rparr>] ! c)\<lparr>gr_parent := Some v\<rparr>]"
    have step: "sort_step targets st = st\<lparr>ss_vertices := V', ss_vertex := c\<rparr>"
      unfolding V'_def by (rule sort_step_child [OF V_def [symmetric] v_def [symmetric] nc [unfolded Some] v])
    have V': "V' ! x = (if x = c then (V ! c)\<lparr>gr_parent := Some v\<rparr>
        else if x = v then (V ! v)\<lparr>gr_state := ALPM_GRAPH_STATE_PROCESSING, gr_iterator := it\<rparr> else V ! x)" for x
      using v c cv by (simp add: V'_def nth_list_update)
    have "search_path V' S"
      by (subst search_path_cong [of S V' V]) (use cS path in \<open>auto simp: V'\<close>)
    moreover have "c \<in> set (gr_children (V' ! v))" using pre(1) mid(1) cv by (simp add: V')
    ultimately have path': "search_path V' (c # S)" by (simp add: Sv V')
    have seen': "\<exists>pre. gr_children (V' ! x) = pre @ gr_iterator (V' ! x) \<and> set pre \<subseteq> set (c # S) \<union> set F"
      if "x \<in> set (c # S)" for x
    proof -
      consider "x = c" | "x = v" | "x \<in> set S" "x \<noteq> c" "x \<noteq> v" using \<open>x \<in> set (c # S)\<close> by auto
      then show ?thesis
      proof cases
        case 1
        then show ?thesis using fresh [OF c cs] by (simp add: V')
      next
        case 2
        have "set mid \<subseteq> set S \<union> set F"
          using mid(1,3) old kids pre(1) by (auto dest!: subsetD)
        then show ?thesis
          using 2 pre mid(1) cv by (intro exI [of _ "pre @ mid @ [c]"]) (auto simp: V')
      next
        case 3
        then show ?thesis using seen [of x] by (auto simp: V')
      qed
    qed
    have lenV: "length V' = length V" by (simp add: V'_def)
    have inv': "search_inv V0 targets (sort_step targets st) (c # S) F"
      unfolding search_inv_def Let_def step
    proof (intro conjI, goal_cases)
      case 2 show ?case using same c v by (auto simp: V' lenV)
    next case 4 show ?case using sub c by (auto simp: lenV)
    next case 6 show ?case using fin cs c v cS vF by (auto simp: V' lenV)
    next case 7 show ?case using proc cs c v by (auto simp: V' lenV Sv)
    next case 8 show ?case using above cS Sv S1 by (auto simp: V')
    next case 9 show ?case using nopar by (auto simp: V' lenV)
    next case 10 show ?case using fresh by (auto simp: V' lenV)
    next case 11 show ?case using seen' by simp
    qed (use len lenV dist cS path' iV S before topo out in \<open>auto simp: Sv\<close>)
    have "sum_list (map (\<lambda>v. length (gr_iterator v)) V') < sum_list (map (\<lambda>v. length (gr_iterator v)) V)"
    proof -
      let ?V = "V[v := (V ! v)\<lparr>gr_state := ALPM_GRAPH_STATE_PROCESSING, gr_iterator := it\<rparr>]"
      have "sum_list (map (\<lambda>v. length (gr_iterator v)) V') = sum_list (map (\<lambda>v. length (gr_iterator v)) ?V)"
        unfolding V'_def by (rule sum_list_same) (use c in simp_all)
      also have "\<dots> < sum_list (map (\<lambda>v. length (gr_iterator v)) V)"
        by (rule sum_list_less) (use v mid(1) in simp_all)
      finally show ?thesis .
    qed
    with inv' show ?thesis using step by (intro exI [of _ "c # S"] exI [of _ F]) (simp add: V_def)
  next
    case None
    from next_child_None [OF nc [unfolded None]] have it: "it = []"
      and all: "\<forall>x \<in> set (gr_iterator (V ! v)). gr_state (visited V v ! x) \<noteq> ALPM_GRAPH_STATE_UNPROCESSED" by auto
    have kidsSF: "set (gr_children (V ! v)) \<subseteq> set S \<union> set F"
    proof
      fix c assume "c \<in> set (gr_children (V ! v))"
      then show "c \<in> set S \<union> set F" using pre all old [of c] kids by auto
    qed
    have rel: "graph_rel V = graph_rel V0" using same(1) len by (auto simp: graph_rel_def)
    have topo': "acyclic (graph_rel V0) \<longrightarrow> children_first V0 (F @ [v])"
    proof
      assume acyclic: "acyclic (graph_rel V0)"
      have "c = v \<or> c \<in> set F" if "c \<in> set (gr_children (V ! v))" for c
      proof (rule ccontr)
        assume no: "\<not> (c = v \<or> c \<in> set F)"
        then have "c \<in> set S1" using that kidsSF Sv by auto
        then have "(c, v) \<in> (graph_rel V)\<^sup>+"
          using search_path_back [of V v S1 c] path dist sub Sv by auto
        moreover have "(v, c) \<in> graph_rel V" using no that v by (simp add: graph_rel_def)
        ultimately have "(c, c) \<in> (graph_rel V)\<^sup>+" by (rule trancl_into_trancl)
        with acyclic show False unfolding rel acyclic_def by blast
      qed
      with topo acyclic show "children_first V0 (F @ [v])"
        unfolding children_first_snoc using same(1) [OF v] by simp
    qed
    let ?new = "if gr_data (V ! v) \<in> set targets then ss_newtargs st @ [gr_data (V ! v)] else ss_newtargs st"
    have out': "?new = filter (\<lambda>p. p \<in> set targets) (map (\<lambda>v. gr_data (V0 ! v)) (F @ [v]))"
      using out same(2) [OF v] by simp
    have measure: "sum_list (map (\<lambda>v. length (gr_iterator v)) (left V v)) + (length V0 - length (F @ [v])) <
        sum_list (map (\<lambda>v. length (gr_iterator v)) V) + (length V0 - length F)"
    proof -
      have "sum_list (map (\<lambda>v. length (gr_iterator v)) (left V v)) \<le> sum_list (map (\<lambda>v. length (gr_iterator v)) V)"
      proof (cases "gr_iterator (V ! v) = []")
        case True
        then show ?thesis unfolding left_def by (subst sum_list_same) (use v in simp_all)
      next
        case False
        then show ?thesis unfolding left_def by (intro less_imp_le sum_list_less) (use v in simp_all)
      qed
      moreover have "length F < length V0"
      proof -
        have "card (set (v # F)) \<le> card {..<length V}" using sub Sv by (intro card_mono) auto
        then show ?thesis using dist Sv len by (simp add: distinct_card)
      qed
      ultimately show ?thesis by simp
    qed
    show ?thesis
    proof (cases S1)
      case (Cons u S2)
      have par: "gr_parent (V ! v) = Some u" using path Sv Cons by simp
      have step: "sort_step targets st = st\<lparr>ss_vertices := left V v, ss_vertex := u, ss_newtargs := ?new\<rparr>"
        using sort_step_leave [OF V_def [symmetric] v_def [symmetric] nc [unfolded None it] v] par by (simp add: Let_def)
      have path': "search_path (left V v) S1"
        by (subst search_path_cong [of S1 "left V v" V]) (use S1 path Sv Cons v in \<open>auto simp: left_nth\<close>)
      have "search_inv V0 targets (sort_step targets st) S1 (F @ [v])"
        unfolding search_inv_def Let_def step
      proof (intro conjI, goal_cases)
        case 2 show ?case using same v by (auto simp: left_nth)
      next case 6 show ?case using fin v by (auto simp: left_nth)
      next case 7 show ?case using proc v by (auto simp: left_nth Sv)
      next case 8 show ?case using above Sv S1 v Cons by (auto simp: left_nth)
      next case 9 show ?case using nopar v by (auto simp: left_nth Sv)
      next case 10 show ?case using fresh v by (auto simp: left_nth)
      next case 11 show ?case using seen S1 v unfolding Sv by (fastforce simp: left_nth)
      qed (use len dist sub path' iV S before topo' out' Sv Cons in \<open>auto simp: v\<close>)
      then show ?thesis using measure step by (intro exI [of _ S1] exI [of _ "F @ [v]"]) (simp add: V_def)
    next
      case Nil
      have par: "gr_parent (V ! v) = None" and vi: "v = ss_i st" using path Sv Nil S by simp_all
      define i where "i = next_vertex (left V v) (Suc (ss_i st))"
      have step: "sort_step targets st = st\<lparr>ss_vertices := left V v, ss_i := i, ss_vertex := i, ss_newtargs := ?new\<rparr>"
        using sort_step_leave [OF V_def [symmetric] v_def [symmetric] nc [unfolded None it] v] par
        unfolding i_def by (simp add: Let_def)
      have spec: "Suc (ss_i st) \<le> i" "i \<le> length V"
        "\<forall>k. Suc (ss_i st) \<le> k \<longrightarrow> k < i \<longrightarrow> gr_state (left V v ! k) \<noteq> ALPM_GRAPH_STATE_UNPROCESSED"
        "i < length V \<longrightarrow> gr_state (left V v ! i) = ALPM_GRAPH_STATE_UNPROCESSED"
        using next_vertex_spec [of "Suc (ss_i st)" "left V v"] iV unfolding i_def by auto
      have iv: "i \<noteq> v" using spec(1) vi by simp
      have iU: "gr_state (V ! i) = ALPM_GRAPH_STATE_UNPROCESSED" "i \<notin> set F" if "i < length V"
        using spec(4) that v iv fin [OF that] by (auto simp: left_nth)
      have before': "{..<i} \<subseteq> set (F @ [v])"
      proof
        fix k assume "k \<in> {..<i}"
        then consider "k < ss_i st" | "k = v" | "Suc (ss_i st) \<le> k" "k < i" unfolding vi by (metis lessThan_iff not_less_eq_eq nat_neq_iff Suc_leI)
        then show "k \<in> set (F @ [v])"
        proof cases
          case 3
          then have k: "k < length V" "k \<noteq> v" using spec(2) vi by simp_all
          then have "gr_state (V ! k) \<noteq> ALPM_GRAPH_STATE_UNPROCESSED" using spec(3) [rule_format, OF 3] k v by (simp add: left_nth)
          then show ?thesis using k fin [OF k(1)] proc [OF k(1)] Sv Nil by (cases "gr_state (V ! k)") auto
        qed (use before in auto)
      qed
      let ?S = "if i < length V then [i] else []"
      have "search_inv V0 targets (sort_step targets st) ?S (F @ [v])"
        unfolding search_inv_def Let_def step
      proof (intro conjI, goal_cases)
        case 2 show ?case using same v by (auto simp: left_nth)
      next case 3 show ?case using dist iU iv Sv by auto
      next case 5 show ?case using nopar [of i] iU iv v Sv Nil by (auto simp: left_nth)
      next case 6 show ?case using fin v by (auto simp: left_nth)
      next case 7 show ?case using proc v by (auto simp: left_nth Sv Nil)
      next case 9 show ?case using nopar v by (auto simp: left_nth Sv Nil)
      next case 10 show ?case using fresh v by (auto simp: left_nth)
      next case 11 show ?case using fresh [of i] iU iv v by (auto simp: left_nth)
      qed (use len sub spec before' topo' out' Sv v in auto)
      then show ?thesis using measure step by (intro exI [of _ ?S] exI [of _ "F @ [v]"]) (simp add: V_def)
    qed
  qed
qed

text \<open>The search ends with every vertex left, and after its children where the graph has no cycles.\<close>

lemma wf_graph_search:
  assumes wf: "wf_graph V0" and ne: "V0 \<noteq> []"
  shows "\<exists>st F. while_option (\<lambda>st. ss_i st < length (ss_vertices st)) (sort_step targets)
      \<lparr>ss_vertices = V0, ss_i = 0, ss_vertex = 0, ss_newtargs = []\<rparr> = Some st \<and>
    distinct F \<and> set F = {..<length V0} \<and> ss_newtargs st = filter (\<lambda>p. p \<in> set targets) (map (\<lambda>v. gr_data (V0 ! v)) F) \<and>
    (acyclic (graph_rel V0) \<longrightarrow> children_first V0 F)"
proof -
  let ?b = "\<lambda>st. ss_i st < length (ss_vertices st)"
  let ?P = "\<lambda>st. \<exists>S F. search_inv V0 targets st S F"
  let ?init = "\<lparr>ss_vertices = V0, ss_i = 0, ss_vertex = 0, ss_newtargs = []\<rparr>"
  define F_of where "F_of st = (SOME F. \<exists>S. search_inv V0 targets st S F)" for st
  have "search_inv V0 targets ?init [0] []"
    unfolding search_inv_def Let_def using wf ne by (auto simp: wf_graph_def children_first_def)
  then have init: "?P ?init" by blast
  have lenF: "length F = card {v. v < length V0 \<and> gr_state (ss_vertices st ! v) = ALPM_GRAPH_STATE_PROCESSED}"
    if "search_inv V0 targets st S F" for st S F
  proof -
    have "{v. v < length V0 \<and> gr_state (ss_vertices st ! v) = ALPM_GRAPH_STATE_PROCESSED} = set F" "distinct F"
      using that by (auto simp: search_inv_def Let_def)
    then show ?thesis by (simp add: distinct_card)
  qed
  let ?left = "\<lambda>st. card {v. v < length V0 \<and> gr_state (ss_vertices st ! v) = ALPM_GRAPH_STATE_PROCESSED}"
  let ?m = "\<lambda>st. sum_list (map (\<lambda>v. length (gr_iterator v)) (ss_vertices st)) + (length V0 - ?left st)"
  have step: "?P (sort_step targets st) \<and> ?m (sort_step targets st) < ?m st" if P: "?P st" and b: "?b st" for st
  proof -
    from P obtain S F where "search_inv V0 targets st S F" by blast
    note inv = this
    from search_step [OF wf inv b] obtain S' F' where inv': "search_inv V0 targets (sort_step targets st) S' F'"
      and less: "sum_list (map (\<lambda>v. length (gr_iterator v)) (ss_vertices (sort_step targets st))) + (length V0 - length F') <
        sum_list (map (\<lambda>v. length (gr_iterator v)) (ss_vertices st)) + (length V0 - length F)" by blast
    from less inv' show ?thesis unfolding lenF [OF inv] lenF [OF inv'] by blast
  qed
  from measure_while_option_Some [of ?P ?b "sort_step targets" ?m, OF step init] obtain st where
    st: "while_option ?b (sort_step targets) ?init = Some st" by blast
  have "?P st" by (rule while_option_rule [OF _ st, of ?P]) (use step init in auto)
  moreover have "\<not> ?b st" by (rule while_option_stop [OF st])
  moreover from \<open>?P st\<close> obtain S F where inv: "search_inv V0 targets st S F" by blast
  moreover from inv have "length (ss_vertices st) = length V0" by (simp add: search_inv_def Let_def)
  ultimately have "length V0 \<le> ss_i st" by simp
  with inv have "set F = {..<length V0}" by (auto simp: search_inv_def Let_def)
  moreover have "distinct F" "ss_newtargs st = filter (\<lambda>p. p \<in> set targets) (map (\<lambda>v. gr_data (V0 ! v)) F)"
    "acyclic (graph_rel V0) \<longrightarrow> children_first V0 F"
    using inv by (simp_all add: search_inv_def Let_def)
  ultimately show ?thesis using st by blast
qed

subsection \<open>The graph: facts\<close>

lemma graph_edges_spec:
  assumes "i \<le> length V" and "\<And>v. i \<le> v \<Longrightarrow> v < length V \<Longrightarrow> V ! v = alpm_graph_new (gr_data (V ! v))"
    and "\<And>v. v < i \<Longrightarrow> gr_state (V ! v) = ALPM_GRAPH_STATE_UNPROCESSED \<and> gr_parent (V ! v) = None \<and>
      gr_iterator (V ! v) = gr_children (V ! v) \<and>
      set (gr_children (V ! v)) = {c. c < length V \<and> alpm_pkg_depends_on (pk (gr_data (V ! v))) (pk (gr_data (V ! c)))} \<and>
      (\<forall>q \<in> set L. \<not> alpm_pkg_depends_on (pk (gr_data (V ! v))) (pk q))"
  shows "\<exists>P. map gr_data (graph_edges pk i V L) = map gr_data V @ P \<and> set P \<subseteq> set L \<and> (distinct L \<longrightarrow> distinct P) \<and>
    (let V' = graph_edges pk i V L in (\<forall>v < length V'. \<forall>q \<in> set L - set P. \<not> alpm_pkg_depends_on (pk (gr_data (V' ! v))) (pk q)) \<and> ( \<forall>v < length V'. gr_state (V' ! v) = ALPM_GRAPH_STATE_UNPROCESSED \<and>
      gr_parent (V' ! v) = None \<and> gr_iterator (V' ! v) = gr_children (V' ! v) \<and>
      set (gr_children (V' ! v)) = {c. c < length V' \<and> alpm_pkg_depends_on (pk (gr_data (V' ! v))) (pk (gr_data (V' ! c)))}))"
  using assms
proof (induction pk i V L rule: graph_edges.induct)
  case (1 pk i V L)
  show ?case
  proof (cases "i < length V")
    case False
    then have "graph_edges pk i V L = V" by (subst graph_edges.simps) simp
    moreover from False 1(2) have "i = length V" by linarith
    ultimately show ?thesis using 1(4) by (intro exI [of _ "[]"]) (auto simp: Let_def)
  next
    case True
    let ?needs = "\<lambda>q. alpm_pkg_depends_on (pk (gr_data (V ! i))) (pk q)"
    define ch where "ch = filter (\<lambda>j. ?needs (gr_data (V ! j))) [0..<length V]"
    define pulled where "pulled = filter ?needs L"
    define ch' where "ch' = ch @ [length V..<length V + length pulled]"
    define V1 where "V1 = V @ map alpm_graph_new pulled"
    define V2 where "V2 = V1[i := (V1 ! i)\<lparr>gr_children := ch', gr_iterator := ch'\<rparr>]"
    define L' where "L' = filter (\<lambda>q. \<not> ?needs q) L"
    have eq: "graph_edges pk i V L = graph_edges pk (Suc i) V2 L'"
      using True by (subst graph_edges.simps)
        (simp add: Let_def ch_def pulled_def ch'_def V1_def V2_def L'_def)
    have len: "length V2 = length V + length pulled" by (simp add: V2_def V1_def)
    have V2: "V2 ! v = (if v = i then (V ! i)\<lparr>gr_children := ch', gr_iterator := ch'\<rparr>
        else if v < length V then V ! v else alpm_graph_new (pulled ! (v - length V)))" if "v < length V2" for v
      using that True len by (auto simp: V2_def V1_def nth_list_update nth_append)
    have data: "gr_data (V2 ! v) = (if v < length V then gr_data (V ! v) else pulled ! (v - length V))" if "v < length V2" for v
      using V2 [OF that] True by (auto simp: alpm_graph_new_def)
    have map2: "map gr_data V2 = map gr_data V @ pulled"
      by (rule nth_equalityI) (auto simp: len nth_append data)
    have needP: "?needs q \<and> q \<in> set L" if "q \<in> set pulled" for q using that by (simp add: pulled_def)
    have a1: "Suc i \<le> length V2" using True len by simp
    have a2: "V2 ! v = alpm_graph_new (gr_data (V2 ! v))" if "Suc i \<le> v" "v < length V2" for v
      using V2 [OF that(2)] that 1(3) [of v] by (auto simp: alpm_graph_new_def)
    have a3: "gr_state (V2 ! v) = ALPM_GRAPH_STATE_UNPROCESSED \<and> gr_parent (V2 ! v) = None \<and>
      gr_iterator (V2 ! v) = gr_children (V2 ! v) \<and>
      set (gr_children (V2 ! v)) = {c. c < length V2 \<and> alpm_pkg_depends_on (pk (gr_data (V2 ! v))) (pk (gr_data (V2 ! c)))} \<and>
      (\<forall>q \<in> set L'. \<not> alpm_pkg_depends_on (pk (gr_data (V2 ! v))) (pk q))" if "v < Suc i" for v
    proof -
      have v: "v < length V2" "v < length V" using that True len by simp_all
      show ?thesis
      proof (cases "v = i")
        case True
        have "V ! i = alpm_graph_new (gr_data (V ! i))" using 1(3) [of i] v True by simp
        then have new: "gr_state (V ! i) = ALPM_GRAPH_STATE_UNPROCESSED" "gr_parent (V ! i) = None"
          by (metis alpm_graph_new_def alpm_graph.simps(2,5))+
        have "set ch' = {c. c < length V2 \<and> ?needs (gr_data (V2 ! c))}"
        proof -
          have "?needs (pulled ! (c - length V))" if "length V \<le> c" "c < length V2" for c
            using needP [of "pulled ! (c - length V)"] that len by simp
          then show ?thesis by (auto simp: ch'_def ch_def data len)
        qed
        then show ?thesis using True new V2 [OF v(1)] data [OF v(1)] v by (simp add: L'_def)
      next
        case False
        then have vi: "v < i" using that by simp
        have no: "\<not> alpm_pkg_depends_on (pk (gr_data (V ! v))) (pk q)" if "q \<in> set L" for q
          using 1(4) [OF vi] that by blast
        have old: "alpm_pkg_depends_on (pk (gr_data (V ! v))) (pk (gr_data (V2 ! c))) \<Longrightarrow> c < length V" if "c < length V2" for c
        proof (rule ccontr)
          assume d: "alpm_pkg_depends_on (pk (gr_data (V ! v))) (pk (gr_data (V2 ! c)))" and "\<not> c < length V"
          then have "gr_data (V2 ! c) \<in> set pulled" using data [OF that] that len by simp
          then show False using needP no d by blast
        qed
        have "{c. c < length V2 \<and> alpm_pkg_depends_on (pk (gr_data (V2 ! v))) (pk (gr_data (V2 ! c)))} =
            {c. c < length V \<and> alpm_pkg_depends_on (pk (gr_data (V ! v))) (pk (gr_data (V ! c)))}"
        proof (intro Collect_cong iffI conjI; elim conjE)
          fix c assume c: "c < length V2" "alpm_pkg_depends_on (pk (gr_data (V2 ! v))) (pk (gr_data (V2 ! c)))"
          with old [OF c(1)] data [OF v(1)] v show "c < length V" by simp
          with c data [OF v(1)] data [OF c(1)] v show "alpm_pkg_depends_on (pk (gr_data (V ! v))) (pk (gr_data (V ! c)))" by simp
        next
          fix c assume c: "c < length V" "alpm_pkg_depends_on (pk (gr_data (V ! v))) (pk (gr_data (V ! c)))"
          then show "c < length V2" using len by simp
          with c data [OF v(1)] data [of c] v show "alpm_pkg_depends_on (pk (gr_data (V2 ! v))) (pk (gr_data (V2 ! c)))" by simp
        qed
        then show ?thesis using 1(4) [OF vi] no V2 [OF v(1)] data [OF v(1)] v False by (auto simp: L'_def)
      qed
    qed
    have "\<exists>P. map gr_data (graph_edges pk (Suc i) V2 L') = map gr_data V2 @ P \<and> set P \<subseteq> set L' \<and> (distinct L' \<longrightarrow> distinct P) \<and>
      (let V' = graph_edges pk (Suc i) V2 L' in (\<forall>v < length V'. \<forall>q \<in> set L' - set P. \<not> alpm_pkg_depends_on (pk (gr_data (V' ! v))) (pk q)) \<and> ( \<forall>v < length V'. gr_state (V' ! v) = ALPM_GRAPH_STATE_UNPROCESSED \<and>
      gr_parent (V' ! v) = None \<and> gr_iterator (V' ! v) = gr_children (V' ! v) \<and>
      set (gr_children (V' ! v)) = {c. c < length V' \<and> alpm_pkg_depends_on (pk (gr_data (V' ! v))) (pk (gr_data (V' ! c)))}))"
      using 1(1) [OF True refl refl refl refl refl, folded ch_def pulled_def, folded ch'_def V1_def, folded V2_def L'_def, OF a1 a2 a3] by blast
    then obtain P where P: "map gr_data (graph_edges pk (Suc i) V2 L') = map gr_data V2 @ P" "set P \<subseteq> set L'"
      "distinct L' \<longrightarrow> distinct P"
      "let V' = graph_edges pk (Suc i) V2 L' in (\<forall>v < length V'. \<forall>q \<in> set L' - set P. \<not> alpm_pkg_depends_on (pk (gr_data (V' ! v))) (pk q)) \<and> (\<forall>v < length V'. gr_state (V' ! v) = ALPM_GRAPH_STATE_UNPROCESSED \<and>
      gr_parent (V' ! v) = None \<and> gr_iterator (V' ! v) = gr_children (V' ! v) \<and>
      set (gr_children (V' ! v)) = {c. c < length V' \<and> alpm_pkg_depends_on (pk (gr_data (V' ! v))) (pk (gr_data (V' ! c)))})"
      by blast
    have "set (pulled @ P) \<subseteq> set L" using P(2) by (auto simp: pulled_def L'_def)
    moreover have "distinct L \<longrightarrow> distinct (pulled @ P)" using P(2,3) by (auto simp: pulled_def L'_def)
    moreover have "set L - set (pulled @ P) \<subseteq> set L' - set P" by (auto simp: pulled_def L'_def)
    ultimately show ?thesis unfolding eq using P(1,4) map2 by (intro exI [of _ "pulled @ P"]) (auto simp: Let_def)
  qed
qed

text \<open>The difference by name, as the set it is.\<close>

lemma merge_by_sorted:
  fixes key :: "'a \<Rightarrow> 'b :: linorder"
  shows "List.sorted (map key xs) \<Longrightarrow> List.sorted (map key ys) \<Longrightarrow> List.sorted (map key (merge_by (\<lambda>x y. key x \<le> key y) xs ys))"
proof (induction "\<lambda>x y. key x \<le> key y" xs ys rule: merge_by.induct)
  case (3 x xs y ys)
  have "set (merge_by (\<lambda>x y. key x \<le> key y) as bs) = set as \<union> set bs" for as bs
    using merge_by_mset [of "\<lambda>x y. key x \<le> key y" as bs] mset_eq_setD by (metis set_mset_mset set_mset_union)
  with 3 show ?case by (cases "key x \<le> key y") auto
qed auto

lemma msort_by_sorted:
  fixes key :: "'a \<Rightarrow> 'b :: linorder"
  shows "List.sorted (map key (msort_by (\<lambda>x y. key x \<le> key y) xs))"
proof (induction xs rule: msort_induct)
  case (short xs)
  then show ?case by (cases xs) (auto simp: msort_by_short)
next
  case (split xs)
  then show ?case by (simp add: msort_by_split merge_by_sorted)
qed

lemma diff_by_filter:
  fixes key :: "'a \<Rightarrow> 'b :: linorder"
  assumes "\<And>x y. fn x y < 0 \<longleftrightarrow> key x < key y" and "\<And>x y. fn x y > 0 \<longleftrightarrow> key x > key y"
  shows "List.sorted (map key xs) \<Longrightarrow> distinct (map key xs) \<Longrightarrow> List.sorted (map key ys) \<Longrightarrow>
    diff_by fn xs ys = filter (\<lambda>x. key x \<notin> key ` set ys) xs"
  using assms
proof (induction fn xs ys rule: diff_by.induct)
  case (3 fn x xs y ys)
  consider (lt) "key x < key y" | (gt) "key x > key y" | (eq) "key x = key y" by fastforce
  then show ?case
  proof cases
    case lt
    then have "key x \<notin> key ` set (y # ys)" using 3(6) by auto
    with lt 3 show ?thesis by auto
  next
    case gt
    then have "\<forall>z \<in> set (x # xs). key z \<noteq> key y" using 3(4) by auto
    then have "filter (\<lambda>x. key x \<notin> key ` set (y # ys)) (x # xs) = filter (\<lambda>x. key x \<notin> key ` set ys) (x # xs)"
      by (intro filter_cong) auto
    with gt 3 show ?thesis by (simp add: not_less_iff_gr_or_eq)
  next
    case eq
    then have "\<forall>z \<in> set xs. key z \<noteq> key y" using 3(5) by (auto simp: image_iff)
    then have "filter (\<lambda>x. key x \<notin> key ` set (y # ys)) xs = filter (\<lambda>x. key x \<notin> key ` set ys) xs"
      by (intro filter_cong) auto
    with eq 3 show ?thesis by simp
  qed
qed auto

lemma pkg_diff_set:
  assumes "distinct (map (\<lambda>p. pkg_name (pk p)) lhs)"
  shows "set (pkg_diff pk lhs rhs) = {p \<in> set lhs. pkg_name (pk p) \<notin> (\<lambda>p. pkg_name (pk p)) ` set rhs}"
    and "distinct (map (\<lambda>p. pkg_name (pk p)) (pkg_diff pk lhs rhs))"
proof -
  let ?key = "\<lambda>p. pkg_name (pk p)"
  have le: "(\<lambda>p q. alpm_pkg_cmp pk p q \<le> 0) = (\<lambda>p q. ?key p \<le> ?key q)"
    by (intro ext) (auto simp: alpm_pkg_cmp_def c_strcmp_def)
  let ?s = "msort_by (\<lambda>p q. ?key p \<le> ?key q)"
  have set: "set (?s xs) = set xs" for xs by (metis msort_by_mset set_mset_mset)
  have "mset (map ?key (?s lhs)) = mset (map ?key lhs)" by simp
  then have dist: "distinct (map ?key (?s lhs))" using assms mset_eq_imp_distinct_iff by blast
  have "pkg_diff pk lhs rhs = filter (\<lambda>x. ?key x \<notin> ?key ` set (?s rhs)) (?s lhs)"
    unfolding pkg_diff_def Let_def le
    by (rule diff_by_filter [OF _ _ msort_by_sorted dist msort_by_sorted])
      (auto simp: alpm_pkg_cmp_def c_strcmp_def split: if_splits)
  then show "set (pkg_diff pk lhs rhs) = {p \<in> set lhs. ?key p \<notin> ?key ` set rhs}"
    and "distinct (map ?key (pkg_diff pk lhs rhs))"
    using dist by (auto simp: set intro: distinct_map_filter)
qed

lemma local_candidates_set:
  assumes "distinct (map (\<lambda>p. pkg_name (pk p)) pkgcache)"
  shows "set (local_candidates pk pkgcache targets ignore) =
      {p \<in> set pkgcache. pkg_name (pk p) \<notin> (\<lambda>p. pkg_name (pk p)) ` (set targets \<union> set ignore)}"
    and "distinct (map (\<lambda>p. pkg_name (pk p)) (local_candidates pk pkgcache targets ignore))"
  using pkg_diff_set [OF assms] pkg_diff_set [OF pkg_diff_set(2) [OF assms]]
  by (auto simp: local_candidates_def Let_def)

text \<open>
  The packages the order is about: the targets, and the installed packages that no target replaces and
  that are not to be ignored.
\<close>

definition sort_scope :: "pkg_store \<Rightarrow> alpm_handle \<Rightarrow> pkg_ref list \<Rightarrow> pkg_ref list \<Rightarrow> pkg_ref set" where
  "sort_scope pk h targets ignore = set targets \<union>
     {p \<in> set (db_pkgcache (db_local h)). pkg_name (pk p) \<notin> (\<lambda>p. pkg_name (pk p)) ` (set targets \<union> set ignore)}"

definition depends_rel :: "pkg_store \<Rightarrow> pkg_ref set \<Rightarrow> (pkg_ref \<times> pkg_ref) set" where
  "depends_rel pk A = {(p, q). p \<in> A \<and> q \<in> A \<and> p \<noteq> q \<and> alpm_pkg_depends_on (pk p) (pk q)}"

lemma graph_init_spec:
  fixes pk h targets ignore
  assumes "distinct targets" and "distinct (map (\<lambda>p. pkg_name (pk p)) (db_pkgcache (db_local h)))"
  defines "V \<equiv> dep_graph_init pk h targets ignore"
  shows "wf_graph V" and "distinct (map gr_data V)" and "set targets \<subseteq> set (map gr_data V)"
    and "set (map gr_data V) \<subseteq> sort_scope pk h targets ignore"
    and "\<And>v. v < length V \<Longrightarrow> set (gr_children (V ! v)) =
      {c. c < length V \<and> alpm_pkg_depends_on (pk (gr_data (V ! v))) (pk (gr_data (V ! c)))}"
    and "\<And>v q. v < length V \<Longrightarrow> q \<in> sort_scope pk h targets ignore \<Longrightarrow>
      alpm_pkg_depends_on (pk (gr_data (V ! v))) (pk q) \<Longrightarrow> q \<in> set (map gr_data V)"
proof -
  let ?L = "local_candidates pk (db_pkgcache (db_local h)) targets ignore"
  note L = local_candidates_set [OF assms(2), of targets ignore]
  have new: "gr_data (alpm_graph_new p) = p" for p by (simp add: alpm_graph_new_def)
  then have data: "map gr_data (map alpm_graph_new targets) = targets" by (simp add: comp_def)
  have "\<exists>P. map gr_data (graph_edges pk 0 (map alpm_graph_new targets) ?L) = map gr_data (map alpm_graph_new targets) @ P \<and>
    set P \<subseteq> set ?L \<and> (distinct ?L \<longrightarrow> distinct P) \<and>
    (let V' = graph_edges pk 0 (map alpm_graph_new targets) ?L in (\<forall>v < length V'. \<forall>q \<in> set ?L - set P. \<not> alpm_pkg_depends_on (pk (gr_data (V' ! v))) (pk q)) \<and> (\<forall>v < length V'. gr_state (V' ! v) = ALPM_GRAPH_STATE_UNPROCESSED \<and>
      gr_parent (V' ! v) = None \<and> gr_iterator (V' ! v) = gr_children (V' ! v) \<and>
      set (gr_children (V' ! v)) = {c. c < length V' \<and> alpm_pkg_depends_on (pk (gr_data (V' ! v))) (pk (gr_data (V' ! c)))}))"
    by (rule graph_edges_spec) (auto simp: new)
  then obtain P where P: "map gr_data V = targets @ P" "set P \<subseteq> set ?L" "distinct ?L \<longrightarrow> distinct P"
    and no: "\<forall>v < length V. \<forall>q \<in> set ?L - set P. \<not> alpm_pkg_depends_on (pk (gr_data (V ! v))) (pk q)"
    and all: "\<forall>v < length V. gr_state (V ! v) = ALPM_GRAPH_STATE_UNPROCESSED \<and>
      gr_parent (V ! v) = None \<and> gr_iterator (V ! v) = gr_children (V ! v) \<and>
      set (gr_children (V ! v)) = {c. c < length V \<and> alpm_pkg_depends_on (pk (gr_data (V ! v))) (pk (gr_data (V ! c)))}"
    unfolding data V_def dep_graph_init_def Let_def by blast
  show "wf_graph V" using all by (auto simp: wf_graph_def)
  have "distinct ?L" using L(2) by (rule distinct_map [THEN iffD1, THEN conjunct1])
  then show "distinct (map gr_data V)" using P assms(1) L(1) by auto
  show "set targets \<subseteq> set (map gr_data V)" using P(1) by simp
  show "set (map gr_data V) \<subseteq> sort_scope pk h targets ignore" using P(1,2) L(1) by (auto simp: sort_scope_def)
  show "set (gr_children (V ! v)) =
      {c. c < length V \<and> alpm_pkg_depends_on (pk (gr_data (V ! v))) (pk (gr_data (V ! c)))}" if "v < length V" for v
    using all that by blast
  show "q \<in> set (map gr_data V)" if "v < length V" "q \<in> sort_scope pk h targets ignore"
      "alpm_pkg_depends_on (pk (gr_data (V ! v))) (pk q)" for v q
    using that no P(1) L(1) by (auto simp: sort_scope_def)
qed

subsection \<open>The order\<close>

definition before :: "'a list \<Rightarrow> 'a \<Rightarrow> 'a \<Rightarrow> bool" where
  "before xs q p \<longleftrightarrow> (\<exists>as bs cs. xs = as @ q # bs @ p # cs)"

lemma before_map: "before xs q p \<Longrightarrow> before (map f xs) (f q) (f p)"
  unfolding before_def by auto (metis list.simps(9) map_append)

lemma before_filter: "before xs q p \<Longrightarrow> P q \<Longrightarrow> P p \<Longrightarrow> before (filter P xs) q p"
  unfolding before_def by force

lemma before_rev: "before xs q p \<Longrightarrow> before (rev xs) p q"
  unfolding before_def by force

lemma children_first_trans:
  assumes "children_first V F" and "(v, c) \<in> (graph_rel V)\<^sup>+"
  shows "F = xs @ v # ys \<Longrightarrow> c \<in> set xs"
  using assms(2)
proof (induction rule: trancl_induct)
  case (base c)
  with assms(1) show ?case by (auto simp: children_first_def graph_rel_def)
next
  case (step c d)
  then obtain as bs where xs: "xs = as @ c # bs" by (meson split_list)
  with step have "F = as @ c # (bs @ v # ys)" by simp
  with assms(1) have "\<forall>d \<in> set (gr_children (V ! c)). d = c \<or> d \<in> set as" unfolding children_first_def by blast
  with step xs show ?case by (auto simp: graph_rel_def)
qed

lemma sortbydeps_spec:
  assumes "distinct targets" and "distinct (map (\<lambda>p. pkg_name (pk p)) (db_pkgcache (db_local h)))"
  shows "\<exists>ts. alpm_sortbydeps pk h targets ignore reverse = Some ts \<and> mset ts = mset targets \<and>
    (acyclic (depends_rel pk (sort_scope pk h targets ignore)) \<longrightarrow>
     (\<forall>p \<in> set targets. \<forall>q \<in> set targets. (p, q) \<in> (depends_rel pk (sort_scope pk h targets ignore))\<^sup>+ \<longrightarrow>
       (if reverse then before ts p q else before ts q p)))"
proof (cases "targets = []")
  case True
  then show ?thesis by (simp add: alpm_sortbydeps_def)
next
  case False
  define V where "V = dep_graph_init pk h targets ignore"
  let ?A = "sort_scope pk h targets ignore"
  note G = graph_init_spec [OF assms, where ignore = ignore, folded V_def]
  have "V \<noteq> []" using G(3) False by auto
  from wf_graph_search [OF G(1) this, of targets] obtain st F where
    run: "while_option (\<lambda>st. ss_i st < length (ss_vertices st)) (sort_step targets)
      \<lparr>ss_vertices = V, ss_i = 0, ss_vertex = 0, ss_newtargs = []\<rparr> = Some st"
    and F: "distinct F" "set F = {..<length V}"
    and out: "ss_newtargs st = filter (\<lambda>p. p \<in> set targets) (map (\<lambda>v. gr_data (V ! v)) F)"
    and topo: "acyclic (graph_rel V) \<longrightarrow> children_first V F" by blast
  let ?ts = "if reverse then rev (ss_newtargs st) else ss_newtargs st"
  have res: "alpm_sortbydeps pk h targets ignore reverse = Some ?ts"
    using run False by (simp add: alpm_sortbydeps_def V_def)
  have inj: "inj_on (\<lambda>v. gr_data (V ! v)) {..<length V}"
    using G(2) by (auto simp: inj_on_def distinct_conv_nth)
  have dist: "distinct (map (\<lambda>v. gr_data (V ! v)) F)"
    using F inj by (simp add: distinct_map)
  have "set (map (\<lambda>v. gr_data (V ! v)) F) = set (map gr_data V)"
  proof -
    have "set V = (\<lambda>v. V ! v) ` {..<length V}" by (auto simp: set_conv_nth)
    then show ?thesis by (simp add: F(2) image_image)
  qed
  then have "set (ss_newtargs st) = set targets" using G(3) by (auto simp: out)
  moreover have "distinct (ss_newtargs st)" using dist unfolding out by (rule distinct_filter)
  ultimately have "mset ?ts = mset targets" using assms(1) set_eq_iff_mset_eq_distinct by auto
  moreover have "if reverse then before ?ts p q else before ?ts q p"
    if acyclic: "acyclic (depends_rel pk ?A)" and p: "p \<in> set targets" and q: "q \<in> set targets"
      and pq: "(p, q) \<in> (depends_rel pk ?A)\<^sup>+" for p q
  proof -
    have up: "(gr_data (V ! v), gr_data (V ! c)) \<in> depends_rel pk ?A" if vc: "(v, c) \<in> graph_rel V" for v c
    proof -
      from vc have "v < length V" "c \<in> set (gr_children (V ! v))" "c \<noteq> v" by (auto simp: graph_rel_def)
      moreover from this G(5) have "c < length V" "alpm_pkg_depends_on (pk (gr_data (V ! v))) (pk (gr_data (V ! c)))" by auto
      ultimately show ?thesis using G(4) inj by (auto simp: depends_rel_def inj_on_def)
    qed
    have "(gr_data (V ! v), gr_data (V ! c)) \<in> (depends_rel pk ?A)\<^sup>+" if "(v, c) \<in> (graph_rel V)\<^sup>+" for v c
      using that by induction (auto intro: up trancl.intros)
    then have "acyclic (graph_rel V)" using acyclic unfolding acyclic_def by blast
    with topo have cf: "children_first V F" by blast
    obtain v where v: "v < length V" "gr_data (V ! v) = p" using p G(3) by (metis in_set_conv_nth length_map nth_map subsetD)
    have "\<exists>c. c < length V \<and> gr_data (V ! c) = q \<and> (v, c) \<in> (graph_rel V)\<^sup>+"
      using pq
    proof (induction rule: trancl_induct)
      case (base q)
      then have "q \<in> set (map gr_data V)" using G(6) [OF v(1), of q] v(2) by (auto simp: depends_rel_def)
      then obtain c where "c < length V" "gr_data (V ! c) = q" by (metis in_set_conv_nth length_map nth_map)
      with base v G(5) [OF v(1)] show ?case by (intro exI [of _ c]) (auto simp: depends_rel_def graph_rel_def)
    next
      case (step q r)
      then obtain c where c: "c < length V" "gr_data (V ! c) = q" "(v, c) \<in> (graph_rel V)\<^sup>+" by blast
      from step have "r \<in> set (map gr_data V)" using G(6) [OF c(1), of r] c(2) by (auto simp: depends_rel_def)
      then obtain d where d: "d < length V" "gr_data (V ! d) = r" by (metis in_set_conv_nth length_map nth_map)
      with step c G(5) [OF c(1)] have "(c, d) \<in> graph_rel V" by (auto simp: depends_rel_def graph_rel_def)
      with c d show ?case by (blast intro: trancl_into_trancl)
    qed
    then obtain c where c: "c < length V" "gr_data (V ! c) = q" "(v, c) \<in> (graph_rel V)\<^sup>+" by blast
    obtain xs ys where xs: "F = xs @ v # ys" using v(1) F(2) by (metis lessThan_iff split_list)
    then have "c \<in> set xs" using children_first_trans [OF cf c(3)] by blast
    then obtain as bs where "xs = as @ c # bs" by (meson split_list)
    then have "before F c v" unfolding before_def xs by (intro exI [of _ as] exI [of _ bs] exI [of _ ys]) simp
    then have "before (map (\<lambda>v. gr_data (V ! v)) F) q p" using before_map [of F c v "\<lambda>v. gr_data (V ! v)"] c v by simp
    then have "before (ss_newtargs st) q p" unfolding out using p q by (intro before_filter) auto
    then show ?thesis using before_rev by auto
  qed
  ultimately show ?thesis using res by blast
qed

text \<open>
  C17.  The order of a transaction lists every target once; and where the dependencies have no cycle,
  a target comes after the targets it depends on, also when it does so through installed packages, or
  before them in the reverse order.
\<close>

theorem sortbydeps_order:
  assumes "distinct targets" and "distinct (map (\<lambda>p. pkg_name (pk p)) (db_pkgcache (db_local h)))"
  shows "\<exists>ts. alpm_sortbydeps pk h targets ignore reverse = Some ts \<and> mset ts = mset targets \<and>
    (acyclic (depends_rel pk (sort_scope pk h targets ignore)) \<longrightarrow>
     (\<forall>p \<in> set targets. \<forall>q \<in> set targets. (p, q) \<in> (depends_rel pk (sort_scope pk h targets ignore))\<^sup>+ \<longrightarrow>
       (if reverse then before ts p q else before ts q p)))"
  using assms by (rule sortbydeps_spec)

theorem sortbydeps_order_witness:
  "\<exists>ts. alpm_sortbydeps sample_store sample_handle [0, 1] [] False = Some ts \<and> mset ts = {#0, 1#}"
proof -
  have "distinct (map (\<lambda>p. pkg_name (sample_store p)) (db_pkgcache (db_local sample_handle)))" by code_simp
  from sortbydeps_order [OF _ this, of "[0, 1]" "[]" False] show ?thesis by (simp add: add_mset_commute) blast
qed

end
