(* ===== verification/Alpm_Pkghash.thy ===== *)
theory Alpm_Pkghash
  imports Alpm_Sort Alpm_Resolve
begin

text \<open>
  The table of the packages of a database by name, \<open>lib/2O9/alpm/pkghash.c\<close>: open addressing with
  linear probing, resizing, and removal that closes the gap it leaves.

  The list node an entry points to is the package it holds, which a table holds once.
\<close>

subsection \<open>The table\<close>

record alpm_pkghash =
  ph_table :: "pkg_ref option list"
  ph_list :: "pkg_ref list"
  ph_entries :: nat
  ph_limit :: nat

abbreviation "ph_buckets h \<equiv> length (ph_table h)"

definition prime_list :: "nat list" where
  "prime_list =
     [11, 13, 17, 19, 23, 29, 31, 37, 41, 43, 47,
      53, 59, 61, 67, 71, 73, 79, 83, 89, 97, 103,
      109, 113, 127, 137, 139, 149, 157, 167, 179, 193,
      199, 211, 227, 241, 257, 277, 293, 313, 337, 359,
      383, 409, 439, 467, 503, 541, 577, 619, 661, 709,
      761, 823, 887, 953, 1031, 1109, 1193, 1289, 1381,
      1493, 1613, 1741, 1879, 2029, 2179, 2357, 2549,
      2753, 2971, 3209, 3469, 3739, 4027, 4349, 4703,
      5087, 5503, 5953, 6427, 6949, 7517, 8123, 8783,
      9497, 10273, 11113, 12011, 12983, 14033, 15173,
      16411, 17749, 19183, 20753, 22447, 24281, 26267,
      28411, 30727, 33223, 35933, 38873, 42043, 45481,
      49201, 53201, 57557, 62233, 67307, 72817, 78779,
      85229, 92203, 99733, 107897, 116731, 126271, 136607,
      147793, 159871, 172933, 187091, 202409, 218971, 236897,
      256279, 277261, 299951, 324503, 351061, 379787, 410857,
      444487, 480881, 520241, 562841, 608903, 658753, 712697,
      771049, 834181, 902483, 976369]"

text \<open>
  The size divided by 0.58 and the buckets times 0.68, truncated.  The code computes both with double
  precision numbers; in the range of the sizes the truncated results are these integers: the first
  quotient is a whole number (and then represented exactly) or at least a 29th away from one, and no
  prime above 5 makes the second one whole.
\<close>

definition size_for :: "nat \<Rightarrow> nat" where
  "size_for wanted = wanted * 50 div 29 + 1"

definition limit_for :: "nat \<Rightarrow> nat" where
  "limit_for buckets = buckets * 17 div 25"

definition alpm_pkghash_create :: "nat \<Rightarrow> alpm_pkghash option" where
  "alpm_pkghash_create wanted =
     map_option (\<lambda>b. \<lparr>ph_table = replicate b None, ph_list = [], ph_entries = 0, ph_limit = limit_for b\<rparr>)
       (find (\<lambda>b. b > size_for wanted) prime_list)"

definition step_pos :: "nat \<Rightarrow> nat \<Rightarrow> nat" where
  "step_pos buckets position =
     (let p = position + 1 in if p \<ge> buckets then p - buckets else p)"

partial_function (option) free_position :: "pkg_ref option list \<Rightarrow> nat \<Rightarrow> nat option" where
  "free_position table position =
     (if table ! position = None then Some position else free_position table (step_pos (length table) position))"

definition get_hash_position :: "64 word \<Rightarrow> pkg_ref option list \<Rightarrow> nat option" where
  "get_hash_position name_hash table = free_position table (unat name_hash mod length table)"

fun rebin :: "pkg_store \<Rightarrow> pkg_ref option list \<Rightarrow> pkg_ref option list \<Rightarrow> pkg_ref option list option" where
  "rebin pk [] new = Some new"
| "rebin pk (None # old) new = rebin pk old new"
| "rebin pk (Some p # old) new = do {
     position \<leftarrow> get_hash_position (pkg_name_hash (pk p)) new;
     rebin pk old (new[position := Some p])
   }"

definition grown_size :: "nat \<Rightarrow> nat" where
  "grown_size buckets =
     (if buckets < 500 then buckets * 2
      else if buckets < 2000 then buckets * 3 div 2
      else if buckets < 5000 then buckets * 4 div 3
      else buckets + 1)"

text \<open>The outer option is the loop that may not end, the inner one the error that no size is left.\<close>

definition rehash :: "pkg_store \<Rightarrow> alpm_pkghash \<Rightarrow> alpm_pkghash option option" where
  "rehash pk oldhash =
     (case alpm_pkghash_create (grown_size (ph_buckets oldhash)) of
        None \<Rightarrow> Some None
      | Some newhash \<Rightarrow> do {
          table \<leftarrow> rebin pk (ph_table oldhash) (ph_table newhash);
          Some (Some (newhash\<lparr>ph_table := table, ph_list := ph_list oldhash, ph_entries := ph_entries oldhash\<rparr>))
        })"

definition pkghash_add_pkg :: "pkg_store \<Rightarrow> alpm_pkghash \<Rightarrow> pkg_ref \<Rightarrow> bool \<Rightarrow> alpm_pkghash option option" where
  "pkghash_add_pkg pk hash pkg sorted_list = do {
     grown \<leftarrow> (if ph_entries hash \<ge> ph_limit hash then rehash pk hash else Some (Some hash));
     case grown of
       None \<Rightarrow> Some None
     | Some hash \<Rightarrow> do {
         position \<leftarrow> get_hash_position (pkg_name_hash (pk pkg)) (ph_table hash);
         Some (Some (hash\<lparr>
           ph_table := (ph_table hash)[position := Some pkg],
           ph_list := (if \<not> sorted_list then ph_list hash @ [pkg]
                       else merge_by (\<lambda>p q. alpm_pkg_cmp pk p q \<le> 0) (ph_list hash) [pkg]),
           ph_entries := ph_entries hash + 1\<rparr>))
       }
   }"

definition alpm_pkghash_add :: "pkg_store \<Rightarrow> alpm_pkghash \<Rightarrow> pkg_ref \<Rightarrow> alpm_pkghash option option" where
  "alpm_pkghash_add pk hash pkg = pkghash_add_pkg pk hash pkg False"

definition alpm_pkghash_add_sorted :: "pkg_store \<Rightarrow> alpm_pkghash \<Rightarrow> pkg_ref \<Rightarrow> alpm_pkghash option option" where
  "alpm_pkghash_add_sorted pk hash pkg = pkghash_add_pkg pk hash pkg True"

text \<open>Where the search for a name ends: at its entry, or at an empty bucket.\<close>

partial_function (option) probe_name :: "pkg_store \<Rightarrow> pkg_ref option list \<Rightarrow> 64 word \<Rightarrow> string \<Rightarrow> nat \<Rightarrow> nat option" where
  "probe_name pk table name_hash name position =
     (case table ! position of
        None \<Rightarrow> Some position
      | Some info \<Rightarrow>
          if pkg_name_hash (pk info) = name_hash \<and> pkg_name (pk info) = name then Some position
          else probe_name pk table name_hash name (step_pos (length table) position))"

definition alpm_pkghash_find :: "pkg_store \<Rightarrow> alpm_pkghash \<Rightarrow> string \<Rightarrow> pkg_ref option option" where
  "alpm_pkghash_find pk hash name =
     map_option (\<lambda>position. ph_table hash ! position)
       (probe_name pk (ph_table hash) (alpm_hash_sdbm name) name (unat (alpm_hash_sdbm name) mod ph_buckets hash))"

subsection \<open>Removing\<close>

definition back_pos :: "nat \<Rightarrow> nat \<Rightarrow> nat" where
  "back_pos buckets position = (buckets + position - 1) mod buckets"

partial_function (option) move_one_entry ::
    "pkg_store \<Rightarrow> pkg_ref option list \<Rightarrow> nat \<Rightarrow> nat \<Rightarrow> (pkg_ref option list \<times> nat) option" where
  "move_one_entry pk table start end_pos =
     (if end_pos = start then Some (table, end_pos)
      else do {
        info \<leftarrow> table ! end_pos;
        new_position \<leftarrow> get_hash_position (pkg_name_hash (pk info)) table;
        if new_position = start then Some (table[start := Some info, end_pos := None], end_pos)
        else move_one_entry pk table start (back_pos (length table) end_pos)
      })"

partial_function (option) find_stop :: "pkg_ref option list \<Rightarrow> nat \<Rightarrow> nat \<Rightarrow> nat option" where
  "find_stop table position stop =
     (if table ! stop \<noteq> None \<and> stop \<noteq> position then find_stop table position (step_pos (length table) stop)
      else Some stop)"

partial_function (option) plug_holes :: "pkg_store \<Rightarrow> pkg_ref option list \<Rightarrow> nat \<Rightarrow> nat \<Rightarrow> pkg_ref option list option" where
  "plug_holes pk table position stop = do {
     (table, prev) \<leftarrow> move_one_entry pk table position stop;
     if prev = position then Some table else plug_holes pk table prev stop
   }"

definition alpm_pkghash_remove ::
    "pkg_store \<Rightarrow> alpm_pkghash \<Rightarrow> pkg_ref \<Rightarrow> (alpm_pkghash \<times> pkg_ref option) option" where
  "alpm_pkghash_remove pk hash pkg = do {
     let table = ph_table hash;
     position \<leftarrow> probe_name pk table (pkg_name_hash (pk pkg)) (pkg_name (pk pkg))
       (unat (pkg_name_hash (pk pkg)) mod length table);
     case table ! position of
       None \<Rightarrow> Some (hash, None)
     | Some info \<Rightarrow> do {
         let table = table[position := None];
         stop \<leftarrow> find_stop table position (step_pos (length table) position);
         table \<leftarrow> plug_holes pk table position (back_pos (length table) stop);
         Some (hash\<lparr>ph_table := table, ph_list := remove1 info (ph_list hash), ph_entries := ph_entries hash - 1\<rparr>, Some info)
       }
   }"


declare free_position.simps [code] probe_name.simps [code] move_one_entry.simps [code] find_stop.simps [code] plug_holes.simps [code]

subsection \<open>Going round the table\<close>

text \<open>How many steps lead from one bucket to another, in a table of \<open>n\<close> buckets.\<close>

definition dist :: "nat \<Rightarrow> nat \<Rightarrow> nat \<Rightarrow> nat" where
  "dist n a b = (if a \<le> b then b - a else n + b - a)"

lemma dist_less: "a < n \<Longrightarrow> b < n \<Longrightarrow> dist n a b < n"
  by (auto simp: dist_def)

lemma dist_0 [simp]: "dist n a a = 0"
  by (simp add: dist_def)

lemma dist_eq_0: "a < n \<Longrightarrow> b < n \<Longrightarrow> dist n a b = 0 \<longleftrightarrow> a = b"
  by (auto simp: dist_def)

lemma dist_inject: "a < n \<Longrightarrow> b < n \<Longrightarrow> c < n \<Longrightarrow> dist n a b = dist n a c \<Longrightarrow> b = c"
  by (auto simp: dist_def split: if_splits)

lemma step_pos_less: "p < n \<Longrightarrow> step_pos n p < n"
  by (auto simp: step_pos_def Let_def)

lemma dist_step: "p < n \<Longrightarrow> q < n \<Longrightarrow> p \<noteq> q \<Longrightarrow> dist n p q = Suc (dist n (step_pos n p) q)"
  by (auto simp: step_pos_def Let_def dist_def)

lemma dist_step_less:
  assumes "p < n" "q < n" "r < n" "p \<noteq> q" "dist n (step_pos n p) r < dist n (step_pos n p) q"
  shows "dist n p r < dist n p q"
proof (cases "r = p")
  case True
  with assms show ?thesis by (simp add: dist_eq_0 neq0_conv [symmetric] del: neq0_conv)
next
  case False
  with assms show ?thesis using dist_step [of p n q] dist_step [of p n r] by simp
qed

lemma back_pos_eq: "p < n \<Longrightarrow> back_pos n p = (if p = 0 then n - 1 else p - 1)"
proof -
  assume "p < n"
  show ?thesis
  proof (cases "p = 0")
    case False
    then have eq: "n + p - 1 = p - 1 + n" by simp
    have "(p - 1 + n) mod n = p - 1" using \<open>p < n\<close> by (metis mod_add_self2 mod_less less_imp_diff_less)
    with eq False show ?thesis unfolding back_pos_def by simp
  next
    case True
    with \<open>p < n\<close> show ?thesis by (simp add: back_pos_def)
  qed
qed

lemma back_pos_less: "p < n \<Longrightarrow> back_pos n p < n"
  by (auto simp: back_pos_eq)

lemma dist_back: "p < n \<Longrightarrow> q < n \<Longrightarrow> p \<noteq> q \<Longrightarrow> dist n p q = Suc (dist n p (back_pos n q))"
  by (auto simp: back_pos_eq dist_def)

lemma dist_via:
  assumes "a < n" "b < n" "c < n"
  shows "dist n a c = dist n a b + dist n b c \<or> dist n a c + n = dist n a b + dist n b c"
  using assms by (auto simp: dist_def)

lemma dist_between:
  assumes "h < n" "H < n" "E < n" "p < n" "r < n" "\<not> dist n h H < dist n h p"
    "0 < dist n H p" "dist n H p < dist n H E" "dist n h r < dist n h E"
  shows "dist n h r < dist n h p \<and> r \<noteq> H \<or> 0 < dist n H r \<and> dist n H r < dist n H E"
proof -
  have "dist n h p + n = dist n h H + dist n H p" using dist_via [OF assms(1,2,4)] assms dist_less [OF assms(2,4)] by linarith
  moreover from this have "dist n h E + n = dist n h H + dist n H E"
    using dist_via [OF assms(1,2,3)] dist_less [OF assms(1,4)] assms dist_less [OF assms(1,3)] by linarith
  ultimately have "dist n h r + n = dist n h H + dist n H r"
    using dist_via [OF assms(1,2,5)] dist_less [OF assms(2,3)] assms by linarith
  moreover have "r \<noteq> H" if "dist n h r < dist n h p" using that assms(6) by auto
  ultimately show ?thesis
    using \<open>dist n h p + n = _\<close> \<open>dist n h E + n = _\<close> assms by linarith
qed

text \<open>
  A search from bucket to bucket: it stops at the first bucket, in the order of the probes, that
  satisfies its condition.
\<close>

locale probing =
  fixes n :: nat
    and stops :: "nat \<Rightarrow> bool"
    and search :: "nat \<Rightarrow> nat option"
  assumes search_step: "search p = (if stops p then Some p else search (step_pos n p))"
begin

lemma search_first:
  assumes "q < n" "stops q"
  shows "p < n \<Longrightarrow> \<forall>r < n. dist n p r < dist n p q \<longrightarrow> \<not> stops r \<Longrightarrow> search p = Some q"
proof (induction "dist n p q" arbitrary: p)
  case 0
  then have "p = q" using dist_eq_0 [of p n q] assms(1) by simp
  with assms(2) show ?case by (simp add: search_step [of q])
next
  case (Suc d)
  then have ne: "p \<noteq> q" by auto
  then have "d = dist n (step_pos n p) q" using dist_step [of p n q] Suc(2,3) assms(1) by simp
  moreover have "\<forall>r < n. dist n (step_pos n p) r < dist n (step_pos n p) q \<longrightarrow> \<not> stops r"
    using dist_step_less [OF Suc(3) assms(1) _ ne] Suc(4) by blast
  moreover have "\<not> stops p" using Suc(2,3,4) by (auto simp: Suc(2) [symmetric])
  ultimately show ?case using Suc(1) step_pos_less [OF Suc(3)] search_step [of p] by simp
qed

lemma search_ends:
  assumes "p < n" "q < n" "stops q"
  obtains r where "r < n" "stops r" "search p = Some r" "\<forall>s < n. dist n p s < dist n p r \<longrightarrow> \<not> stops s"
proof -
  obtain r where r: "r < n \<and> stops r" "\<forall>s. s < n \<and> stops s \<longrightarrow> dist n p r \<le> dist n p s"
    using exists_least_iff [of "\<lambda>d. \<exists>r. r < n \<and> stops r \<and> dist n p r = d"] assms by (metis not_le)
  then have "\<forall>s < n. dist n p s < dist n p r \<longrightarrow> \<not> stops s" by (meson not_le)
  with r show ?thesis using that search_first [of r p] assms(1) by blast
qed

end

interpretation free: probing "length table" "\<lambda>p. table ! p = None" "free_position table" for table
  by unfold_locales (rule free_position.simps)

interpretation named: probing "length table"
  "\<lambda>p. case table ! p of None \<Rightarrow> True | Some x \<Rightarrow> pkg_name_hash (pk x) = nh \<and> pkg_name (pk x) = name"
  "probe_name pk table nh name" for pk table nh name
  by unfold_locales (subst probe_name.simps, simp split: option.split)

interpretation gap: probing "length table" "\<lambda>p. table ! p = None \<or> p = position" "find_stop table position" for table position
  by unfold_locales (subst find_stop.simps, auto)


subsection \<open>What a table promises\<close>

definition home :: "pkg_store \<Rightarrow> nat \<Rightarrow> pkg_ref \<Rightarrow> nat" where
  "home pk n p = unat (pkg_name_hash (pk p)) mod n"

definition entries_of :: "pkg_ref option list \<Rightarrow> pkg_ref multiset" where
  "entries_of table = image_mset the (filter_mset (\<lambda>e. e \<noteq> None) (mset table))"

text \<open>
  Between the bucket a package hashes to and the bucket it is in, no bucket is empty, except
  possibly the one where an entry is being removed.
\<close>

definition reachable_but :: "nat set \<Rightarrow> pkg_store \<Rightarrow> pkg_ref option list \<Rightarrow> bool" where
  "reachable_but H pk table \<longleftrightarrow>
     (\<forall>p < length table. case table ! p of None \<Rightarrow> True | Some x \<Rightarrow>
       (\<forall>q < length table. dist (length table) (home pk (length table) x) q < dist (length table) (home pk (length table) x) p \<longrightarrow>
          table ! q \<noteq> None \<or> q \<in> H))"

lemma reachable_but_iff:
  "reachable_but H pk table \<longleftrightarrow>
     (\<forall>p x. p < length table \<longrightarrow> table ! p = Some x \<longrightarrow>
       (\<forall>q < length table. dist (length table) (home pk (length table) x) q < dist (length table) (home pk (length table) x) p \<longrightarrow>
          table ! q \<noteq> None \<or> q \<in> H))"
  by (auto simp: reachable_but_def split: option.split)

lemma reachable_butD:
  "reachable_but H pk table \<Longrightarrow> p < length table \<Longrightarrow> table ! p = Some x \<Longrightarrow> q < length table \<Longrightarrow>
   dist (length table) (home pk (length table) x) q < dist (length table) (home pk (length table) x) p \<Longrightarrow>
   table ! q \<noteq> None \<or> q \<in> H"
  unfolding reachable_but_iff by blast

definition hash_ok :: "pkg_store \<Rightarrow> alpm_pkghash \<Rightarrow> bool" where
  "hash_ok pk h \<longleftrightarrow>
     ph_buckets h \<in> set prime_list \<and> ph_limit h = limit_for (ph_buckets h) \<and>
     ph_entries h = length (ph_list h) \<and> ph_entries h \<le> ph_limit h \<and>
     mset (ph_list h) = entries_of (ph_table h) \<and> reachable_but {} pk (ph_table h)"

lemma home_less: "0 < n \<Longrightarrow> home pk n p < n"
  by (simp add: home_def)

lemma entries_of_replicate [simp]: "entries_of (replicate n None) = {#}"
  by (simp add: entries_of_def filter_mset_eq_conv)

lemma entries_of_update:
  assumes "p < length table"
  shows "entries_of (table[p := e]) + (case table ! p of None \<Rightarrow> {#} | Some x \<Rightarrow> {#x#}) =
    entries_of table + (case e of None \<Rightarrow> {#} | Some x \<Rightarrow> {#x#})"
proof -
  have "mset (table[p := e]) + {#table ! p#} = mset table + {#e#}"
    using assms by (simp add: mset_update)
  then have "entries_of (table[p := e]) + image_mset the (filter_mset (\<lambda>e. e \<noteq> None) {#table ! p#}) =
      entries_of table + image_mset the (filter_mset (\<lambda>e. e \<noteq> None) {#e#})"
    unfolding entries_of_def by (metis filter_union_mset image_mset_union)
  then show ?thesis by (auto split: option.splits)
qed

lemma entries_of_member: "x \<in># entries_of table \<longleftrightarrow> (\<exists>p < length table. table ! p = Some x)"
  unfolding entries_of_def by (force simp: in_set_conv_nth)

lemma entries_of_room:
  assumes "size (entries_of table) + k \<le> length table"
  shows "k \<le> card {p. p < length table \<and> table ! p = None}"
proof -
  have "size (entries_of table) = length (filter (\<lambda>e. e \<noteq> None) table)"
    by (simp add: entries_of_def flip: mset_filter)
  also have "\<dots> = card {p. p < length table \<and> table ! p \<noteq> None}"
    by (simp add: length_filter_conv_card)
  finally have "card {p. p < length table \<and> table ! p \<noteq> None} + card {p. p < length table \<and> table ! p = None} = length table \<and>
      size (entries_of table) = card {p. p < length table \<and> table ! p \<noteq> None}"
    by (subst card_Un_disjoint [symmetric]) (auto intro: arg_cong [where f = card, of _ "{..<length table}", simplified])
  with assms show ?thesis by linarith
qed

lemma has_empty:
  assumes "size (entries_of table) < length table"
  obtains q where "q < length table" "table ! q = None"
proof -
  have "0 < card {p. p < length table \<and> table ! p = None}"
    using entries_of_room [of table 1] assms by simp
  then have "{p. p < length table \<and> table ! p = None} \<noteq> {}" by (metis card.empty less_irrefl)
  with that show ?thesis by blast
qed

lemma has_other_empty:
  assumes "Suc (size (entries_of table)) < length table"
  obtains q where "q < length table" "table ! q = None" "q \<noteq> p"
proof -
  have "2 \<le> card {p. p < length table \<and> table ! p = None}"
    using entries_of_room [of table 2] assms by simp
  moreover have "card {p. p < length table \<and> table ! p = None} \<le> 1" if "{p. p < length table \<and> table ! p = None} \<subseteq> {p}"
    using card_mono [OF _ that] by simp
  ultimately have "\<not> {p. p < length table \<and> table ! p = None} \<subseteq> {p}" by auto
  with that show ?thesis by blast
qed

subsection \<open>Placing an entry\<close>

lemma get_hash_position_ends:
  assumes "size (entries_of table) < length table"
  obtains p where "get_hash_position (pkg_name_hash (pk x)) table = Some p" "p < length table" "table ! p = None"
    "\<forall>q < length table. dist (length table) (home pk (length table) x) q < dist (length table) (home pk (length table) x) p \<longrightarrow>
      table ! q \<noteq> None"
proof -
  obtain q where q: "q < length table" "table ! q = None" using has_empty assms .
  have h: "home pk (length table) x < length table" by (rule home_less) (use q(1) in linarith)
  obtain r where "r < length table" "table ! r = None" "free_position table (home pk (length table) x) = Some r"
      "\<forall>s < length table. dist (length table) (home pk (length table) x) s < dist (length table) (home pk (length table) x) r \<longrightarrow>
        table ! s \<noteq> None"
    using free.search_ends [OF h q] .
  with that show ?thesis by (simp add: get_hash_position_def home_def)
qed

lemma place_entry:
  assumes "reachable_but {} pk table" "size (entries_of table) < length table"
  obtains p where "get_hash_position (pkg_name_hash (pk x)) table = Some p"
    "reachable_but {} pk (table[p := Some x])" "entries_of (table[p := Some x]) = add_mset x (entries_of table)"
proof -
  obtain p where p: "get_hash_position (pkg_name_hash (pk x)) table = Some p" "p < length table" "table ! p = None"
      "\<forall>q < length table. dist (length table) (home pk (length table) x) q < dist (length table) (home pk (length table) x) p \<longrightarrow>
        table ! q \<noteq> None"
    using get_hash_position_ends [OF assms(2), of pk x] by blast
  have "reachable_but {} pk (table[p := Some x])"
    using assms(1) p(2,4) unfolding reachable_but_iff by (auto simp: nth_list_update)
  moreover have "entries_of (table[p := Some x]) = add_mset x (entries_of table)"
    using entries_of_update [OF p(2), of "Some x"] p(3) by simp
  ultimately show ?thesis using that p(1) by blast
qed

lemma rebin_ok:
  assumes "reachable_but {} pk new" "size (entries_of old) + size (entries_of new) < length new"
  shows "\<exists>table. rebin pk old new = Some table \<and> length table = length new \<and> reachable_but {} pk table \<and>
    entries_of table = entries_of old + entries_of new"
  using assms
proof (induction pk old new rule: rebin.induct)
  case (3 pk p old new)
  have sz: "entries_of (Some p # old) = add_mset p (entries_of old)" by (simp add: entries_of_def)
  with 3 obtain position where pos: "get_hash_position (pkg_name_hash (pk p)) new = Some position"
      "reachable_but {} pk (new[position := Some p])" "entries_of (new[position := Some p]) = add_mset p (entries_of new)"
    using place_entry [of pk new p] by auto
  with 3(1) [OF pos(1,2)] 3(3) sz show ?case by simp
qed (simp_all add: entries_of_def)


lemma find_prime:
  assumes "find (\<lambda>b. b > n) prime_list = Some b"
  shows "b \<in> set prime_list" "n < b"
  using assms by (auto simp: find_Some_iff)

lemma prime_list_ge: "b \<in> set prime_list \<Longrightarrow> 11 \<le> b"
  by (auto simp: prime_list_def)

lemma limit_room: "11 \<le> b \<Longrightarrow> limit_for b + 2 \<le> b"
  by (simp add: limit_for_def)

lemma grown_size_more: "11 \<le> b \<Longrightarrow> b < grown_size b"
  by (auto simp: grown_size_def)

lemma size_for_limit: "size_for s < b \<Longrightarrow> s \<le> limit_for b"
  by (simp add: size_for_def limit_for_def)

lemma hash_ok_room: "hash_ok pk h \<Longrightarrow> Suc (size (entries_of (ph_table h))) < ph_buckets h"
  using limit_room [of "ph_buckets h"] prime_list_ge
  by (fastforce simp: hash_ok_def simp flip: size_mset)

lemma create_ok:
  assumes "alpm_pkghash_create n = Some h"
  shows "hash_ok pk h" "ph_list h = []" "n \<le> ph_limit h"
  using assms find_prime [of "size_for n"] size_for_limit
  by (auto simp: alpm_pkghash_create_def hash_ok_def reachable_but_iff)

lemma rehash_ok:
  assumes "hash_ok pk h"
  shows "rehash pk h = Some None \<or>
    (\<exists>h'. rehash pk h = Some (Some h') \<and> hash_ok pk h' \<and> ph_list h' = ph_list h \<and> ph_entries h' < ph_limit h')"
proof (cases "alpm_pkghash_create (grown_size (ph_buckets h))")
  case (Some new)
  note new = create_ok [OF Some]
  have ge: "11 \<le> ph_buckets h" using assms prime_list_ge by (auto simp: hash_ok_def)
  have "ph_entries h < ph_limit new"
    using new(3) grown_size_more [OF ge] limit_room [OF ge] assms by (auto simp: hash_ok_def)
  have "limit_for (ph_buckets new) + 2 \<le> ph_buckets new"
    using limit_room prime_list_ge new(1) by (auto simp: hash_ok_def)
  moreover have e0: "entries_of (ph_table new) = {#}" using new(1,2) by (simp add: hash_ok_def)
  moreover have "size (entries_of (ph_table h)) = ph_entries h" using assms by (simp add: hash_ok_def flip: size_mset)
  ultimately have "size (entries_of (ph_table h)) + size (entries_of (ph_table new)) < length (ph_table new)"
    using \<open>ph_entries h < ph_limit new\<close> new(1) by (simp add: hash_ok_def)
  then obtain table where t: "rebin pk (ph_table h) (ph_table new) = Some table" "length table = ph_buckets new"
      "reachable_but {} pk table" "entries_of table = entries_of (ph_table h) + {#}"
    using rebin_ok [of pk "ph_table new" "ph_table h"] new(1) e0 by (auto simp: hash_ok_def)
  have "rehash pk h = Some (Some (new\<lparr>ph_table := table, ph_list := ph_list h, ph_entries := ph_entries h\<rparr>))"
    by (simp add: rehash_def Some t(1))
  moreover have "hash_ok pk (new\<lparr>ph_table := table, ph_list := ph_list h, ph_entries := ph_entries h\<rparr>)"
    using new(1) assms t(2-4) \<open>ph_entries h < ph_limit new\<close> by (simp add: hash_ok_def)
  ultimately show ?thesis using \<open>ph_entries h < ph_limit new\<close> by auto
qed (simp add: rehash_def)

lemma add_pkg_ok:
  assumes "hash_ok pk h"
  shows "pkghash_add_pkg pk h p srt = Some None \<or>
    (\<exists>h'. pkghash_add_pkg pk h p srt = Some (Some h') \<and> hash_ok pk h' \<and>
      ph_list h' = (if srt then merge_by (\<lambda>p q. alpm_pkg_cmp pk p q \<le> 0) (ph_list h) [p] else ph_list h @ [p]))"
proof -
  define g where "g = (if ph_entries h \<ge> ph_limit h then rehash pk h else Some (Some h))"
  have "g = Some None \<or> (\<exists>h'. g = Some (Some h') \<and> hash_ok pk h' \<and> ph_list h' = ph_list h \<and> ph_entries h' < ph_limit h')"
    using rehash_ok [OF assms] assms by (auto simp: g_def)
  then consider "g = Some None" | h1 where "g = Some (Some h1)" "hash_ok pk h1" "ph_list h1 = ph_list h" "ph_entries h1 < ph_limit h1"
    by blast
  then show ?thesis
  proof cases
    case 1
    then show ?thesis by (simp add: pkghash_add_pkg_def flip: g_def)
  next
    case 2
    have "size (entries_of (ph_table h1)) < ph_buckets h1" "reachable_but {} pk (ph_table h1)"
      using hash_ok_room [OF 2(2)] 2(2) by (simp_all add: hash_ok_def)
    then obtain position where pos: "get_hash_position (pkg_name_hash (pk p)) (ph_table h1) = Some position"
        "reachable_but {} pk ((ph_table h1)[position := Some p])"
        "entries_of ((ph_table h1)[position := Some p]) = add_mset p (entries_of (ph_table h1))"
      using place_entry [of pk "ph_table h1" p] by blast
    let ?l = "if srt then merge_by (\<lambda>p q. alpm_pkg_cmp pk p q \<le> 0) (ph_list h1) [p] else ph_list h1 @ [p]"
    have ms: "mset ?l = add_mset p (mset (ph_list h1))" by simp
    then have len: "length ?l = Suc (length (ph_list h1))" by (metis size_add_mset size_mset)
    let ?h = "h1\<lparr>ph_table := (ph_table h1)[position := Some p], ph_list := ?l, ph_entries := ph_entries h1 + 1\<rparr>"
    have "pkghash_add_pkg pk h p srt = Some (Some ?h)"
      using 2(1) by (simp add: pkghash_add_pkg_def pos(1) flip: g_def)
    moreover have "hash_ok pk ?h" using 2(2,4) pos(2,3) ms len by (simp add: hash_ok_def)
    ultimately show ?thesis using 2(3) by (cases srt) auto
  qed
qed


lemma create_fails: "alpm_pkghash_create n = None \<Longrightarrow> 566291 \<le> n"
proof -
  assume "alpm_pkghash_create n = None"
  moreover have "976369 \<in> set prime_list" by (simp add: prime_list_def)
  ultimately have "\<not> 976369 > size_for n" by (auto simp: alpm_pkghash_create_def find_None_iff)
  then show ?thesis by (simp add: size_for_def)
qed

lemma add_pkg_fails:
  assumes "hash_ok pk h" "pkghash_add_pkg pk h p srt = Some None"
  shows "380000 \<le> length (ph_list h)"
proof -
  have "ph_limit h \<le> ph_entries h \<and> rehash pk h = Some None"
    using assms(2) by (auto simp: pkghash_add_pkg_def Option.bind_eq_Some_conv split: if_splits option.splits)
  then have "566291 \<le> grown_size (ph_buckets h)" "limit_for (ph_buckets h) \<le> length (ph_list h)"
    using create_fails assms(1)
    by (auto simp: rehash_def hash_ok_def Option.bind_eq_Some_conv split: option.splits)
  then show ?thesis by (auto simp: grown_size_def limit_for_def split: if_splits)
qed

subsection \<open>Looking up\<close>

lemma probe_name_finds:
  assumes "reachable_but {} pk table" "size (entries_of table) < length table"
  obtains position where
    "probe_name pk table nh name (unat nh mod length table) = Some position" "position < length table"
    "case table ! position of
       None \<Rightarrow> (\<forall>x \<in># entries_of table. pkg_name_hash (pk x) = nh \<longrightarrow> pkg_name (pk x) \<noteq> name)
     | Some x \<Rightarrow> pkg_name_hash (pk x) = nh \<and> pkg_name (pk x) = name"
proof -
  let ?n = "length table"
  let ?h = "unat nh mod ?n"
  obtain q where q: "q < ?n" "table ! q = None" using has_empty assms(2) .
  have h: "?h < ?n" using q(1) by (intro mod_less_divisor) linarith
  obtain r where r: "r < ?n" "case table ! r of None \<Rightarrow> True | Some x \<Rightarrow> pkg_name_hash (pk x) = nh \<and> pkg_name (pk x) = name"
      "probe_name pk table nh name ?h = Some r"
      "\<forall>s < ?n. dist ?n ?h s < dist ?n ?h r \<longrightarrow>
        \<not> (case table ! s of None \<Rightarrow> True | Some x \<Rightarrow> pkg_name_hash (pk x) = nh \<and> pkg_name (pk x) = name)"
  proof -
    have "case table ! q of None \<Rightarrow> True | Some x \<Rightarrow> pkg_name_hash (pk x) = nh \<and> pkg_name (pk x) = name" using q(2) by simp
    from named.search_ends [OF h q(1) this] show ?thesis using that by blast
  qed
  have "pkg_name (pk x) \<noteq> name" if none: "table ! r = None" and mem: "x \<in># entries_of table" and nh: "pkg_name_hash (pk x) = nh" for x
  proof
    assume same: "pkg_name (pk x) = name"
    obtain p where p: "p < ?n" "table ! p = Some x" using mem entries_of_member by metis
    have home: "home pk ?n x = ?h" using nh by (simp add: home_def)
    have "\<not> dist ?n ?h p < dist ?n ?h r" using r(4) p same nh by auto
    moreover have "\<not> dist ?n ?h r < dist ?n ?h p"
      using reachable_butD [OF assms(1) p r(1)] none home by auto
    ultimately have "p = r" using dist_inject h p(1) r(1) by (metis not_less_iff_gr_or_eq)
    with p(2) none show False by simp
  qed
  with that r(1-3) show ?thesis by (auto split: option.splits)
qed

lemma find_ok:
  assumes "hash_ok pk h" "hashed pk (set (ph_list h))"
  shows "\<exists>r. alpm_pkghash_find pk h name = Some r \<and>
    (case r of None \<Rightarrow> \<forall>p \<in> set (ph_list h). pkg_name (pk p) \<noteq> name | Some p \<Rightarrow> p \<in> set (ph_list h) \<and> pkg_name (pk p) = name)"
proof -
  have r: "reachable_but {} pk (ph_table h)" and s: "size (entries_of (ph_table h)) < ph_buckets h"
    and m: "set_mset (entries_of (ph_table h)) = set (ph_list h)"
    using assms(1) hash_ok_room [OF assms(1)] by (auto simp: hash_ok_def simp flip: set_mset_mset)
  obtain position where p: "probe_name pk (ph_table h) (alpm_hash_sdbm name) name (unat (alpm_hash_sdbm name) mod ph_buckets h) = Some position"
      "position < ph_buckets h"
      "case ph_table h ! position of
         None \<Rightarrow> (\<forall>x \<in># entries_of (ph_table h). pkg_name_hash (pk x) = alpm_hash_sdbm name \<longrightarrow> pkg_name (pk x) \<noteq> name)
       | Some x \<Rightarrow> pkg_name_hash (pk x) = alpm_hash_sdbm name \<and> pkg_name (pk x) = name"
    using probe_name_finds [OF r s, of "alpm_hash_sdbm name" name] by blast
  have "x \<in> set (ph_list h)" if "ph_table h ! position = Some x" for x
    using entries_of_member [of x "ph_table h"] p(2) that m by auto
  moreover have "\<forall>x \<in> set (ph_list h). pkg_name (pk x) \<noteq> name" if "ph_table h ! position = None"
    using p(3) that assms(2) m by (auto simp: hashed_def)
  ultimately show ?thesis using p(1,3) by (auto simp: alpm_pkghash_find_def split: option.splits)
qed

subsection \<open>Closing the gap after a removal\<close>

text \<open>
  The hole is empty, and may be on the way to entries; behind it come full buckets up to the next
  empty one, \<open>E\<close>.
\<close>

definition hole_at :: "pkg_store \<Rightarrow> pkg_ref option list \<Rightarrow> nat \<Rightarrow> nat \<Rightarrow> bool" where
  "hole_at pk table H E \<longleftrightarrow>
     H < length table \<and> table ! H = None \<and> E < length table \<and> table ! E = None \<and> E \<noteq> H \<and>
     (\<forall>q < length table. 0 < dist (length table) H q \<longrightarrow> dist (length table) H q < dist (length table) H E \<longrightarrow> table ! q \<noteq> None) \<and>
     reachable_but {H} pk table"

text \<open>The way of the entry in bucket \<open>p\<close> goes over the hole.\<close>

definition crosses :: "pkg_store \<Rightarrow> pkg_ref option list \<Rightarrow> nat \<Rightarrow> nat \<Rightarrow> bool" where
  "crosses pk table H p \<longleftrightarrow>
     (\<exists>x. table ! p = Some x \<and>
       dist (length table) (home pk (length table) x) H < dist (length table) (home pk (length table) x) p)"

lemma not_crossing_beyond:
  assumes "hole_at pk table H E" "p < length table" "dist (length table) H E < dist (length table) H p"
  shows "\<not> crosses pk table H p"
proof
  let ?n = "length table"
  assume "crosses pk table H p"
  then obtain x where x: "table ! p = Some x" "dist ?n (home pk ?n x) H < dist ?n (home pk ?n x) p"
    by (auto simp: crosses_def)
  have h: "home pk ?n x < ?n" using assms(2) by (intro home_less) linarith
  have "dist ?n (home pk ?n x) E < dist ?n (home pk ?n x) p"
    using assms x(2) h unfolding hole_at_def by (auto simp: dist_def split: if_splits)
  then have "table ! E \<noteq> None \<or> E = H"
    using assms(1,2) x(1) unfolding hole_at_def reachable_but_iff by blast
  with assms(1) show False by (auto simp: hole_at_def)
qed

lemma reachable_when_none_crosses:
  assumes "reachable_but {H} pk table" "H < length table" "\<forall>p < length table. \<not> crosses pk table H p"
  shows "reachable_but {} pk table"
  using assms unfolding reachable_but_iff crosses_def by blast

lemma new_position_of_crossing:
  assumes "hole_at pk table H E" "p < length table" "table ! p = Some x" "crosses pk table H p"
  shows "get_hash_position (pkg_name_hash (pk x)) table = Some H"
proof -
  let ?n = "length table"
  have h: "home pk ?n x < ?n" using assms(2) by (intro home_less) linarith
  have d: "dist ?n (home pk ?n x) H < dist ?n (home pk ?n x) p" using assms(3,4) by (auto simp: crosses_def)
  have "free_position table (home pk ?n x) = Some H"
  proof (rule free.search_first)
    show "H < ?n" "table ! H = None" using assms(1) by (simp_all add: hole_at_def)
    show "\<forall>r < ?n. dist ?n (home pk ?n x) r < dist ?n (home pk ?n x) H \<longrightarrow> table ! r \<noteq> None"
    proof (intro allI impI)
      fix r assume r: "r < ?n" "dist ?n (home pk ?n x) r < dist ?n (home pk ?n x) H"
      then have "table ! r \<noteq> None \<or> r \<in> {H}"
        using assms(1-3) d unfolding hole_at_def reachable_but_iff by (meson less_trans)
      moreover have "r \<noteq> H" using r(2) by auto
      ultimately show "table ! r \<noteq> None" by simp
    qed
  qed (rule h)
  then show ?thesis by (simp add: get_hash_position_def home_def)
qed

lemma new_position_of_other:
  assumes "hole_at pk table H E" "p < length table" "table ! p = Some x" "\<not> crosses pk table H p"
    "0 < dist (length table) H p" "dist (length table) H p < dist (length table) H E"
  shows "get_hash_position (pkg_name_hash (pk x)) table = Some E"
proof -
  let ?n = "length table"
  have h: "home pk ?n x < ?n" using assms(2) by (intro home_less) linarith
  have "free_position table (home pk ?n x) = Some E"
  proof (rule free.search_first)
    show "E < ?n" "table ! E = None" using assms(1) by (simp_all add: hole_at_def)
    show "\<forall>r < ?n. dist ?n (home pk ?n x) r < dist ?n (home pk ?n x) E \<longrightarrow> table ! r \<noteq> None"
    proof (intro allI impI)
      fix r assume r: "r < ?n" "dist ?n (home pk ?n x) r < dist ?n (home pk ?n x) E"
      have HE: "H < ?n" "E < ?n" "H \<noteq> E" using assms(1) by (auto simp: hole_at_def)
      have nc: "\<not> dist ?n (home pk ?n x) H < dist ?n (home pk ?n x) p" using assms(3,4) by (auto simp: crosses_def)
      consider "dist ?n (home pk ?n x) r < dist ?n (home pk ?n x) p" "r \<noteq> H" | "0 < dist ?n H r" "dist ?n H r < dist ?n H E"
        using dist_between [OF h HE(1,2) assms(2) r(1) nc assms(5,6) r(2)] by (elim disjE conjE)
      then show "table ! r \<noteq> None"
        using assms(1-3) r(1) unfolding hole_at_def reachable_but_iff by cases blast+
    qed
  qed (rule h)
  then show ?thesis by (simp add: get_hash_position_def home_def)
qed


lemma move_one_entry_moves:
  assumes "hole_at pk table H E" "p < length table" "table ! p = Some x" "crosses pk table H p"
    "dist (length table) H p < dist (length table) H E"
  shows "hole_at pk (table[H := Some x, p := None]) p E"
    "entries_of (table[H := Some x, p := None]) = entries_of table"
    "dist (length table) p E < dist (length table) H E"
proof -
  let ?n = "length table"
  let ?T = "table[H := Some x, p := None]"
  have H: "H < ?n" "table ! H = None" "E < ?n" "table ! E = None" "E \<noteq> H" and Hp: "p \<noteq> H"
    using assms(1,3) by (auto simp: hole_at_def)
  have pE: "p \<noteq> E" using assms(5) by auto
  have d: "dist ?n H E = dist ?n H p + dist ?n p E"
    using dist_via [OF H(1) assms(2) H(3)] assms(5) dist_less [OF assms(2) H(3)] by linarith
  show less: "dist ?n p E < dist ?n H E"
    using d Hp dist_eq_0 [OF H(1) assms(2)] by linarith
  have "entries_of (table[H := Some x]) = add_mset x (entries_of table)"
    using entries_of_update [OF H(1), of "Some x"] H(2) by simp
  moreover have "add_mset x (entries_of ?T) = entries_of (table[H := Some x])"
    using entries_of_update [of p "table[H := Some x]" None] assms(2,3) Hp by simp
  ultimately show "entries_of ?T = entries_of table" by simp
  have full: "?T ! q \<noteq> None" if "q < ?n" "0 < dist ?n p q" "dist ?n p q < dist ?n p E" for q
  proof -
    have "q \<noteq> p" using that(2) by auto
    have "dist ?n H q = dist ?n H p + dist ?n p q"
      using dist_via [OF H(1) assms(2) that(1)] that(3) d dist_less [OF H(1) H(3)] by linarith
    then have "0 < dist ?n H q" "dist ?n H q < dist ?n H E" using that d by linarith+
    with assms(1) that(1) have "table ! q \<noteq> None" by (simp add: hole_at_def)
    with \<open>q \<noteq> p\<close> show ?thesis by (cases "q = H") (auto simp: nth_list_update H(1))
  qed
  have reach: "?T ! q \<noteq> None \<or> q \<in> {p}"
    if y: "r < ?n" "?T ! r = Some y" and q: "q < ?n" "dist ?n (home pk ?n y) q < dist ?n (home pk ?n y) r" for r y q
  proof -
    have "table ! q \<noteq> None \<or> q = H"
    proof (cases "r = H")
      case True
      with y Hp have "y = x" by (simp add: nth_list_update H(1))
      have "dist ?n (home pk ?n x) H < dist ?n (home pk ?n x) p" using assms(3,4) by (auto simp: crosses_def)
      with q(2) True \<open>y = x\<close> have "dist ?n (home pk ?n x) q < dist ?n (home pk ?n x) p" by simp
      with reachable_butD [OF _ assms(2,3) q(1)] assms(1) show ?thesis by (auto simp: hole_at_def)
    next
      case False
      with y have "table ! r = Some y" by (cases "r = p") (auto simp: nth_list_update)
      with reachable_butD [OF _ y(1) _ q(1)] q(2) assms(1) show ?thesis by (auto simp: hole_at_def)
    qed
    then show ?thesis using q(1) by (cases "q = p"; cases "q = H") simp_all
  qed
  show "hole_at pk ?T p E"
    using full reach assms(2) H pE by (simp add: hole_at_def reachable_but_iff nth_list_update)
qed

text \<open>One pass backwards from the end of the cluster either fills the hole, or shows that no entry needs it.\<close>

lemma move_one_entry_spec:
  assumes "hole_at pk table H E"
  shows "end_pos < length table \<Longrightarrow> dist (length table) H end_pos < dist (length table) H E \<Longrightarrow>
    \<forall>q < length table. dist (length table) H end_pos < dist (length table) H q \<longrightarrow> \<not> crosses pk table H q \<Longrightarrow>
    (move_one_entry pk table H end_pos = Some (table, H) \<and> reachable_but {} pk table) \<or>
    (\<exists>table' p. move_one_entry pk table H end_pos = Some (table', p) \<and> p \<noteq> H \<and> length table' = length table \<and>
      hole_at pk table' p E \<and> entries_of table' = entries_of table \<and> dist (length table) p E < dist (length table) H E)"
proof (induction "dist (length table) H end_pos" arbitrary: end_pos)
  case 0
  have H: "H < length table" "table ! H = None" using assms by (auto simp: hole_at_def)
  have "end_pos = H" using 0 dist_eq_0 [OF H(1) 0(2)] by simp
  moreover have "\<not> crosses pk table H q" if "q < length table" for q
    using 0 that H dist_eq_0 [OF H(1) that] by (cases "q = H") (auto simp: crosses_def)
  then have "reachable_but {} pk table"
    using reachable_when_none_crosses [of H pk table] assms by (auto simp: hole_at_def)
  ultimately show ?case by (simp add: move_one_entry.simps [of pk table H])
next
  case (Suc d)
  let ?n = "length table"
  have H: "H < ?n" using assms by (auto simp: hole_at_def)
  have ne: "H \<noteq> end_pos" using Suc(2) by auto
  have "table ! end_pos \<noteq> None" using assms Suc(2-4) by (auto simp: hole_at_def)
  then obtain x where x: "table ! end_pos = Some x" by blast
  show ?case
  proof (cases "crosses pk table H end_pos")
    case True
    have "move_one_entry pk table H end_pos = Some (table[H := Some x, end_pos := None], end_pos)"
      using ne x new_position_of_crossing [OF assms Suc(3) x True] by (subst move_one_entry.simps) simp
    moreover note move_one_entry_moves [OF assms Suc(3) x True Suc(4)]
    ultimately show ?thesis using ne by auto
  next
    case nc: False
    have "E \<noteq> H" using assms by (simp add: hole_at_def)
    moreover have "0 < dist ?n H end_pos" using Suc(2) by simp
    ultimately have "move_one_entry pk table H end_pos = move_one_entry pk table H (back_pos ?n end_pos)"
      using ne x new_position_of_other [OF assms Suc(3) x nc _ Suc(4)] by (subst move_one_entry.simps) simp
    moreover have closer: "dist ?n H end_pos = Suc (dist ?n H (back_pos ?n end_pos))" using dist_back [OF H Suc(3) ne] .
    moreover have "\<not> crosses pk table H q" if "q < ?n" "dist ?n H (back_pos ?n end_pos) < dist ?n H q" for q
    proof (cases "q = end_pos")
      case False
      with that closer dist_inject [OF H that(1) Suc(3)] have "dist ?n H end_pos < dist ?n H q" by linarith
      with Suc(5) that(1) show ?thesis by blast
    qed (use nc in simp)
    ultimately show ?thesis
      using Suc(1) [of "back_pos ?n end_pos"] back_pos_less [OF Suc(3)] Suc(2,4) by simp
  qed
qed

lemma plug_holes_spec:
  "hole_at pk table H E \<Longrightarrow>
   \<exists>table'. plug_holes pk table H (back_pos (length table) E) = Some table' \<and> length table' = length table \<and>
     entries_of table' = entries_of table \<and> reachable_but {} pk table'"
proof (induction "dist (length table) H E" arbitrary: table H rule: less_induct)
  case less
  let ?n = "length table"
  let ?s = "back_pos ?n E"
  have HE: "H < ?n" "E < ?n" "H \<noteq> E" using less(2) by (auto simp: hole_at_def)
  have s: "?s < ?n" "dist ?n H E = Suc (dist ?n H ?s)" using back_pos_less dist_back HE by blast+
  have "\<not> crosses pk table H q" if "q < ?n" "dist ?n H ?s < dist ?n H q" for q
  proof (cases "q = E")
    case False
    with that s dist_inject [OF HE(1) that(1) HE(2)] have "dist ?n H E < dist ?n H q" by linarith
    with not_crossing_beyond [OF less(2) that(1)] show ?thesis .
  qed (use less(2) in \<open>simp add: crosses_def hole_at_def\<close>)
  then consider "move_one_entry pk table H ?s = Some (table, H)" "reachable_but {} pk table" |
      table' p where "move_one_entry pk table H ?s = Some (table', p)" "p \<noteq> H" "length table' = ?n"
        "hole_at pk table' p E" "entries_of table' = entries_of table" "dist ?n p E < dist ?n H E"
    using move_one_entry_spec [OF less(2) s(1)] s(2) by auto
  then show ?case
  proof cases
    case 1
    then show ?thesis by (subst plug_holes.simps) simp
  next
    case 2
    from less(1) [of table' p] 2 have "\<exists>t. plug_holes pk table' p ?s = Some t \<and> length t = ?n \<and>
        entries_of t = entries_of table \<and> reachable_but {} pk t" by simp
    with 2(1,2) show ?thesis by (subst plug_holes.simps) simp
  qed
qed


lemma removal_hole:
  assumes "reachable_but {} pk table" "position < length table"
    "Suc (size (entries_of (table[position := None]))) < length table"
  shows "\<exists>E. hole_at pk (table[position := None]) position E \<and>
    find_stop (table[position := None]) position (step_pos (length table) position) = Some E"
proof -
  let ?n = "length table" and ?T = "table[position := None]"
  let ?s = "step_pos ?n position"
  have s: "?s < ?n" by (rule step_pos_less [OF assms(2)])
  obtain q where q: "q < ?n" "?T ! q = None" "q \<noteq> position"
    using has_other_empty [of ?T position] assms(3) by auto
  obtain E where E: "E < ?n" "?T ! E = None \<or> E = position" "find_stop ?T position ?s = Some E"
      "\<forall>r < ?n. dist ?n ?s r < dist ?n ?s E \<longrightarrow> \<not> (?T ! r = None \<or> r = position)"
    using gap.search_ends [of ?s ?T position position] s assms(2) by auto
  have far: "dist ?n position r = Suc (dist ?n ?s r)" if "r < ?n" "r \<noteq> position" for r
    using dist_step assms(2) that by metis
  have "E \<noteq> position"
  proof
    assume "E = position"
    then have "dist ?n ?s E = ?n - 1" using assms(2) by (auto simp: dist_def step_pos_def Let_def)
    moreover have "dist ?n ?s q < ?n - 1" using far [OF q(1,3)] dist_less [OF assms(2) q(1)] by linarith
    ultimately have "dist ?n ?s q < dist ?n ?s E" by linarith
    from E(4) [rule_format, OF q(1) this] q(2) show False by simp
  qed
  moreover have "?T ! r \<noteq> None" if "r < ?n" "0 < dist ?n position r" "dist ?n position r < dist ?n position E" for r
  proof -
    have "r \<noteq> position" using that(2) by auto
    then have "dist ?n ?s r < dist ?n ?s E" using far [OF that(1)] far [OF E(1) \<open>E \<noteq> position\<close>] that(3) by linarith
    from E(4) [rule_format, OF that(1) this] show ?thesis unfolding de_Morgan_disj by (rule conjunct1)
  qed
  moreover have "reachable_but {position} pk ?T"
    unfolding reachable_but_iff
  proof (intro allI impI)
    fix p x q assume a: "p < length ?T" "?T ! p = Some x" "q < length ?T"
      "dist (length ?T) (home pk (length ?T) x) q < dist (length ?T) (home pk (length ?T) x) p"
    then have "table ! p = Some x" by (cases "p = position") auto
    with reachable_butD [OF assms(1)] a have "table ! q \<noteq> None" by auto
    then show "?T ! q \<noteq> None \<or> q \<in> {position}" by (cases "q = position") auto
  qed
  ultimately show ?thesis using E assms(2) by (auto simp: hole_at_def)
qed

lemma remove_ok:
  assumes "hash_ok pk h"
  shows "\<exists>h' r. alpm_pkghash_remove pk h p = Some (h', r) \<and> hash_ok pk h' \<and>
    (case r of
       None \<Rightarrow> h' = h \<and> (\<forall>x \<in> set (ph_list h). pkg_name_hash (pk x) = pkg_name_hash (pk p) \<longrightarrow> pkg_name (pk x) \<noteq> pkg_name (pk p))
     | Some x \<Rightarrow> x \<in> set (ph_list h) \<and> pkg_name (pk x) = pkg_name (pk p) \<and> ph_list h' = remove1 x (ph_list h))"
proof -
  let ?T = "ph_table h" and ?n = "ph_buckets h"
  have r: "reachable_but {} pk ?T" and room: "Suc (size (entries_of ?T)) < ?n"
    and m: "mset (ph_list h) = entries_of ?T"
    using assms hash_ok_room [OF assms] by (auto simp: hash_ok_def)
  obtain position where p: "probe_name pk ?T (pkg_name_hash (pk p)) (pkg_name (pk p)) (unat (pkg_name_hash (pk p)) mod ?n) = Some position"
      "position < ?n"
      "case ?T ! position of
         None \<Rightarrow> (\<forall>x \<in># entries_of ?T. pkg_name_hash (pk x) = pkg_name_hash (pk p) \<longrightarrow> pkg_name (pk x) \<noteq> pkg_name (pk p))
       | Some x \<Rightarrow> pkg_name_hash (pk x) = pkg_name_hash (pk p) \<and> pkg_name (pk x) = pkg_name (pk p)"
    using probe_name_finds [OF r, of "pkg_name_hash (pk p)" "pkg_name (pk p)"] room by auto
  have members: "set_mset (entries_of ?T) = set (ph_list h)" using m by (metis set_mset_mset)
  show ?thesis
  proof (cases "?T ! position")
    case None
    then show ?thesis using p(1,3) assms members by (simp add: alpm_pkghash_remove_def)
  next
    case (Some x)
    let ?T1 = "?T[position := None]"
    have e1: "entries_of ?T = add_mset x (entries_of ?T1)"
      using entries_of_update [OF p(2), of None] Some by simp
    have hole: "\<exists>E. hole_at pk ?T1 position E \<and> find_stop ?T1 position (step_pos ?n position) = Some E"
    proof -
      have e2: "size (entries_of ?T) = Suc (size (entries_of ?T1))" using e1 by simp
      show ?thesis using removal_hole [OF r p(2)] room e2 by simp
    qed
    then obtain E where E: "hole_at pk ?T1 position E" "find_stop ?T1 position (step_pos ?n position) = Some E" by blast
    obtain T2 where T2: "plug_holes pk ?T1 position (back_pos ?n E) = Some T2" "length T2 = ?n"
        "entries_of T2 = entries_of ?T1" "reachable_but {} pk T2"
      using plug_holes_spec [OF E(1)] by auto
    let ?h = "h\<lparr>ph_table := T2, ph_list := remove1 x (ph_list h), ph_entries := ph_entries h - 1\<rparr>"
    have "x \<in> set (ph_list h)" using e1 members by auto
    moreover have "alpm_pkghash_remove pk h p = Some (?h, Some x)"
      using p(1) Some E(2) T2(1) by (simp add: alpm_pkghash_remove_def)
    moreover have "hash_ok pk ?h"
      using assms T2 e1 m \<open>x \<in> set (ph_list h)\<close> by (auto simp: hash_ok_def length_remove1)
    ultimately show ?thesis using p(3) Some by auto
  qed
qed


subsection \<open>A table is a finite map\<close>

definition by_name :: "pkg_store \<Rightarrow> alpm_pkghash \<Rightarrow> string \<Rightarrow> pkg_ref option" where
  "by_name pk h = map_of (map (\<lambda>p. (pkg_name (pk p), p)) (ph_list h))"

definition pkghash_wf :: "pkg_store \<Rightarrow> alpm_pkghash \<Rightarrow> bool" where
  "pkghash_wf pk h \<longleftrightarrow> hash_ok pk h \<and> hashed pk (set (ph_list h)) \<and> distinct (map (\<lambda>p. pkg_name (pk p)) (ph_list h))"

lemma by_name_None: "by_name pk h n = None \<longleftrightarrow> (\<forall>p \<in> set (ph_list h). pkg_name (pk p) \<noteq> n)"
  unfolding by_name_def map_of_eq_None_iff by force

lemma by_name_Some:
  "distinct (map (\<lambda>p. pkg_name (pk p)) (ph_list h)) \<Longrightarrow>
   by_name pk h n = Some p \<longleftrightarrow> p \<in> set (ph_list h) \<and> pkg_name (pk p) = n"
  by (auto simp: by_name_def comp_def map_of_eq_Some_iff)

lemma by_name_changed:
  assumes "distinct (map (\<lambda>p. pkg_name (pk p)) (ph_list h))" "distinct (map (\<lambda>p. pkg_name (pk p)) (ph_list h'))"
    "\<And>q. q \<in> set (ph_list h') \<longleftrightarrow> m (pkg_name (pk q)) = Some q" "\<And>n q. m n = Some q \<Longrightarrow> pkg_name (pk q) = n"
  shows "by_name pk h' = m"
proof
  fix n
  have "by_name pk h' n = Some q \<longleftrightarrow> m n = Some q" for q
    using by_name_Some [OF assms(2)] assms(3,4) by metis
  then show "by_name pk h' n = m n" by (metis not_None_eq)
qed

lemma find_by_name:
  assumes "pkghash_wf pk h"
  shows "alpm_pkghash_find pk h n = Some (by_name pk h n)"
proof -
  have d: "distinct (map (\<lambda>p. pkg_name (pk p)) (ph_list h))" using assms by (simp add: pkghash_wf_def)
  obtain r where r: "alpm_pkghash_find pk h n = Some r"
      "case r of None \<Rightarrow> \<forall>p \<in> set (ph_list h). pkg_name (pk p) \<noteq> n | Some p \<Rightarrow> p \<in> set (ph_list h) \<and> pkg_name (pk p) = n"
    using find_ok [of pk h n] assms by (auto simp: pkghash_wf_def)
  have "by_name pk h n = r"
  proof (cases r)
    case None
    with r(2) show ?thesis by (simp add: by_name_None)
  next
    case (Some p)
    with r(2) show ?thesis by (simp add: by_name_Some [OF d])
  qed
  with r(1) show ?thesis by simp
qed

lemma add_by_name:
  assumes "pkghash_wf pk h" "by_name pk h (pkg_name (pk p)) = None" "hashed pk {p}" "length (ph_list h) < 380000"
  shows "\<exists>h'. pkghash_add_pkg pk h p srt = Some (Some h') \<and> pkghash_wf pk h' \<and>
    by_name pk h' = (by_name pk h)(pkg_name (pk p) \<mapsto> p)"
proof -
  have ok: "hash_ok pk h" and d: "distinct (map (\<lambda>p. pkg_name (pk p)) (ph_list h))" and hs: "hashed pk (set (ph_list h))"
    using assms(1) by (auto simp: pkghash_wf_def)
  have "pkghash_add_pkg pk h p srt \<noteq> Some None" using add_pkg_fails [OF ok] assms(4) by force
  with add_pkg_ok [OF ok, of p srt] obtain h' where h': "pkghash_add_pkg pk h p srt = Some (Some h')" "hash_ok pk h'"
      "ph_list h' = (if srt then merge_by (\<lambda>p q. alpm_pkg_cmp pk p q \<le> 0) (ph_list h) [p] else ph_list h @ [p])"
    by blast
  then have m: "mset (ph_list h') = add_mset p (mset (ph_list h))" by simp
  then have s: "set (ph_list h') = insert p (set (ph_list h))" by (metis set_mset_add_mset_insert set_mset_mset)
  have "mset (map (\<lambda>p. pkg_name (pk p)) (ph_list h')) = mset (pkg_name (pk p) # map (\<lambda>p. pkg_name (pk p)) (ph_list h))"
    using m by simp
  moreover have "distinct (pkg_name (pk p) # map (\<lambda>p. pkg_name (pk p)) (ph_list h))"
    using d assms(2) by (auto simp: by_name_None)
  ultimately have d': "distinct (map (\<lambda>p. pkg_name (pk p)) (ph_list h'))"
    using mset_eq_imp_distinct_iff by blast
  have "by_name pk h' = (by_name pk h)(pkg_name (pk p) \<mapsto> p)"
    by (rule by_name_changed [OF d d']) (use s assms(2) in \<open>auto simp: by_name_Some [OF d] by_name_None split: if_splits\<close>)
  with h'(1,2) d' s hs assms(3) show ?thesis by (auto simp: pkghash_wf_def hashed_def)
qed

lemma remove_by_name:
  assumes "pkghash_wf pk h" "hashed pk {p}"
  shows "\<exists>h'. alpm_pkghash_remove pk h p = Some (h', by_name pk h (pkg_name (pk p))) \<and> pkghash_wf pk h' \<and>
    by_name pk h' = (by_name pk h)(pkg_name (pk p) := None)"
proof -
  have ok: "hash_ok pk h" and d: "distinct (map (\<lambda>p. pkg_name (pk p)) (ph_list h))" and hs: "hashed pk (set (ph_list h))"
    using assms(1) by (auto simp: pkghash_wf_def)
  obtain h' r where r: "alpm_pkghash_remove pk h p = Some (h', r)" "hash_ok pk h'"
      "case r of
         None \<Rightarrow> h' = h \<and> (\<forall>x \<in> set (ph_list h). pkg_name_hash (pk x) = pkg_name_hash (pk p) \<longrightarrow> pkg_name (pk x) \<noteq> pkg_name (pk p))
       | Some x \<Rightarrow> x \<in> set (ph_list h) \<and> pkg_name (pk x) = pkg_name (pk p) \<and> ph_list h' = remove1 x (ph_list h)"
    using remove_ok [OF ok, of p] by blast
  show ?thesis
  proof (cases r)
    case None
    with r(3) have "\<forall>x \<in> set (ph_list h). pkg_name (pk x) \<noteq> pkg_name (pk p)" "h' = h"
      using hs assms(2) by (auto simp: hashed_def)
    then have "by_name pk h (pkg_name (pk p)) = None" "h' = h" by (simp_all add: by_name_None)
    with None r(1) assms(1) show ?thesis by auto
  next
    case (Some x)
    with r(3) have x: "x \<in> set (ph_list h)" "pkg_name (pk x) = pkg_name (pk p)" "ph_list h' = remove1 x (ph_list h)" by simp_all
    have dl: "distinct (ph_list h)" using d by (simp add: distinct_map)
    have s: "set (ph_list h') = set (ph_list h) - {x}" using x(3) set_remove1_eq [OF dl] by simp
    have d': "distinct (map (\<lambda>p. pkg_name (pk p)) (ph_list h'))"
      using d dl s x(3) by (auto simp: distinct_map distinct_remove1 intro: inj_on_subset)
    have inj: "q = x" if "q \<in> set (ph_list h)" "pkg_name (pk q) = pkg_name (pk p)" for q
      using d x(1,2) that by (metis distinct_map inj_onD)
    have "by_name pk h' = (by_name pk h)(pkg_name (pk p) := None)"
      by (rule by_name_changed [OF d d']) (use s inj x(2) in \<open>auto simp: by_name_Some [OF d] split: if_splits\<close>)
    moreover have "by_name pk h (pkg_name (pk p)) = Some x" using x by (simp add: by_name_Some [OF d])
    moreover have "hashed pk (set (ph_list h'))" using hs s by (simp add: hashed_def)
    ultimately show ?thesis using Some r(1,2) d' by (auto simp: pkghash_wf_def)
  qed
qed

text \<open>
  C20.  The hash table of the packages is a finite map from names to packages.  A table with the
  invariant (the entries are those of the list, every one reachable from the bucket its name hashes
  to, at most 68 percent of the buckets used) answers every search with the package of the name; adding a package
  keeps the invariant and changes the map at its name only, also when the table is resized; removing
  one gives back the package that had the name, and keeps all others reachable although the
  removal opens gaps in their probe paths.  All three searches end.
\<close>
theorem pkghash_is_a_map:
  assumes "pkghash_wf pk h" "hashed pk {p}"
  shows "alpm_pkghash_find pk h n = Some (by_name pk h n) \<and>
    (by_name pk h (pkg_name (pk p)) = None \<and> length (ph_list h) < 380000 \<longrightarrow>
      (\<exists>h1 h2. alpm_pkghash_add pk h p = Some (Some h1) \<and> alpm_pkghash_add_sorted pk h p = Some (Some h2) \<and>
        pkghash_wf pk h1 \<and> by_name pk h1 = (by_name pk h)(pkg_name (pk p) \<mapsto> p) \<and>
        pkghash_wf pk h2 \<and> by_name pk h2 = (by_name pk h)(pkg_name (pk p) \<mapsto> p))) \<and>
    (\<exists>h'. alpm_pkghash_remove pk h p = Some (h', by_name pk h (pkg_name (pk p))) \<and>
      pkghash_wf pk h' \<and> by_name pk h' = (by_name pk h)(pkg_name (pk p) := None))"
  using find_by_name [OF assms(1), of n] remove_by_name [OF assms] add_by_name [OF assms(1) _ assms(2), of True]
    add_by_name [OF assms(1) _ assms(2), of False]
  unfolding alpm_pkghash_add_def alpm_pkghash_add_sorted_def by blast


text \<open>Three packages, the first two of which hash to the same bucket of a table of the smallest size.\<close>

definition crowded_store :: pkg_store where
  "crowded_store p = sample_pkg (if p = 0 then ''a'' else if p = 1 then ''l'' else if p = 2 then ''b'' else ''c'') [] True"

definition crowded_table :: alpm_pkghash where
  "crowded_table =
     \<lparr>ph_table = [Some 2, None, None, None, None, None, None, None, None, Some 0, Some 1], ph_list = [0, 1, 2],
      ph_entries = 3, ph_limit = 7\<rparr>"

lemma crowded_hashed: "hashed crowded_store S"
  by (simp add: hashed_def crowded_store_def sample_pkg_def)

lemma crowded_homes: "map (\<lambda>p. home crowded_store 11 p) [0, 1, 2] = [9, 9, 10]"
  by code_simp

lemma crowded_reachable: "reachable_but {} crowded_store (ph_table crowded_table)"
  using crowded_homes by (simp add: reachable_but_def crowded_table_def numeral_nat All_less_Suc dist_def split: option.split)

lemma crowded_entries: "mset (ph_list crowded_table) = entries_of (ph_table crowded_table)"
  by (simp add: crowded_table_def entries_of_def)

lemma crowded_wf: "pkghash_wf crowded_store crowded_table"
proof -
  have "distinct (map (\<lambda>p. pkg_name (crowded_store p)) (ph_list crowded_table))" by code_simp
  moreover have "hash_ok crowded_store crowded_table"
    using crowded_reachable crowded_entries
    by (simp add: hash_ok_def) (simp add: crowded_table_def limit_for_def prime_list_def)
  ultimately show ?thesis using crowded_hashed by (simp add: pkghash_wf_def)
qed

theorem pkghash_is_a_map_witness:
  "alpm_pkghash_find crowded_store crowded_table ''l'' = Some (Some 1) \<and>
   (\<exists>h'. alpm_pkghash_remove crowded_store crowded_table 0 = Some (h', Some 0) \<and> pkghash_wf crowded_store h' \<and>
      by_name crowded_store h' ''b'' = Some 2)"
proof -
  have b: "by_name crowded_store crowded_table ''l'' = Some 1"
    "by_name crowded_store crowded_table ''b'' = Some 2" "pkg_name (crowded_store 0) = ''a''"
    "by_name crowded_store crowded_table ''a'' = Some 0" by code_simp+
  show ?thesis using pkghash_is_a_map [OF crowded_wf crowded_hashed, of "''l''" 0] b by auto
qed

end
