(* ===== verification/Aur_Resolve.thy ===== *)
theory Aur_Resolve
  imports Two9_Prelude "HOL-Library.While_Combinator"
begin

text \<open>
  \<open>src/aur/aur_resolve.c\<close>: resolution of AUR dependencies.  Linked lists and growing
  arrays are lists in the order the code keeps them; \<open>str_set_t\<close> is a list searched
  linearly.  The two queries to the AUR server (\<open>aur_info\<close>, \<open>aur_info_batch\<close>, network
  code of \<open>aur_rpc.c\<close>) are the parameters \<open>is_aur\<close> and \<open>info_batch\<close> of the
  definitions that use them; the answers are those of one server state.
\<close>

subsection \<open>String sets\<close>

definition str_set_contains :: "string list \<Rightarrow> string \<Rightarrow> bool" where
  "str_set_contains s item \<longleftrightarrow> list_ex (\<lambda>x. x = item) s"

definition str_set_add :: "string list \<Rightarrow> string \<Rightarrow> string list" where
  "str_set_add s item = (if str_set_contains s item then s else s @ [item])"

lemma str_set_contains_iff [simp]: "str_set_contains s x \<longleftrightarrow> x \<in> set s"
  by (auto simp: str_set_contains_def list_ex_iff)

lemma set_str_set_add [simp]: "set (str_set_add s x) = insert x (set s)"
  by (auto simp: str_set_add_def)

lemma distinct_str_set_add [simp]: "distinct s \<Longrightarrow> distinct (str_set_add s x)"
  by (auto simp: str_set_add_def)

lemma str_set_add_new: "x \<notin> set s \<Longrightarrow> str_set_add s x = s @ [x]"
  by (simp add: str_set_add_def)

subsection \<open>The dependency graph\<close>

record dep_edge =
  pkg_name :: string
  dep_names :: "string list"

type_synonym dep_graph = "dep_edge list"

abbreviation graph_names :: "dep_graph \<Rightarrow> string list" where
  "graph_names g \<equiv> map pkg_name g"

definition dep_graph_get_or_create :: "dep_graph \<Rightarrow> string \<Rightarrow> dep_graph" where
  "dep_graph_get_or_create g p =
     (if p \<in> set (graph_names g) then g else g @ [\<lparr>pkg_name = p, dep_names = []\<rparr>])"

text \<open>The update of the entry found: the first one with the name.\<close>

fun edge_update :: "string \<Rightarrow> (dep_edge \<Rightarrow> dep_edge) \<Rightarrow> dep_graph \<Rightarrow> dep_graph" where
  "edge_update p f [] = []"
| "edge_update p f (e # g) = (if pkg_name e = p then f e # g else e # edge_update p f g)"

fun edge_find :: "string \<Rightarrow> dep_graph \<Rightarrow> dep_edge option" where
  "edge_find p [] = None"
| "edge_find p (e # g) = (if pkg_name e = p then Some e else edge_find p g)"

definition dep_graph_add_edge :: "dep_graph \<Rightarrow> string \<Rightarrow> string \<Rightarrow> dep_graph" where
  "dep_graph_add_edge g0 p d =
     (let g = dep_graph_get_or_create g0 p
      in case edge_find p g of
           None \<Rightarrow> g
         | Some e \<Rightarrow>
             if d \<in> set (dep_names e) then g
             else dep_graph_get_or_create
                    (edge_update p (\<lambda>e. e\<lparr>dep_names := dep_names e @ [d]\<rparr>) g) d)"

subsection \<open>The topological sort\<close>

text \<open>
  \<open>in_degree\<close> is an array of \<open>size_t\<close>: it counts at most the dependency entries in
  memory, so the increments do not wrap; the decrement of 0 does.
\<close>

definition size_dec :: "nat \<Rightarrow> nat" where
  "size_dec n = (if n = 0 then 2 ^ 64 - 1 else n - 1)"

fun find_index_of :: "string \<Rightarrow> string list \<Rightarrow> nat option" where
  "find_index_of x [] = None"
| "find_index_of x (y # ys) = (if y = x then Some 0 else map_option Suc (find_index_of x ys))"

definition degree_bump :: "string list \<Rightarrow> nat list \<Rightarrow> string \<Rightarrow> nat list" where
  "degree_bump names deg d =
     (case find_index_of d names of None \<Rightarrow> deg | Some k \<Rightarrow> deg[k := Suc (deg ! k)])"

definition init_degrees :: "dep_graph \<Rightarrow> nat list" where
  "init_degrees g =
     foldl (degree_bump (graph_names g)) (replicate (length g) 0) (concat (map dep_names g))"

definition init_queue :: "dep_graph \<Rightarrow> nat list \<Rightarrow> string list" where
  "init_queue g deg =
     foldl str_set_add [] (map fst (filter (\<lambda>(n, d). d = 0) (zip (graph_names g) deg)))"

text \<open>The scan over all entries after \<open>pkg\<close> is taken from the queue.\<close>

fun visit_deps :: "string \<Rightarrow> string \<Rightarrow> string list \<Rightarrow> nat \<times> string list \<Rightarrow> nat \<times> string list" where
  "visit_deps pkg name [] (deg, q) = (deg, q)"
| "visit_deps pkg name (d # ds) (deg, q) =
     (if d = pkg
      then let deg' = size_dec deg
           in visit_deps pkg name ds (deg', if deg' = 0 then str_set_add q name else q)
      else visit_deps pkg name ds (deg, q))"

fun visit_edges :: "string \<Rightarrow> dep_graph \<Rightarrow> nat list \<Rightarrow> string list \<Rightarrow> nat list \<times> string list" where
  "visit_edges pkg (e # g) (deg # degs) q =
     (case visit_deps pkg (pkg_name e) (dep_names e) (deg, q) of
        (deg', q') \<Rightarrow> (case visit_edges pkg g degs q' of (degs', q'') \<Rightarrow> (deg' # degs', q'')))"
| "visit_edges pkg g degs q = (degs, q)"

type_synonym kahn = "string list \<times> string list \<times> nat list"

definition kahn_step :: "dep_graph \<Rightarrow> kahn \<Rightarrow> kahn" where
  "kahn_step g s =
     (case s of (queue, out, deg) \<Rightarrow>
        let pkg = hd queue
        in case visit_edges pkg g deg (tl queue) of
             (deg', queue') \<Rightarrow> (queue', str_set_add out pkg, deg'))"

text \<open>
  The outer option is the \<open>while\<close> loop (\<open>None\<close>: it does not end), the inner one the
  pointer returned (\<open>None\<close>: NULL, which the caller takes for a cycle).
\<close>

definition dep_graph_topo_sort :: "dep_graph \<Rightarrow> string list option option" where
  "dep_graph_topo_sort g =
     (if g = [] then Some (Some [])
      else
        let deg = init_degrees g
        in map_option
             (\<lambda>(_, out, _). if length out < length g then None else Some out)
             (while_option (\<lambda>s. fst s \<noteq> []) (kahn_step g) (init_queue g deg, [], deg)))"

subsection \<open>Actions\<close>

record resolve_action =
  act_name :: string
  act_version :: "string option"
  act_is_aur :: bool
  act_pkgbase :: "string option"

definition action_new :: "string \<Rightarrow> string option \<Rightarrow> bool \<Rightarrow> string option \<Rightarrow> resolve_action" where
  "action_new n v a b = \<lparr>act_name = n, act_version = v, act_is_aur = a, act_pkgbase = b\<rparr>"

definition action_list_contains :: "resolve_action list \<Rightarrow> string \<Rightarrow> bool" where
  "action_list_contains l n \<longleftrightarrow> list_ex (\<lambda>a. act_name a = n) l"

definition action_append :: "resolve_action list \<Rightarrow> resolve_action \<Rightarrow> resolve_action list" where
  "action_append l a = l @ [a]"

lemma action_list_contains_iff [simp]:
  "action_list_contains l n \<longleftrightarrow> n \<in> act_name ` set l"
  by (auto simp: action_list_contains_def list_ex_iff)

text \<open>\<open>strcspn(dep, "<>=")\<close>\<close>

definition strip_dep_version :: "string \<Rightarrow> string" where
  "strip_dep_version dep = takeWhile (\<lambda>c. c \<notin> {CHR ''<'', CHR ''>'', CHR ''=''}) dep"

record aur_pkg =
  aur_name :: string
  aur_pkgbase :: string
  aur_version :: string
  aur_depends :: "string list"
  aur_makedepends :: "string list"
  aur_checkdepends :: "string list"

subsection \<open>The resolver\<close>

record resolver =
  r_seen :: "string list"
  r_next :: "string list"
  r_install :: "resolve_action list"
  r_build :: "resolve_action list"
  r_graph :: dep_graph
  r_changed :: bool

definition process_dep :: "(string \<Rightarrow> bool) \<Rightarrow> string \<Rightarrow> resolver \<Rightarrow> string \<Rightarrow> resolver" where
  "process_dep is_aur parent r dep =
     (let n = strip_dep_version dep
      in if n = [] then r
         else if \<not> str_set_contains (r_seen r) n then
           let r = r\<lparr>r_seen := str_set_add (r_seen r) n\<rparr>
           in if is_aur n
              then r\<lparr>r_next := str_set_add (r_next r) n, r_changed := True,
                     r_graph := dep_graph_add_edge (r_graph r) parent n\<rparr>
              else if action_list_contains (r_install r) n then r
              else r\<lparr>r_install := action_append (r_install r) (action_new n None False None)\<rparr>
         else if action_list_contains (r_build r) n
              then r\<lparr>r_graph := dep_graph_add_edge (r_graph r) parent n\<rparr>
         else r)"

definition process_deps ::
  "(string \<Rightarrow> bool) \<Rightarrow> string \<Rightarrow> string list \<Rightarrow> resolver \<Rightarrow> resolver" where
  "process_deps is_aur parent deps r = foldl (process_dep is_aur parent) r deps"

definition process_pkg :: "(string \<Rightarrow> bool) \<Rightarrow> resolver \<Rightarrow> aur_pkg \<Rightarrow> resolver" where
  "process_pkg is_aur r p =
     (let r1 = (if action_list_contains (r_build r) (aur_name p) then r
                else r\<lparr>r_build := action_append (r_build r)
                        (action_new (aur_name p) (Some (aur_version p)) True (Some (aur_pkgbase p)))\<rparr>);
          r2 = process_deps is_aur (aur_name p) (aur_depends p) r1;
          r3 = process_deps is_aur (aur_name p) (aur_makedepends p) r2
      in process_deps is_aur (aur_name p) (aur_checkdepends p) r3)"

text \<open>
  The rounds: \<open>n\<close> of the 50 iterations are left, the first argument is \<open>aur_queue\<close>; the
  result is the queue left over and the resolver.
\<close>

fun resolve_rounds ::
  "(string \<Rightarrow> bool) \<Rightarrow> (string list \<Rightarrow> aur_pkg list option) \<Rightarrow> nat \<Rightarrow>
   string list \<Rightarrow> resolver \<Rightarrow> string list \<times> resolver" where
  "resolve_rounds is_aur info_batch 0 q r = (q, r)"
| "resolve_rounds is_aur info_batch (Suc n) q r =
     (if \<not> r_changed r then (q, r)
      else let r = r\<lparr>r_changed := False\<rparr>
           in if q = [] then (q, r)
              else let r = r\<lparr>r_next := []\<rparr>;
                       r = (case info_batch q of
                              None \<Rightarrow> r
                            | Some pkgs \<Rightarrow> foldl (process_pkg is_aur) r pkgs)
                   in resolve_rounds is_aur info_batch n (r_next r) r)"

fun action_find :: "resolve_action list \<Rightarrow> string \<Rightarrow> resolve_action option" where
  "action_find [] n = None"
| "action_find (a # l) n = (if act_name a = n then Some a else action_find l n)"

definition reorder_build :: "resolve_action list \<Rightarrow> string list \<Rightarrow> resolve_action list" where
  "reorder_build old names = List.map_filter (action_find old) names"

record resolve_result =
  res_install :: "resolve_action list"
  res_build :: "resolve_action list"
  res_missing :: "resolve_action list"

definition init_resolver :: "string list \<Rightarrow> resolver" where
  "init_resolver targets =
     \<lparr>r_seen = foldl str_set_add [] targets, r_next = [], r_install = [], r_build = [],
      r_graph = foldl dep_graph_get_or_create [] targets, r_changed = True\<rparr>"

text \<open>\<open>None\<close>: the loop of the topological sort does not end.\<close>

definition resolve_targets ::
  "(string \<Rightarrow> bool) \<Rightarrow> (string list \<Rightarrow> aur_pkg list option) \<Rightarrow> string list \<Rightarrow>
   resolve_result option" where
  "resolve_targets is_aur info_batch targets =
     (if targets = [] then Some \<lparr>res_install = [], res_build = [], res_missing = []\<rparr>
      else case resolve_rounds is_aur info_batch 50 (foldl str_set_add [] targets)
                  (init_resolver targets) of
             (q, r) \<Rightarrow>
               map_option
                 (\<lambda>out.
                    \<lparr>res_install = r_install r,
                     res_build = (case out of
                        Some s \<Rightarrow> if s = [] then r_build r else reorder_build (r_build r) s
                      | None \<Rightarrow> r_build r),
                     res_missing = map (\<lambda>n. action_new n None False None) q\<rparr>)
                 (dep_graph_topo_sort (r_graph r)))"

subsection \<open>Graph well-formedness\<close>

definition all_deps :: "dep_graph \<Rightarrow> string list" where
  "all_deps g = concat (map dep_names g)"

definition graph_wf :: "dep_graph \<Rightarrow> bool" where
  "graph_wf g \<longleftrightarrow> distinct (graph_names g) \<and> set (all_deps g) \<subseteq> set (graph_names g)"

lemma get_or_create_names:
  "graph_names (dep_graph_get_or_create g p) = str_set_add (graph_names g) p"
  by (simp add: dep_graph_get_or_create_def str_set_add_def)

lemma get_or_create_deps [simp]: "all_deps (dep_graph_get_or_create g p) = all_deps g"
  by (simp add: dep_graph_get_or_create_def all_deps_def)

lemma get_or_create_wf: "graph_wf g \<Longrightarrow> graph_wf (dep_graph_get_or_create g p)"
  by (auto simp: graph_wf_def get_or_create_names)

lemma edge_update_names:
  "(\<And>e. pkg_name (f e) = pkg_name e) \<Longrightarrow> graph_names (edge_update p f g) = graph_names g"
  by (induction g) auto

lemma edge_update_deps:
  "set (all_deps (edge_update p (\<lambda>e. e\<lparr>dep_names := dep_names e @ [d]\<rparr>) g))
   \<subseteq> insert d (set (all_deps g))"
  by (induction g) (auto simp: all_deps_def)

lemma add_edge_wf:
  assumes "graph_wf g"
  shows "graph_wf (dep_graph_add_edge g p d)"
proof -
  let ?g = "dep_graph_get_or_create g p"
  let ?u = "edge_update p (\<lambda>e. e\<lparr>dep_names := dep_names e @ [d]\<rparr>) ?g"
  have wf: "graph_wf ?g" using assms by (rule get_or_create_wf)
  have nm: "graph_names ?u = graph_names ?g" by (rule edge_update_names) simp
  have "graph_wf (dep_graph_get_or_create ?u d)"
    using wf edge_update_deps [of p d ?g]
    by (auto simp: graph_wf_def get_or_create_names nm)
  with wf show ?thesis
    by (simp add: dep_graph_add_edge_def Let_def split: option.split)
qed

lemma foldl_create_wf: "graph_wf g \<Longrightarrow> graph_wf (foldl dep_graph_get_or_create g ps)"
  by (induction ps arbitrary: g) (simp_all add: get_or_create_wf)

subsection \<open>What the topological sort computes\<close>

lemma find_index_of_Some:
  "distinct names \<Longrightarrow> k < length names \<Longrightarrow> find_index_of (names ! k) names = Some k"
  by (induction names arbitrary: k) (auto simp: nth_Cons split: nat.splits)

lemma find_index_of_bound:
  "find_index_of x names = Some k \<Longrightarrow> k < length names \<and> names ! k = x"
  by (induction names arbitrary: k) (auto split: if_splits)

lemma length_degree_bump [simp]: "length (degree_bump names deg d) = length deg"
  by (simp add: degree_bump_def split: option.split)

lemma degree_bump_nth:
  assumes "distinct names" "k < length names" "length deg = length names"
  shows "degree_bump names deg d ! k = deg ! k + (if names ! k = d then 1 else 0)"
  using assms find_index_of_Some [OF assms(1,2)]
  by (auto simp: degree_bump_def nth_list_update dest: find_index_of_bound split: option.split)

lemma foldl_degree_bump:
  assumes "distinct names" "length deg = length names"
  shows "length (foldl (degree_bump names) deg ds) = length names \<and>
    (\<forall>k < length names. foldl (degree_bump names) deg ds ! k
       = deg ! k + count_list ds (names ! k))"
  using assms
proof (induction ds arbitrary: deg)
  case (Cons d ds)
  then show ?case using degree_bump_nth [OF assms(1) _ Cons.prems(2)] by auto
qed simp

lemma init_degrees_nth:
  assumes "graph_wf g" "k < length g"
  shows "init_degrees g ! k = count_list (all_deps g) (graph_names g ! k)"
  using foldl_degree_bump [of "graph_names g" "replicate (length g) 0" "all_deps g"] assms
  by (simp add: init_degrees_def graph_wf_def all_deps_def)

lemma length_init_degrees: "graph_wf g \<Longrightarrow> length (init_degrees g) = length g"
  using foldl_degree_bump [of "graph_names g" "replicate (length g) 0" "all_deps g"]
  by (simp add: init_degrees_def graph_wf_def all_deps_def)

lemma foldl_str_set_add:
  "distinct (s @ xs) \<Longrightarrow> foldl str_set_add s xs = s @ xs"
  by (induction xs arbitrary: s) (auto simp: str_set_add_new)

lemma filter_zip_eq:
  assumes "length ds = length xs" "\<And>k. k < length xs \<Longrightarrow> P (ds ! k) = Q (xs ! k)"
  shows "map fst (filter (\<lambda>(n, d). P d) (zip xs ds)) = filter Q xs"
  using assms
proof (induction xs ds rule: list_induct2')
  case (4 x xs y ys)
  have "P (ys ! k) = Q (xs ! k)" if "k < length xs" for k
    using 4(3) [of "Suc k"] that by simp
  with 4 have "map fst (filter (\<lambda>(n, d). P d) (zip xs ys)) = filter Q xs" by simp
  with 4(3) [of 0] show ?case by simp
qed auto

lemma init_queue_eq:
  assumes "graph_wf g"
  shows "init_queue g (init_degrees g) = filter (\<lambda>n. n \<notin> set (all_deps g)) (graph_names g)"
proof -
  have "map fst (filter (\<lambda>(n, d). d = 0) (zip (graph_names g) (init_degrees g)))
        = filter (\<lambda>n. n \<notin> set (all_deps g)) (graph_names g)"
    using assms length_init_degrees [OF assms]
    by (intro filter_zip_eq) (simp_all add: init_degrees_nth count_list_0_iff)
  moreover have "distinct (filter (\<lambda>n. n \<notin> set (all_deps g)) (graph_names g))"
    using assms by (simp add: graph_wf_def)
  ultimately show ?thesis
    using foldl_str_set_add [of "[]"] by (simp add: init_queue_def)
qed

text \<open>A package on which nothing depends leaves degrees and queue as they are.\<close>

lemma visit_deps_none: "pkg \<notin> set ds \<Longrightarrow> visit_deps pkg n ds (deg, q) = (deg, q)"
  by (induction ds) auto

lemma visit_edges_none: "pkg \<notin> set (all_deps g) \<Longrightarrow> visit_edges pkg g deg q = (deg, q)"
  by (induction pkg g deg q rule: visit_edges.induct) (auto simp: all_deps_def visit_deps_none)

lemma kahn_drains:
  assumes "\<forall>n \<in> set q. n \<notin> set (all_deps g)"
  shows "while_option (\<lambda>s. fst s \<noteq> []) (kahn_step g) (q, s, deg)
         = Some ([], foldl str_set_add s q, deg)"
  using assms
proof (induction q arbitrary: s)
  case Nil
  then show ?case by (subst while_option_unfold) simp
next
  case (Cons n q)
  have "kahn_step g (n # q, s, deg) = (q, str_set_add s n, deg)"
    using Cons.prems by (simp add: kahn_step_def visit_edges_none)
  with Cons show ?case by (subst while_option_unfold) simp
qed

lemma topo_sort_eq:
  assumes "graph_wf g"
  shows "dep_graph_topo_sort g =
    Some (if all_deps g = [] then Some (graph_names g) else None)"
proof (cases "g = []")
  case True
  then show ?thesis by (simp add: dep_graph_topo_sort_def all_deps_def)
next
  case False
  let ?L = "filter (\<lambda>n. n \<notin> set (all_deps g)) (graph_names g)"
  have "dep_graph_topo_sort g = Some (if length ?L < length g then None else Some ?L)"
    using False assms kahn_drains [of ?L g "[]" "init_degrees g"] foldl_str_set_add [of "[]" ?L]
    by (simp add: dep_graph_topo_sort_def init_queue_eq graph_wf_def Let_def)
  moreover have "length ?L < length g \<longleftrightarrow> all_deps g \<noteq> []"
  proof -
    have "length ?L < length (graph_names g) \<longleftrightarrow> (\<exists>n \<in> set (graph_names g). n \<in> set (all_deps g))"
      by (metis (no_types, lifting) filter_True length_filter_less nless_le)
    also have "\<dots> \<longleftrightarrow> all_deps g \<noteq> []"
      using assms by (cases "all_deps g") (auto simp: graph_wf_def)
    finally show ?thesis by simp
  qed
  ultimately show ?thesis
    by (auto simp: filter_True)
qed

text \<open>C27. On every graph the resolver can build, the topological sort ends, and it
  succeeds exactly when there is no dependency at all: then it returns the packages in
  insertion order, and any single dependency, cyclic or not, makes it return NULL.\<close>

theorem topo_sort_characterisation:
  assumes "graph_wf g"
  shows "dep_graph_topo_sort g =
    Some (if \<exists>e \<in> set g. dep_names e \<noteq> [] then None else Some (graph_names g))"
proof -
  have "all_deps g = [] \<longleftrightarrow> \<not> (\<exists>e \<in> set g. dep_names e \<noteq> [])"
    by (auto simp: all_deps_def)
  with topo_sort_eq [OF assms] show ?thesis by simp
qed

theorem topo_sort_characterisation_witness:
  "dep_graph_topo_sort [\<lparr>pkg_name = ''a'', dep_names = [''b'']\<rparr>, \<lparr>pkg_name = ''b'', dep_names = []\<rparr>]
   = Some None"
  using topo_sort_characterisation
    [of "[\<lparr>pkg_name = ''a'', dep_names = [''b'']\<rparr>, \<lparr>pkg_name = ''b'', dep_names = []\<rparr>]"]
  by (simp add: graph_wf_def all_deps_def)

subsection \<open>The resolver's invariant\<close>

definition resolver_inv :: "(string \<Rightarrow> bool) \<Rightarrow> resolver \<Rightarrow> bool" where
  "resolver_inv is_aur r \<longleftrightarrow>
     graph_wf (r_graph r) \<and> distinct (r_next r) \<and>
     distinct (map act_name (r_install r)) \<and> distinct (map act_name (r_build r)) \<and>
     (\<forall>a \<in> set (r_install r). \<not> act_is_aur a \<and> \<not> is_aur (act_name a)) \<and>
     (\<forall>a \<in> set (r_build r). act_is_aur a \<and> act_version a \<noteq> None) \<and>
     (\<forall>n \<in> set (r_next r). is_aur n)"

lemma process_dep_inv: "resolver_inv is_aur r \<Longrightarrow> resolver_inv is_aur (process_dep is_aur p r d)"
  by (auto simp: process_dep_def resolver_inv_def Let_def add_edge_wf action_append_def action_new_def)

lemma process_deps_inv:
  "resolver_inv is_aur r \<Longrightarrow> resolver_inv is_aur (process_deps is_aur p ds r)"
  unfolding process_deps_def by (induction ds arbitrary: r) (simp_all add: process_dep_inv)

lemma process_pkg_inv: "resolver_inv is_aur r \<Longrightarrow> resolver_inv is_aur (process_pkg is_aur r p)"
  unfolding process_pkg_def Let_def
  by (intro process_deps_inv) (auto simp: resolver_inv_def action_append_def action_new_def)

lemma foldl_process_pkg_inv:
  "resolver_inv is_aur r \<Longrightarrow> resolver_inv is_aur (foldl (process_pkg is_aur) r ps)"
  by (induction ps arbitrary: r) (simp_all add: process_pkg_inv)

lemma resolve_rounds_inv:
  "resolver_inv is_aur r \<Longrightarrow> resolve_rounds is_aur ib n q r = (q', r') \<Longrightarrow> resolver_inv is_aur r'"
proof (induction n arbitrary: q r)
  case (Suc n)
  let ?r = "r\<lparr>r_changed := False, r_next := []\<rparr>"
  have "resolver_inv is_aur ?r"
    using Suc.prems(1) by (simp add: resolver_inv_def)
  then have "resolver_inv is_aur (case ib q of None \<Rightarrow> ?r | Some ps \<Rightarrow> foldl (process_pkg is_aur) ?r ps)"
    by (simp add: foldl_process_pkg_inv split: option.split)
  moreover have "resolver_inv is_aur (r\<lparr>r_changed := False\<rparr>)"
    using Suc.prems(1) by (simp add: resolver_inv_def)
  ultimately show ?case
    using Suc.IH Suc.prems by (auto simp: Let_def split: if_splits)
qed simp

lemma init_resolver_inv: "resolver_inv is_aur (init_resolver ts)"
  using foldl_create_wf [of "[]" ts]
  by (simp add: resolver_inv_def init_resolver_def graph_wf_def all_deps_def)

lemma resolve_targets_eq:
  assumes "ts \<noteq> []"
    and "resolve_rounds is_aur ib 50 (foldl str_set_add [] ts) (init_resolver ts) = (q, r)"
  shows "resolve_targets is_aur ib ts = Some
    \<lparr>res_install = r_install r,
     res_build = (if all_deps (r_graph r) = [] \<and> r_graph r \<noteq> []
                  then reorder_build (r_build r) (graph_names (r_graph r)) else r_build r),
     res_missing = map (\<lambda>n. action_new n None False None) q\<rparr>"
proof -
  have "graph_wf (r_graph r)"
    using resolve_rounds_inv [OF init_resolver_inv assms(2)] by (simp add: resolver_inv_def)
  then show ?thesis using assms by (simp add: resolve_targets_def topo_sort_eq)
qed

lemma action_find_Some: "action_find l n = Some a \<Longrightarrow> a \<in> set l \<and> act_name a = n"
  by (induction l) (auto split: if_splits)

lemma set_reorder_build: "set (reorder_build l ns) \<subseteq> set l"
  by (induction ns)
    (auto simp: reorder_build_def List.map_filter_def action_find_Some split: option.splits)

lemma names_reorder_build:
  "map act_name (reorder_build l ns) = filter (\<lambda>n. action_find l n \<noteq> None) ns"
  by (induction ns)
    (auto simp: reorder_build_def List.map_filter_def action_find_Some split: option.splits)



text \<open>As soon as one AUR package to be built depends on another one, the build list
  stays in discovery order: the sort has failed, and a package comes before the dependency
  that was discovered through it.\<close>

theorem resolve_keeps_discovery_order:
  assumes "ts \<noteq> []"
    and "resolve_rounds is_aur ib 50 (foldl str_set_add [] ts) (init_resolver ts) = (q, r)"
    and "e \<in> set (r_graph r)" and "dep_names e \<noteq> []"
  shows "map_option res_build (resolve_targets is_aur ib ts) = Some (r_build r)"
proof -
  have "all_deps (r_graph r) \<noteq> []" using assms(3,4) by (auto simp: all_deps_def)
  with resolve_targets_eq [OF assms(1,2)] show ?thesis by simp
qed

definition demo_server :: "string list \<Rightarrow> aur_pkg list option" where
  "demo_server q =
     (if q = [''app'']
      then Some [\<lparr>aur_name = ''app'', aur_pkgbase = ''app'', aur_version = ''1'',
                  aur_depends = [''lib>=2'', ''glibc''], aur_makedepends = [],
                  aur_checkdepends = []\<rparr>]
      else Some [\<lparr>aur_name = ''lib'', aur_pkgbase = ''lib'', aur_version = ''2'',
                  aur_depends = [], aur_makedepends = [], aur_checkdepends = []\<rparr>])"

lemma demo_rounds:
  "resolve_rounds (\<lambda>n. n = ''lib'') demo_server 50 [''app''] (init_resolver [''app'']) =
   ([], \<lparr>r_seen = [''app'', ''lib'', ''glibc''], r_next = [],
         r_install = [action_new ''glibc'' None False None],
         r_build = [action_new ''app'' (Some ''1'') True (Some ''app''),
                    action_new ''lib'' (Some ''2'') True (Some ''lib'')],
         r_graph = [\<lparr>pkg_name = ''app'', dep_names = [''lib'']\<rparr>, \<lparr>pkg_name = ''lib'', dep_names = []\<rparr>],
         r_changed = False\<rparr>)"
  by code_simp

theorem resolve_keeps_discovery_order_witness:
  "map_option (map act_name) (map_option res_build
     (resolve_targets (\<lambda>n. n = ''lib'') demo_server [''app''])) = Some [''app'', ''lib'']"
proof -
  have "map_option res_build (resolve_targets (\<lambda>n. n = ''lib'') demo_server [''app'']) =
    Some [action_new ''app'' (Some ''1'') True (Some ''app''),
          action_new ''lib'' (Some ''2'') True (Some ''lib'')]"
    using resolve_keeps_discovery_order [of "[''app'']" "\<lambda>n. n = ''lib''" demo_server]
      demo_rounds by (fastforce simp: str_set_add_def)
  then show ?thesis by (simp only: option.map list.map action_new_def resolve_action.simps)
qed

text \<open>Targets the server does not know are dropped without a trace: the plan neither
  installs nor builds them nor lists them as missing.\<close>

theorem resolve_unknown_targets_vanish:
  assumes "ib (foldl str_set_add [] ts) = Some []"
  shows "resolve_targets is_aur ib ts =
    Some \<lparr>res_install = [], res_build = [], res_missing = []\<rparr>"
proof (cases "ts = []")
  case True
  then show ?thesis by (simp add: resolve_targets_def)
next
  case False
  let ?q = "foldl str_set_add [] ts"
  have "set ?q = set ts"
  proof -
    have "set (foldl str_set_add s ts) = set s \<union> set ts" for s
      by (induction ts arbitrary: s) auto
    then show ?thesis by simp
  qed
  with False have ne: "?q \<noteq> []" by fastforce
  let ?r = "(init_resolver ts)\<lparr>r_changed := False, r_next := []\<rparr>"
  have "resolve_rounds is_aur ib 50 ?q (init_resolver ts) = ([], ?r)"
    using ne assms by (simp add: numeral_nat Let_def init_resolver_def)
  from resolve_targets_eq [OF False this] show ?thesis
    by (simp add: init_resolver_def reorder_build_def List.map_filter_def)
qed

theorem resolve_unknown_targets_vanish_witness:
  "resolve_targets (\<lambda>n. False) (\<lambda>q. Some []) [''no-such-package''] =
   Some \<lparr>res_install = [], res_build = [], res_missing = []\<rparr>"
  by (rule resolve_unknown_targets_vanish) simp

end
