(* ===== verification/Nar_Archive.thy ===== *)
theory Nar_Archive
  imports Two9_Prelude "HOL-Library.AList"
begin

text \<open>
  \<open>src/store/nar.c\<close>: the archive format of the store.  A file system tree is a datatype; the
  writer \<open>dump_node\<close> produces the canonical byte stream, the reader \<open>parse_node\<close> replays a
  stream, hostile or not, on the file system below the destination, and the store path is
  derived from the SHA-256 digest of the stream.

  The reader acts on a \<open>slot\<close>: what the destination path names at that moment.  The system
  calls it makes (\<open>fopen\<close>, \<open>mkdir\<close>, \<open>unlink\<close> and \<open>symlink\<close>) are functions on slots with the
  errors that the tree itself causes (\<open>EEXIST\<close>, \<open>EISDIR\<close>, \<open>ENOTDIR\<close>); a full disk, missing
  permissions and races are not modelled.  An extraction that would follow a symbolic link
  ends in the outcome \<open>Outside\<close>: from there on the code writes where the link points.
\<close>

subsection \<open>File system trees\<close>

text \<open>
  A regular file with its owner execute bit and contents, a symbolic link with its target,
  a directory with its entries in the order \<open>readdir\<close> has them (\<open>.\<close> and \<open>..\<close> left out), and
  anything else (a device, a socket, a FIFO).
\<close>

datatype fs_node =
    Regular bool bytes
  | Symlink string
  | Directory "(string \<times> fs_node) list"
  | Special

definition legal_name :: "string \<Rightarrow> bool" where
  "legal_name n \<longleftrightarrow> n \<noteq> [] \<and> length n < 256 \<and> CHR ''/'' \<notin> set n \<and> c_nul \<notin> set n
     \<and> n \<noteq> ''.'' \<and> n \<noteq> ''..''"

text \<open>What the kernel guarantees of a tree on disk.\<close>

fun wf_node :: "fs_node \<Rightarrow> bool" where
  "wf_node (Regular x c) \<longleftrightarrow> length c < 2 ^ 63"
| "wf_node (Symlink t) \<longleftrightarrow> t \<noteq> [] \<and> length t < 4096 \<and> c_nul \<notin> set t"
| "wf_node (Directory es) \<longleftrightarrow> distinct (map fst es) \<and>
     (\<forall>e \<in> set es. legal_name (fst e) \<and> wf_node (snd e))"
| "wf_node Special \<longleftrightarrow> True"

text \<open>The same tree with every directory listed in name order.\<close>

fun canon :: "fs_node \<Rightarrow> fs_node" where
  "canon (Directory es) = Directory (sort_key fst (map (\<lambda>e. (fst e, canon (snd e))) es))"
| "canon (Regular x c) = Regular x c"
| "canon (Symlink t) = Symlink t"
| "canon Special = Special"

subsection \<open>Writing\<close>

text \<open>\<open>PATH_MAX\<close>\<close>

definition path_max :: nat where
  "path_max = 4096"

definition emit_u64_be :: "64 word \<Rightarrow> bytes" where
  "emit_u64_be n =
     map (\<lambda>i. char_of (unat (and (drop_bit (8 * (7 - i)) n) 0xff))) [0..<8]"

lemma size_list_insort:
  "size_list f (insort_key k x xs) = size_list f (x # xs)"
  by (induction xs) auto

lemma size_list_sort_key [simp]: "size_list f (sort_key k xs) = size_list f xs"
  by (induction xs) (simp_all add: size_list_insort)

text \<open>
  The writer callback receives the chunks one after the other, so a dump is their
  concatenation; \<open>None\<close> is the return value -1.  \<open>pl\<close> is the length of the path that names
  the node.  \<open>scandir\<close> with \<open>alphasort\<close> sorts by \<open>strcoll\<close>, which is \<open>strcmp\<close> because the
  program never leaves the C locale here.
\<close>

function (sequential) dump_node :: "nat \<Rightarrow> fs_node \<Rightarrow> bytes option"
  and dump_entries :: "nat \<Rightarrow> (string \<times> fs_node) list \<Rightarrow> bytes option" where
  "dump_node pl (Regular executable c) =
     Some (''type:regular'' @ [c_nl]
       @ (if executable then ''executable'' @ [c_nl] else [])
       @ ''contents:'' @ emit_u64_be (word_of_nat (length c)) @ c)"
| "dump_node pl (Symlink target) =
     (let t = take path_max target in
      Some (''type:symlink'' @ [c_nl] @ ''target:''
        @ emit_u64_be (word_of_nat (length t)) @ t))"
| "dump_node pl (Directory es) =
     (case dump_entries pl (sort_key fst es) of
        None \<Rightarrow> None
      | Some b \<Rightarrow> Some (''type:directory'' @ [c_nl] @ b @ ''end'' @ [c_nl]))"
| "dump_node pl Special = None"
| "dump_entries pl [] = Some []"
| "dump_entries pl ((name, child) # es) =
     (if name = ''.'' \<or> name = ''..'' then dump_entries pl es
      else if pl + 1 + length name \<ge> path_max then None
      else case dump_node (pl + 1 + length name) child of
             None \<Rightarrow> None
           | Some b \<Rightarrow>
               (case dump_entries pl es of
                  None \<Rightarrow> None
                | Some bs \<Rightarrow>
                    Some (''entry'' @ [c_nl] @ ''name:''
                      @ emit_u64_be (word_of_nat (length name)) @ name @ b @ bs)))"
  by pat_completeness auto

termination
  by (relation "measure (\<lambda>x. case x of Inl (pl, t) \<Rightarrow> size t
        | Inr (pl, es) \<Rightarrow> size_list (size_prod (\<lambda>_. 0) size) es)")
    auto

definition nar_dump :: "string \<Rightarrow> fs_node \<Rightarrow> bytes option" where
  "nar_dump path t =
     map_option (\<lambda>b. ''nix-archive-1'' @ [c_nl] @ b) (dump_node (length path) t)"

text \<open>The hash parameter returns the 32 bytes of the SHA-256 digest of its argument.\<close>

definition hex_digit :: "8 word \<Rightarrow> char" where
  "hex_digit d = ''0123456789abcdef'' ! unat d"

definition hex_encode :: "8 word list \<Rightarrow> string" where
  "hex_encode digest = concat (map (\<lambda>d. [hex_digit (drop_bit 4 d), hex_digit (and d 0x0f)]) digest)"

definition nar_hash_directory ::
    "(bytes \<Rightarrow> 8 word list) \<Rightarrow> string \<Rightarrow> fs_node \<Rightarrow> (string \<times> nat) option" where
  "nar_hash_directory sha256 path t =
     map_option (\<lambda>s. (hex_encode (sha256 s), length s)) (nar_dump path t)"

subsection \<open>Store paths\<close>

definition base32 :: string where
  "base32 = ''0123456789abcdfghijklmnpqrsvwxyz''"

text \<open>One group: five digest bytes, read little-endian, emitted as eight characters.\<close>

definition base32_group :: "8 word list \<Rightarrow> 64 word" where
  "base32_group d = foldl (\<lambda>n b. or n (push_bit (8 * b) (ucast (d ! b)))) 0 [0..<5]"

fun base32_chars :: "nat \<Rightarrow> 64 word \<Rightarrow> string" where
  "base32_chars 0 n = []"
| "base32_chars (Suc k) n = base32 ! unat (and n 0x1f) # base32_chars k (drop_bit 5 n)"

definition hash32 :: "8 word list \<Rightarrow> string" where
  "hash32 digest =
     concat (map (\<lambda>g. base32_chars 8 (base32_group (drop (5 * g) digest))) [0..<4])"

definition store_fingerprint :: "string \<Rightarrow> string \<Rightarrow> string \<Rightarrow> string" where
  "store_fingerprint nar_hash_hex name version =
     ''output:out:sha256:'' @ nar_hash_hex @ '':/nix/store:'' @ name @ ''-'' @ version"

definition compute_store_path ::
    "(bytes \<Rightarrow> 8 word list) \<Rightarrow> string \<Rightarrow> string \<Rightarrow> string \<Rightarrow> string" where
  "compute_store_path sha256 nar_hash_hex name version =
     ''/nix/store/'' @ hash32 (sha256 (store_fingerprint nar_hash_hex name version))
       @ ''-'' @ name @ ''-'' @ version"

subsection \<open>Reading the stream\<close>

definition read_exact :: "nat \<Rightarrow> bytes \<Rightarrow> (bytes \<times> bytes) option" where
  "read_exact n s = (if length s < n then None else Some (take n s, drop n s))"

definition be_value :: "bytes \<Rightarrow> 64 word" where
  "be_value b = foldl (\<lambda>v c. or (push_bit 8 v) (word_of_nat (of_char c))) 0 b"

definition read_u64_be :: "bytes \<Rightarrow> (64 word \<times> bytes) option" where
  "read_u64_be s =
     (case read_exact 8 s of None \<Rightarrow> None | Some (b, s') \<Rightarrow> Some (be_value b, s'))"

text \<open>A line ends at a newline, which is dropped, or at the end of the stream.\<close>

definition read_line :: "bytes \<Rightarrow> (bytes \<times> bytes) option" where
  "read_line s =
     (if s = [] then None
      else case split_first c_nl s of None \<Rightarrow> Some (s, []) | Some (a, b) \<Rightarrow> Some (a, b))"

text \<open>
  \<open>try_consume\<close> fails when fewer bytes than the token has are left, even if they do not match;
  the bytes pushed back leave the stream as it was (glibc's \<open>ungetc\<close> takes more than one).
\<close>

definition try_consume :: "string \<Rightarrow> bytes \<Rightarrow> (bool \<times> bytes) option" where
  "try_consume tok s =
     (case read_exact (length tok) s of
        None \<Rightarrow> None
      | Some (b, s') \<Rightarrow> if b = tok then Some (True, s') else Some (False, s))"

definition expect_token :: "string \<Rightarrow> bytes \<Rightarrow> bytes option" where
  "expect_token tok s =
     (case read_exact (length tok) s of
        None \<Rightarrow> None
      | Some (b, s') \<Rightarrow> if b = tok then Some s' else None)"

text \<open>The copy loop of a regular file, in chunks of at most 64 KiB.\<close>

function copy_contents :: "nat \<Rightarrow> bytes \<Rightarrow> bytes \<Rightarrow> (bytes \<times> bytes) option" where
  "copy_contents remaining s written =
     (if remaining > 0 then
        let chunk = (if remaining > 65536 then 65536 else remaining) in
        case read_exact chunk s of
          None \<Rightarrow> None
        | Some (b, s') \<Rightarrow> copy_contents (remaining - chunk) s' (written @ b)
      else Some (written, s))"
  by pat_completeness auto
termination
  by (relation "measure fst") (auto split: if_splits)

declare copy_contents.simps [simp del]

subsection \<open>The file system below the destination\<close>

text \<open>
  What a path names when the reader uses it: nothing yet (its parent is a directory), a node,
  a node named with a trailing slash (the archive's entry name was empty as a C string), a
  path below something that is not a directory, or a path below a symbolic link.
\<close>

datatype slot =
    Vacant
  | Holds fs_node
  | Slash fs_node
  | Barred
  | Beyond

text \<open>Results of a system call on a slot: success or failure with the slot after it.\<close>

datatype syscall = Ok slot | Err slot | Away

text \<open>\<open>fopen(path, "wb")\<close> and the writes: an existing file is truncated and keeps its mode.\<close>

fun fs_write :: "bytes \<Rightarrow> slot \<Rightarrow> syscall" where
  "fs_write c Vacant = Ok (Holds (Regular False c))"
| "fs_write c (Holds (Regular x _)) = Ok (Holds (Regular x c))"
| "fs_write c (Holds (Symlink t)) = Away"
| "fs_write c (Holds (Directory es)) = Err (Holds (Directory es))"
| "fs_write c (Holds Special) = Away"
| "fs_write c (Slash n) = Err (Slash n)"
| "fs_write c Barred = Err Barred"
| "fs_write c Beyond = Away"

fun fs_chmod_x :: "slot \<Rightarrow> slot" where
  "fs_chmod_x (Holds (Regular x c)) = Holds (Regular True c)"
| "fs_chmod_x sl = sl"

fun fs_unlink :: "slot \<Rightarrow> slot" where
  "fs_unlink (Holds (Directory es)) = Holds (Directory es)"
| "fs_unlink (Holds n) = Vacant"
| "fs_unlink sl = sl"

text \<open>\<open>unlink\<close>, whose result is ignored, and \<open>symlink\<close>.\<close>

fun fs_symlink :: "string \<Rightarrow> slot \<Rightarrow> syscall" where
  "fs_symlink t Beyond = Away"
| "fs_symlink t sl =
     (let sl' = fs_unlink sl in
      if sl' = Vacant \<and> t \<noteq> [] then Ok (Holds (Symlink t)) else Err sl')"

text \<open>\<open>mkdir\<close>, with \<open>EEXIST\<close> accepted whatever exists.\<close>

fun fs_mkdir :: "slot \<Rightarrow> syscall" where
  "fs_mkdir Vacant = Ok (Holds (Directory []))"
| "fs_mkdir (Holds n) = Ok (Holds n)"
| "fs_mkdir (Slash n) = Ok (Slash n)"
| "fs_mkdir Barred = Err Barred"
| "fs_mkdir Beyond = Away"

text \<open>The slot of \<open>path/name\<close>, and the slot of \<open>path\<close> once that of \<open>path/name\<close> has changed.\<close>

fun child_of :: "fs_node \<Rightarrow> string \<Rightarrow> slot" where
  "child_of (Directory es) name =
     (case map_of es name of None \<Rightarrow> Vacant | Some n \<Rightarrow> Holds n)"
| "child_of (Symlink t) name = Beyond"
| "child_of (Regular x c) name = Barred"
| "child_of Special name = Barred"

fun child_slot :: "slot \<Rightarrow> string \<Rightarrow> slot" where
  "child_slot (Holds n) name = (if name = [] then Slash n else child_of n name)"
| "child_slot (Slash n) name = (if name = [] then Slash n else child_of n name)"
| "child_slot Vacant name = Barred"
| "child_slot Barred name = Barred"
| "child_slot Beyond name = Beyond"

fun put_entry :: "fs_node \<Rightarrow> string \<Rightarrow> slot \<Rightarrow> fs_node" where
  "put_entry (Directory es) name (Holds n) = Directory (AList.update name n es)"
| "put_entry (Directory es) name Vacant = Directory (AList.delete name es)"
| "put_entry d name (Slash n) = n"
| "put_entry d name sl = d"

fun put_child :: "slot \<Rightarrow> string \<Rightarrow> slot \<Rightarrow> slot" where
  "put_child (Holds d) name sl = Holds (put_entry d name sl)"
| "put_child (Slash d) name sl = Slash (put_entry d name sl)"
| "put_child d name sl = d"

subsection \<open>Extraction\<close>

datatype outcome =
    Done bytes slot
  | Fail slot
  | Outside
  | Out_of_fuel

text \<open>The three node kinds, without the loop over the entries of a directory.\<close>

definition parse_regular :: "bytes \<Rightarrow> slot \<Rightarrow> outcome" where
  "parse_regular s sl =
     (case try_consume (''executable'' @ [c_nl]) s of
        None \<Rightarrow> Fail sl
      | Some (executable, s1) \<Rightarrow>
     (case expect_token ''contents:'' s1 of
        None \<Rightarrow> Fail sl
      | Some s2 \<Rightarrow>
     (case read_u64_be s2 of
        None \<Rightarrow> Fail sl
      | Some (flen, s3) \<Rightarrow>
     (case fs_write [] sl of
        Err sl' \<Rightarrow> Fail sl'
      | Away \<Rightarrow> Outside
      | Ok sl' \<Rightarrow>
     (case copy_contents (unat flen) s3 [] of
        None \<Rightarrow> Fail (fs_unlink sl')
      | Some (c, s4) \<Rightarrow>
     (case fs_write c sl' of
        Ok sl'' \<Rightarrow> Done s4 (if executable then fs_chmod_x sl'' else sl'')
      | _ \<Rightarrow> Fail (fs_unlink sl')))))))"

definition parse_symlink :: "bytes \<Rightarrow> slot \<Rightarrow> outcome" where
  "parse_symlink s sl =
     (case expect_token ''target:'' s of
        None \<Rightarrow> Fail sl
      | Some s1 \<Rightarrow>
     (case read_u64_be s1 of
        None \<Rightarrow> Fail sl
      | Some (tlen, s2) \<Rightarrow>
     if tlen = 0 \<or> unat tlen \<ge> path_max then Fail sl else
     (case read_exact (unat tlen) s2 of
        None \<Rightarrow> Fail sl
      | Some (target, s3) \<Rightarrow>
     (case fs_symlink (c_str target) sl of
        Ok sl' \<Rightarrow> Done s3 sl'
      | Err sl' \<Rightarrow> Fail sl'
      | Away \<Rightarrow> Outside))))"

text \<open>
  An entry header: the bytes from \<open>name:\<close> on, checked by the path traversal guard.  The name
  is used as a C string, so it ends at a NUL inside the \<open>nlen\<close> bytes read.
\<close>

definition parse_entry_name :: "nat \<Rightarrow> bytes \<Rightarrow> (string \<times> bytes) option" where
  "parse_entry_name pl s =
     (case expect_token ''name:'' s of
        None \<Rightarrow> None
      | Some s1 \<Rightarrow>
     (case read_u64_be s1 of
        None \<Rightarrow> None
      | Some (nlen, s2) \<Rightarrow>
     if nlen = 0 \<or> nlen \<ge> 256 then None else
     (case read_exact (unat nlen) s2 of
        None \<Rightarrow> None
      | Some (raw, s3) \<Rightarrow>
     let name = c_str raw in
     if CHR ''/'' \<in> set name \<or> name = ''..'' \<or> name = ''.'' then None
     else if pl + 1 + length name \<ge> path_max then None
     else Some (name, s3))))"

text \<open>
  \<open>parse_node\<close> and its directory loop.  The first argument bounds the number of recursive
  calls; \<open>nar_extract\<close> starts with more than the stream can use.
\<close>

fun parse_node :: "nat \<Rightarrow> nat \<Rightarrow> bytes \<Rightarrow> slot \<Rightarrow> outcome"
  and parse_entries :: "nat \<Rightarrow> nat \<Rightarrow> bytes \<Rightarrow> slot \<Rightarrow> outcome" where
  "parse_node 0 pl s sl = Out_of_fuel"
| "parse_node (Suc k) pl s sl =
     (case read_line s of
        None \<Rightarrow> Fail sl
      | Some (line, s1) \<Rightarrow>
          let type_line = c_str line in
          if type_line = ''type:regular'' then parse_regular s1 sl
          else if type_line = ''type:symlink'' then parse_symlink s1 sl
          else if type_line = ''type:directory'' then
            (case fs_mkdir sl of
               Ok sl' \<Rightarrow> parse_entries k pl s1 sl'
             | Err sl' \<Rightarrow> Fail sl'
             | Away \<Rightarrow> Outside)
          else Fail sl)"
| "parse_entries 0 pl s sl = Out_of_fuel"
| "parse_entries (Suc k) pl s sl =
     (case read_line s of
        None \<Rightarrow> Fail sl
      | Some (line, s1) \<Rightarrow>
          let entry_line = c_str line in
          if entry_line = ''end'' then Done s1 sl
          else if entry_line \<noteq> ''entry'' then Fail sl
          else
            (case parse_entry_name pl s1 of
               None \<Rightarrow> Fail sl
             | Some (name, s2) \<Rightarrow>
                 (case parse_node k (pl + 1 + length name) s2 (child_slot sl name) of
                    Done s3 c \<Rightarrow> parse_entries k pl s3 (put_child sl name c)
                  | Fail c \<Rightarrow> Fail (put_child sl name c)
                  | Outside \<Rightarrow> Outside
                  | Out_of_fuel \<Rightarrow> Out_of_fuel)))"

declare parse_node.simps [simp del] parse_entries.simps [simp del]

definition nar_extract :: "bytes \<Rightarrow> string \<Rightarrow> slot \<Rightarrow> outcome" where
  "nar_extract s dest_dir sl =
     (case read_line s of
        None \<Rightarrow> Fail sl
      | Some (line, s1) \<Rightarrow>
          if c_str line \<noteq> ''nix-archive-1'' then Fail sl
          else parse_node (Suc (length s1)) (length dest_dir) s1 sl)"

subsection \<open>Readers applied to what the writers emit\<close>

lemma byte_mask: "and (x :: 64 word) 0xff = take_bit 8 x"
  by (simp add: take_bit_eq_mask mask_eq_exp_minus_1)

lemma unat_byte_less: "unat (take_bit 8 (x :: 64 word)) < 256"
  using take_bit_nat_less_exp [of 8 "unat x"] by (simp add: unsigned_take_bit_eq)

lemma byte_of_word:
  "word_of_nat (of_char (char_of (unat (take_bit 8 (x :: 64 word))))) = take_bit 8 x"
  using unat_byte_less [of x] by simp

lemma shift_in_byte:
  fixes n :: "64 word"
  assumes "j = 8 + k"
  shows "or (push_bit 8 (drop_bit j n)) (take_bit 8 (drop_bit k n)) = drop_bit k n"
proof (rule bit_word_eqI)
  fix i assume "i < LENGTH(64)"
  have "k + (8 + (i - 8)) = k + i" if "\<not> i < 8" using that by simp
  with assms \<open>i < LENGTH(64)\<close> show
    "bit (or (push_bit 8 (drop_bit j n)) (take_bit 8 (drop_bit k n))) i = bit (drop_bit k n) i"
    by (cases "i < 8") (auto simp: bit_simps ac_simps)
qed

lemma be_value_words:
  "be_value (map (\<lambda>i. char_of (unat (take_bit 8 (f i)))) ns) =
     foldl (\<lambda>v i. or (push_bit 8 v) (take_bit 8 (f i))) 0 ns"
  unfolding be_value_def foldl_map byte_of_word ..

lemma be_value_emit [codec_simps]: "be_value (emit_u64_be n) = n"
proof -
  have z: "drop_bit 64 n = 0" by (rule bit_word_eqI) (simp add: bit_simps)
  have first: "take_bit 8 (drop_bit 56 n) = drop_bit 56 n"
    using shift_in_byte [of 64 56 n] z by simp
  have last: "or (push_bit 8 (drop_bit 8 n)) (take_bit 8 n) = n"
    using shift_in_byte [of 8 0 n] by simp
  show ?thesis
    unfolding emit_u64_be_def byte_mask be_value_words
    by (simp add: upt_rec first last shift_in_byte)
qed

lemma length_emit [simp]: "length (emit_u64_be n) = 8"
  by (simp add: emit_u64_be_def)

lemma read_exact_append [codec_simps]: "length a = n \<Longrightarrow> read_exact n (a @ r) = Some (a, r)"
  by (auto simp: read_exact_def)

lemma read_u64_emit [codec_simps]: "read_u64_be (emit_u64_be n @ r) = Some (n, r)"
  by (simp add: read_u64_be_def codec_simps)

lemma read_line_nl [codec_simps]: "c_nl \<notin> set a \<Longrightarrow> read_line (a @ c_nl # r) = Some (a, r)"
  by (simp add: read_line_def)

lemma expect_token_append [codec_simps]: "expect_token t (t @ r) = Some r"
  by (simp add: expect_token_def codec_simps)

lemma try_consume_append [codec_simps]: "try_consume t (t @ r) = Some (True, r)"
  by (simp add: try_consume_def codec_simps)

lemma try_consume_other [codec_simps]:
  "length t \<le> length s \<Longrightarrow> take (length t) s \<noteq> t \<Longrightarrow> try_consume t s = Some (False, s)"
  by (simp add: try_consume_def read_exact_def)

lemma copy_contents_append:
  "length c = n \<Longrightarrow> copy_contents n (c @ r) w = Some (w @ c, r)"
proof (induction n arbitrary: c w rule: less_induct)
  case (less n)
  define m where "m = (if n > 65536 then 65536 else n)"
  show ?case
  proof (cases "n = 0")
    case True
    with less.prems show ?thesis by (subst copy_contents.simps) simp
  next
    case False
    then have m: "0 < m" "m \<le> n" by (auto simp: m_def)
    have "read_exact m (c @ r) = Some (take m c, drop m c @ r)"
      using m less.prems by (simp add: read_exact_def)
    then have "copy_contents n (c @ r) w = copy_contents (n - m) (drop m c @ r) (w @ take m c)"
      using False by (subst copy_contents.simps) (simp add: m_def Let_def)
    also have "\<dots> = Some ((w @ take m c) @ drop m c, r)"
      using m less.prems by (intro less.IH) auto
    finally show ?thesis by simp
  qed
qed

lemma copy_contents_spec:
  "copy_contents n s w = map_option (\<lambda>(c, r). (w @ c, r)) (read_exact n s)"
proof (cases "length s < n")
  case False
  then show ?thesis
    using copy_contents_append [of "take n s" n "drop n s" w] by (simp add: read_exact_def)
next
  case True
  then have "copy_contents n s w = None"
  proof (induction n arbitrary: s w rule: less_induct)
    case (less n)
    define m where "m = (if n > 65536 then 65536 else n)"
    have m: "0 < m" "m \<le> n" using less.prems by (auto simp: m_def)
    have e: "copy_contents n s w = (case read_exact m s of None \<Rightarrow> None
       | Some (b, s') \<Rightarrow> copy_contents (n - m) s' (w @ b))"
      unfolding copy_contents.simps [of n] Let_def m_def [symmetric] using less.prems by simp
    show ?case
      unfolding e using m less.prems by (auto simp: read_exact_def intro!: less.IH)
  qed
  with True show ?thesis by (simp add: read_exact_def)
qed


subsection \<open>What is written is read back\<close>

lemma insort_key_map:
  "insort_key fst (fst e, f (snd e)) (map (\<lambda>e. (fst e, f (snd e))) xs) =
     map (\<lambda>e. (fst e, f (snd e))) (insort_key fst e xs)"
  by (induction xs) auto

lemma sort_key_map:
  "sort_key fst (map (\<lambda>e. (fst e, f (snd e))) xs) = map (\<lambda>e. (fst e, f (snd e))) (sort_key fst xs)"
  by (induction xs) (simp_all add: insort_key_map)

definition reads_back :: "nat \<Rightarrow> fs_node \<Rightarrow> bytes \<Rightarrow> bool" where
  "reads_back pl t b \<longleftrightarrow>
     (\<forall>k r. length b \<le> k \<longrightarrow> parse_node k pl (b @ r) Vacant = Done r (Holds (canon t)))"

lemma unat_len: "n < 2 ^ 63 \<Longrightarrow> unat (word_of_nat n :: 64 word) = n"
  by (simp add: unat_of_nat)

lemma read_line_nl' [codec_simps]: "c_nl \<notin> set a \<Longrightarrow> read_line (a @ [c_nl] @ r) = Some (a, r)"
  by (simp add: read_line_def)

lemma try_consume_append' [codec_simps]: "try_consume (a @ b) (a @ b @ r) = Some (True, r)"
  using try_consume_append [of "a @ b" r] by (simp only: append_assoc)

lemma parse_node_regular:
  "parse_node (Suc k) pl (''type:regular'' @ [c_nl] @ r) sl = parse_regular r sl"
  unfolding parse_node.simps by (subst read_line_nl') simp_all

lemma parse_node_symlink:
  "parse_node (Suc k) pl (''type:symlink'' @ [c_nl] @ r) sl = parse_symlink r sl"
  unfolding parse_node.simps by (subst read_line_nl') simp_all

lemma parse_node_directory:
  "parse_node (Suc k) pl (''type:directory'' @ [c_nl] @ r) sl =
     (case fs_mkdir sl of Ok sl' \<Rightarrow> parse_entries k pl r sl' | Err sl' \<Rightarrow> Fail sl' | Away \<Rightarrow> Outside)"
  unfolding parse_node.simps by (subst read_line_nl') simp_all

lemma parse_entries_end:
  "parse_entries (Suc k) pl (''end'' @ [c_nl] @ r) sl = Done r sl"
  unfolding parse_entries.simps by (subst read_line_nl') simp_all

lemma parse_entries_entry:
  assumes "legal_name name" and "pl + 1 + length name < path_max"
  shows "parse_entries (Suc k) pl (''entry'' @ [c_nl] @ ''name:''
      @ emit_u64_be (word_of_nat (length name)) @ name @ r) sl =
    (case parse_node k (pl + 1 + length name) r (child_slot sl name) of
       Done s3 c \<Rightarrow> parse_entries k pl s3 (put_child sl name c)
     | Fail c \<Rightarrow> Fail (put_child sl name c)
     | Outside \<Rightarrow> Outside
     | Out_of_fuel \<Rightarrow> Out_of_fuel)"
proof -
  have n: "name \<noteq> []" "length name < 256" "CHR ''/'' \<notin> set name" "c_nul \<notin> set name"
      "name \<noteq> ''.''" "name \<noteq> ''..''"
    using assms(1) by (auto simp: legal_name_def)
  have u: "unat (word_of_nat (length name) :: 64 word) = length name"
    using n(2) by (intro unat_len) simp
  have w: "(word_of_nat (length name) :: 64 word) \<noteq> 0" "\<not> 256 \<le> (word_of_nat (length name) :: 64 word)"
    using n(1,2) u by (auto simp: word_le_nat_alt simp flip: unat_eq_0)
  have "parse_entry_name pl (''name:'' @ emit_u64_be (word_of_nat (length name)) @ name @ r) =
      Some (name, r)"
    unfolding parse_entry_name_def
    using n u w assms(2) by (simp add: codec_simps del: append_Cons)
  then show ?thesis
    unfolding parse_entries.simps by (subst read_line_nl') simp_all
qed

lemma regular_reads_back:
  assumes "length c < 2 ^ 63" and "dump_node pl (Regular x c) = Some b"
  shows "reads_back pl (Regular x c) b"
proof -
  let ?h = "''contents:'' @ emit_u64_be (word_of_nat (length c)) @ c"
  have body: "parse_regular ((if x then ''executable'' @ [c_nl] else []) @ ?h @ r) Vacant =
      Done r (Holds (Regular x c))" for r
  proof (cases x)
    case True
    show ?thesis
      using assms(1) True
      unfolding parse_regular_def if_P [OF True] append_assoc
      by (simp add: codec_simps unat_len copy_contents_append del: append_Cons)
  next
    case False
    have "try_consume (''executable'' @ [c_nl]) (?h @ r) = Some (False, ?h @ r)"
      by (rule try_consume_other) simp_all
    with False show ?thesis
      using assms(1)
      unfolding parse_regular_def
      by (simp add: codec_simps unat_len copy_contents_append del: append_Cons)
  qed
  have b: "b = ''type:regular'' @ [c_nl] @ (if x then ''executable'' @ [c_nl] else []) @ ?h"
    using assms(2) by simp
  show ?thesis
    unfolding reads_back_def
  proof (intro allI impI)
    fix k r
    assume "length b \<le> k"
    with b obtain k' where "k = Suc k'" by (cases k) auto
    then show "parse_node k pl (b @ r) Vacant = Done r (Holds (canon (Regular x c)))"
      unfolding b using parse_node_regular [of k' pl _ Vacant] body [of r]
      by (simp del: append_Cons)
  qed
qed

lemma symlink_reads_back:
  assumes "wf_node (Symlink t)" and "dump_node pl (Symlink t) = Some b"
  shows "reads_back pl (Symlink t) b"
proof -
  have t: "t \<noteq> []" "length t < 4096" "c_nul \<notin> set t" using assms(1) by auto
  have u: "unat (word_of_nat (length t) :: 64 word) = length t"
    using t by (intro unat_len) simp
  have w: "(word_of_nat (length t) :: 64 word) \<noteq> 0"
    using t u by (auto simp flip: unat_eq_0)
  have b: "b = ''type:symlink'' @ [c_nl] @ ''target:'' @ emit_u64_be (word_of_nat (length t)) @ t"
    using assms(2) t by (simp add: path_max_def Let_def)
  have "parse_symlink (''target:'' @ emit_u64_be (word_of_nat (length t)) @ t @ r) Vacant =
      Done r (Holds (Symlink t))" for r
    unfolding parse_symlink_def
    using t u w by (simp add: codec_simps path_max_def Let_def del: append_Cons)
  note body = this
  show ?thesis
    unfolding reads_back_def
  proof (intro allI impI)
    fix k r
    assume "length b \<le> k"
    with b obtain k' where "k = Suc k'" by (cases k) auto
    then show "parse_node k pl (b @ r) Vacant = Done r (Holds (canon (Symlink t)))"
      unfolding b using parse_node_symlink [of k' pl _ Vacant] body [of r]
      by (simp del: append_Cons)
  qed
qed


definition entries_read_back :: "nat \<Rightarrow> (string \<times> fs_node) list \<Rightarrow> bytes \<Rightarrow> bool" where
  "entries_read_back pl es b \<longleftrightarrow>
     (\<forall>k r fs. distinct (map fst (fs @ es)) \<longrightarrow> length b < k \<longrightarrow>
        parse_entries k pl (b @ ''end'' @ [c_nl] @ r) (Holds (Directory fs)) =
          Done r (Holds (Directory (fs @ map (\<lambda>e. (fst e, canon (snd e))) es))))"

definition wf_entries :: "(string \<times> fs_node) list \<Rightarrow> bool" where
  "wf_entries es \<longleftrightarrow> distinct (map fst es) \<and> (\<forall>e \<in> set es. legal_name (fst e) \<and> wf_node (snd e))"

lemma entries_read_back_Nil: "entries_read_back pl [] []"
  unfolding entries_read_back_def
proof (intro allI impI)
  fix k r fs
  assume "length ([] :: bytes) < k"
  then obtain k' where "k = Suc k'" by (cases k) auto
  then show "parse_entries k pl ([] @ ''end'' @ [c_nl] @ r) (Holds (Directory fs)) =
      Done r (Holds (Directory (fs @ map (\<lambda>e. (fst e, canon (snd e))) [])))"
    using parse_entries_end [of k'] by (simp del: append_Cons)
qed

lemma fresh_name:
  "distinct (map fst (fs @ (name, t) # es)) \<Longrightarrow> map_of fs name = None"
  by (auto simp: map_of_eq_None_iff)

lemma update_fresh: "map_of fs name = None \<Longrightarrow> AList.update name n fs = fs @ [(name, n)]"
  by (induction fs) (auto split: if_splits)

lemma entries_read_back_Cons:
  assumes "legal_name name" and "pl + 1 + length name < path_max"
    and "reads_back (pl + 1 + length name) t b" and "entries_read_back pl es bs"
  shows "entries_read_back pl ((name, t) # es) (''entry'' @ [c_nl] @ ''name:''
      @ emit_u64_be (word_of_nat (length name)) @ name @ b @ bs)"
    (is "entries_read_back _ _ ?b")
  unfolding entries_read_back_def
proof (intro allI impI)
  fix k r fs
  assume d: "distinct (map fst (fs @ (name, t) # es))" and len: "length ?b < k"
  then obtain k' where k: "k = Suc k'" by (cases k) auto
  let ?rest = "bs @ ''end'' @ [c_nl] @ r"
  have n: "name \<noteq> []" using assms(1) by (simp add: legal_name_def)
  have child: "parse_node k' (pl + 1 + length name) (b @ ?rest) Vacant = Done ?rest (Holds (canon t))"
    using assms(3) len k by (simp add: reads_back_def)
  have slot: "child_slot (Holds (Directory fs)) name = Vacant"
    using fresh_name [OF d] n by simp
  have put: "put_child (Holds (Directory fs)) name (Holds (canon t)) =
      Holds (Directory (fs @ [(name, canon t)]))"
    using update_fresh [OF fresh_name [OF d]] by simp
  have "distinct (map fst ((fs @ [(name, canon t)]) @ es))" using d by simp
  then have tail: "parse_entries k' pl ?rest (Holds (Directory (fs @ [(name, canon t)]))) =
      Done r (Holds (Directory ((fs @ [(name, canon t)]) @ map (\<lambda>e. (fst e, canon (snd e))) es)))"
    using assms(4) len k unfolding entries_read_back_def by (simp del: append_Cons)
  have "parse_entries k pl (?b @ ''end'' @ [c_nl] @ r) (Holds (Directory fs)) =
      parse_entries (Suc k') pl (''entry'' @ [c_nl] @ ''name:''
        @ emit_u64_be (word_of_nat (length name)) @ name @ (b @ ?rest)) (Holds (Directory fs))"
    by (simp add: k)
  also have "\<dots> = Done r (Holds (Directory (fs @ map (\<lambda>e. (fst e, canon (snd e))) ((name, t) # es))))"
    unfolding parse_entries_entry [OF assms(1,2)] slot child outcome.case put tail by simp
  finally show "parse_entries k pl (?b @ ''end'' @ [c_nl] @ r) (Holds (Directory fs)) =
      Done r (Holds (Directory (fs @ map (\<lambda>e. (fst e, canon (snd e))) ((name, t) # es))))" .
qed

lemma directory_reads_back_into:
  assumes "entries_read_back pl (sort_key fst es) b" and "distinct (map fst es)"
    and "fs_mkdir sl = Ok (Holds (Directory []))"
  shows "\<forall>k r. length (''type:directory'' @ [c_nl] @ b @ ''end'' @ [c_nl]) \<le> k \<longrightarrow>
      parse_node k pl ((''type:directory'' @ [c_nl] @ b @ ''end'' @ [c_nl]) @ r) sl =
        Done r (Holds (canon (Directory es)))"
proof (intro allI impI)
  fix k r
  assume len: "length (''type:directory'' @ [c_nl] @ b @ ''end'' @ [c_nl]) \<le> k"
  then obtain k' where k: "k = Suc k'" by (cases k) auto
  have "distinct (map fst ([] @ sort_key fst es))"
    using assms(2) by (simp add: distinct_map)
  then have "parse_entries k' pl (b @ ''end'' @ [c_nl] @ r) (Holds (Directory [])) =
      Done r (Holds (canon (Directory es)))"
    using assms(1) len k
    unfolding entries_read_back_def canon.simps sort_key_map by (simp del: append_Cons)
  then show "parse_node k pl ((''type:directory'' @ [c_nl] @ b @ ''end'' @ [c_nl]) @ r) sl =
      Done r (Holds (canon (Directory es)))"
    unfolding k append_assoc parse_node_directory assms(3) by simp
qed

lemma wf_entries_sort: "wf_entries es \<Longrightarrow> wf_entries (sort_key fst es)"
  by (simp add: wf_entries_def distinct_map)

lemma wf_Directory: "wf_node (Directory es) \<longleftrightarrow> wf_entries es"
  by (simp add: wf_entries_def)

lemma dump_reads_back:
  "wf_node t \<Longrightarrow> dump_node pl t = Some b \<Longrightarrow> reads_back pl t b"
  "wf_entries es \<Longrightarrow> dump_entries pl es = Some bs \<Longrightarrow> entries_read_back pl es bs"
proof (induction pl t and pl es arbitrary: b and bs rule: dump_node_dump_entries.induct)
  case (1 pl x c)
  then show ?case by (intro regular_reads_back) auto
next
  case (2 pl t)
  then show ?case by (intro symlink_reads_back) auto
next
  case (3 pl es)
  then obtain e where e: "dump_entries pl (sort_key fst es) = Some e"
    and b: "b = ''type:directory'' @ [c_nl] @ e @ ''end'' @ [c_nl]"
    by (auto split: option.splits)
  have "wf_entries es" using "3.prems" by (simp only: wf_Directory)
  then have "entries_read_back pl (sort_key fst es) e" "distinct (map fst es)"
    using "3.IH" e wf_entries_sort by (auto simp: wf_entries_def)
  then show ?case
    unfolding reads_back_def b by (rule directory_reads_back_into) simp
next
  case (4 pl)
  then show ?case by simp
next
  case (5 pl)
  then show ?case by (simp add: entries_read_back_Nil)
next
  case (6 pl name t es)
  then have wf: "legal_name name" "wf_node t" "wf_entries es" by (auto simp: wf_entries_def)
  then have nd: "\<not> (name = ''.'' \<or> name = ''..'')" by (simp add: legal_name_def)
  with "6.prems" obtain b e where pl: "\<not> pl + 1 + length name \<ge> path_max"
    and b: "dump_node (pl + 1 + length name) t = Some b" and e: "dump_entries pl es = Some e"
    and bs: "bs = ''entry'' @ [c_nl] @ ''name:'' @ emit_u64_be (word_of_nat (length name))
      @ name @ b @ e"
    unfolding dump_entries.simps if_not_P [OF nd] by (auto split: option.splits if_splits)
  show ?case
    unfolding bs
  proof (rule entries_read_back_Cons [OF wf(1)])
    show "pl + 1 + length name < path_max" using pl by simp
    show "reads_back (pl + 1 + length name) t b" by (rule "6.IH"(2) [OF nd pl wf(2) b])
    show "entries_read_back pl es e" by (rule "6.IH"(3) [OF nd pl b wf(3) e])
  qed
qed

subsection \<open>Whatever the stream, the tree stays well formed\<close>


fun wf_slot :: "slot \<Rightarrow> bool" where
  "wf_slot (Holds n) = wf_node n"
| "wf_slot (Slash n) = wf_node n"
| "wf_slot sl = True"

fun is_slash :: "slot \<Rightarrow> bool" where
  "is_slash (Slash n) = True"
| "is_slash sl = False"

text \<open>What one step of the reader guarantees, whatever bytes it is given.\<close>

fun keeps :: "nat \<Rightarrow> slot \<Rightarrow> outcome \<Rightarrow> bool" where
  "keeps n sl (Done r sl') = (length r \<le> n \<and> wf_slot sl' \<and> is_slash sl' = is_slash sl)"
| "keeps n sl (Fail sl') = (wf_slot sl' \<and> is_slash sl' = is_slash sl)"
| "keeps n sl Outside = True"
| "keeps n sl Out_of_fuel = False"

lemma keeps_mono: "keeps m sl out \<Longrightarrow> m \<le> n \<Longrightarrow> keeps n sl out"
  by (cases out) auto

lemma read_exact_length: "read_exact n s = Some (a, r) \<Longrightarrow> length s = n + length r \<and> length a = n"
  by (auto simp: read_exact_def split: if_splits)

lemma read_u64_length: "read_u64_be s = Some (a, r) \<Longrightarrow> length r \<le> length s"
  by (auto simp: read_u64_be_def split: option.splits dest: read_exact_length)

lemma read_line_length: "read_line s = Some (a, r) \<Longrightarrow> length r < length s"
  by (auto simp: read_line_def split: if_splits option.splits simp: split_first_Some)

lemma expect_token_length: "expect_token t s = Some r \<Longrightarrow> length r \<le> length s"
  by (auto simp: expect_token_def split: option.splits if_splits dest: read_exact_length)

lemma try_consume_length: "try_consume t s = Some (x, r) \<Longrightarrow> length r \<le> length s"
  by (auto simp: try_consume_def split: option.splits if_splits dest: read_exact_length)

lemma copy_contents_length:
  "copy_contents n s [] = Some (c, r) \<Longrightarrow> length s = length c + length r"
  by (auto simp: copy_contents_spec dest: read_exact_length)

lemmas reader_lengths = read_exact_length read_u64_length read_line_length expect_token_length
  try_consume_length copy_contents_length

lemma fs_write_wf:
  "fs_write c sl = Ok sl' \<Longrightarrow> length c < 2 ^ 63 \<Longrightarrow>
     (\<exists>x. sl' = Holds (Regular x c)) \<and> \<not> is_slash sl"
  "fs_write c sl = Err sl' \<Longrightarrow> sl' = sl"
  by (induction c sl rule: fs_write.induct) auto

lemma fs_symlink_wf:
  assumes "fs_symlink (c_str t) sl = Ok sl' \<or> fs_symlink (c_str t) sl = Err sl'"
    and "length t < 4096" and "wf_slot sl"
  shows "wf_slot sl' \<and> is_slash sl' = is_slash sl"
proof -
  have l: "length (c_str t) < 4096" using length_c_str_le [of t] assms(2) by simp
  show ?thesis
  proof (cases sl)
    case (Holds n)
    with assms l show ?thesis by (cases n) (auto simp: Let_def split: if_splits)
  qed (use assms l in \<open>auto simp: Let_def split: if_splits\<close>)
qed

lemma fs_symlink_reads:
  assumes "length t = n" and "\<not> 4096 \<le> n" and "wf_slot sl"
  shows "fs_symlink (c_str t) sl = Ok sl' \<Longrightarrow> wf_slot sl' \<and> is_slash sl' = is_slash sl"
    and "fs_symlink (c_str t) sl = Err sl' \<Longrightarrow> wf_slot sl' \<and> is_slash sl' = is_slash sl"
  using assms fs_symlink_wf [of t sl sl'] by auto

lemma fs_mkdir_wf:
  "fs_mkdir sl = Ok sl' \<or> fs_mkdir sl = Err sl' \<Longrightarrow> wf_slot sl \<Longrightarrow>
     wf_slot sl' \<and> is_slash sl' = is_slash sl"
  by (cases sl) auto

lemma parse_regular_keeps:
  assumes "length s < 2 ^ 63" and "wf_slot sl"
  shows "keeps (length s) sl (parse_regular s sl)"
proof (cases "fs_write [] sl")
  case (Ok sl')
  then have h: "\<exists>x. sl' = Holds (Regular x [])" "\<not> is_slash sl" by (auto dest: fs_write_wf(1))
  then obtain x where sl': "sl' = Holds (Regular x [])" by blast
  show ?thesis
    unfolding parse_regular_def Ok syscall.case sl'
    using assms h(2)
    by (auto split: option.split dest!: reader_lengths)
next
  case (Err sl')
  then have "sl' = sl" by (rule fs_write_wf(2))
  with Err assms show ?thesis
    unfolding parse_regular_def by (auto split: option.split)
next
  case Away
  with assms show ?thesis
    unfolding parse_regular_def by (auto split: option.split)
qed

lemma parse_symlink_keeps:
  assumes "wf_slot sl"
  shows "keeps (length s) sl (parse_symlink s sl)"
  unfolding parse_symlink_def
  using assms
  by (auto split: option.split syscall.split simp: path_max_def dest!: reader_lengths
      dest: fs_symlink_reads)

lemma parse_entry_name_SomeD:
  assumes "parse_entry_name pl s = Some (name, r)"
  shows "length r \<le> length s \<and> (name = [] \<or> legal_name name) \<and> pl + 1 + length name < path_max"
proof -
  obtain s1 nlen s2 raw where r: "expect_token ''name:'' s = Some s1" "read_u64_be s1 = Some (nlen, s2)"
    "nlen < 256" "read_exact (unat nlen) s2 = Some (raw, r)" and n: "name = c_str raw"
    "CHR ''/'' \<notin> set name" "name \<noteq> ''..''" "name \<noteq> ''.''" "pl + 1 + length name < path_max"
    using assms unfolding parse_entry_name_def Let_def
    by (auto split: option.splits if_splits simp: not_le)
  have "length raw < 256"
    using r(3) read_exact_length [OF r(4)] by (simp add: word_less_nat_alt)
  then have "length name < 256" using length_c_str_le [of raw] n(1) by simp
  with n have "name = [] \<or> legal_name name" by (auto simp: legal_name_def)
  with r n(5) show ?thesis by (auto dest!: reader_lengths)
qed

lemma child_of_wf: "wf_node n \<Longrightarrow> wf_slot (child_of n name)"
  by (cases n) (auto split: option.split dest: map_of_SomeD)

lemma child_slot_wf:
  "wf_slot sl \<Longrightarrow> wf_slot (child_slot sl name)"
  by (cases sl) (simp_all add: child_of_wf)

lemma child_of_not_slash: "\<not> is_slash (child_of n name)"
  by (cases n) (auto split: option.split)

lemma child_slot_slash: "is_slash (child_slot sl name) \<Longrightarrow> name = []"
  by (cases sl) (auto simp: child_of_not_slash split: if_splits)

lemma set_update_subset: "set (AList.update k v es) \<subseteq> insert (k, v) (set es)"
  by (induction es) auto

lemma update_wf:
  "wf_entries es \<Longrightarrow> legal_name name \<Longrightarrow> wf_node n \<Longrightarrow> wf_entries (AList.update name n es)"
  unfolding wf_entries_def
  using set_update_subset [of name n es] by (auto intro: AList.distinct_update)

lemma delete_wf: "wf_entries es \<Longrightarrow> wf_entries (AList.delete name es)"
  unfolding wf_entries_def
  by (auto intro: AList.distinct_delete) (auto simp: AList.delete_eq)

lemma put_entry_wf:
  "wf_node d \<Longrightarrow> wf_slot c \<Longrightarrow> legal_name name \<or> is_slash c \<or> \<not> (\<exists>n. c = Holds n) \<Longrightarrow>
     wf_node (put_entry d name c)"
  by (cases d; cases c) (auto simp only: put_entry.simps wf_Directory wf_slot.simps is_slash.simps
      update_wf delete_wf)

lemma put_child_keeps:
  assumes "wf_slot sl" and "wf_slot c" and "is_slash c = is_slash (child_slot sl name)"
    and "name = [] \<or> legal_name name"
  shows "wf_slot (put_child sl name c) \<and> is_slash (put_child sl name c) = is_slash sl"
proof (cases sl)
  case (Holds d)
  then have "legal_name name \<or> is_slash c" using assms(3,4) by auto
  with Holds assms(1,2) show ?thesis by (auto intro!: put_entry_wf)
next
  case (Slash d)
  then have "legal_name name \<or> is_slash c" using assms(3,4) by auto
  with Slash assms(1,2) show ?thesis by (auto intro!: put_entry_wf)
qed simp_all

lemma parse_keeps:
  "length s < k \<Longrightarrow> length s < 2 ^ 63 \<Longrightarrow> wf_slot sl \<Longrightarrow>
     keeps (length s) sl (parse_node k pl s sl)"
  "length s < k \<Longrightarrow> length s < 2 ^ 63 \<Longrightarrow> wf_slot sl \<Longrightarrow>
     keeps (length s) sl (parse_entries k pl s sl)"
proof (induction k pl s sl and k pl s sl rule: parse_node_parse_entries.induct)
  case (1 pl s sl)
  then show ?case by simp
next
  case (2 k pl s sl)
  show ?case
  proof (cases "read_line s")
    case None
    with 2 show ?thesis by (simp add: parse_node.simps)
  next
    case (Some p)
    then obtain line s1 where p: "read_line s = Some (line, s1)" by (cases p) auto
    have len: "length s1 < length s" using p by (rule read_line_length)
    have "keeps (length s1) sl (parse_regular s1 sl)" "keeps (length s1) sl (parse_symlink s1 sl)"
      using 2 len by (auto intro!: parse_regular_keeps parse_symlink_keeps)
    moreover have "keeps (length s1) sl (case fs_mkdir sl of
               Ok sl' \<Rightarrow> parse_entries k pl s1 sl'
             | Err sl' \<Rightarrow> Fail sl' | Away \<Rightarrow> Outside)" if "c_str line = ''type:directory''"
    proof (cases "fs_mkdir sl")
      case (Ok sl')
      then have w: "wf_slot sl'" "is_slash sl' = is_slash sl" using fs_mkdir_wf "2.prems" by auto
      have "keeps (length s1) sl' (parse_entries k pl s1 sl')"
        using "2.prems" len w(1) that Ok by (intro "2.IH" [OF p refl refl]) auto
      with w(2) Ok show ?thesis by (cases "parse_entries k pl s1 sl'") auto
    qed (use fs_mkdir_wf [of sl] "2.prems" in auto)
    ultimately show ?thesis
      using len 2 unfolding parse_node.simps p option.case prod.case Let_def
      by (auto intro: keeps_mono [where m = "length s1"])
  qed
next
  case (3 pl s sl)
  then show ?case by simp
next
  case (4 k pl s sl)
  show ?case
  proof (cases "\<exists>line s1 name s2. read_line s = Some (line, s1) \<and> c_str line = ''entry''
      \<and> parse_entry_name pl s1 = Some (name, s2)")
    case False
    with "4.prems" show ?thesis
      unfolding parse_entries.simps Let_def
      by (auto split: option.split dest: read_line_length)
  next
    case True
    then obtain line s1 name s2 where p: "read_line s = Some (line, s1)" "c_str line = ''entry''"
      and q: "parse_entry_name pl s1 = Some (name, s2)" by blast
    let ?pl = "pl + 1 + length name" and ?c = "child_slot sl name"
    have len: "length s2 < length s" and nm: "name = [] \<or> legal_name name"
      using read_line_length [OF p(1)] parse_entry_name_SomeD [OF q] by auto
    have c: "keeps (length s2) ?c (parse_node k ?pl s2 ?c)"
      using "4.prems" len p(2) q by (intro "4.IH"(1) [OF p(1) refl refl]) (auto intro: child_slot_wf)
    have put: "wf_slot (put_child sl name c') \<and> is_slash (put_child sl name c') = is_slash sl"
      if "wf_slot c'" "is_slash c' = is_slash ?c" for c'
      using put_child_keeps "4.prems"(3) that nm by blast
    show ?thesis
    proof (cases "parse_node k ?pl s2 ?c")
      case (Done s3 c')
      have "keeps (length s3) (put_child sl name c') (parse_entries k pl s3 (put_child sl name c'))"
        using "4.prems" len p(2) q c Done put [of c'] by (intro "4.IH"(2) [OF p(1) refl refl]) auto
      then have "keeps (length s) sl (parse_entries k pl s3 (put_child sl name c'))"
        using c Done len put [of c']
        by (cases "parse_entries k pl s3 (put_child sl name c')") auto
      then show ?thesis
        using p q Done unfolding parse_entries.simps Let_def by simp
    qed (use c p q put in \<open>auto simp: parse_entries.simps Let_def\<close>)
  qed
qed

subsection \<open>Digests in hexadecimal\<close>


lemma nth_inj_word:
  fixes x y :: "'a::len word"
  assumes "distinct xs" and "xs ! unat x = xs ! unat y" and "unat x < length xs" and "unat y < length xs"
  shows "x = y"
  using assms by (simp add: nth_eq_iff_index_eq word_unat_eq_iff)

lemma nibble_hi: "unat (drop_bit 4 (d :: 8 word)) < 16"
proof -
  have "unat d < 256" using unsigned_less [of d] by simp
  then show ?thesis by (simp add: drop_bit_eq_div unat_div)
qed

lemma nibble_lo: "unat (and d (0x0f :: 8 word)) < 16"
proof -
  have "and d (0x0f :: 8 word) \<le> 0x0f" by (rule word_and_le1)
  then show ?thesis by (simp add: word_le_nat_alt)
qed

lemma nibbles: "(d :: 8 word) = or (push_bit 4 (drop_bit 4 d)) (and d 0x0f)"
proof (rule bit_word_eqI)
  fix i assume i: "i < LENGTH(8)"
  have m: "(0x0f :: 8 word) = mask 4" by (simp add: mask_eq_exp_minus_1)
  have "4 + (i - 4) = i" if "\<not> i < 4" using that by simp
  with i show "bit d i = bit (or (push_bit 4 (drop_bit 4 d)) (and d 0x0f)) i"
    unfolding m by (cases "i < 4") (auto simp: bit_simps bit_mask_iff)
qed

lemma hex_byte_inj:
  assumes "hex_digit (drop_bit 4 d) = hex_digit (drop_bit 4 e)"
    and "hex_digit (and d 0x0f) = hex_digit (and e 0x0f)"
  shows "d = e"
proof -
  have l: "length ''0123456789abcdef'' = 16" by simp
  have "drop_bit 4 d = drop_bit 4 e" "and d 0x0f = and e 0x0f"
    using assms nibble_hi nibble_lo unfolding hex_digit_def
    by (auto intro!: nth_inj_word [of "''0123456789abcdef''", unfolded l])
  then show ?thesis using nibbles [of d] nibbles [of e] by simp
qed

lemma hex_encode_inj: "hex_encode a = hex_encode b \<longleftrightarrow> a = b"
proof
  assume "hex_encode a = hex_encode b"
  then show "a = b"
  proof (induction a arbitrary: b)
    case Nil
    then show ?case by (cases b) (simp_all add: hex_encode_def)
  next
    case (Cons d a)
    then show ?case by (cases b) (auto simp: hex_encode_def dest: hex_byte_inj)
  qed
qed simp

subsection \<open>The 32 characters of a store path\<close>

lemma quint_less: "unat (and n (0x1f :: 64 word)) < 32"
proof -
  have "and n (0x1f :: 64 word) \<le> 0x1f" by (rule word_and_le1)
  then show ?thesis by (simp add: word_le_nat_alt)
qed

lemma base32_distinct: "distinct base32" and base32_length: "length base32 = 32"
  by (simp_all add: base32_def)

lemma base32_chars_shape: "length (base32_chars k n) = k" "set (base32_chars k n) \<subseteq> set base32"
  by (induction k n rule: base32_chars.induct) (auto simp: base32_length quint_less)

lemma base32_char_inj:
  "base32 ! unat (and n 0x1f) = base32 ! unat (and m (0x1f :: 64 word)) \<longleftrightarrow> and n 0x1f = and m 0x1f"
  using nth_inj_word [OF base32_distinct, of "and n 0x1f" "and m 0x1f"]
  by (auto simp: base32_length quint_less)

lemma base32_chars_inj:
  "base32_chars k n = base32_chars k m \<longleftrightarrow> take_bit (5 * k) n = take_bit (5 * k) m"
proof (induction k arbitrary: n m)
  case (Suc k)
  have m: "(0x1f :: 64 word) = mask 5" by (simp add: mask_eq_exp_minus_1)
  have "base32_chars (Suc k) n = base32_chars (Suc k) m \<longleftrightarrow>
      take_bit 5 n = take_bit 5 m \<and> take_bit (5 * k) (drop_bit 5 n) = take_bit (5 * k) (drop_bit 5 m)"
    by (simp add: base32_char_inj Suc.IH) (simp add: m take_bit_eq_mask)
  also have "\<dots> \<longleftrightarrow> take_bit (5 * Suc k) n = take_bit (5 * Suc k) m" (is "?A \<longleftrightarrow> ?B")
  proof
    assume A: ?A
    show ?B
    proof (rule bit_word_eqI)
      fix i assume "i < LENGTH(64)"
      have lo: "i < 5 \<Longrightarrow> bit n i = bit m i"
        using arg_cong [where f = "\<lambda>w. bit w i", OF conjunct1 [OF A]] by (simp add: bit_simps)
      have hi: "bit n i = bit m i" if "5 \<le> i" "i < 5 * Suc k"
        using arg_cong [where f = "\<lambda>w. bit w (i - 5)", OF conjunct2 [OF A]] that
        by (simp add: bit_simps less_diff_conv2)
      show "bit (take_bit (5 * Suc k) n) i = bit (take_bit (5 * Suc k) m) i"
        using lo hi by (cases "i < 5") (auto simp: bit_simps)
    qed
  next
    assume B: ?B
    have "bit n i = bit m i" if "i < 5 * Suc k" for i
      using arg_cong [where f = "\<lambda>w. bit w i", OF B] that by (simp add: bit_simps)
    then show ?A by (auto intro!: bit_word_eqI simp: bit_simps)
  qed
  finally show ?case .
qed simp

lemma byte_bit:
  "bit (push_bit k (ucast (w :: 8 word)) :: 64 word) i \<longleftrightarrow>
     k \<le> i \<and> i < k + 8 \<and> i < 64 \<and> bit w (i - k)"
  using bit_imp_le_length [of w "i - k"] by (auto simp: bit_simps)

lemma bit_foldl_or:
  "bit (foldl (\<lambda>n b. or n (f b)) a bs) i \<longleftrightarrow> bit (a :: 64 word) i \<or> (\<exists>b \<in> set bs. bit (f b) i)"
  by (induction bs arbitrary: a) (auto simp: bit_or_iff)

lemma base32_group_bit:
  assumes "b < 5" and "j < 8"
  shows "bit (base32_group d) (8 * b + j) = bit (d ! b) j"
proof -
  have uniq: "8 * b' \<le> 8 * b + j \<Longrightarrow> 8 * b + j < 8 * b' + 8 \<Longrightarrow> b' = b" for b'
    using assms(2) by linarith
  show ?thesis
    using assms unfolding base32_group_def bit_foldl_or byte_bit
    by (auto dest: uniq intro!: bexI [of _ b])
qed

lemma base32_group_inj:
  assumes "take_bit 40 (base32_group d) = take_bit 40 (base32_group e)" and "b < 5"
  shows "d ! b = e ! b"
proof (rule bit_word_eqI)
  fix j assume "j < LENGTH(8)"
  then have j: "j < 8" by simp
  with assms(2) have "8 * b + j < 40" by simp
  then have "bit (base32_group d) (8 * b + j) = bit (base32_group e) (8 * b + j)"
    using arg_cong [where f = "\<lambda>w. bit w (8 * b + j)", OF assms(1)] by (simp add: bit_simps)
  then show "bit (d ! b) j = bit (e ! b) j" by (simp add: base32_group_bit assms(2) j)
qed

lemma hash32_shape: "length (hash32 d) = 32" "set (hash32 d) \<subseteq> set base32"
  using base32_chars_shape(2) by (auto simp: hash32_def upt_rec base32_chars_shape(1))

lemma hash32_inj:
  assumes "20 \<le> length d" and "20 \<le> length e"
  shows "hash32 d = hash32 e \<longleftrightarrow> take 20 d = take 20 e"
proof
  assume "hash32 d = hash32 e"
  then have g: "base32_chars 8 (base32_group (drop (5 * g) d)) = base32_chars 8 (base32_group (drop (5 * g) e))"
    if "g < 4" for g
  proof -
    have "g \<in> {0, 1, 2, 3}" using that by auto
    with \<open>hash32 d = hash32 e\<close> show ?thesis
      by (auto simp: hash32_def upt_rec base32_chars_shape(1))
  qed
  have "d ! i = e ! i" if "i < 20" for i
  proof -
    have "i div 5 < 4" "i mod 5 < 5" "i = 5 * (i div 5) + i mod 5" using that by auto
    then have "drop (5 * (i div 5)) d ! (i mod 5) = drop (5 * (i div 5)) e ! (i mod 5)"
      using g [of "i div 5"] by (intro base32_group_inj) (simp_all add: base32_chars_inj)
    then show ?thesis using that assms by (simp add: nth_drop)
  qed
  then show "take 20 d = take 20 e" using assms by (simp add: list_eq_iff_nth_eq)
next
  assume t: "take 20 d = take 20 e"
  have "base32_group (drop (5 * g) d) = base32_group (drop (5 * g) e)" if "g < 4" for g
  proof -
    have "d ! i = e ! i" if "i < 20" for i using t that by (metis nth_take)
    then have "drop (5 * g) d ! b = drop (5 * g) e ! b" if "b < 5" for b
      using that \<open>g < 4\<close> assms by (simp add: nth_drop)
    then show ?thesis unfolding base32_group_def by (simp add: upt_rec)
  qed
  then show "hash32 d = hash32 e"
    unfolding hash32_def by (intro arg_cong [where f = concat] map_cong) simp_all
qed

subsection \<open>Properties\<close>


lemma dump_shorter_path:
  "dump_node pl t = Some b \<Longrightarrow> pl' \<le> pl \<Longrightarrow> dump_node pl' t = Some b"
  "dump_entries pl es = Some bs \<Longrightarrow> pl' \<le> pl \<Longrightarrow> dump_entries pl' es = Some bs"
proof (induction pl t and pl es arbitrary: b pl' and bs pl' rule: dump_node_dump_entries.induct)
  case (3 pl es)
  obtain e where e: "dump_entries pl (sort_key fst es) = Some e"
    using "3.prems"(1) by (auto split: option.splits)
  with "3.IH" "3.prems" have "dump_entries pl' (sort_key fst es) = Some e" by blast
  with e "3.prems"(1) show ?case by simp
next
  case (6 pl name t es)
  show ?case
  proof (cases "name = ''.'' \<or> name = ''..''")
    case True
    then have "dump_entries pl es = Some bs" using "6.prems"(1) by auto
    then have "dump_entries pl' es = Some bs" using "6.IH"(1) True "6.prems"(2) by blast
    with True show ?thesis by auto
  next
    case False
    then obtain b e where pl: "\<not> pl + 1 + length name \<ge> path_max"
      and b: "dump_node (pl + 1 + length name) t = Some b" and e: "dump_entries pl es = Some e"
      using "6.prems"(1) unfolding dump_entries.simps if_not_P [OF False]
      by (auto split: option.splits if_splits)
    have "dump_node (pl' + 1 + length name) t = Some b"
      using "6.IH"(2) [OF False pl b] "6.prems"(2) by simp
    moreover have "dump_entries pl' es = Some e"
      using "6.IH"(3) [OF False pl b e] "6.prems"(2) by simp
    ultimately show ?thesis
      using "6.prems" pl b e unfolding dump_entries.simps if_not_P [OF False] by simp
  qed
qed auto

lemma dump_entries_cong:
  "(\<And>e pl. e \<in> set es \<Longrightarrow> dump_node pl (f (snd e)) = dump_node pl (snd e)) \<Longrightarrow>
     dump_entries pl (map (\<lambda>e. (fst e, f (snd e))) es) = dump_entries pl es"
  by (induction es) (auto split: option.split)

lemma sort_key_idem [simp]: "sort_key k (sort_key k xs) = sort_key k xs"
  by (rule sort_key_id_if_sorted) simp

lemma dump_canon: "dump_node pl (canon t) = dump_node pl t"
proof (induction t arbitrary: pl rule: canon.induct)
  case (1 es)
  have "dump_entries pl (map (\<lambda>e. (fst e, canon (snd e))) (sort_key fst es)) =
      dump_entries pl (sort_key fst es)"
    by (rule dump_entries_cong) (simp add: 1)
  then show ?case unfolding canon.simps dump_node.simps sort_key_idem sort_key_map by simp
qed simp_all

lemma nar_extract_dump:
  assumes "wf_node t" and "nar_dump path t = Some s" and "length dest \<le> length path"
  shows "nar_extract (s @ r) dest Vacant = Done r (Holds (canon t))"
proof -
  obtain b where b: "dump_node (length path) t = Some b" and s: "s = ''nix-archive-1'' @ [c_nl] @ b"
    using assms(2) by (auto simp: nar_dump_def)
  have "reads_back (length dest) t b"
    using dump_reads_back(1) [OF assms(1)] dump_shorter_path(1) [OF b assms(3)] by blast
  then show ?thesis
    unfolding s nar_extract_def append_assoc
    by (subst read_line_nl') (simp_all add: reads_back_def)
qed

text \<open>The archive as a codec: the tree up to the order of directory entries.\<close>

definition nar_load :: "string \<Rightarrow> bytes \<Rightarrow> fs_node option" where
  "nar_load dest s = (case nar_extract s dest Vacant of Done [] (Holds n) \<Rightarrow> Some n | _ \<Rightarrow> None)"

interpretation nar: codec "\<lambda>t. wf_node t \<and> nar_dump path t \<noteq> None"
    "\<lambda>t. the (nar_dump path t)" "nar_load path" canon for path
proof unfold_locales
  fix t assume "wf_node t \<and> nar_dump path t \<noteq> None"
  then have "wf_node t" "nar_dump path t = Some (the (nar_dump path t))" by auto
  then have "nar_extract (the (nar_dump path t) @ []) path Vacant = Done [] (Holds (canon t))"
    by (rule nar_extract_dump) simp
  then show "nar_load path (the (nar_dump path t)) = Some (canon t)"
    by (simp add: nar_load_def)
qed

lemma dump_determined: "canon t = canon u \<Longrightarrow> nar_dump path t = nar_dump path u"
  using dump_canon [of _ t] dump_canon [of _ u] by (simp add: nar_dump_def)

text \<open>
  C1.  Round trip of the archive: a well-formed tree dumped under one path and extracted to
  a fresh destination whose path is no longer is recreated exactly, with its directories in
  name order, and the reader stops right after the archive.  An empty directory already at
  the destination, which is how the store calls it, changes nothing for a directory tree.
\<close>

theorem nar_roundtrip:
  assumes "wf_node t" and "nar_dump path t = Some s" and "length dest \<le> length path"
  shows "nar_extract (s @ r) dest Vacant = Done r (Holds (canon t)) \<and>
    (\<forall>es. t = Directory es \<longrightarrow>
       nar_extract (s @ r) dest (Holds (Directory [])) = Done r (Holds (canon t)))"
proof -
  have "nar_extract (s @ r) dest (Holds (Directory [])) = nar_extract (s @ r) dest Vacant"
    if dir: "t = Directory es" for es
  proof -
    obtain b where s: "s = ''nix-archive-1'' @ [c_nl] @ ''type:directory'' @ [c_nl] @ b"
      using assms(2) unfolding dir nar_dump_def by (auto split: option.splits)
    then show ?thesis
      unfolding s nar_extract_def append_assoc
      by (subst (1 2) read_line_nl') (simp_all add: parse_node_directory del: append_Cons)
  qed
  with nar_extract_dump [OF assms] show ?thesis by auto
qed

definition demo_tree :: fs_node where
  "demo_tree = Directory [(''lib'', Symlink ''usr/lib''),
     (''bin'', Directory [(''x'', Regular True ''#!'')]), (''empty'', Regular False [])]"

lemma wf_demo_tree: "wf_node demo_tree"
  by (simp add: demo_tree_def legal_name_def)

theorem nar_roundtrip_witness:
  "case nar_dump ''/nix/store/.tmp'' demo_tree of None \<Rightarrow> False
   | Some s \<Rightarrow> nar_extract s ''/tmp'' Vacant = Done [] (Holds (canon demo_tree))"
proof -
  have "nar_dump ''/nix/store/.tmp'' demo_tree \<noteq> None" by code_simp
  then obtain s where s: "nar_dump ''/nix/store/.tmp'' demo_tree = Some s" by auto
  with nar_roundtrip [OF wf_demo_tree s, of "''/tmp''" "[]"] show ?thesis by simp
qed


definition demo_sha256 :: "bytes \<Rightarrow> 8 word list" where
  "demo_sha256 s = replicate 32 (word_of_nat (length s))"






text \<open>
  The path guard is not enough: a stream with two entries of the same name, the first a
  symbolic link to \<open>/etc\<close>, the second a directory, makes the reader create files through the
  link, outside the destination, although the destination was an empty directory.
\<close>

definition entry_bytes :: "string \<Rightarrow> bytes \<Rightarrow> bytes" where
  "entry_bytes name b = ''entry'' @ [c_nl] @ ''name:'' @ emit_u64_be (word_of_nat (length name)) @ name @ b"

definition escape_stream :: bytes where
  "escape_stream = ''nix-archive-1'' @ [c_nl] @ ''type:directory'' @ [c_nl]
     @ entry_bytes ''a'' (''type:symlink'' @ [c_nl] @ ''target:'' @ emit_u64_be 4 @ ''/etc'')
     @ entry_bytes ''a'' (''type:directory'' @ [c_nl]
         @ entry_bytes ''passwd'' (''type:regular'' @ [c_nl] @ ''contents:'' @ emit_u64_be 1 @ ''x''))
     @ ''end'' @ [c_nl] @ ''end'' @ [c_nl]"

theorem nar_extract_escapes:
  "nar_extract escape_stream ''/nix/store/.tmp'' (Holds (Directory [])) = Outside"
  by code_simp

end
