(* ===== verification/Signing.thy ===== *)
theory Signing
  imports Two9_Prelude
begin

text \<open>
  \<open>src/store/signing.c\<close>: the fingerprint of a store path, the built-in base-64 codec, and
  signatures.  The Ed25519 primitives are the library's; they are parameters here.  The
  codec is the one compiled when libsodium is absent.
\<close>

subsection \<open>Fingerprints\<close>

fun join_space :: "string list \<Rightarrow> string" where
  "join_space [] = []"
| "join_space [r] = r"
| "join_space (r # rs) = r @ '' '' @ join_space rs"

text \<open>A NULL reference list is \<open>None\<close>.\<close>

definition signing_fingerprint ::
    "string \<Rightarrow> string \<Rightarrow> int \<Rightarrow> string list option \<Rightarrow> string" where
  "signing_fingerprint store_path nar_hash nar_size references =
     (let hash_field = (if take 7 nar_hash \<noteq> ''sha256:'' then ''sha256:'' @ nar_hash else nar_hash)
      in ''1;'' @ store_path @ '';'' @ hash_field @ '';'' @ dec_int_str nar_size @ '';''
           @ (case references of None \<Rightarrow> [] | Some rs \<Rightarrow> join_space rs))"

subsection \<open>Base 64\<close>

definition b64_alpha :: string where
  "b64_alpha = ''ABCDEFGHIJKLMNOPQRSTUVWXYZabcdefghijklmnopqrstuvwxyz0123456789+/''"

definition b64_char :: "32 word \<Rightarrow> nat \<Rightarrow> char" where
  "b64_char v k = b64_alpha ! unat (and (drop_bit k v) 0x3f)"

definition b64_join :: "8 word \<Rightarrow> 8 word \<Rightarrow> 8 word \<Rightarrow> 32 word" where
  "b64_join a b c = or (or (push_bit 16 (ucast a)) (push_bit 8 (ucast b))) (ucast c)"

text \<open>The main loop takes three bytes at a time; one or two left over are padded.\<close>

fun b64_encode :: "8 word list \<Rightarrow> string" where
  "b64_encode (a # b # c # rest) =
     (let v = b64_join a b c in
      [b64_char v 18, b64_char v 12, b64_char v 6, b64_char v 0] @ b64_encode rest)"
| "b64_encode [a, b] =
     (let v = b64_join a b 0 in [b64_char v 18, b64_char v 12, b64_char v 6, CHR ''=''])"
| "b64_encode [a] =
     (let v = b64_join a 0 0 in [b64_char v 18, b64_char v 12, CHR ''='', CHR ''=''])"
| "b64_encode [] = []"

definition b64_val :: "char \<Rightarrow> int" where
  "b64_val c =
     (if CHR ''A'' \<le> c \<and> c \<le> CHR ''Z'' then of_char c - of_char (CHR ''A'')
      else if CHR ''a'' \<le> c \<and> c \<le> CHR ''z'' then of_char c - of_char (CHR ''a'') + 26
      else if CHR ''0'' \<le> c \<and> c \<le> CHR ''9'' then of_char c - of_char (CHR ''0'') + 52
      else if c = CHR ''+'' then 62
      else if c = CHR ''/'' then 63
      else - 1)"

definition b64_skipped :: "char \<Rightarrow> bool" where
  "b64_skipped c \<longleftrightarrow> c = CHR ''='' \<or> c = CHR 0x0A \<or> c = CHR 0x0D \<or> c = CHR '' '' \<or> c = CHR 0x09"

text \<open>
  The decoding loop: the 32-bit accumulator, whose high bits fall off, the number of pending
  bits, and the bytes written, at most \<open>cap\<close> of them.
\<close>

fun b64_loop :: "nat \<Rightarrow> string \<Rightarrow> 32 word \<Rightarrow> nat \<Rightarrow> 8 word list \<Rightarrow> 8 word list option" where
  "b64_loop cap [] acc bits out = Some out"
| "b64_loop cap (c # s) acc bits out =
     (if b64_skipped c then b64_loop cap s acc bits out
      else let v = b64_val c in
        if v < 0 then None
        else let acc' = or (push_bit 6 acc) (word_of_int v); bits' = bits + 6 in
          if bits' \<ge> 8 then
            (if length out \<ge> cap then None
             else b64_loop cap s acc' (bits' - 8)
                    (out @ [ucast (and (drop_bit (bits' - 8) acc') 0xff)]))
          else b64_loop cap s acc' bits' out)"

definition b64_decode :: "string \<Rightarrow> nat \<Rightarrow> 8 word list option" where
  "b64_decode s cap = b64_loop cap s 0 0 []"

subsection \<open>Signatures\<close>

type_synonym key = "8 word list"

text \<open>
  \<open>sign\<close> is \<open>crypto_sign_detached\<close> under the key expanded from a seed, \<open>verify\<close> is
  \<open>crypto_sign_verify_detached\<close>, \<open>public\<close> the public half of a seed.
\<close>

definition signing_sign :: "(string \<Rightarrow> key \<Rightarrow> 8 word list) \<Rightarrow> string \<Rightarrow> key \<Rightarrow> string" where
  "signing_sign sign fingerprint seed = b64_encode (sign fingerprint seed)"

definition signing_verify_raw ::
    "(8 word list \<Rightarrow> string \<Rightarrow> key \<Rightarrow> bool) \<Rightarrow> string \<Rightarrow> 8 word list \<Rightarrow> key \<Rightarrow> int" where
  "signing_verify_raw verify fingerprint signature public_key =
     (if verify signature fingerprint public_key then 1 else 0)"

definition signing_verify ::
    "(8 word list \<Rightarrow> string \<Rightarrow> key \<Rightarrow> bool) \<Rightarrow> string \<Rightarrow> string \<Rightarrow> string \<Rightarrow> int" where
  "signing_verify verify fingerprint signature_b64 public_key_b64 =
     (case b64_decode signature_b64 64 of
        None \<Rightarrow> - 1
      | Some sig \<Rightarrow>
          if length sig \<noteq> 64 then - 1
          else case b64_decode public_key_b64 32 of
                 None \<Rightarrow> - 1
               | Some pub \<Rightarrow>
                   if length pub \<noteq> 32 then - 1
                   else signing_verify_raw verify fingerprint sig pub)"

text \<open>
  \<open>signing_load_keyfile\<close> on the contents of the file (\<open>None\<close>: it cannot be opened): the name,
  the public and the secret key.  \<open>fgets\<close> reads at most 1023 bytes of the first line.
\<close>

definition c_fgets :: "nat \<Rightarrow> bytes \<Rightarrow> string option" where
  "c_fgets n s =
     (if s = [] then None
      else Some (c_str (take (n - 1)
        (case split_first c_nl s of None \<Rightarrow> s | Some (a, b) \<Rightarrow> a @ [c_nl]))))"

definition strip_eol :: "string \<Rightarrow> string" where
  "strip_eol l = rev (dropWhile (\<lambda>c. c = c_nl \<or> c = CHR 0x0D) (rev l))"

definition decode_exact :: "string \<Rightarrow> nat \<Rightarrow> 8 word list option" where
  "decode_exact s n =
     (case b64_decode s n of None \<Rightarrow> None | Some k \<Rightarrow> if length k \<noteq> n then None else Some k)"

definition signing_load_keyfile ::
    "(key \<Rightarrow> key) \<Rightarrow> bytes option \<Rightarrow> (string \<times> key \<times> key) option" where
  "signing_load_keyfile public file =
     (case file of None \<Rightarrow> None | Some s \<Rightarrow>
     (case c_fgets 1024 s of None \<Rightarrow> None | Some raw \<Rightarrow>
     (case split_first (CHR '':'') (strip_eol raw) of None \<Rightarrow> None | Some (name, rest) \<Rightarrow>
     let (pub_b64, sec_b64) =
       (case split_first (CHR '':'') rest of
          Some (pub, sec) \<Rightarrow> (Some pub, sec) | None \<Rightarrow> (None, rest)) in
     (case decode_exact sec_b64 32 of None \<Rightarrow> None | Some sec \<Rightarrow>
     (case pub_b64 of
        None \<Rightarrow> Some (name, public sec, sec)
      | Some p \<Rightarrow>
          (case decode_exact p 32 of None \<Rightarrow> None | Some pub \<Rightarrow> Some (name, pub, sec)))))))"

subsection \<open>The codec\<close>

lemma b64_val_alpha: "i < 64 \<Longrightarrow> b64_val (b64_alpha ! i) = int i \<and> \<not> b64_skipped (b64_alpha ! i)"
proof -
  have "list_all (\<lambda>i. b64_val (b64_alpha ! i) = int i \<and> \<not> b64_skipped (b64_alpha ! i)) [0..<64]"
    by code_simp
  then show "i < 64 \<Longrightarrow> b64_val (b64_alpha ! i) = int i \<and> \<not> b64_skipped (b64_alpha ! i)"
    by (simp add: list_all_iff)
qed

lemma sextet_less: "unat (and v (0x3f :: 32 word)) < 64"
proof -
  have "and v (0x3f :: 32 word) \<le> 0x3f" by (rule word_and_le1)
  then show ?thesis by (simp add: word_le_nat_alt)
qed

lemma b64_char_val: "\<not> b64_skipped (b64_char v k)" "b64_val (b64_char v k) = uint (and (drop_bit k v) 0x3f)"
  using b64_val_alpha [OF sextet_less] by (simp_all add: b64_char_def)

lemma b64_loop_char:
  "b64_loop cap (b64_char v k # s) acc bits out =
     (let acc' = or (push_bit 6 acc) (and (drop_bit k v) 0x3f); bits' = bits + 6 in
          if bits' \<ge> 8 then
            (if length out \<ge> cap then None
             else b64_loop cap s acc' (bits' - 8)
                    (out @ [ucast (and (drop_bit (bits' - 8) acc') 0xff)]))
          else b64_loop cap s acc' bits' out)"
  by (simp add: b64_char_val Let_def)

lemma m3f: "(0x3f :: 32 word) = mask 6" and mff: "(0xff :: 32 word) = mask 8"
  by (simp_all add: mask_eq_exp_minus_1)

definition acc_after :: "32 word \<Rightarrow> 32 word \<Rightarrow> nat \<Rightarrow> 32 word" where
  "acc_after acc v k = or (push_bit 6 acc) (and (drop_bit k v) 0x3f)"

lemma bit_acc_after:
  "bit (acc_after acc v k) i \<longleftrightarrow> i < 32 \<and> (if i < 6 then bit v (i + k) else bit acc (i - 6))"
  unfolding acc_after_def m3f
  by (auto simp: bit_simps not_less add.commute)

lemma bit_b64_join:
  "bit (b64_join a b c) i \<longleftrightarrow>
     (if i < 8 then bit c i else if i < 16 then bit b (i - 8) else i < 24 \<and> bit a (i - 16))"
  unfolding b64_join_def by (auto simp: bit_simps dest: bit_imp_le_length)

definition take_byte :: "nat \<Rightarrow> 32 word \<Rightarrow> 8 word" where
  "take_byte r w = ucast (and (drop_bit r w) 0xff)"

lemma bit_take_byte: "bit (take_byte r w) i \<longleftrightarrow> i < 8 \<and> bit w (i + r)"
  unfolding take_byte_def mff by (auto simp: bit_simps add.commute dest: bit_imp_le_length)

lemma b64_loop_step:
  "b64_loop cap (b64_char v k # s) acc bits out =
     (let acc' = acc_after acc v k in
      if bits + 6 \<ge> 8 then
        (if length out \<ge> cap then None
         else b64_loop cap s acc' (bits + 6 - 8) (out @ [take_byte (bits + 6 - 8) acc']))
      else b64_loop cap s acc' (bits + 6) out)"
  unfolding b64_loop_char Let_def acc_after_def take_byte_def ..

lemma group_bytes:
  "take_byte 4 (acc_after (acc_after acc (b64_join a b c) 18) (b64_join a b c) 12) = a"
  "take_byte 2 (acc_after (acc_after acc (b64_join a b c) 12) (b64_join a b c) 6) = b"
  "take_byte 0 (acc_after (acc_after acc (b64_join a b c) 6) (b64_join a b c) 0) = c"
  by (rule bit_word_eqI; auto simp: bit_take_byte bit_acc_after bit_b64_join not_less)+

lemma b64_loop_pad: "b64_loop cap [CHR ''=''] acc bits out = Some out"
  "b64_loop cap [CHR ''='', CHR ''=''] acc bits out = Some out"
  by (simp_all add: b64_skipped_def)

lemma b64_loop_encode:
  "b64_loop cap (b64_encode d) acc 0 out =
     (if d = [] \<or> length out + length d \<le> cap then Some (out @ d) else None)"
proof (induction d arbitrary: acc out rule: b64_encode.induct)
  case (1 a b c rest)
  let ?v = "b64_join a b c"
  show ?case
    by (simp add: b64_loop_step Let_def group_bytes 1 [OF refl] del: b64_loop.simps)
next
  case (2 a b)
  show ?case by (simp add: b64_loop_step Let_def group_bytes b64_loop_pad del: b64_loop.simps)
next
  case (3 a)
  show ?case by (simp add: b64_loop_step Let_def group_bytes b64_loop_pad del: b64_loop.simps)
next
  case 4
  show ?case by simp
qed


lemma b64_decode_encode: "b64_decode (b64_encode d) cap = (if length d \<le> cap then Some d else None)"
  unfolding b64_decode_def b64_loop_encode by auto

interpretation b64: codec "\<lambda>d. length d \<le> cap" b64_encode "\<lambda>s. b64_decode s cap" "\<lambda>d. d" for cap
  by unfold_locales (simp add: b64_decode_encode)

lemma b64_char_in: "b64_char v k \<in> set b64_alpha"
proof -
  have "length b64_alpha = 64" by (simp add: b64_alpha_def)
  then show ?thesis unfolding b64_char_def by (intro nth_mem) (simp add: sextet_less)
qed

lemma b64_encode_alphabet: "set (b64_encode d) \<subseteq> insert (CHR ''='') (set b64_alpha)"
  by (induction d rule: b64_encode.induct) (simp_all add: Let_def b64_char_in)

lemma b64_encode_plain:
  "CHR '':'' \<notin> set (b64_encode d)" "c_nl \<notin> set (b64_encode d)" "CHR 0x0D \<notin> set (b64_encode d)"
  "c_nul \<notin> set (b64_encode d)"
proof -
  have "c \<notin> set (b64_encode d)" if "c \<notin> insert (CHR ''='') (set b64_alpha)" for c
    using that b64_encode_alphabet [of d] by blast
  then show "CHR '':'' \<notin> set (b64_encode d)" "c_nl \<notin> set (b64_encode d)"
    "CHR 0x0D \<notin> set (b64_encode d)" "c_nul \<notin> set (b64_encode d)"
    by (simp_all add: b64_alpha_def)
qed

lemma length_b64_encode: "length (b64_encode d) = 4 * ((length d + 2) div 3)"
proof (induction d rule: b64_encode.induct)
  case (1 a b c rest)
  have "(length rest + 3 + 2) div 3 = (length rest + 2) div 3 + 1" by presburger
  with 1 show ?case by (simp add: Let_def)
qed (simp_all add: Let_def)

lemma b64_encode_Nil: "b64_encode d = [] \<longleftrightarrow> d = []"
  by (cases d rule: b64_encode.cases) (simp_all add: Let_def)

subsection \<open>Reading fingerprints back\<close>

lemma join_space_strtok:
  assumes "\<forall>r \<in> set rs. r \<noteq> [] \<and> CHR '' '' \<notin> set r"
  shows "c_strtok (\<lambda>c. c = CHR '' '') (join_space rs) = rs"
  using assms
proof (induction rs rule: join_space.induct)
  case (2 r)
  then show ?case by (auto intro: c_strtok_last)
next
  case (3 r r' rs)
  then have r: "r \<noteq> []" "\<forall>c \<in> set r. \<not> c = CHR '' ''" by auto
  show ?case using 3 c_strtok_word [OF r] by simp
qed simp

lemma dec_int_str_no_semi: "CHR '';'' \<notin> set (dec_int_str i)"
proof -
  have "CHR '';'' \<notin> set (dec_str n)" for n
    using dec_str_digits [of n] by (auto simp: c_isdigit_def)
  then show ?thesis by (simp add: dec_int_str_def)
qed

definition hash_field :: "string \<Rightarrow> string" where
  "hash_field h = (if take 7 h \<noteq> ''sha256:'' then ''sha256:'' @ h else h)"

lemma split_semi_inj:
  assumes "a @ CHR '';'' # r = a' @ CHR '';'' # r'" and "CHR '';'' \<notin> set a" and "CHR '';'' \<notin> set a'"
  shows "a = a' \<and> r = r'"
  using split_first_append [OF assms(2), of r] split_first_append [OF assms(3), of r']
  unfolding assms(1) by simp

lemma fingerprint_determines:
  assumes eq: "signing_fingerprint p h n rs = signing_fingerprint p' h' n' rs'"
    and path: "CHR '';'' \<notin> set p" "CHR '';'' \<notin> set p'"
    and hash: "CHR '';'' \<notin> set h" "CHR '';'' \<notin> set h'"
    and refs: "\<forall>r \<in> set (case rs of None \<Rightarrow> [] | Some l \<Rightarrow> l). r \<noteq> [] \<and> CHR '' '' \<notin> set r"
      "\<forall>r \<in> set (case rs' of None \<Rightarrow> [] | Some l \<Rightarrow> l). r \<noteq> [] \<and> CHR '' '' \<notin> set r"
  shows "p = p' \<and> hash_field h = hash_field h' \<and> n = n' \<and>
    (case rs of None \<Rightarrow> [] | Some l \<Rightarrow> l) = (case rs' of None \<Rightarrow> [] | Some l \<Rightarrow> l)"
proof -
  let ?j = "\<lambda>rs. case rs of None \<Rightarrow> [] | Some l \<Rightarrow> join_space l"
  have "p @ CHR '';'' # (hash_field h @ CHR '';'' # (dec_int_str n @ CHR '';'' # ?j rs)) =
      p' @ CHR '';'' # (hash_field h' @ CHR '';'' # (dec_int_str n' @ CHR '';'' # ?j rs'))"
    using eq by (simp add: signing_fingerprint_def hash_field_def Let_def)
  from split_semi_inj [OF this path] have p: "p = p'"
    and r1: "hash_field h @ CHR '';'' # (dec_int_str n @ CHR '';'' # ?j rs) =
      hash_field h' @ CHR '';'' # (dec_int_str n' @ CHR '';'' # ?j rs')" by auto
  have "CHR '';'' \<notin> set (hash_field h)" "CHR '';'' \<notin> set (hash_field h')"
    using hash by (simp_all add: hash_field_def)
  from split_semi_inj [OF r1 this] have h: "hash_field h = hash_field h'"
    and r2: "dec_int_str n @ CHR '';'' # ?j rs = dec_int_str n' @ CHR '';'' # ?j rs'" by auto
  from split_semi_inj [OF r2 dec_int_str_no_semi dec_int_str_no_semi]
  have n: "n = n'" and j: "?j rs = ?j rs'" by (auto simp: dec_int_str_inj)
  have "c_strtok (\<lambda>c. c = CHR '' '') (?j x) = (case x of None \<Rightarrow> [] | Some l \<Rightarrow> l)"
    if "\<forall>r \<in> set (case x of None \<Rightarrow> [] | Some l \<Rightarrow> l). r \<noteq> [] \<and> CHR '' '' \<notin> set r" for x
    using that join_space_strtok by (cases x) auto
  from this [OF refs(1)] this [OF refs(2)] j p h n show ?thesis by simp
qed

subsection \<open>Properties\<close>


text \<open>
  C36.  The base-64 codec: whatever is encoded decodes to itself when the output buffer is
  large enough, and is refused, not truncated, when it is too small.
\<close>

theorem b64_roundtrip:
  "b64_decode (b64_encode d) cap = (if length d \<le> cap then Some d else None)"
  by (rule b64_decode_encode)

text \<open>
  Fingerprints are unambiguous: when no store path or hash contains a semicolon and no
  reference is empty or contains a space, equal fingerprints mean equal paths, hashes, sizes
  and references, so a signature over one path never covers another one.
\<close>

theorem fingerprint_unambiguous:
  assumes "signing_fingerprint p h n (Some rs) = signing_fingerprint p' h' n' (Some rs')"
    and "CHR '';'' \<notin> set p" and "CHR '';'' \<notin> set p'"
    and "CHR '';'' \<notin> set h" and "CHR '';'' \<notin> set h'"
    and "\<forall>r \<in> set (rs @ rs'). r \<noteq> [] \<and> CHR '' '' \<notin> set r"
  shows "p = p' \<and> hash_field h = hash_field h' \<and> n = n' \<and> rs = rs'"
  using fingerprint_determines [OF assms(1-5)] assms(6) by simp

theorem fingerprint_unambiguous_witness:
  "signing_fingerprint ''/nix/store/a'' ''00'' 12 (Some [''b'', ''c'']) \<noteq>
   signing_fingerprint ''/nix/store/a'' ''00'' 12 (Some [''c'', ''b''])"
  using fingerprint_unambiguous [of "''/nix/store/a''" "''00''" 12 "[''b'', ''c'']"
      "''/nix/store/a''" "''00''" 12 "[''c'', ''b'']"] by auto

text \<open>
  Verification of encoded signatures and keys: 1 or 0 as the library's check says when
  both have the right length, and -1 otherwise.
\<close>

theorem signing_verify_encoded:
  "signing_verify verify fp (b64_encode sig) (b64_encode pub) =
     (if length sig = 64 \<and> length pub = 32 then (if verify sig fp pub then 1 else 0)
      else - 1)"
  by (auto simp: signing_verify_def b64_decode_encode signing_verify_raw_def)

lemma strip_eol_nl:
  "l = [] \<or> last l \<noteq> c_nl \<and> last l \<noteq> CHR 0x0D \<Longrightarrow> strip_eol (l @ [c_nl]) = l"
  by (cases l rule: rev_cases) (auto simp: strip_eol_def)

lemma decode_exact_encode: "decode_exact (b64_encode d) n = (if length d = n then Some d else None)"
  by (auto simp: decode_exact_def b64_decode_encode)

lemma b64_encode_last: "d \<noteq> [] \<Longrightarrow> last (b64_encode d) \<noteq> c_nl \<and> last (b64_encode d) \<noteq> CHR 0x0D"
  using b64_encode_plain [of d] last_in_set [of "b64_encode d"] by (metis b64_encode_Nil)

lemma c_fgets_line:
  assumes "c_nl \<notin> set l" and "c_nul \<notin> set l" and "length l + 1 < n"
  shows "c_fgets n (l @ c_nl # r) = Some (l @ [c_nl])"
  using assms by (simp add: c_fgets_def)

lemma load_keyfile_line:
  assumes "CHR '':'' \<notin> set name" and "c_nl \<notin> set name" and "c_nul \<notin> set name"
    and "c_nl \<notin> set body" and "c_nul \<notin> set body" and "body \<noteq> []"
    and "last body \<noteq> c_nl \<and> last body \<noteq> CHR 0x0D" and "length name + length body < 1022"
  shows "\<exists>raw. c_fgets 1024 (name @ CHR '':'' # body @ c_nl # r) = Some raw \<and>
    split_first (CHR '':'') (strip_eol raw) = Some (name, body)"
proof -
  have "c_fgets 1024 ((name @ CHR '':'' # body) @ c_nl # r) = Some ((name @ CHR '':'' # body) @ [c_nl])"
    using assms by (intro c_fgets_line) auto
  moreover have "strip_eol ((name @ CHR '':'' # body) @ [c_nl]) = name @ CHR '':'' # body"
    using assms by (intro strip_eol_nl) simp
  ultimately show ?thesis using assms(1) by simp
qed

text \<open>
  C35.  Key files: a line \<open>name:public:secret\<close> of encoded 32-byte keys loads as written,
  and with the public key left out the public half is derived from the secret.
\<close>

theorem load_keyfile_written:
  assumes "CHR '':'' \<notin> set name" and "c_nl \<notin> set name" and "c_nul \<notin> set name"
    and "length name < 900" and "length pub = 32" and "length sec = 32"
  shows "signing_load_keyfile public
      (Some (name @ '':'' @ b64_encode pub @ '':'' @ b64_encode sec @ [c_nl])) = Some (name, pub, sec)
    \<and> signing_load_keyfile public
      (Some (name @ '':'' @ b64_encode sec @ [c_nl])) = Some (name, public sec, sec)"
proof -
  have len: "length (b64_encode pub) = 44" "length (b64_encode sec) = 44"
    using assms(5,6) by (simp_all add: length_b64_encode)
  have ne: "pub \<noteq> []" "sec \<noteq> []" using assms(5,6) by auto
  let ?two = "b64_encode pub @ CHR '':'' # b64_encode sec"
  have "\<exists>raw. c_fgets 1024 (name @ CHR '':'' # ?two @ c_nl # []) = Some raw \<and>
      split_first (CHR '':'') (strip_eol raw) = Some (name, ?two)"
    using assms len b64_encode_last [OF ne(2)] ne
    by (intro load_keyfile_line) (auto simp: b64_encode_plain b64_encode_Nil)
  moreover have "\<exists>raw. c_fgets 1024 (name @ CHR '':'' # b64_encode sec @ c_nl # []) = Some raw \<and>
      split_first (CHR '':'') (strip_eol raw) = Some (name, b64_encode sec)"
    using assms len b64_encode_last [OF ne(2)] ne
    by (intro load_keyfile_line) (auto simp: b64_encode_plain b64_encode_Nil)
  moreover have "split_first (CHR '':'') ?two = Some (b64_encode pub, b64_encode sec)"
    by (simp add: b64_encode_plain)
  ultimately show ?thesis
    using assms(5,6)
    by (auto simp: signing_load_keyfile_def decode_exact_encode b64_encode_plain)
qed

theorem load_keyfile_written_witness:
  "signing_load_keyfile (\<lambda>k. k)
     (Some (''cache-1'' @ '':'' @ b64_encode (replicate 32 7) @ '':'' @ b64_encode (replicate 32 9) @ [c_nl]))
   = Some (''cache-1'', replicate 32 7, replicate 32 9)"
  using load_keyfile_written [of "''cache-1''" "replicate 32 7" "replicate 32 9" "\<lambda>k. k"] by simp

end
