(* ===== verification/Store_Db.thy ===== *)
theory Store_Db
  imports Two9_Prelude "HOL-Library.While_Combinator"
begin

text \<open>
  \<open>src/store/db.c\<close>: the store database.  The two SQLite tables are lists of rows, in row
  order; each operation is the effect of the SQL statement the function runs (an upsert, a
  join, a delete with cascading foreign keys), and the closure computation is the function's
  own loop.  Statements that fail (a locked or corrupt file) are not modelled here.
\<close>

subsection \<open>Tables\<close>

record path_row =
  row_id :: nat
  row_path :: string
  row_hash :: string
  row_nar_size :: int
  row_deriver :: "string option"
  row_time :: int

record store_db =
  valid_paths :: "path_row list"
  refs :: "(nat \<times> nat) list"

definition store_db_open :: store_db where
  "store_db_open = \<lparr>valid_paths = [], refs = []\<rparr>"

definition row_of :: "store_db \<Rightarrow> string \<Rightarrow> path_row option" where
  "row_of db path = find (\<lambda>r. row_path r = path) (valid_paths db)"

subsection \<open>Statements on one path\<close>

text \<open>
  A new row of an \<open>INTEGER PRIMARY KEY\<close> table gets the largest id plus one, so the id of a
  deleted last row is used again.
\<close>

definition next_id :: "store_db \<Rightarrow> nat" where
  "next_id db = foldl (\<lambda>m r. max m (row_id r)) 0 (valid_paths db) + 1"

definition store_db_register_path ::
    "store_db \<Rightarrow> string \<Rightarrow> string \<Rightarrow> int \<Rightarrow> string option \<Rightarrow> int \<Rightarrow> store_db \<times> int" where
  "store_db_register_path db path nar_hash nar_size deriver now =
     (case row_of db path of
        Some r \<Rightarrow>
          (db\<lparr>valid_paths := map (\<lambda>r. if row_path r = path
               then r\<lparr>row_hash := nar_hash, row_nar_size := nar_size, row_deriver := deriver,
                      row_time := now\<rparr>
               else r) (valid_paths db)\<rparr>, int (row_id r))
      | None \<Rightarrow>
          (db\<lparr>valid_paths := valid_paths db @
               [\<lparr>row_id = next_id db, row_path = path, row_hash = nar_hash,
                 row_nar_size = nar_size, row_deriver = deriver, row_time = now\<rparr>]\<rparr>,
           int (next_id db)))"

definition path_to_id :: "store_db \<Rightarrow> string \<Rightarrow> int" where
  "path_to_id db path = (case row_of db path of None \<Rightarrow> - 1 | Some r \<Rightarrow> int (row_id r))"

text \<open>\<open>INSERT OR IGNORE\<close>\<close>

definition store_db_add_ref :: "store_db \<Rightarrow> string \<Rightarrow> string \<Rightarrow> store_db \<times> int" where
  "store_db_add_ref db referrer_path reference_path =
     (let referrer_id = path_to_id db referrer_path;
          reference_id = path_to_id db reference_path in
      if referrer_id < 0 \<or> reference_id < 0 then (db, - 1)
      else let e = (nat referrer_id, nat reference_id) in
        (if e \<in> set (refs db) then db else db\<lparr>refs := refs db @ [e]\<rparr>, 0))"

text \<open>\<open>DELETE\<close>, with \<open>ON DELETE CASCADE\<close> on both columns of \<open>refs\<close>.\<close>

definition store_db_unregister_path :: "store_db \<Rightarrow> string \<Rightarrow> store_db" where
  "store_db_unregister_path db path =
     (let gone = map row_id (filter (\<lambda>r. row_path r = path) (valid_paths db)) in
      db\<lparr>valid_paths := filter (\<lambda>r. row_path r \<noteq> path) (valid_paths db),
         refs := filter (\<lambda>(a, b). a \<notin> set gone \<and> b \<notin> set gone) (refs db)\<rparr>)"

definition store_db_has_path :: "store_db \<Rightarrow> string \<Rightarrow> bool" where
  "store_db_has_path db path \<longleftrightarrow> row_of db path \<noteq> None"

subsection \<open>Queries\<close>

text \<open>\<open>SELECT path FROM valid_paths ORDER BY path\<close>\<close>

definition store_db_all_paths :: "store_db \<Rightarrow> string list" where
  "store_db_all_paths db = sort (map row_path (valid_paths db))"

text \<open>
  The loop over all paths.  The needle \<open>-name-\<close> is cut to the 299 characters that fit.
\<close>

definition name_matches :: "string \<Rightarrow> string \<Rightarrow> bool" where
  "name_matches pkg_name path \<longleftrightarrow>
     (let base = c_basename path; nlen = length pkg_name in
      length base \<ge> nlen + 2 \<and>
      (c_strstr base (take 299 (''-'' @ pkg_name @ ''-'')) \<or>
       starts_with (pkg_name @ ''-'') base))"

definition store_db_find_by_name :: "store_db \<Rightarrow> string \<Rightarrow> string option" where
  "store_db_find_by_name db pkg_name = find (name_matches pkg_name) (store_db_all_paths db)"

text \<open>The join of \<open>refs\<close> with \<open>valid_paths\<close> on both sides, in the order of \<open>refs\<close>.\<close>

definition refs_of :: "store_db \<Rightarrow> string \<Rightarrow> string list" where
  "refs_of db path =
     concat (map (\<lambda>(a, b).
       concat (map (\<lambda>r1. if row_id r1 = a \<and> row_path r1 = path
           then map row_path (filter (\<lambda>r2. row_id r2 = b) (valid_paths db)) else [])
         (valid_paths db))) (refs db))"

definition store_db_get_refs :: "store_db \<Rightarrow> string \<Rightarrow> string list" where
  "store_db_get_refs db path = map c_basename (sort (refs_of db path))"

subsection \<open>Closure\<close>

definition set_add :: "string list \<Rightarrow> string \<Rightarrow> string list" where
  "set_add xs p = (if p \<in> set xs then xs else xs @ [p])"

text \<open>One round: the references of the next unprocessed path are added.\<close>

definition closure_step :: "store_db \<Rightarrow> string list \<times> nat \<Rightarrow> string list \<times> nat" where
  "closure_step db s =
     (let xs = fst s; processed = snd s in
      (foldl set_add xs (refs_of db (xs ! processed)), processed + 1))"

text \<open>The outer \<open>None\<close>: the loop does not end; the inner one: the result is NULL.\<close>

definition store_db_closure :: "store_db \<Rightarrow> string list \<Rightarrow> string list option option" where
  "store_db_closure db roots =
     (if roots = [] then Some None
      else map_option (\<lambda>s. Some (fst s))
        (while_option (\<lambda>s. snd s < length (fst s)) (closure_step db) (foldl set_add [] roots, 0)))"

definition store_db_dead_paths :: "store_db \<Rightarrow> string list \<Rightarrow> string list" where
  "store_db_dead_paths db live_closure =
     filter (\<lambda>p. p \<notin> set live_closure) (store_db_all_paths db)"

subsection \<open>The constraints and the reference graph\<close>


text \<open>
  Keys are unique and every reference points at rows that exist: the constraints of the
  schema.
\<close>

definition db_ok :: "store_db \<Rightarrow> bool" where
  "db_ok db \<longleftrightarrow> distinct (map row_id (valid_paths db)) \<and> distinct (map row_path (valid_paths db))
     \<and> distinct (refs db)
     \<and> (\<forall>(a, b) \<in> set (refs db). a \<in> row_id ` set (valid_paths db) \<and> b \<in> row_id ` set (valid_paths db))"

definition db_paths :: "store_db \<Rightarrow> string set" where
  "db_paths db = row_path ` set (valid_paths db)"

definition db_edges :: "store_db \<Rightarrow> (string \<times> string) set" where
  "db_edges db = {(p, q). \<exists>r1 \<in> set (valid_paths db). \<exists>r2 \<in> set (valid_paths db).
     row_path r1 = p \<and> row_path r2 = q \<and> (row_id r1, row_id r2) \<in> set (refs db)}"

lemma row_of_None: "row_of db p = None \<longleftrightarrow> p \<notin> db_paths db"
  by (auto simp: row_of_def db_paths_def find_None_iff)

lemma row_of_Some: "row_of db p = Some r \<Longrightarrow> r \<in> set (valid_paths db) \<and> row_path r = p"
  by (auto simp: row_of_def find_Some_iff)

lemma has_path_iff: "store_db_has_path db p \<longleftrightarrow> p \<in> db_paths db"
  using row_of_None [of db p] by (auto simp: store_db_has_path_def)

lemma set_refs_of: "set (refs_of db p) = {q. (p, q) \<in> db_edges db}"
  by (auto simp: refs_of_def db_edges_def split: if_splits)

lemma db_edges_paths: "(p, q) \<in> db_edges db \<Longrightarrow> p \<in> db_paths db \<and> q \<in> db_paths db"
  by (auto simp: db_edges_def db_paths_def)

lemma foldl_max_ge: "(m :: nat) \<le> foldl (\<lambda>m r. max m (f r)) m rs"
proof (induction rs arbitrary: m)
  case (Cons r rs)
  have "m \<le> max m (f r)" by simp
  also have "\<dots> \<le> foldl (\<lambda>m r. max m (f r)) (max m (f r)) rs" by (rule Cons)
  finally show ?case by simp
qed simp

lemma foldl_max_in: "r \<in> set rs \<Longrightarrow> f r \<le> foldl (\<lambda>m r. max m (f r)) (m :: nat) rs"
proof (induction rs arbitrary: m)
  case (Cons a rs)
  then show ?case
    using foldl_max_ge [of "max m (f a)" f rs] by (auto intro: order_trans [of _ "max m (f a)"])
qed simp

lemma next_id_fresh: "r \<in> set (valid_paths db) \<Longrightarrow> row_id r \<noteq> next_id db"
  using foldl_max_in [of r "valid_paths db" row_id 0] by (auto simp: next_id_def)

lemma id_unique:
  "db_ok db \<Longrightarrow> r \<in> set (valid_paths db) \<Longrightarrow> r' \<in> set (valid_paths db) \<Longrightarrow>
     row_id r = row_id r' \<longleftrightarrow> r = r'"
  by (auto simp: db_ok_def distinct_map dest: inj_onD)

lemma path_unique:
  "db_ok db \<Longrightarrow> r \<in> set (valid_paths db) \<Longrightarrow> r' \<in> set (valid_paths db) \<Longrightarrow>
     row_path r = row_path r' \<longleftrightarrow> r = r'"
  by (auto simp: db_ok_def distinct_map dest: inj_onD)

subsection \<open>Each operation keeps the constraints and acts on the graph\<close>

lemma register_new:
  assumes "db_ok db" and "p \<notin> db_paths db"
    and db'_def: "db' = fst (store_db_register_path db p h n d t)"
  shows "db_ok db'" "db_paths db' = insert p (db_paths db)" "db_edges db' = db_edges db"
proof -
  have rn: "row_of db p = None" using assms(2) by (simp add: row_of_None)
  have fresh: "next_id db \<notin> row_id ` set (valid_paths db)" using next_id_fresh by fastforce
  have pf: "p \<notin> row_path ` set (valid_paths db)" using assms(2) by (simp add: db_paths_def)
  show "db_ok db'"
    using assms(1) fresh pf unfolding db'_def store_db_register_path_def rn db_ok_def by auto
  show "db_paths db' = insert p (db_paths db)"
    unfolding db'_def store_db_register_path_def rn db_paths_def by simp
  have "(a, b) \<in> set (refs db) \<Longrightarrow> a \<noteq> next_id db \<and> b \<noteq> next_id db" for a b
    using assms(1) fresh by (auto simp: db_ok_def)
  then show "db_edges db' = db_edges db"
    unfolding db'_def store_db_register_path_def rn db_edges_def by auto
qed

lemma register_old:
  assumes "db_ok db" and "p \<in> db_paths db"
    and db'_def: "db' = fst (store_db_register_path db p h n d t)"
  shows "db_ok db'" "db_paths db' = db_paths db" "db_edges db' = db_edges db"
proof -
  define upd where "upd = (\<lambda>r :: path_row. if row_path r = p then r\<lparr>row_hash := h, row_nar_size := n,
    row_deriver := d, row_time := t\<rparr> else r)"
  have u: "row_id (upd r) = row_id r" "row_path (upd r) = row_path r" for r
    by (simp_all add: upd_def)
  obtain r where "row_of db p = Some r" using assms(2) row_of_None [of db p] by auto
  then have db': "db' = db\<lparr>valid_paths := map upd (valid_paths db)\<rparr>"
    by (simp add: db'_def store_db_register_path_def upd_def)
  have m: "map row_id (map upd rs) = map row_id rs" "map row_path (map upd rs) = map row_path rs" for rs
    by (simp_all add: u)
  show "db_ok db'"
    using assms(1) unfolding db_ok_def db' by (simp add: u comp_def image_image)
  show "db_paths db' = db_paths db"
    unfolding db' db_paths_def by (simp add: u image_image)
  show "db_edges db' = db_edges db"
    unfolding db' db_edges_def by (simp add: u)
qed

lemmas register_keeps = register_new(1) register_old(1)

lemma path_to_id_None: "path_to_id db p < 0 \<longleftrightarrow> p \<notin> db_paths db"
  using row_of_None [of db p] by (auto simp: path_to_id_def split: option.split)

lemma path_to_id_Some:
  assumes "p \<in> db_paths db"
  obtains r where "r \<in> set (valid_paths db)" "row_path r = p" "path_to_id db p = int (row_id r)"
  using assms row_of_None [of db p] row_of_Some [of db p]
  by (auto simp: path_to_id_def split: option.split)

lemma add_ref_missing:
  "p \<notin> db_paths db \<or> q \<notin> db_paths db \<Longrightarrow> store_db_add_ref db p q = (db, - 1)"
  by (simp add: store_db_add_ref_def Let_def path_to_id_None)

lemma add_ref_present:
  assumes ok: "db_ok db" and "p \<in> db_paths db" and "q \<in> db_paths db"
  shows "snd (store_db_add_ref db p q) = 0" "db_ok (fst (store_db_add_ref db p q))"
    "db_paths (fst (store_db_add_ref db p q)) = db_paths db"
    "db_edges (fst (store_db_add_ref db p q)) = insert (p, q) (db_edges db)"
proof -
  obtain r1 where r1: "r1 \<in> set (valid_paths db)" "row_path r1 = p" "path_to_id db p = int (row_id r1)"
    using path_to_id_Some assms(2) by blast
  obtain r2 where r2: "r2 \<in> set (valid_paths db)" "row_path r2 = q" "path_to_id db q = int (row_id r2)"
    using path_to_id_Some assms(3) by blast
  let ?e = "(row_id r1, row_id r2)"
  have eq: "store_db_add_ref db p q =
      (if ?e \<in> set (refs db) then db else db\<lparr>refs := refs db @ [?e]\<rparr>, 0)"
    by (simp add: store_db_add_ref_def r1 r2)
  show "snd (store_db_add_ref db p q) = 0" by (simp add: eq)
  show "db_ok (fst (store_db_add_ref db p q))"
    using ok r1(1) r2(1) by (auto simp: eq db_ok_def)
  show "db_paths (fst (store_db_add_ref db p q)) = db_paths db"
    by (simp add: eq db_paths_def)
  show "db_edges (fst (store_db_add_ref db p q)) = insert (p, q) (db_edges db)"
    using r1(1,2) r2(1,2) id_unique [OF ok] unfolding eq db_edges_def by auto
qed

lemma unregister_graph:
  assumes ok: "db_ok db"
  shows "db_ok (store_db_unregister_path db p)"
    "db_paths (store_db_unregister_path db p) = db_paths db - {p}"
    "db_edges (store_db_unregister_path db p) = {(a, b) \<in> db_edges db. a \<noteq> p \<and> b \<noteq> p}"
proof -
  let ?gone = "row_id ` {r \<in> set (valid_paths db). row_path r = p}"
  have gone: "row_id r \<in> ?gone \<longleftrightarrow> row_path r = p" if "r \<in> set (valid_paths db)" for r
    using that id_unique [OF ok] by auto
  have eq: "store_db_unregister_path db p = db\<lparr>
      valid_paths := filter (\<lambda>r. row_path r \<noteq> p) (valid_paths db),
      refs := filter (\<lambda>(a, b). a \<notin> ?gone \<and> b \<notin> ?gone) (refs db)\<rparr>"
    by (simp add: store_db_unregister_path_def)
  show "db_ok (store_db_unregister_path db p)"
    using ok gone unfolding eq db_ok_def by (fastforce simp: distinct_map inj_on_def)
  show "db_paths (store_db_unregister_path db p) = db_paths db - {p}"
    unfolding eq db_paths_def by auto
  show "db_edges (store_db_unregister_path db p) = {(a, b) \<in> db_edges db. a \<noteq> p \<and> b \<noteq> p}"
    using gone unfolding eq db_edges_def by fastforce
qed


text \<open>States the operations can produce, from an empty database.\<close>

inductive db_reachable :: "store_db \<Rightarrow> bool" where
  "db_reachable store_db_open"
| "db_reachable db \<Longrightarrow> db_reachable (fst (store_db_register_path db p h n d t))"
| "db_reachable db \<Longrightarrow> db_reachable (fst (store_db_add_ref db p q))"
| "db_reachable db \<Longrightarrow> db_reachable (store_db_unregister_path db p)"

lemma add_ref_ok: "db_ok db \<Longrightarrow> db_ok (fst (store_db_add_ref db p q))"
  using add_ref_present(2) [of db p q] add_ref_missing [of p db q] by fastforce

lemma reachable_ok: "db_reachable db \<Longrightarrow> db_ok db"
proof (induction rule: db_reachable.induct)
  case 1
  show ?case by (simp add: db_ok_def store_db_open_def)
next
  case (2 db p h n d t)
  then show ?case using register_keeps(1) [OF _ _ refl] register_keeps(2) [OF _ _ refl] by blast
next
  case (3 db p q)
  then show ?case by (simp add: add_ref_ok)
next
  case (4 db p)
  then show ?case by (simp add: unregister_graph(1))
qed

subsection \<open>The closure loop\<close>

lemma set_add_set [simp]: "set (set_add xs p) = insert p (set xs)"
  by (auto simp: set_add_def)

lemma set_add_distinct: "distinct xs \<Longrightarrow> distinct (set_add xs p)"
  by (simp add: set_add_def)

lemma foldl_set_add:
  "set (foldl set_add xs ps) = set xs \<union> set ps"
  "distinct xs \<Longrightarrow> distinct (foldl set_add xs ps)"
  "\<exists>ys. foldl set_add xs ps = xs @ ys"
proof (induction ps arbitrary: xs)
  case (Cons p ps)
  { case 1 show ?case using Cons(1) [of "set_add xs p"] by auto }
  { case 2 then show ?case using Cons(2) set_add_distinct by simp }
  { case 3 
    obtain ys where ys: "foldl set_add (set_add xs p) ps = set_add xs p @ ys" using Cons(3) by blast
    have "\<exists>zs. set_add xs p = xs @ zs" by (auto simp: set_add_def)
    with ys show ?case by auto }
qed simp_all

definition closure_inv :: "store_db \<Rightarrow> string list \<Rightarrow> string list \<times> nat \<Rightarrow> bool" where
  "closure_inv db roots s \<longleftrightarrow> distinct (fst s) \<and> set roots \<subseteq> set (fst s)
     \<and> set (fst s) \<subseteq> (db_edges db)\<^sup>* `` set roots
     \<and> set (fst s) \<subseteq> set roots \<union> db_paths db
     \<and> snd s \<le> length (fst s)
     \<and> (\<forall>i < snd s. \<forall>q. (fst s ! i, q) \<in> db_edges db \<longrightarrow> q \<in> set (fst s))"

lemma closure_inv_init: "closure_inv db roots (foldl set_add [] roots, 0)"
  using foldl_set_add(1,2) [of "[]" roots] by (auto simp: closure_inv_def)

lemma closure_inv_step:
  assumes inv: "closure_inv db roots s" and lt: "snd s < length (fst s)"
  shows "closure_inv db roots (closure_step db s)"
proof -
  define xs where "xs = fst s"
  define n where "n = snd s"
  define ys where "ys = foldl set_add xs (refs_of db (xs ! n))"
  have step: "closure_step db s = (ys, n + 1)"
    by (simp add: closure_step_def ys_def xs_def n_def Let_def)
  have n: "n < length xs" using lt by (simp add: xs_def n_def)
  then have cur: "xs ! n \<in> set xs" by simp
  have sets: "set ys = set xs \<union> {q. (xs ! n, q) \<in> db_edges db}"
    by (simp add: ys_def foldl_set_add(1) set_refs_of)
  obtain zs where zs: "ys = xs @ zs" using foldl_set_add(3) by (auto simp: ys_def)
  have "{q. (xs ! n, q) \<in> db_edges db} \<subseteq> (db_edges db)\<^sup>* `` set roots"
  proof
    fix q assume q: "q \<in> {q. (xs ! n, q) \<in> db_edges db}"
    have "xs ! n \<in> (db_edges db)\<^sup>* `` set roots"
      using inv cur by (auto simp: closure_inv_def xs_def)
    then obtain r where "r \<in> set roots" "(r, xs ! n) \<in> (db_edges db)\<^sup>*" by blast
    with q show "q \<in> (db_edges db)\<^sup>* `` set roots" by (auto intro: rtrancl_into_rtrancl)
  qed
  moreover have "{q. (xs ! n, q) \<in> db_edges db} \<subseteq> db_paths db"
    using db_edges_paths by blast
  moreover have "distinct ys"
    using inv foldl_set_add(2) by (simp add: closure_inv_def ys_def xs_def)
  moreover have "q \<in> set ys" if "i < n + 1" "(ys ! i, q) \<in> db_edges db" for i q
  proof (cases "i = n")
    case True
    with that n zs sets show ?thesis by (simp add: nth_append)
  next
    case False
    with that n zs have "(xs ! i, q) \<in> db_edges db" "i < n" by (simp_all add: nth_append)
    with inv have "q \<in> set xs" by (auto simp: closure_inv_def xs_def n_def)
    with zs show ?thesis by simp
  qed
  ultimately have "distinct ys" "\<forall>i < n + 1. \<forall>q. (ys ! i, q) \<in> db_edges db \<longrightarrow> q \<in> set ys"
    "set ys \<subseteq> (db_edges db)\<^sup>* `` set roots" "set ys \<subseteq> set roots \<union> db_paths db"
    using inv sets by (auto simp: closure_inv_def xs_def)
  then show ?thesis
    using inv n sets zs unfolding step closure_inv_def fst_conv snd_conv
    by (auto simp: xs_def [symmetric])
qed

lemma closure_inv_done:
  assumes inv: "closure_inv db roots s" and ge: "\<not> snd s < length (fst s)"
  shows "distinct (fst s) \<and> set (fst s) = (db_edges db)\<^sup>* `` set roots"
proof -
  have closed: "q \<in> set (fst s)" if p: "p \<in> set (fst s)" and e: "(p, q) \<in> db_edges db" for p q
  proof -
    obtain i where "i < length (fst s)" "fst s ! i = p" using p by (auto simp: in_set_conv_nth)
    with inv ge e show ?thesis by (auto simp: closure_inv_def)
  qed
  have "q \<in> set (fst s)" if "(p, q) \<in> (db_edges db)\<^sup>*" "p \<in> set roots" for p q
    using that
  proof (induction rule: rtrancl_induct)
    case base
    with inv show ?case by (auto simp: closure_inv_def)
  next
    case (step y z)
    then show ?case using closed by blast
  qed
  with inv show ?thesis by (auto simp: closure_inv_def)
qed

lemma closure_measure:
  assumes "closure_inv db roots s" and "snd s < length (fst s)"
  shows "card (set roots \<union> db_paths db) - snd (closure_step db s) < card (set roots \<union> db_paths db) - snd s"
proof -
  have "length (fst s) = card (set (fst s))"
    using assms(1) by (simp add: closure_inv_def distinct_card)
  also have "\<dots> \<le> card (set roots \<union> db_paths db)"
    using assms(1) by (intro card_mono) (auto simp: closure_inv_def db_paths_def)
  finally have "snd s < card (set roots \<union> db_paths db)" using assms(2) by simp
  then show ?thesis by (simp add: closure_step_def Let_def)
qed

lemma closure_is_reachability:
  assumes "roots \<noteq> []"
  shows "\<exists>xs. store_db_closure db roots = Some (Some xs) \<and> distinct xs \<and>
    set xs = (db_edges db)\<^sup>* `` set roots"
proof -
  let ?b = "\<lambda>s :: string list \<times> nat. snd s < length (fst s)"
  let ?s0 = "(foldl set_add [] roots, 0)"
  have "\<exists>t. while_option ?b (closure_step db) ?s0 = Some t"
    by (rule measure_while_option_Some [where P = "closure_inv db roots"
          and f = "\<lambda>s. card (set roots \<union> db_paths db) - snd s"])
      (auto simp: closure_inv_init closure_inv_step closure_measure)
  then obtain t where t: "while_option ?b (closure_step db) ?s0 = Some t" by blast
  have "closure_inv db roots t"
    by (rule while_option_rule [OF _ t]) (auto simp: closure_inv_init closure_inv_step)
  with while_option_stop [OF t] assms t closure_inv_done [of db roots t] show ?thesis
    by (auto simp: store_db_closure_def)
qed


interpretation store: registry db_ok store_db_has_path
    "\<lambda>db p. fst (store_db_register_path db p h n d t)" store_db_unregister_path for h n d t
proof unfold_locales
  fix db k q assume ok: "db_ok db"
  show "db_ok (fst (store_db_register_path db k h n d t))"
    using ok register_keeps(1) [OF _ _ refl] register_keeps(2) [OF _ _ refl] by blast
  show "db_ok (store_db_unregister_path db k)" by (rule unregister_graph(1) [OF ok])
  show "store_db_has_path (fst (store_db_register_path db k h n d t)) q \<longleftrightarrow>
      q = k \<or> store_db_has_path db q"
    using ok register_new(2) [OF _ _ refl] register_old(2) [OF _ _ refl]
    unfolding has_path_iff by (cases "k \<in> db_paths db") auto
  show "store_db_has_path (store_db_unregister_path db k) q \<longleftrightarrow> q \<noteq> k \<and> store_db_has_path db q"
    unfolding has_path_iff unregister_graph(2) [OF ok] by auto
qed

subsection \<open>Properties\<close>

lemma register_graph:
  assumes "db_ok db"
  shows "db_paths (fst (store_db_register_path db p h n d t)) = insert p (db_paths db)"
    "db_edges (fst (store_db_register_path db p h n d t)) = db_edges db"
  using assms register_new(2,3) [OF assms _ refl] register_old(2,3) [OF assms _ refl]
  by (cases "p \<in> db_paths db"; auto)+

lemma register_id:
  assumes "db_ok db"
  shows "snd (store_db_register_path db p h n d t) =
    path_to_id (fst (store_db_register_path db p h n d t)) p"
proof (cases "row_of db p")
  case None
  have "find P xs = None \<Longrightarrow> find P (xs @ [r]) = find P [r]" for P xs and r :: path_row
    by (induction xs) (auto split: if_splits)
  with None show ?thesis
    by (simp add: store_db_register_path_def path_to_id_def row_of_def)
next
  case (Some r)
  define upd where "upd = (\<lambda>r :: path_row. if row_path r = p then r\<lparr>row_hash := h, row_nar_size := n,
    row_deriver := d, row_time := t\<rparr> else r)"
  have "find (\<lambda>r. row_path r = p) (map upd rs) = map_option upd (find (\<lambda>r. row_path r = p) rs)" for rs
    by (induction rs) (auto simp: upd_def)
  with Some show ?thesis
    by (simp add: store_db_register_path_def path_to_id_def row_of_def flip: upd_def)
      (simp add: upd_def)
qed

text \<open>
  C3.  The database implements a graph.  In every state the operations can reach, keys are
  unique and references point at existing rows; registering a path adds it and no edge,
  and returns its row id; adding a reference between registered paths adds that edge and
  otherwise fails without effect; unregistering removes the path with all its edges, so that
  an id that is used again carries no stale reference.
\<close>

theorem store_db_refines_graph:
  assumes "db_reachable db"
  shows "db_ok db
    \<and> (let (db', id) = store_db_register_path db p h n d t in
         db_paths db' = insert p (db_paths db) \<and> db_edges db' = db_edges db \<and> id = path_to_id db' p)
    \<and> (let (db', rc) = store_db_add_ref db p q in
         if p \<in> db_paths db \<and> q \<in> db_paths db
         then rc = 0 \<and> db_paths db' = db_paths db \<and> db_edges db' = insert (p, q) (db_edges db)
         else rc = - 1 \<and> db' = db)
    \<and> db_paths (store_db_unregister_path db p) = db_paths db - {p}
    \<and> db_edges (store_db_unregister_path db p) = {(a, b) \<in> db_edges db. a \<noteq> p \<and> b \<noteq> p}"
proof -
  have ok: "db_ok db" using assms by (rule reachable_ok)
  show ?thesis
    using ok register_graph [OF ok, of p h n d t] register_id [OF ok, of p h n d t]
      add_ref_missing [of p db q] add_ref_present [OF ok, of p q] unregister_graph [OF ok, of p]
    by (auto simp: case_prod_unfold Let_def)
qed

theorem store_db_refines_graph_witness:
  "db_paths (store_db_unregister_path (fst (store_db_register_path store_db_open ''/a'' ''h'' 1 None 0)) ''/a'') = {}"
proof -
  have "db_reachable (fst (store_db_register_path store_db_open ''/a'' ''h'' 1 None 0))"
    by (intro db_reachable.intros)
  from store_db_refines_graph [OF this, of "''/a''" "''h''" 1 None 0 "''/a''"]
  have "db_paths (store_db_unregister_path (fst (store_db_register_path store_db_open ''/a'' ''h'' 1 None 0)) ''/a'')
      = db_paths (fst (store_db_register_path store_db_open ''/a'' ''h'' 1 None 0)) - {''/a''}"
    by (simp only:)
  also have "\<dots> = {}"
    by code_simp
  finally show ?thesis .
qed

text \<open>
  C25.  \<open>store_db_closure\<close> always ends, and returns each path reachable from the roots along
  references exactly once, the roots included, and nothing else.
\<close>

theorem store_db_closure_spec:
  assumes "roots \<noteq> []"
  shows "\<exists>xs. store_db_closure db roots = Some (Some xs) \<and> distinct xs \<and>
    set xs = (db_edges db)\<^sup>* `` set roots"
  by (rule closure_is_reachability [OF assms])

definition demo_store :: store_db where
  "demo_store =
     (let reg = (\<lambda>p db. fst (store_db_register_path db p ''h'' 1 None 0));
          ref = (\<lambda>(p, q) db. fst (store_db_add_ref db p q)) in
      fold ref [(''/nix/store/c-app-1'', ''/nix/store/b-glibc-2''), (''/nix/store/b-glibc-2'', ''/nix/store/d-fs-1''),
                (''/nix/store/d-fs-1'', ''/nix/store/b-glibc-2'')]
        (fold reg [''/nix/store/c-app-1'', ''/nix/store/b-glibc-2'', ''/nix/store/d-fs-1'', ''/nix/store/z-old-1'']
          store_db_open))"

theorem store_db_closure_spec_witness:
  "\<exists>xs. store_db_closure demo_store [''/nix/store/c-app-1''] = Some (Some xs) \<and> distinct xs"
  using store_db_closure_spec [of "[''/nix/store/c-app-1'']" demo_store] by blast



end
