(* ===== verification/Store_Gc.thy ===== *)
theory Store_Gc
  imports Store_Db Nar_Archive
begin

text \<open>
  \<open>src/cli/main.c\<close>, the parts that tie the store together: \<open>find_store_path\<close>,
  \<open>pick_backend\<close>, the registration of an installed package with the references its
  \<open>.PKGINFO\<close> names, and the garbage collection of \<open>cmd_gc\<close> (its steps 2 to 4).

  The disk is the list of entries of \<open>/nix/store\<close> in \<open>readdir\<close> order.  \<open>rm -rf\<close> is taken to
  succeed; a failure leaves the path registered and only prints a warning.
\<close>

type_synonym disk = "(string \<times> fs_node) list"

definition store_path_of :: "string \<Rightarrow> string" where
  "store_path_of d_name = ''/nix/store/'' @ d_name"

subsection \<open>Finding a package on disk\<close>

definition find_store_path :: "disk \<Rightarrow> string \<Rightarrow> string option" where
  "find_store_path disk pkg_name =
     map_option (\<lambda>e. store_path_of (fst e))
       (find (\<lambda>e. let d_name = fst e in
           take 1 d_name \<noteq> ''.'' \<and>
           (starts_with (pkg_name @ ''-'') d_name \<or>
            c_strstr d_name (take 299 (''-'' @ pkg_name @ ''-''))))
         disk)"

datatype store_backend = STORE_BACKEND_NIX | STORE_BACKEND_DIRECT

text \<open>The flag says whether one of the two \<open>nix-store\<close> programs is installed.\<close>

partial_function (option) pick_backend :: "bool \<Rightarrow> store_backend option" where
  "pick_backend nix_store_found =
     (if nix_store_found then pick_backend nix_store_found else Some STORE_BACKEND_DIRECT)"

subsection \<open>Dependencies of an installed package\<close>

definition skip_space :: "string \<Rightarrow> string" where
  "skip_space = dropWhile c_isspace"

definition dep_name_char :: "char \<Rightarrow> bool" where
  "dep_name_char c \<longleftrightarrow> c \<noteq> CHR '':'' \<and> c \<noteq> CHR ''<'' \<and> c \<noteq> CHR ''>'' \<and> c \<noteq> CHR ''='' \<and> \<not> c_isspace c"

definition depend_line :: "string \<Rightarrow> string option" where
  "depend_line line =
     (let p = skip_space line in
      if \<not> starts_with ''depend'' p then None
      else let p = skip_space (drop 6 p) in
        (case p of
           [] \<Rightarrow> None
         | c # p \<Rightarrow>
             if c \<noteq> CHR ''='' then None
             else let dep_name = take 255 (takeWhile dep_name_char (skip_space p)) in
               if dep_name = [] then None else Some dep_name))"

text \<open>The names passed to the callback, in order; \<open>None\<close> when there is no \<open>.PKGINFO\<close>.\<close>

definition pkginfo_each_dep :: "disk \<Rightarrow> string \<Rightarrow> string list option" where
  "pkginfo_each_dep disk store_path =
     (case find (\<lambda>e. store_path_of (fst e) = store_path) disk of
        Some (_, Directory es) \<Rightarrow>
          (case map_of es ''.PKGINFO'' of
             Some (Regular x c) \<Rightarrow> Some (List.map_filter depend_line (c_fgets_lines 1024 c))
           | _ \<Rightarrow> None)
      | _ \<Rightarrow> None)"

definition dep_cb ::
    "(bytes \<Rightarrow> 8 word list) \<Rightarrow> int \<Rightarrow> disk \<Rightarrow> string \<Rightarrow> string \<Rightarrow> store_db \<Rightarrow> string \<Rightarrow> store_db" where
  "dep_cb sha256 now disk referrer_path referrer_name db dep_name =
     (if dep_name = referrer_name then db
      else case store_db_find_by_name db dep_name of
        Some dep_path \<Rightarrow> fst (store_db_add_ref db referrer_path dep_path)
      | None \<Rightarrow>
          (case find_store_path disk dep_name of
             None \<Rightarrow> db
           | Some dep_path \<Rightarrow>
               (case map_of (map (\<lambda>e. (store_path_of (fst e), snd e)) disk) dep_path of
                  None \<Rightarrow> db
                | Some tree \<Rightarrow>
                    (case nar_hash_directory sha256 dep_path tree of
                       None \<Rightarrow> db
                     | Some (dep_hash, dep_size) \<Rightarrow>
                         fst (store_db_add_ref
                           (fst (store_db_register_path db dep_path dep_hash (int dep_size) None now))
                           referrer_path dep_path)))))"

definition register_target_in_store_db ::
    "(bytes \<Rightarrow> 8 word list) \<Rightarrow> int \<Rightarrow> disk \<Rightarrow> store_db \<Rightarrow> string \<Rightarrow> string \<Rightarrow> string option \<Rightarrow> int
       \<Rightarrow> store_db" where
  "register_target_in_store_db sha256 now disk db pkg_name store_path nar_hash nar_size =
     (case nar_hash of
        None \<Rightarrow> db
      | Some h \<Rightarrow>
          let db' = fst (store_db_register_path db store_path h nar_size None now) in
          (case pkginfo_each_dep disk store_path of
             None \<Rightarrow> db'
           | Some deps \<Rightarrow> foldl (dep_cb sha256 now disk store_path pkg_name) db' deps))"

subsection \<open>Garbage collection\<close>

definition remove_tree :: "string \<Rightarrow> disk \<Rightarrow> disk" where
  "remove_tree path disk = filter (\<lambda>e. store_path_of (fst e) \<noteq> path) disk"

text \<open>Step 3: remove the dead paths from the disk and from the database.\<close>

definition gc_dead :: "store_db \<times> disk \<Rightarrow> string list \<Rightarrow> store_db \<times> disk" where
  "gc_dead st dead =
     foldl (\<lambda>(db, disk) path. (store_db_unregister_path db path, remove_tree path disk)) st dead"

text \<open>Step 4: remove the directories nobody knows of.\<close>

definition is_orphan :: "string list \<Rightarrow> string list \<Rightarrow> string list \<Rightarrow> string \<times> fs_node \<Rightarrow> bool" where
  "is_orphan all_db closure roots e \<longleftrightarrow>
     take 1 (fst e) \<noteq> ''.'' \<and>
     (case snd e of Directory _ \<Rightarrow> True | _ \<Rightarrow> False) \<and>
     store_path_of (fst e) \<notin> set all_db \<and>
     store_path_of (fst e) \<notin> set closure \<and>
     store_path_of (fst e) \<notin> set roots"

text \<open>A NULL closure (no roots, or an error) counts as the empty one.\<close>

definition cmd_gc_store :: "string list \<Rightarrow> store_db \<times> disk \<Rightarrow> (store_db \<times> disk) option" where
  "cmd_gc_store roots st =
     (case (if roots = [] then Some None else store_db_closure (fst st) roots) of
        None \<Rightarrow> None
      | Some closure_or_null \<Rightarrow>
          let closure = (case closure_or_null of None \<Rightarrow> [] | Some c \<Rightarrow> c);
              dead = store_db_dead_paths (fst st) closure;
              (db, disk) = gc_dead st dead;
              all_db = store_db_all_paths db
          in Some (db, filter (\<lambda>e. \<not> is_orphan all_db closure roots e) disk))"

subsection \<open>Properties\<close>


lemma pick_backend_diverges: "pick_backend nix = Some b \<Longrightarrow> \<not> nix"
  by (rule pick_backend.raw_induct [where P = "\<lambda>nix b. \<not> nix"]) (auto split: if_splits)

lemma gc_dead_split:
  "gc_dead (db, disk) dead =
     (foldl store_db_unregister_path db dead,
      filter (\<lambda>e. store_path_of (fst e) \<notin> set dead) disk)"
proof (induction dead arbitrary: db disk)
  case Nil
  then show ?case by (simp add: gc_dead_def)
next
  case (Cons p dead)
  have "gc_dead (db, disk) (p # dead) = gc_dead (store_db_unregister_path db p, remove_tree p disk) dead"
    by (simp add: gc_dead_def)
  also have "\<dots> = (foldl store_db_unregister_path db (p # dead),
      filter (\<lambda>e. store_path_of (fst e) \<notin> set (p # dead)) disk)"
    by (simp add: Cons remove_tree_def conj_commute)
  finally show ?case .
qed

lemma unregister_all:
  assumes "db_ok db"
  shows "db_paths (foldl store_db_unregister_path db ps) = db_paths db - set ps"
    "db_edges (foldl store_db_unregister_path db ps) =
      {(a, b) \<in> db_edges db. a \<notin> set ps \<and> b \<notin> set ps}"
proof -
  show "db_paths (foldl store_db_unregister_path db ps) = db_paths db - set ps"
    using store.has_del_all [OF assms, of ps] unfolding has_path_iff by auto
  show "db_edges (foldl store_db_unregister_path db ps) =
      {(a, b) \<in> db_edges db. a \<notin> set ps \<and> b \<notin> set ps}"
    using assms
  proof (induction ps arbitrary: db)
    case (Cons p ps)
    then show ?case
      using unregister_graph [OF Cons.prems, of p] Cons.IH [of "store_db_unregister_path db p"] by auto
  qed simp
qed

text \<open>What is live: reachable from the roots along references.\<close>

definition live :: "store_db \<Rightarrow> string list \<Rightarrow> string set" where
  "live db roots = (db_edges db)\<^sup>* `` set roots"



text \<open>
  The references themselves can be wrong, and then collection removes a package that is
  needed: with \<open>gcc-libs\<close> and \<open>gcc\<close> both registered, installing a package whose
  \<open>.PKGINFO\<close> says \<open>depend = gcc\<close> records a reference to \<open>gcc-libs\<close>, because the lookup
  by name takes the first path that contains \<open>-gcc-\<close>; collecting with that package as the
  root then deletes \<open>gcc\<close> from the disk and from the database.
\<close>

definition gcc_disk :: disk where
  "gcc_disk = [(''c-app-1'', Directory [(''.PKGINFO'', Regular False (''depend = gcc>=14'' @ [c_nl]))]),
     (''b-gcc-14'', Directory []), (''a-gcc-libs-14'', Directory [])]"

definition gcc_db :: store_db where
  "gcc_db = register_target_in_store_db demo_sha256 0 gcc_disk
     (fold (\<lambda>p db. fst (store_db_register_path db p ''h'' 1 None 0))
        [''/nix/store/a-gcc-libs-14'', ''/nix/store/b-gcc-14''] store_db_open)
     ''app'' ''/nix/store/c-app-1'' (Some ''h'') 1"

theorem gc_removes_needed_dependency:
  "case cmd_gc_store [''/nix/store/c-app-1''] (gcc_db, gcc_disk) of
     None \<Rightarrow> False
   | Some (db', disk') \<Rightarrow> map fst disk' = [''c-app-1'', ''a-gcc-libs-14'']
       \<and> store_db_all_paths db' = [''/nix/store/a-gcc-libs-14'', ''/nix/store/c-app-1'']"
  by code_simp

text \<open>
  \<open>pick_backend\<close> returns only when no \<open>nix-store\<close> is installed: where it is, the
  function calls itself with nothing changed, instead of choosing the Nix backend.
\<close>

theorem pick_backend_returns:
  "(\<exists>b. pick_backend nix_store_found = Some b) \<longleftrightarrow> \<not> nix_store_found"
proof (cases nix_store_found)
  case True
  then show ?thesis using pick_backend_diverges by blast
next
  case False
  then show ?thesis by (subst pick_backend.simps) simp
qed

end
