(* ===== verification/Narinfo.thy ===== *)
theory Narinfo
  imports Signing Store_Db Nar_Archive
begin

text \<open>
  \<open>src/store/narinfo.c\<close>: the text files that describe an archive in a binary cache.  A NULL
  string or list is \<open>None\<close>.  Lines are formatted through a 512-byte stack buffer; a line that
  does not fit makes the code copy bytes past the end of that buffer, which is undefined, and
  the outcome \<open>Overread\<close>.
\<close>

record narinfo =
  store_path :: "string option"
  url :: "string option"
  compression :: "string option"
  file_hash :: "string option"
  file_size :: int
  nar_hash :: "string option"
  nar_size :: int
  references :: "string list option"
  deriver :: "string option"
  signatures :: "string list option"
  ca :: "string option"

definition narinfo_calloc :: narinfo where
  "narinfo_calloc = \<lparr>store_path = None, url = None, compression = None, file_hash = None,
     file_size = 0, nar_hash = None, nar_size = 0, references = None, deriver = None,
     signatures = None, ca = None\<rparr>"

subsection \<open>Parsing\<close>

definition narinfo_path_hash :: "string \<Rightarrow> string option" where
  "narinfo_path_hash path = map_option fst (split_first (CHR ''-'') (c_basename path))"

definition trim_inplace :: "string \<Rightarrow> string" where
  "trim_inplace s = rev (dropWhile c_isspace (rev (dropWhile c_isspace s)))"

definition list_append :: "string list option \<Rightarrow> string \<Rightarrow> string list option" where
  "list_append l s = (case l of None \<Rightarrow> Some [s] | Some xs \<Rightarrow> Some (xs @ [s]))"

definition parse_field :: "string \<Rightarrow> string \<Rightarrow> narinfo \<Rightarrow> narinfo" where
  "parse_field key val ni =
     (if key = ''StorePath'' then ni\<lparr>store_path := Some val\<rparr>
      else if key = ''URL'' then ni\<lparr>url := Some val\<rparr>
      else if key = ''Compression'' then ni\<lparr>compression := Some val\<rparr>
      else if key = ''FileHash'' then ni\<lparr>file_hash := Some val\<rparr>
      else if key = ''FileSize'' then ni\<lparr>file_size := c_strtoll val\<rparr>
      else if key = ''NarHash'' then ni\<lparr>nar_hash := Some val\<rparr>
      else if key = ''NarSize'' then ni\<lparr>nar_size := c_strtoll val\<rparr>
      else if key = ''References'' then
        ni\<lparr>references := (if val = [] then None
             else Some (c_strtok (\<lambda>c. c = CHR '' '' \<or> c = CHR 0x09) val))\<rparr>
      else if key = ''Deriver'' then ni\<lparr>deriver := Some val\<rparr>
      else if key = ''Sig'' then ni\<lparr>signatures := list_append (signatures ni) val\<rparr>
      else if key = ''CA'' then ni\<lparr>ca := Some val\<rparr>
      else ni)"

definition parse_line :: "narinfo \<Rightarrow> string \<Rightarrow> narinfo" where
  "parse_line ni line =
     (case split_first (CHR '':'') line of
        None \<Rightarrow> ni
      | Some (k, v) \<Rightarrow> parse_field (trim_inplace k) (trim_inplace v) ni)"

definition is_eol :: "char \<Rightarrow> bool" where
  "is_eol c \<longleftrightarrow> c = CHR 0x0D \<or> c = c_nl"

definition narinfo_parse :: "string \<Rightarrow> narinfo option" where
  "narinfo_parse text =
     (let ni = foldl parse_line narinfo_calloc (c_strtok is_eol text) in
      if store_path ni = None then None else Some ni)"

subsection \<open>Serialising\<close>

datatype buffer = Buffer string | Overread

text \<open>
  \<open>buf_append\<close> after formatting: \<open>n\<close> bytes are copied out of \<open>small[512]\<close>, of which
  \<open>vsnprintf\<close> has filled at most 511.
\<close>

fun buf_append :: "buffer \<Rightarrow> string \<Rightarrow> buffer" where
  "buf_append (Buffer b) formatted = (if length formatted \<ge> 512 then Overread else Buffer (b @ formatted))"
| "buf_append Overread formatted = Overread"

definition field :: "string \<Rightarrow> string option \<Rightarrow> string list" where
  "field fmt v = (case v of None \<Rightarrow> [] | Some s \<Rightarrow> [fmt @ '': '' @ s @ [c_nl]])"

definition size_field :: "string \<Rightarrow> int \<Rightarrow> string list" where
  "size_field fmt n = (if n > 0 then [fmt @ '': '' @ dec_int_str n @ [c_nl]] else [])"

text \<open>The arguments of the successive \<open>buf_append\<close> calls.\<close>

definition narinfo_chunks :: "narinfo \<Rightarrow> string list" where
  "narinfo_chunks ni =
     field ''StorePath'' (store_path ni) @ field ''URL'' (url ni)
     @ field ''Compression'' (compression ni) @ field ''FileHash'' (file_hash ni)
     @ size_field ''FileSize'' (file_size ni) @ field ''NarHash'' (nar_hash ni)
     @ size_field ''NarSize'' (nar_size ni)
     @ (case references ni of
          None \<Rightarrow> [] | Some [] \<Rightarrow> []
        | Some rs \<Rightarrow> [''References:''] @ map (\<lambda>r. '' '' @ r) rs @ [[c_nl]])
     @ field ''Deriver'' (deriver ni)
     @ (case signatures ni of None \<Rightarrow> [] | Some ss \<Rightarrow> map (\<lambda>s. ''Sig: '' @ s @ [c_nl]) ss)
     @ field ''CA'' (ca ni)"

definition narinfo_serialize :: "narinfo \<Rightarrow> buffer option" where
  "narinfo_serialize ni =
     (if store_path ni = None then None
      else Some (foldl buf_append (Buffer []) (narinfo_chunks ni)))"

subsection \<open>From a store path, and verification\<close>

text \<open>
  \<open>tree\<close> is what \<open>stat\<close> and the archive writer find at the store path, \<open>db\<close> the open
  database if any, \<open>key\<close> the name and the secret key to sign with.
\<close>

definition narinfo_from_store_path ::
    "(bytes \<Rightarrow> 8 word list) \<Rightarrow> (string \<Rightarrow> 8 word list \<Rightarrow> 8 word list) \<Rightarrow> store_db option \<Rightarrow> string
       \<Rightarrow> fs_node option \<Rightarrow> (string \<times> 8 word list) option \<Rightarrow> narinfo option" where
  "narinfo_from_store_path sha256 sign db path tree key =
     (case tree of
        Some (Directory es) \<Rightarrow>
          (case nar_hash_directory sha256 path (Directory es) of
             None \<Rightarrow> None
           | Some (nar_hex, bytes_written) \<Rightarrow>
               let ni = narinfo_calloc
                     \<lparr>store_path := Some path,
                      nar_hash := Some (''sha256:'' @ nar_hex),
                      nar_size := int bytes_written,
                      url := map_option (\<lambda>h. ''nar/'' @ h @ ''.nar.zst'') (narinfo_path_hash path),
                      compression := Some ''zstd'',
                      references := map_option (\<lambda>d. store_db_get_refs d path) db\<rparr>;
                   sigs = (case key of
                       None \<Rightarrow> None
                     | Some (name, secret) \<Rightarrow>
                         Some [name @ '':'' @ signing_sign sign
                           (signing_fingerprint path (''sha256:'' @ nar_hex) (nar_size ni) (references ni))
                           secret])
               in Some (ni\<lparr>signatures := sigs\<rparr>))
      | _ \<Rightarrow> None)"

definition narinfo_verify_signed ::
    "(8 word list \<Rightarrow> string \<Rightarrow> 8 word list \<Rightarrow> bool) \<Rightarrow> narinfo \<Rightarrow> string \<Rightarrow> int" where
  "narinfo_verify_signed verify ni public_key_b64 =
     (case (signatures ni, nar_hash ni) of
        (Some sigs, Some h) \<Rightarrow>
          let fp = signing_fingerprint (the (store_path ni)) h (nar_size ni) (references ni) in
          (if \<exists>s \<in> set sigs. (case split_first (CHR '':'') s of
                None \<Rightarrow> False
              | Some (_, sig_b64) \<Rightarrow> signing_verify verify fp sig_b64 public_key_b64 = 1)
           then 1 else 0)
      | _ \<Rightarrow> 0)"

subsection \<open>Values that survive the line format\<close>


lemma buf_append_all:
  "foldl buf_append (Buffer b) cs =
     (if \<exists>c \<in> set cs. length c \<ge> 512 then Overread else Buffer (b @ concat cs))"
proof (induction cs arbitrary: b)
  case (Cons c cs)
  have "foldl buf_append Overread cs = Overread" by (induction cs) simp_all
  with Cons show ?case by auto
qed simp

lemma trim_no_space: "\<forall>c \<in> set s. \<not> c_isspace c \<Longrightarrow> trim_inplace s = s"
proof -
  assume a: "\<forall>c \<in> set s. \<not> c_isspace c"
  then have "dropWhile c_isspace s = s" "dropWhile c_isspace (rev s) = rev s"
    by (simp_all add: dropWhile_eq_self_iff hd_in_set) (metis hd_in_set list.set_sel(1) set_rev rev_is_Nil_conv)+
  then show ?thesis by (simp add: trim_inplace_def)
qed

lemma trim_space: "c_isspace c \<Longrightarrow> trim_inplace (c # s) = trim_inplace s"
  by (simp add: trim_inplace_def)

definition clean_value :: "string \<Rightarrow> bool" where
  "clean_value v \<longleftrightarrow> trim_inplace v = v \<and> (\<forall>c \<in> set v. \<not> is_eol c)"

definition plain_word :: "string \<Rightarrow> bool" where
  "plain_word r \<longleftrightarrow> r \<noteq> [] \<and> (\<forall>c \<in> set r. \<not> c_isspace c)"

lemma eol_space: "is_eol c \<Longrightarrow> c_isspace c"
  by (auto simp: is_eol_def c_isspace_def)

lemma space_space: "c_isspace (CHR '' '')" by (simp add: c_isspace_def)

lemma dec_int_clean: "0 < n \<Longrightarrow> clean_value (dec_int_str n)"
  using dec_str_digits [of "nat n"]
  by (auto simp: clean_value_def dec_int_str_def not_space_digit dest: eol_space intro!: trim_no_space)

lemma parse_line_field:
  assumes "CHR '':'' \<notin> set key" and "\<forall>c \<in> set key. \<not> c_isspace c" and "clean_value v"
  shows "parse_line ni (key @ '': '' @ v) = parse_field key v ni"
  using assms by (simp add: parse_line_def trim_no_space trim_space space_space clean_value_def)

definition ref_text :: "string list \<Rightarrow> string" where
  "ref_text rs = concat (map (\<lambda>r. '' '' @ r) rs)"

lemma ref_text_strtok:
  assumes "\<forall>r \<in> set rs. plain_word r" and d: "d = (\<lambda>c. c = CHR '' '' \<or> c = CHR 0x09)"
  shows "c_strtok d (ref_text rs) = rs"
  using assms(1)
proof (induction rs)
  case (Cons r rs)
  then have r: "r \<noteq> []" "\<forall>c \<in> set r. \<not> d c"
    using space_space by (auto simp: plain_word_def d c_isspace_def)
  have sp: "d (CHR '' '')" by (simp add: d)
  show ?case
  proof (cases rs)
    case Nil
    then show ?thesis using r sp by (simp add: ref_text_def c_strtok_last)
  next
    case (Cons r' rs')
    then have "ref_text rs = CHR '' '' # (r' @ ref_text rs')" by (simp add: ref_text_def)
    with Cons.IH Cons.prems sp have "c_strtok d (r' @ ref_text rs') = rs" by simp
    with Cons sp show ?thesis
      using c_strtok_word [OF r sp, of "r' @ ref_text rs'"] by (simp add: ref_text_def)
  qed
qed (simp add: ref_text_def)

lemma ref_text_last:
  "rs \<noteq> [] \<Longrightarrow> \<forall>r \<in> set rs. plain_word r \<Longrightarrow> ref_text rs \<noteq> [] \<and> \<not> c_isspace (last (ref_text rs))"
  by (induction rs rule: rev_induct) (auto simp: ref_text_def plain_word_def)

lemma trim_ref_text:
  assumes "rs \<noteq> []" and "\<forall>r \<in> set rs. plain_word r"
  shows "\<exists>v. ref_text rs = CHR '' '' # v \<and> v \<noteq> [] \<and> trim_inplace (ref_text rs) = v"
proof -
  obtain r rs' where rs: "rs = r # rs'" using assms(1) by (cases rs) auto
  let ?v = "r @ ref_text rs'"
  have t: "ref_text rs = CHR '' '' # ?v" by (simp add: rs ref_text_def)
  have r: "r \<noteq> []" "\<not> c_isspace (hd r)" using assms(2) rs by (auto simp: plain_word_def)
  have "\<not> c_isspace (last ?v)" "?v \<noteq> []"
    using ref_text_last [OF assms] r(1) unfolding t by auto
  then have "dropWhile c_isspace ?v = ?v" "dropWhile c_isspace (rev ?v) = rev ?v"
    using r by (simp_all only: dropWhile_eq_self_iff hd_append hd_rev) simp_all
  with t r(1) show ?thesis by (simp add: trim_space space_space) (simp add: trim_inplace_def)
qed

subsection \<open>What is serialised is parsed back\<close>


definition line_of :: "string \<Rightarrow> string option \<Rightarrow> string list" where
  "line_of key v = (case v of None \<Rightarrow> [] | Some s \<Rightarrow> [key @ '': '' @ s])"

definition size_line :: "string \<Rightarrow> int \<Rightarrow> string list" where
  "size_line key n = (if n > 0 then [key @ '': '' @ dec_int_str n] else [])"

definition narinfo_lines :: "narinfo \<Rightarrow> string list" where
  "narinfo_lines ni =
     line_of ''StorePath'' (store_path ni) @ line_of ''URL'' (url ni)
     @ line_of ''Compression'' (compression ni) @ line_of ''FileHash'' (file_hash ni)
     @ size_line ''FileSize'' (file_size ni) @ line_of ''NarHash'' (nar_hash ni)
     @ size_line ''NarSize'' (nar_size ni)
     @ (case references ni of None \<Rightarrow> [] | Some [] \<Rightarrow> [] | Some rs \<Rightarrow> [''References:'' @ ref_text rs])
     @ line_of ''Deriver'' (deriver ni)
     @ (case signatures ni of None \<Rightarrow> [] | Some ss \<Rightarrow> map (\<lambda>s. ''Sig: '' @ s) ss)
     @ line_of ''CA'' (ca ni)"

definition unlines :: "string list \<Rightarrow> string" where
  "unlines ls = concat (map (\<lambda>l. l @ [c_nl]) ls)"

lemma unlines_append: "unlines (a @ b) = unlines a @ unlines b"
  by (simp add: unlines_def)

lemma append_space: "(@) '' '' = (#) (CHR '' '')"
  by (rule ext) simp

lemma chunks_are_lines: "concat (narinfo_chunks ni) = unlines (narinfo_lines ni)"
proof -
  have f: "concat (field k v) = unlines (line_of k v)" for k v
    by (simp add: field_def line_of_def unlines_def split: option.split)
  have s: "concat (size_field k n) = unlines (size_line k n)" for k n
    by (simp add: size_field_def size_line_def unlines_def)
  have r: "concat (case references ni of None \<Rightarrow> [] | Some [] \<Rightarrow> []
        | Some rs \<Rightarrow> [''References:''] @ map (\<lambda>r. '' '' @ r) rs @ [[c_nl]]) =
      unlines (case references ni of None \<Rightarrow> [] | Some [] \<Rightarrow> [] | Some rs \<Rightarrow> [''References:'' @ ref_text rs])"
    by (simp add: unlines_def ref_text_def append_space split: option.split list.split)
  have g: "concat (case signatures ni of None \<Rightarrow> [] | Some ss \<Rightarrow> map (\<lambda>s. ''Sig: '' @ s @ [c_nl]) ss) =
      unlines (case signatures ni of None \<Rightarrow> [] | Some ss \<Rightarrow> map (\<lambda>s. ''Sig: '' @ s) ss)"
    by (simp add: unlines_def comp_def split: option.split)
  show ?thesis
    unfolding narinfo_chunks_def narinfo_lines_def concat_append unlines_append f s r g ..
qed

fun clean_opt :: "string option \<Rightarrow> bool" where
  "clean_opt None = True"
| "clean_opt (Some v) = clean_value v"

text \<open>
  A narinfo the format can carry: trimmed single-line values and sizes in range.  An empty
  list is written like an absent one.
\<close>

definition wf_narinfo :: "narinfo \<Rightarrow> bool" where
  "wf_narinfo ni \<longleftrightarrow> store_path ni \<noteq> None
     \<and> list_all clean_opt [store_path ni, url ni, compression ni, file_hash ni, nar_hash ni, deriver ni, ca ni]
     \<and> 0 \<le> file_size ni \<and> file_size ni < 2 ^ 63 \<and> 0 \<le> nar_size ni \<and> nar_size ni < 2 ^ 63
     \<and> (case references ni of None \<Rightarrow> True | Some rs \<Rightarrow> list_all plain_word rs)
     \<and> (case signatures ni of None \<Rightarrow> True | Some ss \<Rightarrow> list_all clean_value ss)"

definition drop_empty :: "string list option \<Rightarrow> string list option" where
  "drop_empty l = (if l = Some [] then None else l)"

definition norm_narinfo :: "narinfo \<Rightarrow> narinfo" where
  "norm_narinfo ni = ni\<lparr>references := drop_empty (references ni), signatures := drop_empty (signatures ni)\<rparr>"

lemma clean_no_eol: "clean_value v \<Longrightarrow> \<forall>c \<in> set v. \<not> is_eol c"
  by (simp add: clean_value_def)

lemma ref_text_no_eol: "list_all plain_word rs \<Longrightarrow> \<forall>c \<in> set (ref_text rs). \<not> is_eol c"
proof -
  assume "list_all plain_word rs"
  moreover have "\<not> is_eol (CHR '' '')" by (simp add: is_eol_def)
  ultimately show "\<forall>c \<in> set (ref_text rs). \<not> is_eol c"
    by (auto simp: ref_text_def plain_word_def list_all_iff dest: eol_space)
qed

lemma key_no_eol:
  "\<forall>c \<in> set ''StorePath: ''. \<not> is_eol c" "\<forall>c \<in> set ''URL: ''. \<not> is_eol c"
  "\<forall>c \<in> set ''Compression: ''. \<not> is_eol c" "\<forall>c \<in> set ''FileHash: ''. \<not> is_eol c"
  "\<forall>c \<in> set ''FileSize: ''. \<not> is_eol c" "\<forall>c \<in> set ''NarHash: ''. \<not> is_eol c"
  "\<forall>c \<in> set ''NarSize: ''. \<not> is_eol c" "\<forall>c \<in> set ''References:''. \<not> is_eol c"
  "\<forall>c \<in> set ''Deriver: ''. \<not> is_eol c" "\<forall>c \<in> set ''Sig: ''. \<not> is_eol c"
  "\<forall>c \<in> set ''CA: ''. \<not> is_eol c"
  by (simp_all add: is_eol_def)

lemma line_of_eol:
  "clean_opt v \<Longrightarrow> \<forall>c \<in> set (k @ '': ''). \<not> is_eol c \<Longrightarrow>
     \<forall>l \<in> set (line_of k v). l \<noteq> [] \<and> (\<forall>c \<in> set l. \<not> is_eol c)"
  by (cases v) (auto simp: line_of_def dest: clean_no_eol)

lemma size_line_eol:
  "\<forall>c \<in> set (k @ '': ''). \<not> is_eol c \<Longrightarrow>
     \<forall>l \<in> set (size_line k n). l \<noteq> [] \<and> (\<forall>c \<in> set l. \<not> is_eol c)"
  using clean_no_eol [OF dec_int_clean, of n] by (auto simp: size_line_def)

lemma narinfo_lines_eol:
  assumes "wf_narinfo ni"
  shows "\<forall>l \<in> set (narinfo_lines ni). l \<noteq> [] \<and> (\<forall>c \<in> set l. \<not> is_eol c)"
proof -
  have refs: "\<forall>l \<in> set (case references ni of None \<Rightarrow> [] | Some [] \<Rightarrow> [] | Some rs \<Rightarrow> [''References:'' @ ref_text rs]).
      l \<noteq> [] \<and> (\<forall>c \<in> set l. \<not> is_eol c)"
  proof (cases "references ni")
    case (Some rs)
    then have "list_all plain_word rs" using assms by (simp add: wf_narinfo_def)
    then have "\<forall>c \<in> set (ref_text rs). \<not> is_eol c" by (rule ref_text_no_eol)
    then have "\<forall>c \<in> set (''References:'' @ ref_text rs). \<not> is_eol c"
      using key_no_eol(8) unfolding set_append by blast
    with Some show ?thesis by (cases rs) simp_all
  qed simp
  have sigs: "\<forall>l \<in> set (case signatures ni of None \<Rightarrow> [] | Some ss \<Rightarrow> map (\<lambda>s. ''Sig: '' @ s) ss).
      l \<noteq> [] \<and> (\<forall>c \<in> set l. \<not> is_eol c)"
    using assms key_no_eol(10)
    by (auto simp: wf_narinfo_def list_all_iff clean_value_def split: option.splits)
  have k: "\<forall>c \<in> set (k @ '': ''). \<not> is_eol c"
    if "k \<in> {''StorePath'', ''URL'', ''Compression'', ''FileHash'', ''FileSize'', ''NarHash'', ''NarSize'',
      ''Deriver'', ''CA''}" for k
    using that key_no_eol by auto
  show ?thesis
    using assms refs sigs
    unfolding narinfo_lines_def set_append ball_Un wf_narinfo_def
    by (intro conjI line_of_eol size_line_eol k) simp_all
qed

lemma fold_line_of:
  assumes "clean_opt v" and "CHR '':'' \<notin> set k" and "\<forall>c \<in> set k. \<not> c_isspace c"
  shows "foldl parse_line ni (line_of k v) = (case v of None \<Rightarrow> ni | Some s \<Rightarrow> parse_field k s ni)"
  using assms parse_line_field by (cases v) (simp_all add: line_of_def)

lemma fold_size_line:
  assumes "CHR '':'' \<notin> set k" and "\<forall>c \<in> set k. \<not> c_isspace c"
  shows "foldl parse_line ni (size_line k n) = (if n > 0 then parse_field k (dec_int_str n) ni else ni)"
  using assms parse_line_field [OF assms dec_int_clean] by (simp add: size_line_def)

lemma fold_references:
  assumes "rs \<noteq> []" and "list_all plain_word rs"
  shows "parse_line ni (''References:'' @ ref_text rs) = ni\<lparr>references := Some rs\<rparr>"
proof -
  have w: "\<forall>r \<in> set rs. plain_word r" using assms(2) by (simp add: list_all_iff)
  obtain v where v: "ref_text rs = CHR '' '' # v" "v \<noteq> []" "trim_inplace (ref_text rs) = v"
    using trim_ref_text [OF assms(1) w] by blast
  let ?d = "\<lambda>c. c = CHR '' '' \<or> c = CHR 0x09"
  have "c_strtok ?d v = c_strtok ?d (ref_text rs)" by (simp add: v(1))
  also have "\<dots> = rs" by (rule ref_text_strtok [OF w refl])
  finally have tok: "c_strtok ?d v = rs" .
  have "trim_inplace ''References'' = ''References''"
    by (rule trim_no_space) (simp add: c_isspace_def)
  with v(2,3) tok show ?thesis
    by (simp add: parse_line_def parse_field_def)
qed

lemma fold_signatures:
  assumes "list_all clean_value ss"
  shows "foldl parse_line ni (map (\<lambda>s. ''Sig: '' @ s) ss) =
    ni\<lparr>signatures := foldl list_append (signatures ni) ss\<rparr>"
  using assms
proof (induction ss arbitrary: ni)
  case (Cons s ss)
  have "parse_line ni (''Sig: '' @ s) = ni\<lparr>signatures := list_append (signatures ni) s\<rparr>"
    using parse_line_field [of "''Sig''" s ni] Cons.prems by (simp add: parse_field_def c_isspace_def)
  with Cons show ?case by simp
qed simp

lemma list_append_all: "foldl list_append (Some xs) ss = Some (xs @ ss)"
  by (induction ss arbitrary: xs) (simp_all add: list_append_def)

lemma list_append_new: "ss \<noteq> [] \<Longrightarrow> foldl list_append None ss = Some ss"
  by (cases ss) (simp_all add: list_append_def [of None] list_append_all)

lemma fold_reference_lines:
  assumes "wf_narinfo ni"
  shows "foldl parse_line m (case references ni of None \<Rightarrow> [] | Some [] \<Rightarrow> [] | Some rs \<Rightarrow> [''References:'' @ ref_text rs])
    = (case drop_empty (references ni) of None \<Rightarrow> m | Some rs \<Rightarrow> m\<lparr>references := Some rs\<rparr>)"
proof (cases "references ni")
  case (Some rs)
  then have "list_all plain_word rs" using assms by (simp add: wf_narinfo_def)
  then have "rs \<noteq> [] \<Longrightarrow> parse_line m (''References:'' @ ref_text rs) = m\<lparr>references := Some rs\<rparr>"
    by (rule fold_references [rotated])
  with Some show ?thesis by (cases rs) (simp_all add: drop_empty_def)
qed (simp add: drop_empty_def)

lemma fold_signature_lines:
  assumes "wf_narinfo ni" and "signatures m = None"
  shows "foldl parse_line m (case signatures ni of None \<Rightarrow> [] | Some ss \<Rightarrow> map (\<lambda>s. ''Sig: '' @ s) ss)
    = m\<lparr>signatures := drop_empty (signatures ni)\<rparr>"
proof (cases "signatures ni")
  case None
  with assms(2) show ?thesis by (simp add: drop_empty_def)
next
  case (Some ss)
  then have "list_all clean_value ss" using assms by (simp add: wf_narinfo_def)
  with Some assms(2) show ?thesis
    by (cases "ss = []") (simp_all add: fold_signatures list_append_new drop_empty_def)
qed

lemma parse_all_lines:
  assumes "wf_narinfo ni"
  shows "foldl parse_line narinfo_calloc (narinfo_lines ni) = norm_narinfo ni"
proof -
  have c: "clean_opt (store_path ni)" "clean_opt (url ni)" "clean_opt (compression ni)"
    "clean_opt (file_hash ni)" "clean_opt (nar_hash ni)" "clean_opt (deriver ni)" "clean_opt (ca ni)"
    and n: "0 \<le> file_size ni" "file_size ni < 2 ^ 63" "0 \<le> nar_size ni" "nar_size ni < 2 ^ 63"
    using assms by (auto simp: wf_narinfo_def)
  note f = fold_line_of [OF c(1)] fold_line_of [OF c(2)] fold_line_of [OF c(3)] fold_line_of [OF c(4)]
    fold_line_of [OF c(5)] fold_line_of [OF c(6)] fold_line_of [OF c(7)] fold_size_line
  obtain m where m: "m = foldl parse_line narinfo_calloc (line_of ''StorePath'' (store_path ni) @
      line_of ''URL'' (url ni) @ line_of ''Compression'' (compression ni) @ line_of ''FileHash'' (file_hash ni)
      @ size_line ''FileSize'' (file_size ni) @ line_of ''NarHash'' (nar_hash ni)
      @ size_line ''NarSize'' (nar_size ni))" by blast
  have m': "m = narinfo_calloc\<lparr>store_path := store_path ni, url := url ni, compression := compression ni,
      file_hash := file_hash ni, file_size := file_size ni, nar_hash := nar_hash ni, nar_size := nar_size ni\<rparr>"
    using n c_strtoll_dec_int [of "file_size ni"] c_strtoll_dec_int [of "nar_size ni"]
    unfolding m foldl_append
    by (simp add: f c_isspace_def) (simp add: parse_field_def narinfo_calloc_def split: option.split)
  have "foldl parse_line narinfo_calloc (narinfo_lines ni) =
      foldl parse_line
        (foldl parse_line
          (foldl parse_line
            (foldl parse_line m
              (case references ni of None \<Rightarrow> [] | Some [] \<Rightarrow> [] | Some rs \<Rightarrow> [''References:'' @ ref_text rs]))
            (line_of ''Deriver'' (deriver ni)))
          (case signatures ni of None \<Rightarrow> [] | Some ss \<Rightarrow> map (\<lambda>s. ''Sig: '' @ s) ss))
        (line_of ''CA'' (ca ni))"
    by (simp add: narinfo_lines_def m)
  also have "\<dots> = norm_narinfo ni"
    unfolding fold_reference_lines [OF assms] m'
    using fold_signature_lines [OF assms]
    by (simp add: f c_isspace_def narinfo_calloc_def parse_field_def norm_narinfo_def split: option.split)
  finally show ?thesis .
qed

subsection \<open>Properties\<close>


lemma serialize_short:
  assumes "store_path ni \<noteq> None" and "\<forall>c \<in> set (narinfo_chunks ni). length c < 512"
  shows "narinfo_serialize ni = Some (Buffer (unlines (narinfo_lines ni)))"
proof -
  have "\<not> (\<exists>c \<in> set (narinfo_chunks ni). length c \<ge> 512)" using assms(2) by (auto simp: not_le)
  with assms(1) show ?thesis
    by (simp add: narinfo_serialize_def buf_append_all chunks_are_lines)
qed

lemma parse_text:
  assumes "wf_narinfo ni"
  shows "narinfo_parse (unlines (narinfo_lines ni)) = Some (norm_narinfo ni)"
proof -
  have nl: "is_eol c_nl" by (simp add: is_eol_def)
  have "c_strtok is_eol (unlines (narinfo_lines ni)) = narinfo_lines ni"
    unfolding unlines_def by (rule c_strtok_lines [OF narinfo_lines_eol [OF assms] nl])
  moreover have "store_path (norm_narinfo ni) \<noteq> None"
    using assms by (simp add: wf_narinfo_def norm_narinfo_def)
  ultimately show ?thesis
    by (simp add: narinfo_parse_def parse_all_lines [OF assms] Let_def)
qed

interpretation narinfo: codec
  "\<lambda>ni. wf_narinfo ni \<and> (\<forall>c \<in> set (narinfo_chunks ni). length c < 512)"
  "\<lambda>ni. case narinfo_serialize ni of Some (Buffer t) \<Rightarrow> t | _ \<Rightarrow> []" narinfo_parse norm_narinfo
proof unfold_locales
  fix ni assume a: "wf_narinfo ni \<and> (\<forall>c \<in> set (narinfo_chunks ni). length c < 512)"
  then have "store_path ni \<noteq> None" by (simp add: wf_narinfo_def)
  with a have "narinfo_serialize ni = Some (Buffer (unlines (narinfo_lines ni)))"
    using serialize_short by blast
  with a parse_text show "narinfo_parse (case narinfo_serialize ni of Some (Buffer t) \<Rightarrow> t | _ \<Rightarrow> []) =
      Some (norm_narinfo ni)" by simp
qed

text \<open>
  C24.  Round trip of narinfo files: for a narinfo with trimmed single-line values, sizes in
  range and no formatted piece of 512 bytes or more, serialising succeeds and parsing the
  text gives the narinfo back, an empty list read as an absent one.
\<close>

theorem narinfo_roundtrip:
  assumes "wf_narinfo ni" and "\<forall>c \<in> set (narinfo_chunks ni). length c < 512"
  shows "\<exists>text. narinfo_serialize ni = Some (Buffer text) \<and> narinfo_parse text = Some (norm_narinfo ni)"
  using serialize_short parse_text assms by (auto simp: wf_narinfo_def)

definition demo_narinfo :: narinfo where
  "demo_narinfo = narinfo_calloc\<lparr>store_path := Some ''/nix/store/a-b-1'', url := Some ''nar/a.nar.zst'',
     nar_hash := Some ''sha256:00'', nar_size := 120, references := Some [''x-y-1'', ''z-w-2''],
     signatures := Some [''k:AA=='']\<rparr>"

lemma demo_narinfo_ok:
  "wf_narinfo demo_narinfo" "\<forall>c \<in> set (narinfo_chunks demo_narinfo). length c < 512"
proof -
  have "trim_inplace s = s" if "\<forall>c \<in> set s. \<not> c_isspace c" for s using that by (rule trim_no_space)
  then show "wf_narinfo demo_narinfo"
    by (simp add: wf_narinfo_def demo_narinfo_def narinfo_calloc_def clean_value_def plain_word_def
        is_eol_def c_isspace_def)
  have "list_all (\<lambda>c. length c < 512) (narinfo_chunks demo_narinfo)" by code_simp
  then show "\<forall>c \<in> set (narinfo_chunks demo_narinfo). length c < 512" by (simp add: list_all_iff)
qed

theorem narinfo_roundtrip_witness:
  "\<exists>text. narinfo_serialize demo_narinfo = Some (Buffer text) \<and>
     narinfo_parse text = Some (norm_narinfo demo_narinfo)"
  by (rule narinfo_roundtrip [OF demo_narinfo_ok])


subsection \<open>Publishing\<close>

lemma hex_encode_chars: "c \<in> set (hex_encode d) \<Longrightarrow> c \<in> set ''0123456789abcdef''"
proof -
  have h: "hex_digit w \<in> set ''0123456789abcdef''" if "unat w < 16" for w
    unfolding hex_digit_def using that by (intro nth_mem) simp
  assume "c \<in> set (hex_encode d)"
  then show ?thesis using h nibble_hi nibble_lo unfolding hex_encode_def by auto
qed

lemma plain_clean: "\<forall>c \<in> set v. \<not> c_isspace c \<Longrightarrow> clean_value v"
  by (auto simp: clean_value_def dest: eol_space intro!: trim_no_space)

lemma plain_chars: "plain_word v \<Longrightarrow> \<forall>c \<in> set v. \<not> c_isspace c"
  by (simp add: plain_word_def)

lemma hex_plain: "\<forall>c \<in> set (''sha256:'' @ hex_encode d). \<not> c_isspace c"
proof -
  have "\<forall>c \<in> set ''0123456789abcdef''. \<not> c_isspace c" by (simp add: c_isspace_def)
  then have "\<forall>c \<in> set (hex_encode d). \<not> c_isspace c" using hex_encode_chars by blast
  then show ?thesis by (simp add: c_isspace_def)
qed

lemma b64_plain: "\<forall>c \<in> set (b64_encode d). \<not> c_isspace c"
proof -
  have "\<forall>c \<in> insert (CHR ''='') (set b64_alpha). \<not> c_isspace c"
    by (simp add: b64_alpha_def c_isspace_def)
  then show ?thesis using b64_encode_alphabet [of d] by blast
qed

lemma path_hash_plain:
  assumes "plain_word p" and "narinfo_path_hash p = Some h"
  shows "\<forall>c \<in> set (''nar/'' @ h @ ''.nar.zst''). \<not> c_isspace c"
proof -
  have "set (c_basename p) \<subseteq> set p"
    by (auto simp: c_basename_def split: option.splits dest: split_last_SomeD)
  moreover have "set h \<subseteq> set (c_basename p)"
    using assms(2) by (auto simp: narinfo_path_hash_def split_first_Some)
  ultimately have "\<forall>c \<in> set h. \<not> c_isspace c" using assms(1) by (auto simp: plain_word_def)
  then show ?thesis by (simp add: c_isspace_def)
qed

lemma from_store_path_wf:
  assumes built: "narinfo_from_store_path sha256 sign (Some db) path tree (Some (name, secret)) = Some ni"
    and path: "plain_word path" and name: "plain_word name"
    and refs: "\<forall>p \<in> db_paths db. plain_word (c_basename p)" and len: "nar_size ni < 2 ^ 63"
  shows "wf_narinfo ni"
proof -
  obtain es hex n where es: "tree = Some (Directory es)"
    and h: "nar_hash_directory sha256 path (Directory es) = Some (hex, n)"
    using built unfolding narinfo_from_store_path_def
    by (auto split: option.splits fs_node.splits prod.splits)
  then obtain d where hex: "hex = hex_encode d" by (auto simp: nar_hash_directory_def)
  have ni: "ni = narinfo_calloc\<lparr>store_path := Some path, nar_hash := Some (''sha256:'' @ hex),
      nar_size := int n, url := map_option (\<lambda>h. ''nar/'' @ h @ ''.nar.zst'') (narinfo_path_hash path),
      compression := Some ''zstd'', references := Some (store_db_get_refs db path),
      signatures := Some [name @ '':'' @ signing_sign sign (signing_fingerprint path (''sha256:'' @ hex)
        (int n) (Some (store_db_get_refs db path))) secret]\<rparr>"
    using built unfolding narinfo_from_store_path_def es by (simp add: h Let_def narinfo_calloc_def)
  have "clean_value path" "clean_value (''sha256:'' @ hex)"
    using plain_clean plain_chars [OF path] hex_plain hex by blast+
  moreover have "clean_opt (map_option (\<lambda>h. ''nar/'' @ h @ ''.nar.zst'') (narinfo_path_hash path))"
    using plain_clean [OF path_hash_plain [OF path]] by (cases "narinfo_path_hash path") simp_all
  moreover have "clean_value ''zstd''" by (rule plain_clean) (simp add: c_isspace_def)
  moreover have "\<forall>c \<in> set (name @ '':'' @ b64_encode s). \<not> c_isspace c" for s
    using plain_chars [OF name] b64_plain by (auto simp: c_isspace_def)
  then have "clean_value (name @ '':'' @ b64_encode s)" for s by (rule plain_clean)
  moreover have "list_all plain_word (store_db_get_refs db path)"
    using refs db_edges_paths [of path _ db] set_refs_of [of db path]
    by (auto simp: store_db_get_refs_def list_all_iff)
  ultimately show ?thesis
    using len unfolding ni by (simp add: wf_narinfo_def narinfo_calloc_def signing_sign_def)
qed

lemma join_drop_empty:
  "signing_fingerprint p h n (drop_empty rs) = signing_fingerprint p h n rs"
  by (simp add: signing_fingerprint_def drop_empty_def)

text \<open>
  C8.  Publishing is sound end to end: when a narinfo is built and signed from a store path
  and its lines fit the buffer, the text that is served parses, and the parsed narinfo
  verifies under the public key of the signing seed, for any Ed25519 that accepts its own
  signatures.
\<close>

theorem published_narinfo_verifies:
  assumes "narinfo_from_store_path sha256 sign (Some db) path tree (Some (name, secret)) = Some ni"
    and "\<forall>m k. length (sign m k) = 64 \<and> length (public k) = 32 \<and> verify (sign m k) m (public k)"
    and "plain_word path" and "plain_word name" and "CHR '':'' \<notin> set name"
    and "\<forall>p \<in> db_paths db. plain_word (c_basename p)"
    and "nar_size ni < 2 ^ 63" and "\<forall>c \<in> set (narinfo_chunks ni). length c < 512"
  shows "\<exists>text ni'. narinfo_serialize ni = Some (Buffer text) \<and> narinfo_parse text = Some ni' \<and>
    narinfo_verify_signed verify ni' (b64_encode (public secret)) = 1"
proof -
  have wf: "wf_narinfo ni" using from_store_path_wf assms by blast
  then have ser: "narinfo_serialize ni = Some (Buffer (unlines (narinfo_lines ni)))"
    using serialize_short assms(8) by (simp add: wf_narinfo_def)
  obtain es hex n where es: "tree = Some (Directory es)"
    and h: "nar_hash_directory sha256 path (Directory es) = Some (hex, n)"
    using assms(1) unfolding narinfo_from_store_path_def
    by (auto split: option.splits fs_node.splits prod.splits)
  let ?fp = "signing_fingerprint path (''sha256:'' @ hex) (int n) (Some (store_db_get_refs db path))"
  have ni: "store_path ni = Some path" "nar_hash ni = Some (''sha256:'' @ hex)" "nar_size ni = int n"
    "references ni = Some (store_db_get_refs db path)"
    "signatures ni = Some [name @ '':'' @ signing_sign sign ?fp secret]"
    using assms(1) unfolding narinfo_from_store_path_def es by (auto simp: h Let_def narinfo_calloc_def)
  have "signing_verify verify ?fp (signing_sign sign ?fp secret) (b64_encode (public secret)) = 1"
    using assms(2) by (simp add: signing_verify_def signing_sign_def b64_decode_encode signing_verify_raw_def)
  moreover have "split_first (CHR '':'') (name @ '':'' @ signing_sign sign ?fp secret) =
      Some (name, signing_sign sign ?fp secret)"
    using assms(5) by simp
  ultimately have "narinfo_verify_signed verify (norm_narinfo ni) (b64_encode (public secret)) = 1"
    by (simp add: narinfo_verify_signed_def norm_narinfo_def ni drop_empty_def [of "Some [_]"] join_drop_empty)
  with ser parse_text [OF wf] show ?thesis by blast
qed

definition demo_sign :: "string \<Rightarrow> 8 word list \<Rightarrow> 8 word list" where
  "demo_sign m k = take 32 (k @ replicate 32 0) @ replicate 32 (word_of_nat (length m))"

definition demo_public :: "8 word list \<Rightarrow> 8 word list" where
  "demo_public k = take 32 (k @ replicate 32 0)"

definition demo_verify :: "8 word list \<Rightarrow> string \<Rightarrow> 8 word list \<Rightarrow> bool" where
  "demo_verify s m k \<longleftrightarrow> s = k @ replicate 32 (word_of_nat (length m))"

definition demo_published :: "narinfo option" where
  "demo_published = narinfo_from_store_path demo_sha256 demo_sign (Some demo_store) ''/nix/store/c-app-1''
     (Some (Directory [(''x'', Symlink ''y'')])) (Some (''cache-1'', [7, 9]))"

lemma demo_published_facts:
  "case demo_published of None \<Rightarrow> False
   | Some ni \<Rightarrow> list_all (\<lambda>c. length c < 512) (narinfo_chunks ni) \<and> nar_size ni < 2 ^ 63"
  by code_simp

theorem published_narinfo_verifies_witness:
  "case demo_published of None \<Rightarrow> False
   | Some ni \<Rightarrow> \<exists>text ni'. narinfo_serialize ni = Some (Buffer text) \<and> narinfo_parse text = Some ni' \<and>
       narinfo_verify_signed demo_verify ni' (b64_encode (demo_public [7, 9])) = 1"
proof -
  obtain ni where ni: "demo_published = Some ni" "\<forall>c \<in> set (narinfo_chunks ni). length c < 512"
    "nar_size ni < 2 ^ 63"
    using demo_published_facts by (auto split: option.splits simp: list_all_iff)
  have crypto: "\<forall>m k. length (demo_sign m k) = 64 \<and> length (demo_public k) = 32 \<and>
      demo_verify (demo_sign m k) m (demo_public k)"
    by (auto simp: demo_sign_def demo_public_def demo_verify_def min_def)
  have "list_all (\<lambda>p. c_basename p \<noteq> [] \<and> list_all (\<lambda>c. \<not> c_isspace c) (c_basename p))
      (store_db_all_paths demo_store)"
    by code_simp
  then have paths: "\<forall>p \<in> db_paths demo_store. plain_word (c_basename p)"
    by (simp add: list_all_iff plain_word_def store_db_all_paths_def db_paths_def)
  have "plain_word ''/nix/store/c-app-1''" "plain_word ''cache-1''" "CHR '':'' \<notin> set ''cache-1''"
    by (simp_all add: plain_word_def c_isspace_def)
  from published_narinfo_verifies [OF ni(1) [unfolded demo_published_def] crypto this paths ni(3) ni(2)]
  show ?thesis by (simp add: ni(1))
qed

end
