(* ===== verification/Gen_Db.thy ===== *)
theory Gen_Db
  imports Two9_Prelude "HOL-Library.Multiset" "HOL-Library.AList"
begin

text \<open>
  \<open>src/declarative/gen.c\<close>: the generation database.  Its directory is a record: the entries
  of \<open>generations/\<close> with their manifest, diff and pin mark, the target of the \<open>current\<close> link,
  and who holds the lock.  The manifest is the text that is written, read back by the line
  scanner of \<open>gen_db_get\<close>; \<open>write_diff\<close> reads the parent's manifest through cJSON, which is a
  parameter.  Paths are taken to be shorter than \<open>PATH_MAX\<close> and the disk never full.
\<close>

subsection \<open>Packages and manifests\<close>

record gen_pkg =
  pkg_name :: string
  pkg_version :: string
  pkg_store_path :: "string option"
  pkg_origin :: string

definition gen_pkg_create :: "string \<Rightarrow> string \<Rightarrow> string option \<Rightarrow> string \<Rightarrow> gen_pkg" where
  "gen_pkg_create name version store origin =
     \<lparr>pkg_name = name, pkg_version = version, pkg_store_path = store, pkg_origin = origin\<rparr>"

abbreviation dq :: char where
  "dq \<equiv> CHR 0x22"

definition quoted :: "string \<Rightarrow> string" where
  "quoted s = dq # s @ [dq]"

definition json_key :: "string \<Rightarrow> string" where
  "json_key k = quoted k @ '':''"

definition json_kv :: "string \<Rightarrow> string \<Rightarrow> string" where
  "json_kv k v = json_key k @ '' '' @ quoted v"

definition manifest_entry :: "gen_pkg \<Rightarrow> string" where
  "manifest_entry p =
     ''    {'' @ json_kv ''name'' (pkg_name p) @ '', '' @ json_kv ''version'' (pkg_version p)
     @ (case pkg_store_path p of None \<Rightarrow> [] | Some s \<Rightarrow> '', '' @ json_kv ''store_path'' s)
     @ '', '' @ json_kv ''origin'' (pkg_origin p) @ ''}''"

text \<open>The loop over the packages: a separator before every entry but the first.\<close>

fun manifest_entries :: "bool \<Rightarrow> gen_pkg list \<Rightarrow> string" where
  "manifest_entries first [] = []"
| "manifest_entries first (p # ps) =
     (if first then [] else '','' @ [c_nl]) @ manifest_entry p @ manifest_entries False ps"

definition write_manifest :: "int \<Rightarrow> int \<Rightarrow> gen_pkg list \<Rightarrow> string" where
  "write_manifest gid now packages =
     ''{'' @ [c_nl]
     @ ''  '' @ json_key ''id'' @ '' '' @ dec_int_str gid @ '','' @ [c_nl]
     @ ''  '' @ json_key ''timestamp'' @ '' '' @ dec_int_str now @ '','' @ [c_nl]
     @ ''  '' @ json_key ''packages'' @ '' ['' @ [c_nl]
     @ manifest_entries True packages
     @ [c_nl] @ ''  ]'' @ [c_nl] @ ''}'' @ [c_nl]"

text \<open>
  The scanner: the value after the first occurrence of the key on the line, up to the next
  quote, cut to the buffer.
\<close>

definition scan_field :: "string \<Rightarrow> nat \<Rightarrow> string \<Rightarrow> string option" where
  "scan_field key size_of_buf line =
     (case strstr_after (json_key key) line of
        None \<Rightarrow> None
      | Some s \<Rightarrow>
          (case split_first dq (dropWhile (\<lambda>c. c = CHR '' '' \<or> c = dq) s) of
             None \<Rightarrow> None
           | Some (v, _) \<Rightarrow> Some (take (size_of_buf - 1) v)))"

definition scan_line :: "string \<Rightarrow> gen_pkg option" where
  "scan_line line =
     (case scan_field ''name'' 256 line of
        None \<Rightarrow> None
      | Some name \<Rightarrow> Some (gen_pkg_create name
          (case scan_field ''version'' 64 line of None \<Rightarrow> ''unknown'' | Some v \<Rightarrow> v)
          (case scan_field ''store_path'' 4096 line of
             None \<Rightarrow> None | Some s \<Rightarrow> if s = [] then None else Some s)
          (case scan_field ''origin'' 32 line of None \<Rightarrow> ''repo'' | Some v \<Rightarrow> v)))"

definition read_manifest :: "string \<Rightarrow> gen_pkg list" where
  "read_manifest text = List.map_filter scan_line (c_fgets_lines 8192 text)"

subsection \<open>The database directory\<close>

record gen_dir =
  manifest :: "string option"
  diff :: "string option"
  pinned :: bool

record gen_db =
  generations :: "(string \<times> gen_dir) list"
  current_link :: "string option"

definition gen_db_open :: gen_db where
  "gen_db_open = \<lparr>generations = [], current_link = None\<rparr>"

text \<open>\<open>atoi\<close>: the conversion of \<open>strtol\<close>.\<close>

definition generation_path :: "string \<Rightarrow> int \<Rightarrow> string" where
  "generation_path root gid = root @ ''/generations/'' @ dec_int_str gid"

definition gen_db_current :: "gen_db \<Rightarrow> int" where
  "gen_db_current db =
     (case current_link db of
        None \<Rightarrow> 0
      | Some target \<Rightarrow>
          (case split_last (CHR ''/'') target of None \<Rightarrow> 0 | Some (_, b) \<Rightarrow> c_strtoll b))"

definition empty_dir :: gen_dir where
  "empty_dir = \<lparr>manifest = None, diff = None, pinned = False\<rparr>"

definition dir_of :: "gen_db \<Rightarrow> int \<Rightarrow> gen_dir option" where
  "dir_of db gid = map_of (generations db) (dec_int_str gid)"

text \<open>\<open>mkdirs\<close> keeps an existing directory with all it holds.\<close>

definition edit_dir :: "gen_db \<Rightarrow> int \<Rightarrow> (gen_dir \<Rightarrow> gen_dir) \<Rightarrow> gen_db" where
  "edit_dir db gid f =
     (let d = (case dir_of db gid of None \<Rightarrow> empty_dir | Some d \<Rightarrow> d) in
      db\<lparr>generations := AList.update (dec_int_str gid) (f d) (generations db)\<rparr>)"

subsection \<open>Diffs\<close>

text \<open>
  Name and version of the packages cJSON finds in the parent's manifest (\<open>?\<close> for a missing
  version), last one first, because each is put in front of the list.
\<close>

definition parent_packages ::
    "(string \<Rightarrow> (string \<times> string option) list) \<Rightarrow> gen_db \<Rightarrow> int \<Rightarrow> (string \<times> string) list" where
  "parent_packages cjson_packages db parent_id =
     (if parent_id > 0 then
        (case dir_of db parent_id of
           None \<Rightarrow> []
         | Some d \<Rightarrow>
             (case manifest d of
                None \<Rightarrow> []
              | Some text \<Rightarrow>
                  foldl (\<lambda>acc (n, v). (n, case v of None \<Rightarrow> ''?'' | Some v \<Rightarrow> v) # acc) []
                    (cjson_packages text)))
      else [])"

definition diff_added :: "(string \<times> string) list \<Rightarrow> gen_pkg list \<Rightarrow> (string \<times> string) list" where
  "diff_added parent packages =
     map (\<lambda>p. (pkg_name p, pkg_version p))
       (filter (\<lambda>p. \<not> (\<exists>pp \<in> set parent. fst pp = pkg_name p)) packages)"

definition diff_removed :: "(string \<times> string) list \<Rightarrow> gen_pkg list \<Rightarrow> (string \<times> string) list" where
  "diff_removed parent packages =
     filter (\<lambda>pp. \<not> (\<exists>p \<in> set packages. pkg_name p = fst pp)) parent"

definition diff_changed ::
    "(string \<times> string) list \<Rightarrow> gen_pkg list \<Rightarrow> (string \<times> string \<times> string) list" where
  "diff_changed parent packages =
     List.map_filter (\<lambda>p.
       (case map_of parent (pkg_name p) of
          None \<Rightarrow> None
        | Some old \<Rightarrow>
            if old \<noteq> pkg_version p then Some (pkg_name p, old, pkg_version p) else None)) packages"

fun join_comma :: "string list \<Rightarrow> string" where
  "join_comma [] = []"
| "join_comma [s] = s"
| "join_comma (s # ss) = s @ '', '' @ join_comma ss"

definition name_version :: "string \<times> string \<Rightarrow> string" where
  "name_version nv = ''{'' @ json_kv ''name'' (fst nv) @ '', '' @ json_kv ''version'' (snd nv) @ ''}''"

definition name_old_new :: "string \<times> string \<times> string \<Rightarrow> string" where
  "name_old_new c = (case c of (n, old, new) \<Rightarrow>
     ''{'' @ json_kv ''name'' n @ '', '' @ json_kv ''old'' old @ '', '' @ json_kv ''new'' new @ ''}'')"

definition write_diff ::
    "(string \<Rightarrow> (string \<times> string option) list) \<Rightarrow> gen_db \<Rightarrow> int \<Rightarrow> gen_pkg list \<Rightarrow> string" where
  "write_diff cjson_packages db parent_id packages =
     (let parent = parent_packages cjson_packages db parent_id in
      ''{'' @ [c_nl]
      @ ''  '' @ json_key ''parent'' @ '' '' @ dec_int_str parent_id @ '','' @ [c_nl]
      @ ''  '' @ json_key ''total'' @ '' '' @ dec_str (length packages) @ '','' @ [c_nl]
      @ ''  '' @ json_key ''added'' @ '' ['' @ join_comma (map name_version (diff_added parent packages)) @ ''],'' @ [c_nl]
      @ ''  '' @ json_key ''removed'' @ '' ['' @ join_comma (map name_version (diff_removed parent packages)) @ ''],'' @ [c_nl]
      @ ''  '' @ json_key ''changed'' @ '' ['' @ join_comma (map name_old_new (diff_changed parent packages)) @ '']'' @ [c_nl]
      @ ''}'' @ [c_nl])"

subsection \<open>Commit, rollback, pin\<close>

definition gen_db_commit ::
    "(string \<Rightarrow> (string \<times> string option) list) \<Rightarrow> string \<Rightarrow> int \<Rightarrow> gen_db \<Rightarrow> gen_pkg list
       \<Rightarrow> gen_db \<times> int" where
  "gen_db_commit cjson_packages root now db packages =
     (let parent_id = gen_db_current db;
          next_id = parent_id + 1;
          db1 = edit_dir db next_id (\<lambda>d. d\<lparr>manifest := Some (write_manifest next_id now packages)\<rparr>);
          db2 = edit_dir db1 next_id (\<lambda>d. d\<lparr>diff := Some (write_diff cjson_packages db1 parent_id packages)\<rparr>)
      in (db2\<lparr>current_link := Some (generation_path root next_id)\<rparr>, next_id))"

definition gen_db_rollback :: "string \<Rightarrow> gen_db \<Rightarrow> int \<Rightarrow> gen_db \<times> int" where
  "gen_db_rollback root db target_id =
     (case dir_of db target_id of
        None \<Rightarrow> (db, - 1)
      | Some d \<Rightarrow> (db\<lparr>current_link := Some (generation_path root target_id)\<rparr>, 0))"

text \<open>Pinning a generation that does not exist fails, because its directory is missing.\<close>

definition set_pinned :: "gen_db \<Rightarrow> int \<Rightarrow> bool \<Rightarrow> gen_db \<times> int" where
  "set_pinned db gid pin =
     (case dir_of db gid of
        None \<Rightarrow> (db, if pin then - 1 else 0)
      | Some d \<Rightarrow> (edit_dir db gid (\<lambda>d. d\<lparr>pinned := pin\<rparr>), 0))"

definition gen_db_pin :: "gen_db \<Rightarrow> int \<Rightarrow> gen_db \<times> int" where
  "gen_db_pin db gid = set_pinned db gid True"

record gen =
  gen_id :: int
  packages :: "gen_pkg list"
  is_pinned :: bool

definition gen_db_get :: "gen_db \<Rightarrow> int \<Rightarrow> gen option" where
  "gen_db_get db gid =
     (case dir_of db gid of
        None \<Rightarrow> None
      | Some d \<Rightarrow> Some \<lparr>gen_id = gid,
          packages = (case manifest d of None \<Rightarrow> [] | Some text \<Rightarrow> read_manifest text),
          is_pinned = pinned d\<rparr>)"

subsection \<open>Listing\<close>

text \<open>The inner loop of the exchange sort: position \<open>i\<close> against every later one.\<close>

fun exchange_inner :: "nat \<Rightarrow> nat list \<Rightarrow> int list \<Rightarrow> int list" where
  "exchange_inner i [] xs = xs"
| "exchange_inner i (j # js) xs =
     exchange_inner i js (if xs ! j > xs ! i then xs[i := xs ! j, j := xs ! i] else xs)"

definition exchange_sort :: "int list \<Rightarrow> int list" where
  "exchange_sort xs =
     foldl (\<lambda>xs i. exchange_inner i [i + 1..<length xs] xs) xs [0..<length xs]"

definition gen_db_list :: "gen_db \<Rightarrow> int list" where
  "gen_db_list db =
     exchange_sort (List.map_filter (\<lambda>e.
       (let d_name = fst e; gid = c_strtoll d_name in
        if take 1 d_name = ''.'' then None else if gid \<le> 0 then None else Some gid)) (generations db))"

text \<open>
  Step 5 of \<open>cmd_gc\<close>: with a current generation, every other listed generation that is not
  pinned is removed.
\<close>

definition gc_generations :: "gen_db \<Rightarrow> gen_db" where
  "gc_generations db =
     (let current_gen = gen_db_current db in
      if current_gen \<le> 0 then db
      else foldl (\<lambda>db gid.
        if gid = current_gen then db
        else if (case dir_of db gid of None \<Rightarrow> False | Some d \<Rightarrow> pinned d) then db
        else db\<lparr>generations := AList.delete (dec_int_str gid) (generations db)\<rparr>) db (gen_db_list db))"

subsection \<open>The lock\<close>

text \<open>
  The processes whose handle has the lock file open and locked.  \<open>flock\<close> with \<open>LOCK_NB\<close>
  fails while any open file description holds the lock, one of the same process included.
\<close>

record lock_state =
  flock_holder :: "nat option"
  lock_fd :: "nat \<Rightarrow> bool"

definition gen_db_lock :: "lock_state \<Rightarrow> nat \<Rightarrow> lock_state \<times> int" where
  "gen_db_lock st p =
     (if flock_holder st = None
      then (st\<lparr>flock_holder := Some p, lock_fd := (lock_fd st)(p := True)\<rparr>, 0)
      else (st, - 1))"

definition gen_db_unlock :: "lock_state \<Rightarrow> nat \<Rightarrow> lock_state" where
  "gen_db_unlock st p =
     (if \<not> lock_fd st p then st
      else st\<lparr>flock_holder := None, lock_fd := (lock_fd st)(p := False)\<rparr>)"

subsection \<open>The manifest is read back\<close>


text \<open>
  A value the manifest can carry: no quote, newline or NUL, not empty, not starting with a
  space, and shorter than the reader's buffer.
\<close>

definition plain_field :: "nat \<Rightarrow> string \<Rightarrow> bool" where
  "plain_field n s \<longleftrightarrow> s \<noteq> [] \<and> hd s \<noteq> CHR '' '' \<and> length s < n
     \<and> dq \<notin> set s \<and> c_nl \<notin> set s \<and> c_nul \<notin> set s"

definition plain_pkg :: "gen_pkg \<Rightarrow> bool" where
  "plain_pkg p \<longleftrightarrow> plain_field 256 (pkg_name p) \<and> plain_field 64 (pkg_version p)
     \<and> (case pkg_store_path p of None \<Rightarrow> True | Some s \<Rightarrow> plain_field 4096 s)
     \<and> plain_field 32 (pkg_origin p)"

lemma json_key_eq: "json_key k = dq # k @ [dq, CHR '':'']"
  by (simp add: json_key_def quoted_def)

lemma starts_with_append: "starts_with (a @ b) (a @ c) = starts_with b c"
  by (induction a) simp_all

lemma no_key_at_value:
  assumes "dq \<notin> set v" and "dq \<notin> set k" and "c \<noteq> CHR '':''"
  shows "\<not> starts_with (k @ [dq, CHR '':'']) (v @ dq # c # r)"
proof
  assume "starts_with (k @ [dq, CHR '':'']) (v @ dq # c # r)"
  then obtain t where "k @ dq # (CHR '':'' # t) = v @ dq # (c # r)" by (auto simp: starts_with_iff)
  then have "split_first dq (k @ dq # (CHR '':'' # t)) = split_first dq (v @ dq # (c # r))" by simp
  with assms show False by simp
qed

lemma no_key_at_other_key:
  assumes "dq \<notin> set k" and "dq \<notin> set k'" and "k \<noteq> k'"
  shows "\<not> starts_with (k @ [dq, CHR '':'']) (k' @ dq # r)"
proof
  assume "starts_with (k @ [dq, CHR '':'']) (k' @ dq # r)"
  then obtain t where "k @ dq # (CHR '':'' # t) = k' @ dq # r" by (auto simp: starts_with_iff)
  then have "split_first dq (k @ dq # (CHR '':'' # t)) = split_first dq (k' @ dq # r)" by simp
  with assms show False by simp
qed

lemma strstr_after_quoted:
  assumes "\<not> starts_with (k @ [dq, CHR '':'']) (s @ dq # c # r)" and "dq \<notin> set s"
    and "k \<noteq> []" and "c \<noteq> hd k"
  shows "strstr_after (json_key k) (dq # s @ dq # c # r) = strstr_after (json_key k) (c # r)"
proof -
  have "strstr_after (json_key k) (dq # s @ dq # c # r) = strstr_after (json_key k) (s @ dq # c # r)"
    using assms(1) by (simp add: json_key_eq strstr_after.simps)
  also have "\<dots> = strstr_after (json_key k) (dq # c # r)"
    unfolding json_key_eq using assms(2) by (rule strstr_after_skip_all)
  also have "\<dots> = strstr_after (json_key k) (c # r)"
    using assms(3,4) by (cases k) (simp_all add: json_key_eq strstr_after.simps)
  finally show ?thesis .
qed

lemma skip_value:
  assumes "dq \<notin> set v" and "dq \<notin> set k" and "k \<noteq> []" and "c \<noteq> CHR '':''" and "c \<noteq> hd k"
  shows "strstr_after (json_key k) (dq # v @ dq # c # r) = strstr_after (json_key k) (c # r)"
  using assms no_key_at_value by (intro strstr_after_quoted) auto

lemma skip_key:
  assumes "dq \<notin> set k" and "dq \<notin> set k'" and "k \<noteq> k'" and "k \<noteq> []" and "hd k \<noteq> CHR '':''"
  shows "strstr_after (json_key k) (json_key k' @ r) = strstr_after (json_key k) r"
proof -
  have "strstr_after (json_key k) (dq # k' @ dq # CHR '':'' # r) = strstr_after (json_key k) (CHR '':'' # r)"
    using assms no_key_at_other_key by (intro strstr_after_quoted) auto
  also have "\<dots> = strstr_after (json_key k) r" by (simp add: json_key_eq strstr_after.simps)
  finally show ?thesis by (simp add: json_key_eq [of k'])
qed

lemma skip_plain: "dq \<notin> set a \<Longrightarrow> strstr_after (json_key k) (a @ r) = strstr_after (json_key k) r"
  unfolding json_key_eq by (rule strstr_after_skip_all)

lemma skip_char: "c \<noteq> dq \<Longrightarrow> strstr_after (json_key k) (c # r) = strstr_after (json_key k) r"
  using skip_plain [of "[c]" k r] by simp

lemma skip_kv:
  assumes "dq \<notin> set k" and "dq \<notin> set k'" and "k \<noteq> k'" and "k \<noteq> []" and "hd k \<noteq> CHR '':''"
    and "dq \<notin> set v" and "c \<noteq> CHR '':''" and "c \<noteq> hd k" and "c \<noteq> dq"
  shows "strstr_after (json_key k) (json_kv k' v @ c # r) = strstr_after (json_key k) r"
proof -
  have "strstr_after (json_key k) (json_kv k' v @ c # r) =
      strstr_after (json_key k) (dq # v @ dq # c # r)"
    using assms(1-5) by (simp add: json_kv_def quoted_def skip_key skip_char)
  also have "\<dots> = strstr_after (json_key k) r"
    using assms by (simp add: skip_value skip_char)
  finally show ?thesis .
qed

lemma scan_here:
  assumes "plain_field n v"
  shows "(case strstr_after (json_key k) (json_kv k v @ r) of None \<Rightarrow> None
    | Some s \<Rightarrow> (case split_first dq (dropWhile (\<lambda>c. c = CHR '' '' \<or> c = dq) s) of
        None \<Rightarrow> None | Some (v, _) \<Rightarrow> Some (take (n - 1) v))) = Some v"
proof -
  obtain c cs where v: "v = c # cs" using assms by (cases v) (auto simp: plain_field_def)
  with assms have "c \<noteq> CHR '' ''" "c \<noteq> dq" "length v \<le> n - 1" "dq \<notin> set v"
    by (auto simp: plain_field_def)
  then have "dropWhile (\<lambda>c. c = CHR '' '' \<or> c = dq) ('' '' @ quoted v @ r) = v @ dq # r"
    by (simp add: quoted_def v)
  with \<open>length v \<le> n - 1\<close> \<open>dq \<notin> set v\<close> show ?thesis
    by (simp add: json_kv_def strstr_after_here)
qed

lemma plain_no_dq: "plain_field n v \<Longrightarrow> dq \<notin> set v"
  by (simp add: plain_field_def)

definition entry_tail :: "gen_pkg \<Rightarrow> string" where
  "entry_tail p = (case pkg_store_path p of None \<Rightarrow> [] | Some s \<Rightarrow> '', '' @ json_kv ''store_path'' s)
     @ '', '' @ json_kv ''origin'' (pkg_origin p) @ ''}''"

lemma scan_entry:
  assumes p: "plain_pkg p" and e: "dq \<notin> set e"
  shows "scan_line (manifest_entry p @ e) = Some p"
proof -
  have n: "plain_field 256 (pkg_name p)" "plain_field 64 (pkg_version p)" "plain_field 32 (pkg_origin p)"
    using p by (auto simp: plain_pkg_def)
  have entry: "manifest_entry p @ e = ''    {'' @ json_kv ''name'' (pkg_name p) @ CHR '','' # '' '' @
      json_kv ''version'' (pkg_version p) @ entry_tail p @ e"
    by (simp add: manifest_entry_def entry_tail_def)
  obtain tl where tl: "entry_tail p @ e = CHR '','' # '' '' @ tl"
    by (cases "pkg_store_path p") (auto simp: entry_tail_def)
  have name: "scan_field ''name'' 256 (manifest_entry p @ e) = Some (pkg_name p)"
    unfolding scan_field_def entry using skip_plain [of "''    {''" "''name''"] scan_here [OF n(1), of "''name''"]
    by simp
  have rest: "strstr_after (json_key k) (manifest_entry p @ e) =
      strstr_after (json_key k) (json_kv ''version'' (pkg_version p) @ entry_tail p @ e)"
    if "dq \<notin> set k" "k \<noteq> []" "hd k \<noteq> CHR '':''" "hd k \<noteq> CHR '',''" "k \<noteq> ''name''" for k
    unfolding entry using that plain_no_dq [OF n(1)]
      skip_plain [of "''    {''" k] skip_plain [of "'' ''" k]
    by (simp add: skip_kv skip_char)
  have version: "scan_field ''version'' 64 (manifest_entry p @ e) = Some (pkg_version p)"
    unfolding scan_field_def using scan_here [OF n(2), of "''version''"] by (simp add: rest)
  have rest2: "strstr_after (json_key k) (manifest_entry p @ e) = strstr_after (json_key k) (entry_tail p @ e)"
    if "dq \<notin> set k" "k \<noteq> []" "hd k \<noteq> CHR '':''" "hd k \<noteq> CHR '',''" "k \<noteq> ''name''" "k \<noteq> ''version''" for k
    unfolding rest [OF that(1-5)] tl using that plain_no_dq [OF n(2)]
    by (simp add: skip_kv skip_char)
  show ?thesis
  proof (cases "pkg_store_path p")
    case None
    then have t: "entry_tail p @ e = CHR '','' # CHR '' '' # json_kv ''origin'' (pkg_origin p) @ ''}'' @ e"
      by (simp add: entry_tail_def)
    have "strstr_after (json_key ''store_path'') (manifest_entry p @ e) = strstr_after (json_key ''store_path'') e"
      unfolding rest2 [of "''store_path''", simplified] t using plain_no_dq [OF n(3)]
      by (simp add: skip_kv skip_char)
    also have "\<dots> = None" using skip_plain [OF e, of "''store_path''" "[]"] by (simp add: json_key_eq strstr_after.simps)
    finally have "scan_field ''store_path'' 4096 (manifest_entry p @ e) = None"
      by (simp add: scan_field_def)
    moreover have "scan_field ''origin'' 32 (manifest_entry p @ e) = Some (pkg_origin p)"
      unfolding scan_field_def rest2 [of "''origin''", simplified] t
      using scan_here [OF n(3), of "''origin''"] by (simp add: skip_char)
    ultimately show ?thesis
      using None by (simp add: scan_line_def name version gen_pkg_create_def)
  next
    case (Some s)
    then have s: "plain_field 4096 s" using p by (simp add: plain_pkg_def)
    have t: "entry_tail p @ e = CHR '','' # CHR '' '' # json_kv ''store_path'' s @ CHR '','' # CHR '' '' #
        json_kv ''origin'' (pkg_origin p) @ ''}'' @ e"
      using Some by (simp add: entry_tail_def)
    have "scan_field ''store_path'' 4096 (manifest_entry p @ e) = Some s"
      unfolding scan_field_def rest2 [of "''store_path''", simplified] t
      using scan_here [OF s, of "''store_path''"] by (simp add: skip_char)
    moreover have "strstr_after (json_key ''origin'') (manifest_entry p @ e) =
        strstr_after (json_key ''origin'') (json_kv ''origin'' (pkg_origin p) @ ''}'' @ e)"
      unfolding rest2 [of "''origin''", simplified] t using plain_no_dq [OF s]
      by (simp add: skip_kv skip_char)
    then have "scan_field ''origin'' 32 (manifest_entry p @ e) = Some (pkg_origin p)"
      unfolding scan_field_def using scan_here [OF n(3), of "''origin''"] by simp
    moreover have "s \<noteq> []" using s by (simp add: plain_field_def)
    ultimately show ?thesis
      using Some by (simp add: scan_line_def name version gen_pkg_create_def)
  qed
qed


fun entry_lines :: "gen_pkg list \<Rightarrow> string list" where
  "entry_lines [] = [[]]"
| "entry_lines [p] = [manifest_entry p]"
| "entry_lines (p # q # ps) = (manifest_entry p @ '','') # entry_lines (q # ps)"

lemma entries_are_lines:
  "manifest_entries True ps @ [c_nl] = concat (map (\<lambda>l. l @ [c_nl]) (entry_lines ps))"
  by (induction ps rule: entry_lines.induct) simp_all

definition manifest_lines :: "int \<Rightarrow> int \<Rightarrow> gen_pkg list \<Rightarrow> string list" where
  "manifest_lines gid now ps =
     [''{'', ''  '' @ json_key ''id'' @ '' '' @ dec_int_str gid @ '','',
      ''  '' @ json_key ''timestamp'' @ '' '' @ dec_int_str now @ '','',
      ''  '' @ json_key ''packages'' @ '' [''] @ entry_lines ps @ [''  ]'', ''}'']"

lemma manifest_is_lines:
  "write_manifest gid now ps = concat (map (\<lambda>l. l @ [c_nl]) (manifest_lines gid now ps))"
  unfolding write_manifest_def manifest_lines_def
  using entries_are_lines [of ps] by (simp flip: append_assoc)

lemma dec_int_chars: "c \<in> set (dec_int_str i) \<Longrightarrow> c = CHR ''-'' \<or> c_isdigit c"
  using dec_str_digits by (auto simp: dec_int_str_def split: if_splits)

lemma dec_int_plain:
  "dq \<notin> set (dec_int_str i)" "c_nl \<notin> set (dec_int_str i)" "c_nul \<notin> set (dec_int_str i)"
  using dec_int_chars [of _ i] by (force simp: c_isdigit_def)+

lemma length_dec_str: "n < 10 ^ k \<Longrightarrow> 0 < k \<Longrightarrow> length (dec_str n) \<le> k"
proof (induction k arbitrary: n)
  case (Suc k)
  show ?case
  proof (cases "n < 10")
    case True
    then show ?thesis by (subst dec_str.simps) simp
  next
    case False
    then have "0 < k" using Suc.prems by (cases k) auto
    moreover have "n div 10 < 10 ^ k" using Suc.prems(1) by (simp add: less_mult_imp_div_less mult.commute)
    ultimately show ?thesis using Suc.IH False by (subst dec_str.simps) simp
  qed
qed simp

lemma length_dec_int: "\<bar>i\<bar> < 2 ^ 63 \<Longrightarrow> length (dec_int_str i) \<le> 20"
proof -
  assume i: "\<bar>i\<bar> < 2 ^ 63"
  then have "nat \<bar>i\<bar> < 10 ^ 19" by simp
  then have "length (dec_str (nat \<bar>i\<bar>)) \<le> 19" by (rule length_dec_str) simp
  then show ?thesis by (auto simp: dec_int_str_def)
qed

lemma plain_field_chars: "plain_field n v \<Longrightarrow> c_nl \<notin> set v \<and> c_nul \<notin> set v \<and> length v < n"
  by (simp add: plain_field_def)

lemma json_kv_chars:
  "c_nl \<notin> set k \<Longrightarrow> c_nl \<notin> set v \<Longrightarrow> c_nl \<notin> set (json_kv k v)"
  "c_nul \<notin> set k \<Longrightarrow> c_nul \<notin> set v \<Longrightarrow> c_nul \<notin> set (json_kv k v)"
  "length (json_kv k v) = length k + length v + 6"
  by (simp_all add: json_kv_def json_key_eq quoted_def)

lemma manifest_entry_chars:
  assumes "plain_pkg p"
  shows "c_nl \<notin> set (manifest_entry p)" "c_nul \<notin> set (manifest_entry p)"
    "length (manifest_entry p) < 8000"
  using assms
  by (auto simp: manifest_entry_def plain_pkg_def json_kv_chars split: option.splits
      dest!: plain_field_chars)

lemma entry_lines_chars:
  assumes "\<forall>p \<in> set ps. plain_pkg p"
  shows "\<forall>l \<in> set (entry_lines ps). c_nl \<notin> set l \<and> c_nul \<notin> set l \<and> length l + 1 < 8192"
  using assms manifest_entry_chars
  by (induction ps rule: entry_lines.induct) (fastforce)+

lemma scan_plain_line: "dq \<notin> set l \<Longrightarrow> scan_line l = None"
  using skip_plain [of l "''name''" "[]"]
  by (simp add: scan_line_def scan_field_def json_key_eq strstr_after.simps)

lemma scan_header_line:
  assumes "dq \<notin> set k" and "k \<noteq> ''name''" and "dq \<notin> set r"
  shows "scan_line (''  '' @ json_key k @ r) = None"
proof -
  have "strstr_after (json_key ''name'') (''  '' @ json_key k @ r) = strstr_after (json_key ''name'') r"
    using assms(1,2) skip_plain [of "''  ''" "''name''"] by (simp add: skip_key skip_char)
  also have "\<dots> = None"
    using skip_plain [OF assms(3), of "''name''" "[]"] by (simp add: json_key_eq strstr_after.simps)
  finally show ?thesis by (simp add: scan_line_def scan_field_def)
qed

lemma scan_entry_lines:
  assumes "\<forall>p \<in> set ps. plain_pkg p"
  shows "List.map_filter scan_line (map (\<lambda>l. l @ [c_nl]) (entry_lines ps)) = ps"
  using assms
proof (induction ps rule: entry_lines.induct)
  case 1
  show ?case by (simp add: List.map_filter_def scan_plain_line)
next
  case (2 p)
  then show ?case using scan_entry [of p "[c_nl]"] by (simp add: List.map_filter_def)
next
  case (3 p q ps)
  then show ?case using scan_entry [of p "'','' @ [c_nl]"] by (simp add: List.map_filter_def)
qed

lemma read_write_manifest:
  assumes "\<forall>p \<in> set ps. plain_pkg p" and "\<bar>gid\<bar> < 2 ^ 63" and "\<bar>now\<bar> < 2 ^ 63"
  shows "read_manifest (write_manifest gid now ps) = ps"
proof -
  have "\<forall>l \<in> set (manifest_lines gid now ps). c_nl \<notin> set l \<and> c_nul \<notin> set l \<and> length l + 1 < 8192"
    using entry_lines_chars [OF assms(1)] length_dec_int [OF assms(2)] length_dec_int [OF assms(3)]
    by (auto simp: manifest_lines_def json_key_eq dec_int_plain)
  then have "c_fgets_lines 8192 (write_manifest gid now ps) = map (\<lambda>l. l @ [c_nl]) (manifest_lines gid now ps)"
    unfolding manifest_is_lines by (rule c_fgets_lines_all)
  moreover have "scan_line (''  '' @ json_key ''id'' @ '' '' @ dec_int_str gid @ '','' @ [c_nl]) = None"
    "scan_line (''  '' @ json_key ''timestamp'' @ '' '' @ dec_int_str now @ '','' @ [c_nl]) = None"
    "scan_line (''  '' @ json_key ''packages'' @ '' [''  @ [c_nl]) = None"
    by (rule scan_header_line; simp add: dec_int_plain)+
  moreover have "List.map_filter f (xs @ ys) = List.map_filter f xs @ List.map_filter f ys" for f :: "string \<Rightarrow> gen_pkg option" and xs ys
    by (simp add: List.map_filter_def)
  ultimately show ?thesis
    using scan_entry_lines [OF assms(1)]
    by (simp add: read_manifest_def manifest_lines_def List.map_filter_simps scan_plain_line)
qed

subsection \<open>Committing\<close>


lemma current_of_path:
  assumes "0 < gid" and "gid < 2 ^ 63"
  shows "gen_db_current (db\<lparr>current_link := Some (generation_path root gid)\<rparr>) = gid"
proof -
  have "CHR ''/'' \<notin> set (dec_int_str gid)"
    using dec_int_chars [of _ gid] by (force simp: c_isdigit_def)
  then have "split_last (CHR ''/'') ((root @ ''/generations'') @ CHR ''/'' # dec_int_str gid) =
      Some (root @ ''/generations'', dec_int_str gid)"
    by (rule split_last_append)
  then show ?thesis
    using assms by (simp add: gen_db_current_def generation_path_def c_strtoll_dec_int)
qed

lemma dir_of_edit:
  "dir_of (edit_dir db g f) h =
     (if h = g then Some (f (case dir_of db g of None \<Rightarrow> empty_dir | Some d \<Rightarrow> d)) else dir_of db h)"
  by (simp add: dir_of_def edit_dir_def Let_def update_conv' dec_int_str_inj)

lemma dir_of_link [simp]: "dir_of (db\<lparr>current_link := l\<rparr>) = dir_of db"
  by (rule ext) (simp add: dir_of_def)

lemma commit_dir:
  "dir_of (fst (gen_db_commit cj root now db ps)) h =
     (if h = gen_db_current db + 1
      then Some \<lparr>manifest = Some (write_manifest h now ps),
         diff = Some (write_diff cj (edit_dir db h (\<lambda>d. d\<lparr>manifest := Some (write_manifest h now ps)\<rparr>))
           (gen_db_current db) ps),
         pinned = (case dir_of db h of None \<Rightarrow> False | Some d \<Rightarrow> pinned d)\<rparr>
      else dir_of db h)"
  by (simp add: gen_db_commit_def Let_def dir_of_edit empty_dir_def split: option.split)


definition vim_pkg :: gen_pkg where
  "vim_pkg = gen_pkg_create ''vim'' ''9.1'' (Some ''/nix/store/a-vim-9.1'') ''repo''"


text \<open>
  A commit after a rollback destroys history: the number it takes is the one after the
  generation rolled back to, so the manifest of the next generation is overwritten, even
  when that generation is pinned.
\<close>

definition two_generations :: gen_db where
  "two_generations =
     fst (gen_db_pin
       (fst (gen_db_commit (\<lambda>_. []) ''/var'' 0 (fst (gen_db_commit (\<lambda>_. []) ''/var'' 0 gen_db_open [])) [vim_pkg])) 2)"

theorem commit_after_rollback_overwrites:
  "gen_db_get two_generations 2 = Some \<lparr>gen_id = 2, packages = [vim_pkg], is_pinned = True\<rparr> \<and>
   (let (db, rc) = gen_db_rollback ''/var'' two_generations 1;
        (db', n) = gen_db_commit (\<lambda>_. []) ''/var'' 0 db []
    in rc = 0 \<and> n = 2 \<and> gen_db_get db' 2 = Some \<lparr>gen_id = 2, packages = [], is_pinned = True\<rparr>)"
  by code_simp

subsection \<open>Listing\<close>

lemma exchange_inner_spec:
  assumes "\<forall>j \<in> set js. i < j \<and> j < length xs" and "distinct js" and "i < length xs"
  defines "ys \<equiv> exchange_inner i js xs"
  shows "length ys = length xs \<and> mset ys = mset xs
    \<and> (\<forall>b < length xs. b \<noteq> i \<and> b \<notin> set js \<longrightarrow> ys ! b = xs ! b)
    \<and> (\<forall>b < length xs. i \<le> b \<longrightarrow> (\<exists>c < length xs. i \<le> c \<and> ys ! b = xs ! c))
    \<and> xs ! i \<le> ys ! i \<and> (\<forall>j \<in> set js. ys ! j \<le> ys ! i)"
  using assms(1-3) unfolding ys_def
proof (induction i js xs rule: exchange_inner.induct)
  case (1 i xs)
  then show ?case by auto
next
  case (2 i j js xs)
  define zs where "zs = (if xs ! j > xs ! i then xs[i := xs ! j, j := xs ! i] else xs)"
  have j: "i < j" "j < length xs" "j \<notin> set js" using "2.prems" by auto
  have z: "length zs = length xs" "mset zs = mset xs" "zs ! j \<le> zs ! i" "xs ! i \<le> zs ! i"
    "\<And>b. b < length xs \<Longrightarrow> b \<noteq> i \<Longrightarrow> b \<noteq> j \<Longrightarrow> zs ! b = xs ! b"
    using j "2.prems"(3) mset_swap [of j xs i] by (auto simp: zs_def nth_list_update)
  have zc: "\<exists>c < length xs. i \<le> c \<and> zs ! b = xs ! c" if "b < length xs" "i \<le> b" for b
  proof -
    have "zs ! b = xs ! b \<or> zs ! b = xs ! i \<or> zs ! b = xs ! j"
      using that(1) j "2.prems"(3) by (auto simp: zs_def nth_list_update)
    then show ?thesis using that j "2.prems"(3) by (metis less_imp_le_nat order_refl)
  qed
  have IH: "length (exchange_inner i js zs) = length zs \<and> mset (exchange_inner i js zs) = mset zs
    \<and> (\<forall>b < length zs. b \<noteq> i \<and> b \<notin> set js \<longrightarrow> exchange_inner i js zs ! b = zs ! b)
    \<and> (\<forall>b < length zs. i \<le> b \<longrightarrow> (\<exists>c < length zs. i \<le> c \<and> exchange_inner i js zs ! b = zs ! c))
    \<and> zs ! i \<le> exchange_inner i js zs ! i \<and> (\<forall>j \<in> set js. exchange_inner i js zs ! j \<le> exchange_inner i js zs ! i)"
    using "2.IH" "2.prems" z(1) unfolding zs_def by simp
  have e: "exchange_inner i (j # js) xs = exchange_inner i js zs" by (simp add: zs_def)
  have "\<exists>c < length xs. i \<le> c \<and> exchange_inner i js zs ! b = xs ! c" if b: "b < length xs" "i \<le> b" for b
  proof -
    obtain c where "c < length zs" "i \<le> c" "exchange_inner i js zs ! b = zs ! c" using IH b z(1) by auto
    with zc [of c] z(1) show ?thesis by auto
  qed
  moreover have "exchange_inner i js zs ! j = zs ! j" using IH j z(1) by auto
  ultimately show ?case unfolding e using IH z j by (auto intro: order_trans)
qed

definition sorted_upto :: "nat \<Rightarrow> int list \<Rightarrow> bool" where
  "sorted_upto k xs \<longleftrightarrow> (\<forall>a < k. \<forall>b < length xs. a < b \<longrightarrow> xs ! b \<le> xs ! a)"

lemma exchange_outer:
  assumes "k \<le> length xs"
  defines "ys \<equiv> foldl (\<lambda>xs i. exchange_inner i [i + 1..<length xs] xs) xs [0..<k]"
  shows "length ys = length xs \<and> mset ys = mset xs \<and> sorted_upto k ys"
  using assms(1) unfolding ys_def
proof (induction k)
  case 0
  then show ?case by (simp add: sorted_upto_def)
next
  case (Suc k)
  define ws where "ws = foldl (\<lambda>xs i. exchange_inner i [i + 1..<length xs] xs) xs [0..<k]"
  define ys where "ys = exchange_inner k [k + 1..<length ws] ws"
  have IH: "length ws = length xs" "mset ws = mset xs" "sorted_upto k ws"
    using Suc unfolding ws_def by simp_all
  have k: "k < length ws" using Suc.prems IH(1) by simp
  have js: "\<forall>j \<in> set [k + 1..<length ws]. k < j \<and> j < length ws" by auto
  note spec = exchange_inner_spec [OF js distinct_upt k, folded ys_def]
  have low: "ys ! a = ws ! a" if "a < k" for a using spec that k by auto
  have "sorted_upto (Suc k) ys"
    unfolding sorted_upto_def
  proof (intro allI impI)
    fix a b assume ab: "a < Suc k" "b < length ys" "a < b"
    show "ys ! b \<le> ys ! a"
    proof (cases "a = k")
      case True
      then show ?thesis using spec ab by auto
    next
      case False
      then have a: "a < k" using ab by simp
      show ?thesis
      proof (cases "b < k")
        case True
        then show ?thesis using IH(3) a ab low k by (simp add: sorted_upto_def)
      next
        case False
        then obtain c where "c < length ws" "k \<le> c" "ys ! b = ws ! c" using spec ab by auto
        then show ?thesis using IH(3) a low by (simp add: sorted_upto_def)
      qed
    qed
  qed
  moreover have "foldl (\<lambda>xs i. exchange_inner i [i + 1..<length xs] xs) xs [0..<Suc k] = ys"
    by (simp add: ys_def ws_def)
  ultimately show ?case using spec IH by simp
qed

lemma exchange_sort_spec:
  "mset (exchange_sort xs) = mset xs" "sorted_wrt (\<ge>) (exchange_sort xs)"
  using exchange_outer [of "length xs" xs] unfolding exchange_sort_def [symmetric]
  by (auto simp: sorted_wrt_iff_nth_less sorted_upto_def)


text \<open>Every entry is named after a positive number and appears once.\<close>

definition gen_ok :: "gen_db \<Rightarrow> bool" where
  "gen_ok db \<longleftrightarrow> distinct (map fst (generations db)) \<and>
     (\<forall>e \<in> set (generations db). \<exists>g. 0 < g \<and> g < 2 ^ 63 \<and> fst e = dec_int_str g)"

lemma dec_int_str_not_hidden: "0 < g \<Longrightarrow> take 1 (dec_int_str g) \<noteq> ''.''"
  using dec_str_digits [of "nat g"] by (cases "dec_str (nat g)") (auto simp: dec_int_str_def c_isdigit_def)

definition listed :: "string \<times> gen_dir \<Rightarrow> int option" where
  "listed e = (let d_name = fst e; gid = c_strtoll d_name in
     if take 1 d_name = ''.'' then None else if gid \<le> 0 then None else Some gid)"

lemma listed_ok: "0 < g \<Longrightarrow> g < 2 ^ 63 \<Longrightarrow> fst e = dec_int_str g \<Longrightarrow> listed e = Some g"
  using dec_int_str_not_hidden [of g] by (simp add: listed_def c_strtoll_dec_int)

lemma map_filter_listed:
  assumes "distinct (map fst es)" and "\<forall>e \<in> set es. \<exists>g. 0 < g \<and> g < 2 ^ 63 \<and> fst e = dec_int_str g"
  shows "distinct (List.map_filter listed es) \<and>
    set (List.map_filter listed es) = {g. dec_int_str g \<in> fst ` set es}"
  using assms
proof (induction es)
  case Nil
  then show ?case by (simp add: List.map_filter_simps)
next
  case (Cons e es)
  then obtain g where g: "0 < g" "g < 2 ^ 63" "fst e = dec_int_str g" by auto
  have IH: "distinct (List.map_filter listed es)" "set (List.map_filter listed es) = {g. dec_int_str g \<in> fst ` set es}"
    using Cons by auto
  have "List.map_filter listed (e # es) = g # List.map_filter listed es"
    by (simp add: List.map_filter_simps listed_ok [OF g])
  then show ?case using IH Cons.prems(1) g(3) by (auto simp: dec_int_str_inj)
qed

lemma gen_db_list_set:
  assumes "gen_ok db"
  shows "distinct (gen_db_list db)" "set (gen_db_list db) = {g. dir_of db g \<noteq> None}"
proof -
  have l: "gen_db_list db = exchange_sort (List.map_filter listed (generations db))"
    unfolding gen_db_list_def listed_def ..
  have m: "distinct (List.map_filter listed (generations db))"
    "set (List.map_filter listed (generations db)) = {g. dec_int_str g \<in> fst ` set (generations db)}"
    using map_filter_listed assms by (auto simp: gen_ok_def)
  show "distinct (gen_db_list db)"
    unfolding l using m(1) mset_eq_imp_distinct_iff [OF exchange_sort_spec(1)] by blast
  have "set (gen_db_list db) = set (List.map_filter listed (generations db))"
    unfolding l by (rule mset_eq_setD [OF exchange_sort_spec(1)])
  with m(2) show "set (gen_db_list db) = {g. dir_of db g \<noteq> None}"
    by (simp add: dir_of_def map_of_eq_None_iff)
qed


lemma two_generations_ok: "gen_ok two_generations"
proof -
  have "map fst (generations two_generations) = [''1'', ''2'']" by code_simp
  moreover have "''1'' = dec_int_str 1" "''2'' = dec_int_str 2" by code_simp+
  ultimately have "\<forall>e \<in> set (generations two_generations). fst e = dec_int_str 1 \<or> fst e = dec_int_str 2"
    by (metis (no_types, lifting) empty_iff insert_iff list.set(1) list.set(2) list.set_map image_eqI)
  moreover have "distinct (map fst (generations two_generations))" by code_simp
  moreover have "(0::int) < 1" "(1::int) < 2 ^ 63" "(0::int) < 2" "(2::int) < 2 ^ 63" by simp_all
  ultimately show ?thesis unfolding gen_ok_def by blast
qed


text \<open>
  C28.  Cleaning up generations keeps exactly the current one and the pinned ones, unchanged,
  and removes every other generation.
\<close>

lemma gc_fold:
  assumes "distinct gs"
  shows "dir_of (foldl (\<lambda>db gid. if gid = cur then db
      else if (case dir_of db gid of None \<Rightarrow> False | Some d \<Rightarrow> pinned d) then db
      else db\<lparr>generations := AList.delete (dec_int_str gid) (generations db)\<rparr>) db gs) h =
    (if h \<in> set gs \<and> h \<noteq> cur \<and> \<not> (case dir_of db h of None \<Rightarrow> False | Some d \<Rightarrow> pinned d)
     then None else dir_of db h)"
  using assms
proof (induction gs arbitrary: db)
  case (Cons g gs)
  define db' where "db' = (if g = cur then db
      else if (case dir_of db g of None \<Rightarrow> False | Some d \<Rightarrow> pinned d) then db
      else db\<lparr>generations := AList.delete (dec_int_str g) (generations db)\<rparr>)"
  have d: "dir_of db' h = (if h = g \<and> g \<noteq> cur \<and> \<not> (case dir_of db g of None \<Rightarrow> False | Some d \<Rightarrow> pinned d)
      then None else dir_of db h)" for h
    by (simp add: db'_def dir_of_def delete_conv' dec_int_str_inj)
  show ?case
    using Cons.IH [of db'] Cons.prems by (simp add: d flip: db'_def) auto
qed simp



subsection \<open>Diffs and the lock\<close>

text \<open>Applying the three lists to the parent.\<close>

definition apply_diff ::
    "(string \<times> string) list \<Rightarrow> (string \<times> string) list \<Rightarrow> (string \<times> string) list
       \<Rightarrow> (string \<times> string \<times> string) list \<Rightarrow> (string \<rightharpoonup> string)" where
  "apply_diff parent added removed changed =
     (map_of parent |` (- (fst ` set removed))) ++ map_of added
       ++ map_of (map (\<lambda>(n, old, new). (n, new)) changed)"

lemma map_of_packages:
  "distinct (map pkg_name ps) \<Longrightarrow> p \<in> set ps \<Longrightarrow>
     map_of (map (\<lambda>p. (pkg_name p, pkg_version p)) ps) (pkg_name p) = Some (pkg_version p)"
  by (rule map_of_is_SomeI) (auto simp: comp_def)

lemma changed_map:
  assumes "distinct (map pkg_name ps)"
  shows "map_of (map (\<lambda>(n, old, new). (n, new)) (diff_changed parent ps)) n =
    (case map_of (map (\<lambda>p. (pkg_name p, pkg_version p)) ps) n of
       None \<Rightarrow> None
     | Some v \<Rightarrow> (case map_of parent n of None \<Rightarrow> None | Some old \<Rightarrow> if old \<noteq> v then Some v else None))"
  using assms
proof (induction ps)
  case Nil
  then show ?case by (simp add: diff_changed_def List.map_filter_simps)
next
  case (Cons p ps)
  have "map_of (map (\<lambda>p. (pkg_name p, pkg_version p)) ps) (pkg_name p) = None"
    using Cons.prems by (auto simp: map_of_eq_None_iff)
  with Cons show ?case
    by (auto simp: diff_changed_def List.map_filter_simps split: option.splits)
qed

lemma added_map:
  assumes "distinct (map pkg_name ps)"
  shows "map_of (diff_added parent ps) n =
    (if n \<in> fst ` set parent then None else map_of (map (\<lambda>p. (pkg_name p, pkg_version p)) ps) n)"
proof -
  have keep: "(\<exists>pp \<in> set parent. fst pp = x) \<longleftrightarrow> x \<in> fst ` set parent" for x by force
  have "map_of (map (\<lambda>p. (pkg_name p, pkg_version p)) (filter (\<lambda>p. pkg_name p \<notin> A) ps)) n =
      (if n \<in> A then None else map_of (map (\<lambda>p. (pkg_name p, pkg_version p)) ps) n)" for A
    by (induction ps) auto
  then show ?thesis unfolding diff_added_def keep by simp
qed

text \<open>
  C29.  The diff is complete: when no package is listed twice, applying the removed, added and
  changed lists to the parent's packages gives exactly the names and versions committed.
\<close>

theorem diff_complete:
  assumes "distinct (map pkg_name ps)"
  shows "apply_diff parent (diff_added parent ps) (diff_removed parent ps) (diff_changed parent ps) =
    map_of (map (\<lambda>p. (pkg_name p, pkg_version p)) ps)"
proof (rule ext)
  fix n
  let ?new = "map_of (map (\<lambda>p. (pkg_name p, pkg_version p)) ps)"
  have new: "?new n = None \<longleftrightarrow> n \<notin> pkg_name ` set ps"
    by (auto simp: map_of_eq_None_iff image_image)
  have par: "map_of parent n = None \<longleftrightarrow> n \<notin> fst ` set parent" by (simp add: map_of_eq_None_iff)
  have rem: "n \<in> fst ` set (diff_removed parent ps) \<longleftrightarrow> n \<in> fst ` set parent \<and> n \<notin> pkg_name ` set ps"
    unfolding diff_removed_def by force
  show "apply_diff parent (diff_added parent ps) (diff_removed parent ps) (diff_changed parent ps) n = ?new n"
    unfolding apply_diff_def map_add_def changed_map [OF assms] added_map [OF assms]
    using new par rem by (auto simp: restrict_map_def split: option.splits)
qed

theorem diff_complete_witness:
  "apply_diff [(''vim'', ''9.0''), (''old'', ''1'')] [] [(''old'', ''1'')] [(''vim'', ''9.0'', ''9.1'')] ''vim'' = Some ''9.1''"
proof -
  have "diff_added [(''vim'', ''9.0''), (''old'', ''1'')] [vim_pkg] = []"
    "diff_removed [(''vim'', ''9.0''), (''old'', ''1'')] [vim_pkg] = [(''old'', ''1'')]"
    "diff_changed [(''vim'', ''9.0''), (''old'', ''1'')] [vim_pkg] = [(''vim'', ''9.0'', ''9.1'')]"
    by code_simp+
  then show ?thesis
    using diff_complete [of "[vim_pkg]" "[(''vim'', ''9.0''), (''old'', ''1'')]"]
    by (simp add: vim_pkg_def gen_pkg_create_def)
qed

text \<open>Any interleaving of lock and unlock calls of any processes.\<close>

inductive lock_reachable :: "lock_state \<Rightarrow> bool" where
  "lock_reachable \<lparr>flock_holder = None, lock_fd = \<lambda>_. False\<rparr>"
| "lock_reachable st \<Longrightarrow> lock_reachable (fst (gen_db_lock st p))"
| "lock_reachable st \<Longrightarrow> lock_reachable (gen_db_unlock st p)"

lemma lock_invariant: "lock_reachable st \<Longrightarrow> \<forall>p. lock_fd st p \<longleftrightarrow> flock_holder st = Some p"
  by (induction rule: lock_reachable.induct) (auto simp: gen_db_lock_def gen_db_unlock_def)



end
