(* ===== verification/Reconcile.thy ===== *)
theory Reconcile
  imports Gen_Db Nar_Archive
begin

text \<open>
  \<open>src/declarative/reconcile.c\<close> and \<open>gen_index.c\<close>: the plan that takes the current generation
  to the desired configuration, and the hash index over a manifest.  JSON text is parsed by
  the vendored cJSON, whose \<open>cJSON_Parse\<close> is a parameter; its values and the accessors the
  code uses (lookup without regard to case, type tests) are modelled.
\<close>

subsection \<open>JSON values\<close>

datatype cjson =
    CNull
  | CBool bool
  | CNumber int
  | CString string
  | CArray "cjson list"
  | CObject "(string \<times> cjson) list"

definition c_tolower :: "char \<Rightarrow> char" where
  "c_tolower c = (if c_isupper c then char_of (of_char c + (32::nat)) else c)"

text \<open>The first member whose name matches; members of arrays have no name.\<close>

definition cJSON_GetObjectItem :: "cjson \<Rightarrow> string \<Rightarrow> cjson option" where
  "cJSON_GetObjectItem j key =
     (case j of
        CObject ms \<Rightarrow>
          map_option snd (find (\<lambda>m. map c_tolower (fst m) = map c_tolower key) ms)
      | _ \<Rightarrow> None)"

text \<open>\<open>cJSON_ArrayForEach\<close> visits the children of arrays and objects.\<close>

fun cJSON_children :: "cjson \<Rightarrow> cjson list" where
  "cJSON_children (CArray js) = js"
| "cJSON_children (CObject ms) = map snd ms"
| "cJSON_children _ = []"

fun cJSON_string :: "cjson \<Rightarrow> string option" where
  "cJSON_string (CString s) = Some s"
| "cJSON_string _ = None"

definition cJSON_array :: "cjson \<Rightarrow> string \<Rightarrow> cjson list" where
  "cJSON_array j key =
     (case cJSON_GetObjectItem j key of Some (CArray js) \<Rightarrow> js | _ \<Rightarrow> [])"

subsection \<open>The hash index\<close>

definition fnv1a_hash :: "string \<Rightarrow> nat \<Rightarrow> nat" where
  "fnv1a_hash s bucket_count =
     unat (foldl (\<lambda>hash c. xor hash (word_of_nat (of_char c)) * 1099511628211)
       (14695981039346656037 :: 64 word) s) mod bucket_count"

text \<open>The loop doubles \<open>p\<close>; the entry count is an \<open>int\<close>, so it never wraps.\<close>

function pow2_from :: "nat \<Rightarrow> nat \<Rightarrow> nat" where
  "pow2_from p n = (if 0 < p \<and> p < n * 2 then pow2_from (p * 2) n else p)"
  by pat_completeness auto
termination
  by (relation "measure (\<lambda>(p, n). n * 2 - p)") auto

declare pow2_from.simps [simp del]

definition next_pow2 :: "nat \<Rightarrow> nat" where
  "next_pow2 n = pow2_from 16 n"

record gen_index_entry =
  entry_name :: string
  entry_version :: string
  entry_store_path :: "string option"
  entry_origin :: string
  entry_generation :: int

record gen_index =
  buckets :: "gen_index_entry list list"
  entry_count :: nat

definition index_entry :: "int \<Rightarrow> cjson \<Rightarrow> gen_index_entry option" where
  "index_entry generation_id item =
     (let str = (\<lambda>key. Option.bind (cJSON_GetObjectItem item key) cJSON_string) in
      (case str ''name'' of
         None \<Rightarrow> None
       | Some name \<Rightarrow> Some
           \<lparr>entry_name = name,
            entry_version = (case str ''version'' of Some v \<Rightarrow> v | None \<Rightarrow> ''unknown''),
            entry_store_path = str ''store_path'',
            entry_origin = (case str ''origin'' of Some v \<Rightarrow> v | None \<Rightarrow> ''repo''),
            entry_generation = generation_id\<rparr>))"

definition index_insert :: "gen_index \<Rightarrow> gen_index_entry \<Rightarrow> gen_index" where
  "index_insert idx e =
     (let bucket = fnv1a_hash (entry_name e) (length (buckets idx)) in
      idx\<lparr>buckets := (buckets idx)[bucket := e # buckets idx ! bucket],
          entry_count := entry_count idx + 1\<rparr>)"

definition gen_index_load ::
    "(string \<Rightarrow> cjson option) \<Rightarrow> gen_db \<Rightarrow> int \<Rightarrow> gen_index option" where
  "gen_index_load cJSON_Parse db generation_id =
     (if generation_id \<le> 0 then None
      else case Option.bind (dir_of db generation_id) manifest of
        None \<Rightarrow> None
      | Some text \<Rightarrow>
          (case cJSON_Parse text of
             None \<Rightarrow> None
           | Some root \<Rightarrow>
               (case cJSON_GetObjectItem root ''packages'' of
                  Some (CArray arr) \<Rightarrow>
                    if arr = [] then None
                    else Some (foldl index_insert
                      \<lparr>buckets = replicate (next_pow2 (length arr)) [], entry_count = 0\<rparr>
                      (List.map_filter (index_entry generation_id) arr))
                | _ \<Rightarrow> None)))"

definition gen_index_lookup :: "gen_index \<Rightarrow> string \<Rightarrow> gen_index_entry option" where
  "gen_index_lookup idx name =
     find (\<lambda>e. entry_name e = name) (buckets idx ! fnv1a_hash name (length (buckets idx)))"

definition gen_index_contains :: "gen_index \<Rightarrow> string \<Rightarrow> bool" where
  "gen_index_contains idx name \<longleftrightarrow> gen_index_lookup idx name \<noteq> None"

text \<open>The callback's arguments in order; their number is the result.\<close>

definition gen_index_foreach :: "gen_index \<Rightarrow> gen_index_entry list" where
  "gen_index_foreach idx = concat (buckets idx)"

subsection \<open>Reconciliation\<close>

definition pkg_name_list_contains :: "string list \<Rightarrow> string \<Rightarrow> bool" where
  "pkg_name_list_contains head name \<longleftrightarrow> (\<exists>p \<in> set head. p = name)"

text \<open>The manifest is found through the target of the link, absolute or below the root.\<close>

definition current_manifest :: "string \<Rightarrow> gen_db \<Rightarrow> string option" where
  "current_manifest root db =
     (case current_link db of
        None \<Rightarrow> None
      | Some gen_dir \<Rightarrow>
          let path = (if take 1 gen_dir = ''/'' then gen_dir else root @ ''/'' @ gen_dir) in
          Option.bind
            (map_option snd (find (\<lambda>e. root @ ''/generations/'' @ fst e = path) (generations db)))
            manifest)"

definition read_current_packages ::
    "(string \<Rightarrow> cjson option) \<Rightarrow> string \<Rightarrow> gen_db \<Rightarrow> string list" where
  "read_current_packages cJSON_Parse root db =
     (case Option.bind (current_manifest root db) cJSON_Parse of
        None \<Rightarrow> []
      | Some j \<Rightarrow> List.map_filter (\<lambda>item. Option.bind (cJSON_GetObjectItem item ''name'') cJSON_string)
          (cJSON_array j ''packages''))"

text \<open>A service and whether it is enabled.  A value that is no object and no Boolean means no.\<close>

definition should_enable :: "cjson \<Rightarrow> bool" where
  "should_enable svc =
     (case svc of
        CObject ms \<Rightarrow> (case cJSON_GetObjectItem svc ''enable'' of Some (CBool b) \<Rightarrow> b | _ \<Rightarrow> False)
      | CBool b \<Rightarrow> b
      | _ \<Rightarrow> False)"

definition extract_services :: "cjson option \<Rightarrow> (string \<times> bool) list" where
  "extract_services services_obj =
     (case services_obj of
        Some (CObject ms) \<Rightarrow> map (\<lambda>m. (fst m, should_enable (snd m))) ms
      | _ \<Rightarrow> [])"

record reconcile_txn =
  repo_install :: "string list"
  aur_install :: "string list"
  pkg_remove :: "string list"
  svc_enable :: "string list"
  svc_disable :: "string list"
  all_repo_pkgs :: "string list"
  all_aur_pkgs :: "string list"
  all_services :: "(string \<times> bool) list"

text \<open>The check on disk: some entry of \<open>/nix/store\<close> starts with the name and a dash.\<close>

definition found_on_disk :: "string list \<Rightarrow> string \<Rightarrow> bool" where
  "found_on_disk store_dir name \<longleftrightarrow> (\<exists>d_name \<in> set store_dir. starts_with (name @ ''-'') d_name)"

definition reconcile ::
    "(string \<Rightarrow> cjson option) \<Rightarrow> string list \<Rightarrow> string \<Rightarrow> string \<Rightarrow> gen_db \<Rightarrow> reconcile_txn option" where
  "reconcile cJSON_Parse store_dir desired_json root db =
     (case cJSON_Parse desired_json of
        None \<Rightarrow> None
      | Some j \<Rightarrow>
          let desired_repo = List.map_filter cJSON_string (cJSON_array j ''packages'');
              desired_aur =
                (case cJSON_GetObjectItem j ''aur'' of
                   Some (CObject ms) \<Rightarrow> List.map_filter cJSON_string (cJSON_array (CObject ms) ''packages'')
                 | _ \<Rightarrow> []);
              services = extract_services (cJSON_GetObjectItem j ''services'');
              current_pkgs = read_current_packages cJSON_Parse root db
          in Some
            \<lparr>repo_install = filter (\<lambda>p. \<not> pkg_name_list_contains current_pkgs p
                 \<or> \<not> found_on_disk store_dir p) desired_repo,
             aur_install = filter (\<lambda>p. \<not> pkg_name_list_contains current_pkgs p) desired_aur,
             pkg_remove = filter (\<lambda>p. \<not> pkg_name_list_contains desired_repo p
                 \<and> \<not> pkg_name_list_contains desired_aur p) current_pkgs,
             svc_enable = map fst (filter snd services),
             svc_disable = map fst (filter (\<lambda>s. \<not> snd s) services),
             all_repo_pkgs = desired_repo,
             all_aur_pkgs = desired_aur,
             all_services = services\<rparr>)"

subsection \<open>Properties\<close>


lemma pow2_from_ge: "0 < p \<Longrightarrow> n * 2 \<le> pow2_from p n \<and> p \<le> pow2_from p n"
proof (induction p n rule: pow2_from.induct)
  case (1 p n)
  show ?case
  proof (cases "p < n * 2")
    case True
    then show ?thesis using 1 by (subst (1 2) pow2_from.simps) simp
  next
    case False
    then show ?thesis by (subst (1 2) pow2_from.simps) simp
  qed
qed

lemma bucket_less: "0 < n \<Longrightarrow> fnv1a_hash s n < n"
  by (simp add: fnv1a_hash_def)

definition index_ok :: "gen_index \<Rightarrow> gen_index_entry list \<Rightarrow> bool" where
  "index_ok idx es \<longleftrightarrow> 0 < length (buckets idx) \<and> entry_count idx = length es \<and>
     (\<forall>b < length (buckets idx).
        buckets idx ! b = filter (\<lambda>e. fnv1a_hash (entry_name e) (length (buckets idx)) = b) (rev es))"

lemma index_ok_empty: "0 < n \<Longrightarrow> index_ok \<lparr>buckets = replicate n [], entry_count = 0\<rparr> []"
  by (simp add: index_ok_def)

lemma index_ok_insert: "index_ok idx es \<Longrightarrow> index_ok (index_insert idx e) (es @ [e])"
  using bucket_less [of "length (buckets idx)" "entry_name e"]
  by (auto simp: index_ok_def index_insert_def Let_def nth_list_update)

lemma index_ok_all: "index_ok idx es \<Longrightarrow> index_ok (foldl index_insert idx fs) (es @ fs)"
proof (induction fs arbitrary: idx es)
  case (Cons f fs)
  from Cons.IH [OF index_ok_insert [OF Cons.prems, of f]] show ?case by simp
qed simp

lemma find_filter: "(\<And>x. P x \<Longrightarrow> Q x) \<Longrightarrow> find P (filter Q xs) = find P xs"
  by (induction xs) auto

lemma index_ok_lookup:
  "index_ok idx es \<Longrightarrow> gen_index_lookup idx name = find (\<lambda>e. entry_name e = name) (rev es)"
proof -
  assume ok: "index_ok idx es"
  let ?h = "\<lambda>n. fnv1a_hash n (length (buckets idx))"
  have "find (\<lambda>e. entry_name e = name) (filter (\<lambda>e. ?h (entry_name e) = ?h name) (rev es)) =
      find (\<lambda>e. entry_name e = name) (rev es)"
    by (rule find_filter) simp
  with ok show ?thesis
    using bucket_less [of "length (buckets idx)" name] by (simp add: index_ok_def gen_index_lookup_def)
qed

text \<open>
  C32.  The hash index answers like a search of the manifest from its end: loading a
  generation gives an index in which a name is looked up as the last package of that name,
  and is contained exactly when some package has it; the entry count counts every package
  with a name.
\<close>

theorem gen_index_correct:
  assumes "gen_index_load parse db g = Some idx"
  shows "\<exists>json root arr. Option.bind (dir_of db g) manifest = Some json \<and> parse json = Some root \<and>
    cJSON_GetObjectItem root ''packages'' = Some (CArray arr) \<and>
    (let es = List.map_filter (index_entry g) arr in
      entry_count idx = length es \<and>
      gen_index_lookup idx name = find (\<lambda>e. entry_name e = name) (rev es) \<and>
      (gen_index_contains idx name \<longleftrightarrow> name \<in> entry_name ` set es))"
proof -
  obtain json root arr where l: "Option.bind (dir_of db g) manifest = Some json" "parse json = Some root"
    "cJSON_GetObjectItem root ''packages'' = Some (CArray arr)"
    and idx: "idx = foldl index_insert \<lparr>buckets = replicate (next_pow2 (length arr)) [], entry_count = 0\<rparr>
        (List.map_filter (index_entry g) arr)"
    using assms unfolding gen_index_load_def
    by (auto split: if_splits option.splits cjson.splits)
  have "0 < next_pow2 (length arr)"
    using pow2_from_ge [of 16 "length arr"] by (simp add: next_pow2_def)
  from index_ok_all [OF index_ok_empty [OF this], of "List.map_filter (index_entry g) arr"]
  have "index_ok idx (List.map_filter (index_entry g) arr)" by (simp add: idx)
  then have n: "entry_count idx = length (List.map_filter (index_entry g) arr)"
    "gen_index_lookup idx name = find (\<lambda>e. entry_name e = name) (rev (List.map_filter (index_entry g) arr))"
    by (simp_all add: index_ok_lookup) (simp add: index_ok_def)
  have "find (\<lambda>e. entry_name e = name) (rev es) \<noteq> None \<longleftrightarrow> name \<in> entry_name ` set es" for es
    by (auto simp: find_None_iff)
  with l n show ?thesis
    unfolding Let_def gen_index_contains_def by metis
qed

definition demo_json :: cjson where
  "demo_json = CObject [(''packages'', CArray [CObject [(''name'', CString ''vim''), (''version'', CString ''9.0'')],
     CObject [(''Name'', CString ''vim''), (''version'', CString ''9.1'')]])]"

theorem gen_index_correct_witness:
  "\<exists>idx. gen_index_load (\<lambda>_. Some demo_json) two_generations 1 = Some idx \<and> gen_index_contains idx ''vim''"
proof -
  have "Option.bind (dir_of two_generations 1) manifest \<noteq> None" by code_simp
  moreover have "(case cJSON_GetObjectItem demo_json ''packages'' of Some (CArray arr) \<Rightarrow> arr \<noteq> [] | _ \<Rightarrow> False)"
    by code_simp
  ultimately have "gen_index_load (\<lambda>_. Some demo_json) two_generations 1 \<noteq> None"
    unfolding gen_index_load_def by (auto split: option.splits cjson.splits)
  then obtain idx where idx: "gen_index_load (\<lambda>_. Some demo_json) two_generations 1 = Some idx" by auto
  have "''vim'' \<in> set (map entry_name (List.map_filter (index_entry 1)
      (case cJSON_GetObjectItem demo_json ''packages'' of Some (CArray arr) \<Rightarrow> arr | _ \<Rightarrow> [])))"
    by code_simp
  with gen_index_correct [OF idx, of "''vim''"] idx show ?thesis
    by (auto simp: Let_def)
qed



text \<open>
  The check on disk does not know hashed store paths: when every entry of the store is
  named \<open>hash-name-version\<close> by \<open>compute_store_path\<close>, every desired repository package with a
  name shorter than 32 characters is planned for installation again, installed or not.
\<close>

lemma hashed_not_found:
  assumes "\<forall>d \<in> set store_dir. \<exists>digest r. d = hash32 digest @ ''-'' @ r" and "length name < 32"
  shows "\<not> found_on_disk store_dir name"
proof
  assume "found_on_disk store_dir name"
  then obtain digest r where "starts_with (name @ ''-'') (hash32 digest @ ''-'' @ r)"
    using assms(1) by (auto simp: found_on_disk_def)
  then obtain t where "hash32 digest @ ''-'' @ r = name @ CHR ''-'' # t" by (auto simp: starts_with_iff)
  then have "(hash32 digest @ ''-'' @ r) ! length name = CHR ''-''" by simp
  then have "hash32 digest ! length name = CHR ''-''"
    using assms(2) by (simp add: nth_append hash32_shape(1))
  then have "CHR ''-'' \<in> set (hash32 digest)"
    using assms(2) hash32_shape(1) [of digest] by (metis nth_mem)
  with hash32_shape(2) [of digest] show False by (auto simp: base32_def)
qed

theorem reconcile_reinstalls_hashed:
  assumes "reconcile parse store_dir desired root db = Some txn"
    and "\<forall>d \<in> set store_dir. \<exists>digest r. d = hash32 digest @ ''-'' @ r"
    and "\<forall>p \<in> set (all_repo_pkgs txn). length p < 32"
  shows "repo_install txn = all_repo_pkgs txn"
  using assms hashed_not_found [OF assms(2)] unfolding reconcile_def Let_def
  by (auto split: option.splits intro!: filter_True)

theorem reconcile_reinstalls_hashed_witness:
  "\<exists>txn. reconcile (\<lambda>s. if s = ''want'' then Some (CObject [(''packages'', CArray [CString ''vim''])]) else Some demo_json)
      [hash32 (replicate 32 0) @ ''-'' @ ''vim-9.1''] ''want'' ''/var'' two_generations = Some txn \<and>
     repo_install txn = [''vim'']"
proof -
  let ?parse = "\<lambda>s. if s = ''want'' then Some (CObject [(''packages'', CArray [CString ''vim''])]) else Some demo_json"
  let ?disk = "[hash32 (replicate 32 0) @ ''-'' @ ''vim-9.1'']"
  obtain txn where txn: "reconcile ?parse ?disk ''want'' ''/var'' two_generations = Some txn"
    by (simp add: reconcile_def Let_def)
  have "cJSON_array (CObject [(''packages'', CArray [CString ''vim''])]) ''packages'' = [CString ''vim'']"
    by code_simp
  then have all: "all_repo_pkgs txn = [''vim'']"
    using txn by (auto simp: reconcile_def Let_def List.map_filter_simps)
  have "repo_install txn = all_repo_pkgs txn"
    by (rule reconcile_reinstalls_hashed [OF txn]) (auto simp: all)
  with txn all show ?thesis by simp
qed

end
