(* ===== verification/Nix_Lexer.thy ===== *)
theory Nix_Lexer
  imports Two9_Prelude
begin

text \<open>
  \<open>lib/2O9/nix/nix_lexer.c\<close>: the lexer of the configuration language.  The lexer's \<open>src\<close>,
  \<open>len\<close> and \<open>pos\<close> are the input not yet read (\<open>pos\<close> is what is missing from it).  Reading past
  the end gives NUL.  Token texts are C strings: a NUL byte in the source ends them.
\<close>

subsection \<open>Tokens\<close>

datatype nix_tok_type =
    NIX_TOK_EOF | NIX_TOK_IDENT | NIX_TOK_INT | NIX_TOK_STRING | NIX_TOK_PATH
  | NIX_TOK_LBRACE | NIX_TOK_RBRACE | NIX_TOK_LBRACKET | NIX_TOK_RBRACKET
  | NIX_TOK_LPAREN | NIX_TOK_RPAREN | NIX_TOK_COLON | NIX_TOK_SEMICOLON | NIX_TOK_COMMA
  | NIX_TOK_DOT | NIX_TOK_EQUALS | NIX_TOK_QUESTION | NIX_TOK_PLUS | NIX_TOK_PLUS_PLUS
  | NIX_TOK_MINUS | NIX_TOK_STAR | NIX_TOK_SLASH | NIX_TOK_AND | NIX_TOK_OR | NIX_TOK_NOT
  | NIX_TOK_LT | NIX_TOK_LE | NIX_TOK_GT | NIX_TOK_GE | NIX_TOK_EQ | NIX_TOK_NEQ
  | NIX_TOK_ARROW | NIX_TOK_KW_IF | NIX_TOK_KW_THEN | NIX_TOK_KW_ELSE | NIX_TOK_KW_LET
  | NIX_TOK_KW_IN | NIX_TOK_KW_WITH | NIX_TOK_KW_REC | NIX_TOK_KW_ASSERT | NIX_TOK_KW_OR
  | NIX_TOK_KW_IMPORT

record nix_token =
  tok_type :: nix_tok_type
  tok_text :: "string option"
  tok_integer :: "64 word"
  tok_line :: nat
  tok_col :: nat

definition keyword_table :: "(string \<times> nix_tok_type) list" where
  "keyword_table =
     [(''if'', NIX_TOK_KW_IF), (''then'', NIX_TOK_KW_THEN), (''else'', NIX_TOK_KW_ELSE),
      (''let'', NIX_TOK_KW_LET), (''in'', NIX_TOK_KW_IN), (''with'', NIX_TOK_KW_WITH),
      (''rec'', NIX_TOK_KW_REC), (''assert'', NIX_TOK_KW_ASSERT),
      (''import'', NIX_TOK_KW_IMPORT), (''or'', NIX_TOK_KW_OR)]"

subsection \<open>The lexer state\<close>

record nix_lexer =
  rest :: string
  line :: nat
  col :: nat

definition peek :: "nix_lexer \<Rightarrow> char" where
  "peek lx = (case rest lx of [] \<Rightarrow> c_nul | c # s \<Rightarrow> c)"

definition peek_at :: "nix_lexer \<Rightarrow> nat \<Rightarrow> char" where
  "peek_at lx offset = (if offset < length (rest lx) then rest lx ! offset else c_nul)"

text \<open>The character \<open>advance\<close> returns is \<open>peek\<close> of the state before.\<close>

definition lex_advance :: "nix_lexer \<Rightarrow> nix_lexer" where
  "lex_advance lx =
     (case rest lx of
        [] \<Rightarrow> lx
      | c # s \<Rightarrow>
          if c = c_nl then lx\<lparr>rest := s, line := line lx + 1, col := 1\<rparr>
          else lx\<lparr>rest := s, col := col lx + 1\<rparr>)"

lemma rest_advance [simp]: "rest (lex_advance lx) = tl (rest lx)"
  by (simp add: lex_advance_def split: list.split)

lemma peek_Cons [simp]: "rest lx = c # s \<Longrightarrow> peek lx = c"
  by (simp add: peek_def)

lemma peek_at_1 [simp]: "rest lx = c # s \<Longrightarrow> peek_at lx (Suc 0) = (case s of [] \<Rightarrow> c_nul | d # _ \<Rightarrow> d)"
  by (simp add: peek_at_def split: list.split)

lemma length_advance: "rest lx \<noteq> [] \<Longrightarrow> length (rest (lex_advance lx)) < length (rest lx)"
  by simp

lemma length_advance_le: "length (rest (lex_advance lx)) \<le> length (rest lx)"
  by simp

subsection \<open>White space and comments\<close>

function skip_line :: "nix_lexer \<Rightarrow> nix_lexer" where
  "skip_line lx =
     (if rest lx \<noteq> [] \<and> peek lx \<noteq> c_nl then skip_line (lex_advance lx) else lx)"
  by pat_completeness auto
termination
  by (relation "measure (\<lambda>lx. length (rest lx))") auto

function skip_block :: "nat \<Rightarrow> nix_lexer \<Rightarrow> nix_lexer" where
  "skip_block depth lx =
     (if rest lx \<noteq> [] \<and> depth > 0 then
        if peek lx = CHR ''/'' \<and> peek_at lx 1 = CHR ''*''
        then skip_block (depth + 1) (lex_advance (lex_advance lx))
        else if peek lx = CHR ''*'' \<and> peek_at lx 1 = CHR ''/''
        then skip_block (depth - 1) (lex_advance (lex_advance lx))
        else skip_block depth (lex_advance lx)
      else lx)"
  by pat_completeness auto
termination
  by (relation "measure (\<lambda>(depth, lx). length (rest lx))")
    (auto simp: diff_less_Suc less_Suc_eq_le simp flip: length_greater_0_conv)

declare skip_line.simps [simp del] skip_block.simps [simp del]

lemma length_skip_line: "length (rest (skip_line lx)) \<le> length (rest lx)"
proof (induction lx rule: skip_line.induct)
  case (1 lx)
  then show ?case by (subst skip_line.simps) force
qed

lemma length_skip_block: "length (rest (skip_block depth lx)) \<le> length (rest lx)"
proof (induction depth lx rule: skip_block.induct)
  case (1 depth lx)
  then show ?case
    using length_advance_le [of lx] length_advance_le [of "lex_advance lx"]
    by (subst skip_block.simps) (auto simp del: rest_advance intro: le_trans)
qed

definition is_blank :: "char \<Rightarrow> bool" where
  "is_blank c \<longleftrightarrow> c = CHR '' '' \<or> c = CHR 0x09 \<or> c = c_nl \<or> c = CHR 0x0D"

function skip_whitespace :: "nix_lexer \<Rightarrow> nix_lexer" where
  "skip_whitespace lx =
     (if rest lx \<noteq> [] then
        if is_blank (peek lx) then skip_whitespace (lex_advance lx)
        else if peek lx = CHR ''#'' then skip_whitespace (skip_line (lex_advance lx))
        else if peek lx = CHR ''/'' \<and> peek_at lx 1 = CHR ''*''
        then skip_whitespace (skip_block 1 (lex_advance (lex_advance lx)))
        else lx
      else lx)"
  by pat_completeness auto
termination
  by (relation "measure (\<lambda>lx. length (rest lx))")
    (auto intro: le_less_trans [OF length_skip_line] le_less_trans [OF length_skip_block]
      simp flip: length_greater_0_conv)

declare skip_whitespace.simps [simp del]

subsection \<open>String, path, identifier and integer literals\<close>

text \<open>The inside of \<open>${...}\<close>: copied up to the brace that closes it, that brace included.\<close>

definition brace_depth :: "char \<Rightarrow> nat \<Rightarrow> nat" where
  "brace_depth c depth =
     (if c = CHR ''{'' then depth + 1 else if c = CHR ''}'' then depth - 1 else depth)"

function interpolation_loop :: "nat \<Rightarrow> nix_lexer \<Rightarrow> string \<times> nix_lexer" where
  "interpolation_loop depth lx =
     (if rest lx \<noteq> [] \<and> depth > 0 then
        apfst ((#) (peek lx)) (interpolation_loop (brace_depth (peek lx) depth) (lex_advance lx))
      else ([], lx))"
  by pat_completeness auto
termination
  by (relation "measure (\<lambda>(depth, lx). length (rest lx))") auto

declare interpolation_loop.simps [simp del]

lemma length_interpolation:
  "length (fst (interpolation_loop depth lx)) + length (rest (snd (interpolation_loop depth lx)))
     \<le> length (rest lx)"
proof (induction depth lx rule: interpolation_loop.induct)
  case (1 depth lx)
  show ?case
  proof (cases "rest lx \<noteq> [] \<and> depth > 0")
    case True
    then have "interpolation_loop depth lx =
        apfst ((#) (peek lx)) (interpolation_loop (brace_depth (peek lx) depth) (lex_advance lx))"
      by (subst interpolation_loop.simps) simp
    with 1 [OF True] True show ?thesis by (cases "rest lx") simp_all
  next
    case False
    then have "interpolation_loop depth lx = ([], lx)" by (subst interpolation_loop.simps) auto
    then show ?thesis by simp
  qed
qed

definition escaped_char :: "char \<Rightarrow> char" where
  "escaped_char c =
     (if c = CHR ''n'' then c_nl else if c = CHR ''t'' then CHR 0x09
      else if c = CHR ''r'' then CHR 0x0D else c)"

function string_loop :: "nix_lexer \<Rightarrow> string \<times> nix_lexer" where
  "string_loop lx =
     (if rest lx = [] then ([], lx)
      else let c = peek lx in
        if c = CHR 0x22 then ([], lex_advance lx)
        else if c = CHR 0x5C then
          let lx1 = lex_advance lx
          in apfst ((#) (escaped_char (peek lx1))) (string_loop (lex_advance lx1))
        else if c = CHR ''$'' \<and> peek_at lx 1 = CHR ''{'' then
          (case interpolation_loop 1 (lex_advance (lex_advance lx)) of
             (t, lx1) \<Rightarrow> apfst ((@) (''${'' @ t)) (string_loop lx1))
        else apfst ((#) c) (string_loop (lex_advance lx)))"
  by pat_completeness auto
termination
proof (relation "measure (\<lambda>lx. length (rest lx))")
  fix lx c t lx1
  assume ne: "rest lx \<noteq> []"
    and eq: "(t, lx1) = interpolation_loop 1 (lex_advance (lex_advance lx))"
  have "lx1 = snd (interpolation_loop 1 (lex_advance (lex_advance lx)))" using eq by (metis snd_conv)
  with ne length_interpolation [of 1 "lex_advance (lex_advance lx)"]
  show "(lx1, lx) \<in> measure (\<lambda>lx. length (rest lx))" by (cases "rest lx") simp_all
qed auto

declare string_loop.simps [simp del]

definition lex_string :: "nix_lexer \<Rightarrow> nix_token \<times> nix_lexer" where
  "lex_string lx =
     (case string_loop (lex_advance lx) of
        (buf, lx') \<Rightarrow>
          (\<lparr>tok_type = NIX_TOK_STRING, tok_text = Some (c_str buf), tok_integer = 0,
            tok_line = line lx, tok_col = col lx\<rparr>, lx'))"

text \<open>The loops that copy characters while they belong to a class.\<close>

function span_loop :: "(char \<Rightarrow> bool) \<Rightarrow> nix_lexer \<Rightarrow> string \<times> nix_lexer" where
  "span_loop P lx =
     (if rest lx \<noteq> [] \<and> P (peek lx) then apfst ((#) (peek lx)) (span_loop P (lex_advance lx))
      else ([], lx))"
  by pat_completeness auto
termination
  by (relation "measure (\<lambda>(P, lx). length (rest lx))") auto

declare span_loop.simps [simp del]

definition path_char :: "char \<Rightarrow> bool" where
  "path_char c \<longleftrightarrow> c_isalnum c \<or> c \<in> set ''/.-_+~''"

definition lex_path :: "nix_lexer \<Rightarrow> nix_token \<times> nix_lexer" where
  "lex_path lx =
     (case span_loop path_char lx of
        (buf, lx') \<Rightarrow>
          (\<lparr>tok_type = NIX_TOK_PATH, tok_text = Some buf, tok_integer = 0,
            tok_line = line lx, tok_col = col lx\<rparr>, lx'))"

definition ident_char :: "char \<Rightarrow> bool" where
  "ident_char c \<longleftrightarrow> c_isalnum c \<or> c = CHR ''_'' \<or> c = CHR ''-'' \<or> c = CHR 0x27"

text \<open>\<open>true\<close>, \<open>false\<close> and \<open>null\<close> are identifiers for the lexer like any other word.\<close>

definition lex_ident :: "nix_lexer \<Rightarrow> nix_token \<times> nix_lexer" where
  "lex_ident lx =
     (case span_loop ident_char lx of
        (buf, lx') \<Rightarrow>
          (\<lparr>tok_type = (case find (\<lambda>kw. fst kw = buf) keyword_table of
               Some kw \<Rightarrow> snd kw | None \<Rightarrow> NIX_TOK_IDENT),
            tok_text = Some buf, tok_integer = 0,
            tok_line = line lx, tok_col = col lx\<rparr>, lx'))"

definition digit_step :: "64 word \<Rightarrow> char \<Rightarrow> 64 word" where
  "digit_step val c = val * 10 + (word_of_nat (of_char c) - 48)"

text \<open>The arithmetic is that of \<open>int64_t\<close> with wrap-around (overflow is undefined in C).\<close>

definition lex_integer :: "nix_lexer \<Rightarrow> nix_token \<times> nix_lexer" where
  "lex_integer lx =
     (case span_loop c_isdigit lx of
        (buf, lx') \<Rightarrow>
          (\<lparr>tok_type = NIX_TOK_INT, tok_text = None, tok_integer = foldl digit_step 0 buf,
            tok_line = line lx, tok_col = col lx\<rparr>, lx'))"

subsection \<open>The next token\<close>

definition two_char_operator :: "char \<Rightarrow> char \<Rightarrow> nix_tok_type option" where
  "two_char_operator c c2 =
     map_of
       [(''++'', NIX_TOK_PLUS_PLUS), (''=='', NIX_TOK_EQ), (''!='', NIX_TOK_NEQ),
        (''<='', NIX_TOK_LE), (''>='', NIX_TOK_GE), (''&&'', NIX_TOK_AND),
        (''||'', NIX_TOK_OR), (''->'', NIX_TOK_ARROW)] [c, c2]"

definition single_char_token :: "char \<Rightarrow> nix_tok_type option" where
  "single_char_token c =
     map_of
       [(CHR ''{'', NIX_TOK_LBRACE), (CHR ''}'', NIX_TOK_RBRACE), (CHR ''['', NIX_TOK_LBRACKET),
        (CHR '']'', NIX_TOK_RBRACKET), (CHR ''('', NIX_TOK_LPAREN), (CHR '')'', NIX_TOK_RPAREN),
        (CHR '':'', NIX_TOK_COLON), (CHR '';'', NIX_TOK_SEMICOLON), (CHR '','', NIX_TOK_COMMA),
        (CHR ''.'', NIX_TOK_DOT), (CHR ''='', NIX_TOK_EQUALS), (CHR ''?'', NIX_TOK_QUESTION),
        (CHR ''+'', NIX_TOK_PLUS), (CHR ''-'', NIX_TOK_MINUS), (CHR ''*'', NIX_TOK_STAR),
        (CHR ''/'', NIX_TOK_SLASH), (CHR ''<'', NIX_TOK_LT), (CHR ''>'', NIX_TOK_GT),
        (CHR ''!'', NIX_TOK_NOT)] c"

definition path_follows_slash :: "char \<Rightarrow> bool" where
  "path_follows_slash c \<longleftrightarrow> c_isalpha c \<or> c \<in> set ''_/.-~+''"

text \<open>An unknown character is skipped and reported as the end of the input.\<close>

definition nix_lexer_next :: "nix_lexer \<Rightarrow> nix_token \<times> nix_lexer" where
  "nix_lexer_next lx0 =
     (let lx = skip_whitespace lx0;
          tok = \<lparr>tok_type = NIX_TOK_EOF, tok_text = None, tok_integer = 0,
                 tok_line = line lx, tok_col = col lx\<rparr>;
          c = peek lx;
          c2 = peek_at lx 1
      in if rest lx = [] then (tok, lx)
         else if c = CHR 0x22 then lex_string lx
         else if c = CHR ''/'' \<and> path_follows_slash c2 then lex_path lx
         else if (c = CHR ''.'' \<or> c = CHR ''~'') \<and> c2 = CHR ''/'' then lex_path lx
         else if c_isalpha c \<or> c = CHR ''_'' then lex_ident lx
         else if c_isdigit c then lex_integer lx
         else (case two_char_operator c c2 of
                 Some t \<Rightarrow> (tok\<lparr>tok_type := t\<rparr>, lex_advance (lex_advance lx))
               | None \<Rightarrow>
                   (case single_char_token c of
                      Some t \<Rightarrow> (tok\<lparr>tok_type := t\<rparr>, lex_advance lx)
                    | None \<Rightarrow> (tok, lex_advance lx))))"

definition nix_lexer_new :: "string \<Rightarrow> nix_lexer" where
  "nix_lexer_new source = \<lparr>rest = source, line = 1, col = 1\<rparr>"

subsection \<open>Progress\<close>


lemma span_loop_eq:
  "fst (span_loop P lx) = takeWhile P (rest lx)" "rest (snd (span_loop P lx)) = dropWhile P (rest lx)"
proof (induction P lx rule: span_loop.induct)
  case (1 P lx)
  { case 1 then show ?case by (subst span_loop.simps) (cases "rest lx"; simp add: "1.IH") next
    case 2 then show ?case by (subst span_loop.simps) (cases "rest lx"; simp add: "1.IH") }
qed

lemma span_loop_word:
  assumes "rest lx = w @ s" and "\<forall>c \<in> set w. P c" and "s = [] \<or> \<not> P (hd s)"
  obtains lx' where "span_loop P lx = (w, lx')" and "rest lx' = s"
proof -
  have "takeWhile P (w @ s) = w" "dropWhile P (w @ s) = s"
    using assms(2,3) by (cases s; simp)+
  with span_loop_eq [of P lx] assms(1) show thesis
    by (metis that prod.collapse)
qed

lemma length_span_loop:
  "length (fst (span_loop P lx)) + length (rest (snd (span_loop P lx))) = length (rest lx)"
  unfolding span_loop_eq by (metis length_append takeWhile_dropWhile_id)

lemma span_loop_hd: "rest lx \<noteq> [] \<Longrightarrow> P (peek lx) \<Longrightarrow> length (fst (span_loop P lx)) > 0"
  unfolding span_loop_eq by (cases "rest lx") auto

lemma string_loop_end: "rest lx = [] \<Longrightarrow> string_loop lx = ([], lx)"
  by (subst string_loop.simps) simp

lemma string_loop_quote: "rest lx = CHR 0x22 # s \<Longrightarrow> string_loop lx = ([], lex_advance lx)"
  by (subst string_loop.simps) simp

lemma string_loop_escape:
  "rest lx = CHR 0x5C # s \<Longrightarrow> string_loop lx =
     apfst ((#) (escaped_char (peek (lex_advance lx)))) (string_loop (lex_advance (lex_advance lx)))"
  by (subst string_loop.simps) (simp add: Let_def)

lemma string_loop_interpolation:
  "rest lx = CHR ''$'' # CHR ''{'' # s \<Longrightarrow>
   interpolation_loop 1 (lex_advance (lex_advance lx)) = (t, lx1) \<Longrightarrow>
   string_loop lx = apfst ((@) (''${'' @ t)) (string_loop lx1)"
  by (subst string_loop.simps) simp

lemma string_loop_plain:
  "rest lx = c # s \<Longrightarrow> c \<noteq> CHR 0x22 \<Longrightarrow> c \<noteq> CHR 0x5C \<Longrightarrow> \<not> (c = CHR ''$'' \<and> take 1 s = ''{'') \<Longrightarrow>
   string_loop lx = apfst ((#) c) (string_loop (lex_advance lx))"
  by (subst string_loop.simps) (cases s; auto)

lemmas string_loop_steps =
  string_loop_end string_loop_quote string_loop_escape string_loop_interpolation string_loop_plain

lemma length_string_loop:
  "length (fst (string_loop lx)) + length (rest (snd (string_loop lx))) \<le> length (rest lx)"
proof (induction "length (rest lx)" arbitrary: lx rule: less_induct)
  case less
  show ?case
  proof (cases "rest lx")
    case Nil
    then show ?thesis by (simp add: string_loop_end)
  next
    case (Cons c s)
    consider "c = CHR 0x22" | "c = CHR 0x5C" | "c = CHR ''$''" "take 1 s = ''{''"
      | "c \<noteq> CHR 0x22" "c \<noteq> CHR 0x5C" "\<not> (c = CHR ''$'' \<and> take 1 s = ''{'')"
      by blast
    then show ?thesis
    proof cases
      case 1
      with Cons show ?thesis by (simp add: string_loop_quote)
    next
      case 2
      have "length (rest (lex_advance (lex_advance lx))) < length (rest lx)"
        using Cons by (simp add: le_imp_less_Suc)
      from less [OF this] Cons 2 show ?thesis by (simp add: string_loop_escape)
    next
      case 3
      then obtain s' where s: "s = CHR ''{'' # s'" by (cases s) auto
      obtain t lx1 where e: "interpolation_loop 1 (lex_advance (lex_advance lx)) = (t, lx1)"
        by fastforce
      from length_interpolation [of 1 "lex_advance (lex_advance lx)"] Cons s e
      have "length t + length (rest lx1) \<le> length s'" by simp
      with less [of lx1] Cons 3(1) s e show ?thesis
        by (simp add: string_loop_interpolation)
    next
      case 4
      with less [of "lex_advance lx"] Cons show ?thesis by (simp add: string_loop_plain)
    qed
  qed
qed

lemma length_skip_whitespace: "length (rest (skip_whitespace lx)) \<le> length (rest lx)"
proof (induction lx rule: skip_whitespace.induct)
  case (1 lx)
  note le = length_skip_line [of "lex_advance lx"]
    length_skip_block [of 1 "lex_advance (lex_advance lx)"]
  show ?case
    using 1 le by (subst skip_whitespace.simps) (auto intro: order_trans)
qed

definition tok_weight :: "nix_token \<Rightarrow> nat" where
  "tok_weight tok =
     (if tok_type tok = NIX_TOK_EOF then 0
      else if tok_type tok = NIX_TOK_STRING then 1 + length (the (tok_text tok)) else 1)"

lemma weight_string: "snd (lex_string lx) = lx' \<Longrightarrow> rest lx \<noteq> [] \<Longrightarrow>
  tok_weight (fst (lex_string lx)) + length (rest lx') \<le> length (rest lx)"
proof -
  assume r: "snd (lex_string lx) = lx'" and ne: "rest lx \<noteq> []"
  obtain buf l where e: "string_loop (lex_advance lx) = (buf, l)" by fastforce
  with length_string_loop [of "lex_advance lx"] length_c_str_le [of buf] r ne show ?thesis
    by (cases "rest lx") (auto simp: lex_string_def tok_weight_def)
qed

lemma find_Some_in: "find P xs = Some x \<Longrightarrow> x \<in> set xs \<and> P x"
  by (induction xs) (auto split: if_splits)

lemma keyword_not_special:
  "find (\<lambda>kw. fst kw = w) keyword_table = Some kw \<Longrightarrow> snd kw \<noteq> NIX_TOK_EOF \<and> snd kw \<noteq> NIX_TOK_STRING"
proof -
  have all: "\<forall>kw \<in> set keyword_table. snd kw \<noteq> NIX_TOK_EOF \<and> snd kw \<noteq> NIX_TOK_STRING"
    by (simp add: keyword_table_def)
  assume "find (\<lambda>kw. fst kw = w) keyword_table = Some kw"
  from find_Some_in [OF this] all show ?thesis by blast
qed

lemma two_char_not_special: "two_char_operator a b = Some t \<Longrightarrow> t \<noteq> NIX_TOK_EOF \<and> t \<noteq> NIX_TOK_STRING"
  by (auto simp: two_char_operator_def split: if_splits)

lemma single_char_not_special: "single_char_token a = Some t \<Longrightarrow> t \<noteq> NIX_TOK_EOF \<and> t \<noteq> NIX_TOK_STRING"
  by (auto simp: single_char_token_def split: if_splits)

lemma two_char_two: "two_char_operator (peek lx) (peek_at lx 1) = Some t \<Longrightarrow> 2 \<le> length (rest lx)"
  by (cases "rest lx"; cases "tl (rest lx)")
    (auto simp: two_char_operator_def peek_at_def peek_def split: if_splits)

lemma weight_span:
  assumes "rest lx \<noteq> []" and "P (peek lx)" and "span_loop P lx = (w, lx')"
  shows "1 + length (rest lx') \<le> length (rest lx)"
  using span_loop_hd [of lx P, OF assms(1,2)] length_span_loop [of P lx] assms(3) by (cases w) simp_all

lemma weight_ident:
  assumes "rest lx \<noteq> []" and "ident_char (peek lx)"
  shows "tok_weight (fst (lex_ident lx)) + length (rest (snd (lex_ident lx))) \<le> length (rest lx)"
  using keyword_not_special weight_span [of lx ident_char, OF assms]
  by (auto simp: lex_ident_def tok_weight_def split: prod.split option.split)

lemma weight_path:
  assumes "rest lx \<noteq> []" and "path_char (peek lx)"
  shows "tok_weight (fst (lex_path lx)) + length (rest (snd (lex_path lx))) \<le> length (rest lx)"
  using weight_span [of lx path_char, OF assms]
  by (auto simp: lex_path_def tok_weight_def split: prod.split)

lemma weight_integer:
  assumes "rest lx \<noteq> []" and "c_isdigit (peek lx)"
  shows "tok_weight (fst (lex_integer lx)) + length (rest (snd (lex_integer lx))) \<le> length (rest lx)"
  using weight_span [of lx c_isdigit, OF assms]
  by (auto simp: lex_integer_def tok_weight_def split: prod.split)

lemma next_weight_token:
  assumes "skip_whitespace lx0 = lx" and ne: "rest lx \<noteq> []"
  shows "tok_weight (fst (nix_lexer_next lx0)) + length (rest (snd (nix_lexer_next lx0))) \<le> length (rest lx)"
proof -
  let ?c = "peek lx" and ?d = "peek_at lx 1"
  note nx = nix_lexer_next_def [of lx0] assms Let_def
  consider "?c = CHR 0x22" | "?c \<noteq> CHR 0x22" "?c = CHR ''/'' \<and> path_follows_slash ?d"
    | "?c \<noteq> CHR 0x22" "\<not> (?c = CHR ''/'' \<and> path_follows_slash ?d)" "(?c = CHR ''.'' \<or> ?c = CHR ''~'') \<and> ?d = CHR ''/''"
    | "?c \<noteq> CHR 0x22" "\<not> (?c = CHR ''/'' \<and> path_follows_slash ?d)" "\<not> ((?c = CHR ''.'' \<or> ?c = CHR ''~'') \<and> ?d = CHR ''/'')"
      "c_isalpha ?c \<or> ?c = CHR ''_''"
    | "?c \<noteq> CHR 0x22" "\<not> (?c = CHR ''/'' \<and> path_follows_slash ?d)" "\<not> ((?c = CHR ''.'' \<or> ?c = CHR ''~'') \<and> ?d = CHR ''/'')"
      "\<not> (c_isalpha ?c \<or> ?c = CHR ''_'')" "c_isdigit ?c"
    | "?c \<noteq> CHR 0x22" "\<not> (?c = CHR ''/'' \<and> path_follows_slash ?d)" "\<not> ((?c = CHR ''.'' \<or> ?c = CHR ''~'') \<and> ?d = CHR ''/'')"
      "\<not> (c_isalpha ?c \<or> ?c = CHR ''_'')" "\<not> c_isdigit ?c"
    by blast
  then show ?thesis
  proof cases
    case 1
    with weight_string [OF refl ne] show ?thesis by (simp add: nx)
  next
    case 2
    have "path_char ?c" using 2 by (simp add: path_char_def)
    from weight_path [OF ne this] 2 show ?thesis by (simp only: nx if_False if_True simp_thms)
  next
    case 3
    have "path_char ?c" using 3 by (auto simp: path_char_def)
    from weight_path [OF ne this] 3 show ?thesis by (simp only: nx if_False if_True simp_thms)
  next
    case 4
    have "ident_char ?c" using 4 by (auto simp: ident_char_def c_class)
    from weight_ident [OF ne this] 4 show ?thesis by (simp only: nx if_False if_True simp_thms)
  next
    case 5
    from weight_integer [OF ne 5(5)] 5 show ?thesis by (simp only: nx if_False if_True simp_thms)
  next
    case 6
    then have n: "nix_lexer_next lx0 =
        (let tok = \<lparr>tok_type = NIX_TOK_EOF, tok_text = None, tok_integer = 0, tok_line = line lx, tok_col = col lx\<rparr>
         in case two_char_operator ?c ?d of
              Some t \<Rightarrow> (tok\<lparr>tok_type := t\<rparr>, lex_advance (lex_advance lx))
            | None \<Rightarrow> (case single_char_token ?c of
                Some t \<Rightarrow> (tok\<lparr>tok_type := t\<rparr>, lex_advance lx)
              | None \<Rightarrow> (tok, lex_advance lx)))"
      by (simp only: nx if_False if_True simp_thms)
    show ?thesis
    proof (cases "two_char_operator ?c ?d")
      case None
      with ne single_char_not_special [of ?c] show ?thesis unfolding n Let_def
        by (cases "rest lx"; cases "single_char_token ?c") (simp_all add: tok_weight_def)
    next
      case (Some t)
      with two_char_two [of lx t] two_char_not_special [of ?c ?d t] show ?thesis unfolding n Let_def
        by (simp add: tok_weight_def)
    qed
  qed
qed

lemma next_weight:
  "tok_weight (fst (nix_lexer_next lx0)) + length (rest (snd (nix_lexer_next lx0))) \<le> length (rest lx0)"
proof (cases "rest (skip_whitespace lx0) = []")
  case True
  then show ?thesis by (simp add: nix_lexer_next_def tok_weight_def Let_def)
next
  case False
  from next_weight_token [OF refl False] length_skip_whitespace [of lx0] show ?thesis by linarith
qed

subsection \<open>Escapes and layout read back\<close>


text \<open>Strings are written in quotes, with the three characters escaped that mean something.\<close>

definition nix_escape :: "string \<Rightarrow> string" where
  "nix_escape w = concat (map (\<lambda>c. if c = CHR 0x22 \<or> c = CHR 0x5C \<or> c = CHR ''$'' then [CHR 0x5C, c] else [c]) w)"

lemma escaped_special: "c = CHR 0x22 \<or> c = CHR 0x5C \<or> c = CHR ''$'' \<Longrightarrow> escaped_char c = c"
  by (auto simp: escaped_char_def)

lemma string_loop_escaped:
  "rest lx = nix_escape w @ CHR 0x22 # s \<Longrightarrow>
   \<exists>lx'. string_loop lx = (w, lx') \<and> rest lx' = s"
proof (induction w arbitrary: lx)
  case Nil
  then show ?case by (simp add: nix_escape_def string_loop_quote)
next
  case (Cons c w)
  show ?case
  proof (cases "c = CHR 0x22 \<or> c = CHR 0x5C \<or> c = CHR ''$''")
    case True
    with Cons.prems have r: "rest lx = CHR 0x5C # c # nix_escape w @ CHR 0x22 # s"
      by (auto simp: nix_escape_def)
    from Cons.IH [of "lex_advance (lex_advance lx)"] r obtain lx' where
      "string_loop (lex_advance (lex_advance lx)) = (w, lx')" "rest lx' = s" by auto
    with string_loop_escape [OF r] escaped_special [OF True] r show ?thesis
      by (simp add: peek_def)
  next
    case False
    with Cons.prems have r: "rest lx = c # nix_escape w @ CHR 0x22 # s"
      by (auto simp: nix_escape_def)
    from Cons.IH [of "lex_advance lx"] r obtain lx' where
      "string_loop (lex_advance lx) = (w, lx')" "rest lx' = s" by auto
    with string_loop_plain [OF r] False show ?thesis by simp
  qed
qed

text \<open>Layout: blanks, line comments, and block comments nested to any depth.\<close>

datatype comment_body = Close | Text string comment_body | Nested comment_body comment_body

fun body_text :: "comment_body \<Rightarrow> string" where
  "body_text Close = ''*/''"
| "body_text (Text t c) = t @ body_text c"
| "body_text (Nested d c) = ''/*'' @ body_text d @ body_text c"

fun body_ok :: "comment_body \<Rightarrow> bool" where
  "body_ok Close = True"
| "body_ok (Text t c) = (CHR ''*'' \<notin> set t \<and> CHR ''/'' \<notin> set t \<and> body_ok c)"
| "body_ok (Nested d c) = (body_ok d \<and> body_ok c)"

datatype filler = Blank char | Line_comment string | Block_comment comment_body

fun filler_text :: "filler \<Rightarrow> string" where
  "filler_text (Blank c) = [c]"
| "filler_text (Line_comment t) = ''#'' @ t @ [c_nl]"
| "filler_text (Block_comment c) = ''/*'' @ body_text c"

fun filler_ok :: "filler \<Rightarrow> bool" where
  "filler_ok (Blank c) = is_blank c"
| "filler_ok (Line_comment t) = (c_nl \<notin> set t)"
| "filler_ok (Block_comment c) = body_ok c"

definition layout_text :: "filler list \<Rightarrow> string" where
  "layout_text fs = concat (map filler_text fs)"

lemma skip_block_plain:
  "rest lx = t @ s \<Longrightarrow> CHR ''*'' \<notin> set t \<Longrightarrow> CHR ''/'' \<notin> set t \<Longrightarrow>
   \<exists>lx'. skip_block (Suc n) lx = skip_block (Suc n) lx' \<and> rest lx' = s"
proof (induction t arbitrary: lx)
  case (Cons c t)
  then have "skip_block (Suc n) lx = skip_block (Suc n) (lex_advance lx)"
    by (subst skip_block.simps) auto
  with Cons.IH [of "lex_advance lx"] Cons.prems show ?case by auto
qed auto

lemma skip_block_body:
  "rest lx = body_text c @ s \<Longrightarrow> body_ok c \<Longrightarrow>
   \<exists>lx'. skip_block (Suc n) lx = skip_block n lx' \<and> rest lx' = s"
proof (induction c arbitrary: lx n s)
  case Close
  then have "skip_block (Suc n) lx = skip_block n (lex_advance (lex_advance lx))"
    by (subst skip_block.simps) simp
  with Close show ?case by auto
next
  case (Text t c)
  from skip_block_plain [of lx t "body_text c @ s" n] Text.prems obtain lx' where
    "skip_block (Suc n) lx = skip_block (Suc n) lx'" "rest lx' = body_text c @ s" by auto
  with Text.IH [of lx' s n] Text.prems show ?case by auto
next
  case (Nested d c)
  then have 1: "skip_block (Suc n) lx = skip_block (Suc (Suc n)) (lex_advance (lex_advance lx))"
    by (subst skip_block.simps) simp
  from Nested.IH(1) [of "lex_advance (lex_advance lx)" "body_text c @ s" "Suc n"] Nested.prems
  obtain l1 where 2: "skip_block (Suc (Suc n)) (lex_advance (lex_advance lx)) = skip_block (Suc n) l1"
    "rest l1 = body_text c @ s" by auto
  from Nested.IH(2) [OF 2(2)] Nested.prems 1 2(1) show ?case by auto
qed

lemma skip_line_text:
  "rest lx = t @ c_nl # s \<Longrightarrow> c_nl \<notin> set t \<Longrightarrow> rest (skip_line lx) = c_nl # s"
proof (induction t arbitrary: lx)
  case Nil
  then show ?case by (subst skip_line.simps) simp
next
  case (Cons c t)
  then have "skip_line lx = skip_line (lex_advance lx)" by (subst skip_line.simps) auto
  with Cons show ?case by simp
qed

lemma skip_blank: "rest lx = c # s \<Longrightarrow> is_blank c \<Longrightarrow> skip_whitespace lx = skip_whitespace (lex_advance lx)"
  by (subst skip_whitespace.simps) simp

lemma skip_filler:
  assumes "rest lx = filler_text f @ s" and "filler_ok f"
  shows "\<exists>lx'. skip_whitespace lx = skip_whitespace lx' \<and> rest lx' = s"
proof (cases f)
  case (Blank c)
  with assms skip_blank [of lx c s] show ?thesis by auto
next
  case (Line_comment t)
  with assms have r: "rest lx = CHR ''#'' # t @ c_nl # s" by simp
  then have 1: "skip_whitespace lx = skip_whitespace (skip_line (lex_advance lx))"
    by (subst skip_whitespace.simps) (simp add: is_blank_def)
  from skip_line_text [of "lex_advance lx" t s] r assms Line_comment
  have 2: "rest (skip_line (lex_advance lx)) = c_nl # s" by simp
  from skip_blank [OF 2] 1 2 show ?thesis by (auto simp: is_blank_def)
next
  case (Block_comment c)
  with assms have r: "rest lx = CHR ''/'' # CHR ''*'' # body_text c @ s" by simp
  then have 1: "skip_whitespace lx = skip_whitespace (skip_block 1 (lex_advance (lex_advance lx)))"
    by (subst skip_whitespace.simps) (simp add: is_blank_def)
  from skip_block_body [of "lex_advance (lex_advance lx)" c s 0] r assms Block_comment
  obtain l1 where "skip_block 1 (lex_advance (lex_advance lx)) = skip_block 0 l1" "rest l1 = s" by auto
  moreover have "skip_block 0 l1 = l1" by (subst skip_block.simps) simp
  ultimately show ?thesis using 1 by auto
qed

lemma skip_layout:
  "rest lx = layout_text fs @ s \<Longrightarrow> \<forall>f \<in> set fs. filler_ok f \<Longrightarrow>
   \<exists>lx'. skip_whitespace lx = skip_whitespace lx' \<and> rest lx' = s"
proof (induction fs arbitrary: lx)
  case Nil
  then show ?case by (auto simp: layout_text_def)
next
  case (Cons f fs)
  from skip_filler [of lx f "layout_text fs @ s"] Cons.prems obtain l1 where
    1: "skip_whitespace lx = skip_whitespace l1" "rest l1 = layout_text fs @ s"
    by (auto simp: layout_text_def)
  from Cons.IH [OF 1(2)] Cons.prems 1(1) show ?case by auto
qed

subsection \<open>Tokens read back\<close>


text \<open>What the parser sees of a token.\<close>

type_synonym tok_kind = "nix_tok_type \<times> string option \<times> 64 word"

definition tok_kind :: "nix_token \<Rightarrow> tok_kind" where
  "tok_kind tok = (tok_type tok, tok_text tok, tok_integer tok)"

definition operator_texts :: "(nix_tok_type \<times> string) list" where
  "operator_texts =
     [(NIX_TOK_LBRACE, ''{''), (NIX_TOK_RBRACE, ''}''), (NIX_TOK_LBRACKET, ''[''),
      (NIX_TOK_RBRACKET, '']''), (NIX_TOK_LPAREN, ''(''), (NIX_TOK_RPAREN, '')''),
      (NIX_TOK_COLON, '':''), (NIX_TOK_SEMICOLON, '';''), (NIX_TOK_COMMA, '',''),
      (NIX_TOK_DOT, ''.''), (NIX_TOK_EQUALS, ''=''), (NIX_TOK_QUESTION, ''?''),
      (NIX_TOK_PLUS, ''+''), (NIX_TOK_PLUS_PLUS, ''++''), (NIX_TOK_MINUS, ''-''),
      (NIX_TOK_STAR, ''*''), (NIX_TOK_SLASH, ''/''), (NIX_TOK_AND, ''&&''), (NIX_TOK_OR, ''||''),
      (NIX_TOK_NOT, ''!''), (NIX_TOK_LT, ''<''), (NIX_TOK_LE, ''<=''), (NIX_TOK_GT, ''>''),
      (NIX_TOK_GE, ''>=''), (NIX_TOK_EQ, ''==''), (NIX_TOK_NEQ, ''!=''), (NIX_TOK_ARROW, ''->'')]"

definition ident_shape :: "string \<Rightarrow> bool" where
  "ident_shape w \<longleftrightarrow> w \<noteq> [] \<and> (c_isalpha (hd w) \<or> hd w = CHR ''_'') \<and> (\<forall>c \<in> set w. ident_char c)"

definition is_ident :: "string \<Rightarrow> bool" where
  "is_ident w \<longleftrightarrow> ident_shape w \<and> w \<notin> fst ` set keyword_table"

fun is_path :: "string \<Rightarrow> bool" where
  "is_path (c # d # w) \<longleftrightarrow>
     (c = CHR ''/'' \<and> path_follows_slash d \<or> (c = CHR ''.'' \<or> c = CHR ''~'') \<and> d = CHR ''/'')
     \<and> (\<forall>x \<in> set (c # d # w). path_char x)"
| "is_path w \<longleftrightarrow> False"

text \<open>The source text of a token.\<close>

definition token_text :: "tok_kind \<Rightarrow> string" where
  "token_text k =
     (case k of (t, s, i) \<Rightarrow>
        if t = NIX_TOK_INT then dec_str (unat i)
        else if t = NIX_TOK_STRING then [CHR 0x22] @ nix_escape (the s) @ [CHR 0x22]
        else (case s of Some w \<Rightarrow> w | None \<Rightarrow> the (map_of operator_texts t)))"

definition token_ok :: "tok_kind \<Rightarrow> bool" where
  "token_ok k \<longleftrightarrow>
     (case k of (t, s, i) \<Rightarrow>
        if t = NIX_TOK_INT then s = None \<and> i < 0x8000000000000000
        else i = 0 \<and> (case s of
            None \<Rightarrow> t \<in> fst ` set operator_texts
          | Some w \<Rightarrow> t = NIX_TOK_STRING \<and> c_nul \<notin> set w \<or> t = NIX_TOK_IDENT \<and> is_ident w
              \<or> t = NIX_TOK_PATH \<and> is_path w \<or> (w, t) \<in> set keyword_table))"

lemma digit_step_value:
  "\<forall>c \<in> set w. c_isdigit c \<Longrightarrow> foldl digit_step a w = a * 10 ^ length w + word_of_nat (dec_val w)"
proof (induction w arbitrary: a)
  case (Cons c w)
  from Cons.prems have "48 \<le> (of_char c :: nat)" by (simp add: c_isdigit_def)
  then have "digit_step a c = a * 10 + word_of_nat (digit_val c)"
    by (simp add: digit_step_def digit_val_def of_nat_diff)
  with Cons show ?case by (simp add: dec_val_Cons algebra_simps)
qed simp

lemma foldl_digit_dec: "foldl digit_step 0 (dec_str n) = word_of_nat n"
  using digit_step_value [OF dec_str_digits, of 0 n] by (simp add: dec_val_dec_str)

lemma digit_classes:
  "c_isdigit c \<Longrightarrow> \<not> is_blank c \<and> c \<noteq> CHR ''#'' \<and> c \<noteq> CHR ''/'' \<and> c \<noteq> CHR 0x22 \<and> c \<noteq> CHR ''.''
     \<and> c \<noteq> CHR ''~'' \<and> c \<noteq> CHR ''_''"
  by (auto simp: is_blank_def c_isdigit_def)

lemma ident_start_classes:
  "c_isalpha c \<or> c = CHR ''_'' \<Longrightarrow> \<not> is_blank c \<and> c \<noteq> CHR ''#'' \<and> c \<noteq> CHR ''/'' \<and> c \<noteq> CHR 0x22
     \<and> c \<noteq> CHR ''.'' \<and> c \<noteq> CHR ''~''"
  by (auto simp: is_blank_def c_class_defs)

lemma blank_classes: "is_blank c \<Longrightarrow> \<not> c_isdigit c \<and> \<not> ident_char c \<and> \<not> path_char c \<and> \<not> path_follows_slash c"
  by (auto simp: is_blank_def ident_char_def path_char_def path_follows_slash_def c_class_defs)

lemma skip_none:
  "rest lx = c # s \<Longrightarrow> \<not> is_blank c \<Longrightarrow> c \<noteq> CHR ''#'' \<Longrightarrow> \<not> (c = CHR ''/'' \<and> take 1 s = ''*'') \<Longrightarrow>
   skip_whitespace lx = lx"
  by (subst skip_whitespace.simps) (cases s; auto)

text \<open>One lemma for each kind of token: it is read when a blank, or nothing, follows.\<close>

lemma lex_one_int:
  assumes r: "rest lx = dec_str n @ s" and s: "s = [] \<or> is_blank (hd s)"
  shows "\<exists>tok lx'. nix_lexer_next lx = (tok, lx') \<and> tok_kind tok = (NIX_TOK_INT, None, word_of_nat n)
     \<and> rest lx' = s"
proof -
  obtain c w where d: "dec_str n = c # w" using dec_str_not_Nil by (cases "dec_str n") auto
  have c: "c_isdigit c" using dec_str_digits [of n] d by simp
  have sk: "skip_whitespace lx = lx"
    using r d digit_classes [OF c] by (intro skip_none) auto
  obtain lx' where l: "span_loop c_isdigit lx = (dec_str n, lx')" "rest lx' = s"
    using span_loop_word [OF r dec_str_digits] s blank_classes by blast
  have "nix_lexer_next lx = lex_integer lx"
    using r d digit_classes [OF c] digit_not_alpha [OF c] c by (simp add: nix_lexer_next_def sk Let_def)
  with l show ?thesis by (simp add: lex_integer_def tok_kind_def foldl_digit_dec)
qed

lemma lex_one_string:
  assumes r: "rest lx = [CHR 0x22] @ nix_escape w @ [CHR 0x22] @ s" and w: "c_nul \<notin> set w"
  shows "\<exists>tok lx'. nix_lexer_next lx = (tok, lx') \<and> tok_kind tok = (NIX_TOK_STRING, Some w, 0)
     \<and> rest lx' = s"
proof -
  have sk: "skip_whitespace lx = lx" using r by (intro skip_none) (auto simp: is_blank_def)
  from string_loop_escaped [of "lex_advance lx" w s] r obtain lx' where
    "string_loop (lex_advance lx) = (w, lx')" "rest lx' = s" by auto
  moreover have "nix_lexer_next lx = lex_string lx"
    using r by (simp add: nix_lexer_next_def sk Let_def)
  ultimately show ?thesis using w by (simp add: lex_string_def tok_kind_def c_str_id)
qed

lemma lex_one_path:
  assumes r: "rest lx = w @ s" and w: "is_path w" and s: "s = [] \<or> is_blank (hd s)"
  shows "\<exists>tok lx'. nix_lexer_next lx = (tok, lx') \<and> tok_kind tok = (NIX_TOK_PATH, Some w, 0)
     \<and> rest lx' = s"
proof -
  from w obtain c d v where v: "w = c # d # v" by (cases w rule: is_path.cases) auto
  have all: "\<forall>x \<in> set w. path_char x" using w v by simp
  have cd: "c = CHR ''/'' \<and> path_follows_slash d \<or> (c = CHR ''.'' \<or> c = CHR ''~'') \<and> d = CHR ''/''"
    using w v by simp
  have ds: "d \<noteq> CHR ''*''" using cd by (auto simp: path_follows_slash_def c_class_defs)
  have sk: "skip_whitespace lx = lx" using r v cd ds by (intro skip_none) (auto simp: is_blank_def)
  obtain lx' where l: "span_loop path_char lx = (w, lx')" "rest lx' = s"
    using span_loop_word [OF r all] s blank_classes by blast
  have "nix_lexer_next lx = lex_path lx"
    using r v cd by (auto simp: nix_lexer_next_def sk Let_def)
  with l show ?thesis by (simp add: lex_path_def tok_kind_def)
qed

lemma lex_one_word:
  assumes r: "rest lx = w @ s" and w: "ident_shape w" and s: "s = [] \<or> is_blank (hd s)"
  shows "\<exists>tok lx'. nix_lexer_next lx = (tok, lx') \<and> rest lx' = s \<and>
     tok_kind tok = ((case find (\<lambda>kw. fst kw = w) keyword_table of
        Some kw \<Rightarrow> snd kw | None \<Rightarrow> NIX_TOK_IDENT), Some w, 0)"
proof -
  from w obtain c v where v: "w = c # v" by (cases w) (auto simp: ident_shape_def)
  have c: "c_isalpha c \<or> c = CHR ''_''" and all: "\<forall>x \<in> set w. ident_char x"
    using w v by (simp_all add: ident_shape_def)
  have sk: "skip_whitespace lx = lx" using r v ident_start_classes [OF c] by (intro skip_none) auto
  obtain lx' where l: "span_loop ident_char lx = (w, lx')" "rest lx' = s"
    using span_loop_word [OF r all] s blank_classes by blast
  have "nix_lexer_next lx = lex_ident lx"
    using r v ident_start_classes [OF c] c by (auto simp: nix_lexer_next_def sk Let_def)
  with l show ?thesis by (simp add: lex_ident_def tok_kind_def)
qed


lemma find_none_iff: "find P xs = None \<longleftrightarrow> (\<forall>x \<in> set xs. \<not> P x)"
  by (induction xs) auto

lemma keyword_shape: "(w, t) \<in> set keyword_table \<Longrightarrow> ident_shape w"
proof -
  have "\<forall>kw \<in> set keyword_table. ident_shape (fst kw)" by code_simp
  then show "(w, t) \<in> set keyword_table \<Longrightarrow> ident_shape w" by force
qed

lemma keyword_find: "(w, t) \<in> set keyword_table \<Longrightarrow> find (\<lambda>kw. fst kw = w) keyword_table = Some (w, t)"
proof -
  have "\<forall>k \<in> set keyword_table. find (\<lambda>kw. fst kw = fst k) keyword_table = Some k" by code_simp
  then show "(w, t) \<in> set keyword_table \<Longrightarrow> ?thesis" by force
qed

lemma not_keyword_find: "w \<notin> fst ` set keyword_table \<Longrightarrow> find (\<lambda>kw. fst kw = w) keyword_table = None"
  by (auto simp: find_none_iff)

lemma blank_not_second:
  "s = [] \<or> is_blank (hd s) \<Longrightarrow> take 1 s \<noteq> [c] \<or> is_blank c"
  by (cases s) auto

lemma two_char_second: "two_char_operator c d = Some t \<Longrightarrow> d \<in> set ''+=&|>''"
  by (auto simp: two_char_operator_def split: if_splits)

lemma next_single:
  assumes "skip_whitespace lx = lx" and "rest lx \<noteq> []" and "peek lx = c" and "peek_at lx 1 = d"
    and "c \<noteq> CHR 0x22 \<and> \<not> c_isalpha c \<and> c \<noteq> CHR ''_'' \<and> \<not> c_isdigit c"
    and "\<not> path_follows_slash d" and "d \<noteq> CHR ''/''"
    and "two_char_operator c d = None" and "single_char_token c = Some t"
  shows "nix_lexer_next lx = (\<lparr>tok_type = t, tok_text = None, tok_integer = 0,
      tok_line = line lx, tok_col = col lx\<rparr>, lex_advance lx)"
  using assms(5-9) unfolding nix_lexer_next_def assms(1) Let_def assms(3,4)
  by (simp add: assms(2))

text \<open>The operators: a class for each way the lexer reaches them.\<close>

lemma lex_one_single:
  assumes r: "rest lx = c # s" and s: "s = [] \<or> is_blank (hd s)"
    and c: "single_char_token c = Some t"
  shows "\<exists>tok lx'. nix_lexer_next lx = (tok, lx') \<and> tok_kind tok = (t, None, 0) \<and> rest lx' = s"
proof -
  let ?d = "case s of [] \<Rightarrow> c_nul | d # _ \<Rightarrow> d"
  have "?d \<in> set [c_nul, CHR '' '', CHR 0x09, c_nl, CHR 0x0D]"
    using s by (cases s) (auto simp: is_blank_def)
  moreover have "\<forall>d \<in> set [c_nul, CHR '' '', CHR 0x09, c_nl, CHR 0x0D].
      \<not> path_follows_slash d \<and> d \<noteq> CHR ''/'' \<and> d \<noteq> CHR ''*'' \<and> d \<notin> set ''+=&|>''" by code_simp
  ultimately have d: "\<not> path_follows_slash ?d \<and> ?d \<noteq> CHR ''/'' \<and> ?d \<noteq> CHR ''*'' \<and> ?d \<notin> set ''+=&|>''"
    by (rule bspec [rotated])
  have cs: "c \<in> set ''{}[]():;,.=?+-*/<>!''"
    using c by (auto simp: single_char_token_def split: if_splits)
  have two: "two_char_operator c ?d = None"
    using d two_char_second [of c ?d] by (cases "two_char_operator c ?d") blast+
  have all: "\<forall>c \<in> set ''{}[]():;,.=?+-*/<>!''. \<not> is_blank c \<and> c \<noteq> CHR ''#'' \<and> c \<noteq> CHR 0x22 \<and>
      \<not> c_isalpha c \<and> c \<noteq> CHR ''_'' \<and> \<not> c_isdigit c" by code_simp
  note plain = bspec [OF all cs]
  have "take 1 s \<noteq> ''*''"
  proof (cases s)
    case (Cons x xs)
    have "?d \<noteq> CHR ''*''" using d by (elim conjE)
    then show ?thesis by (simp add: Cons)
  qed simp
  then have sk: "skip_whitespace lx = lx"
    using plain by (intro skip_none [OF r]) (elim conjE, assumption | blast)+
  have pd: "peek_at lx 1 = ?d" using r by simp
  have "nix_lexer_next lx = (\<lparr>tok_type = t, tok_text = None, tok_integer = 0,
      tok_line = line lx, tok_col = col lx\<rparr>, lex_advance lx)"
  proof (rule next_single [OF sk _ peek_Cons [OF r] pd])
    show "rest lx \<noteq> []" using r by simp
    show "\<not> path_follows_slash ?d" "?d \<noteq> CHR ''/''" using d by (rule conjunct1, rule conjunct1 [OF conjunct2])
    show "c \<noteq> CHR 0x22 \<and> \<not> c_isalpha c \<and> c \<noteq> CHR ''_'' \<and> \<not> c_isdigit c" using plain by (intro conjI; elim conjE)
  qed (rule two c)+
  then show ?thesis using r by (simp add: tok_kind_def)
qed

lemma lex_one_double:
  assumes r: "rest lx = c # d # s" and c: "two_char_operator c d = Some t"
  shows "\<exists>tok lx'. nix_lexer_next lx = (tok, lx') \<and> tok_kind tok = (t, None, 0) \<and> rest lx' = s"
proof -
  have "c \<in> set ''+=!<>&|-''"
    using c by (auto simp: two_char_operator_def split: if_splits)
  moreover have "\<forall>c \<in> set ''+=!<>&|-''. \<not> is_blank c \<and> c \<noteq> CHR ''#'' \<and> c \<noteq> CHR 0x22 \<and> \<not> c_isalpha c \<and>
      c \<noteq> CHR ''_'' \<and> \<not> c_isdigit c \<and> c \<noteq> CHR ''/'' \<and> c \<noteq> CHR ''.'' \<and> c \<noteq> CHR ''~''" by code_simp
  ultimately have plain: "\<not> is_blank c \<and> c \<noteq> CHR ''#'' \<and> c \<noteq> CHR 0x22 \<and> \<not> c_isalpha c \<and>
      c \<noteq> CHR ''_'' \<and> \<not> c_isdigit c \<and> c \<noteq> CHR ''/'' \<and> c \<noteq> CHR ''.'' \<and> c \<noteq> CHR ''~''" by blast
  have sk: "skip_whitespace lx = lx" using r plain by (intro skip_none) auto
  show ?thesis using r plain c by (simp add: nix_lexer_next_def sk Let_def tok_kind_def)
qed

lemma operator_lexes:
  "(t, w) \<in> set operator_texts \<Longrightarrow>
     (\<exists>c. w = [c] \<and> single_char_token c = Some t) \<or> (\<exists>c d. w = [c, d] \<and> two_char_operator c d = Some t)"
proof -
  have "\<forall>(t, w) \<in> set operator_texts. case w of [c] \<Rightarrow> single_char_token c = Some t
      | [c, d] \<Rightarrow> two_char_operator c d = Some t | _ \<Rightarrow> False" by code_simp
  moreover assume "(t, w) \<in> set operator_texts"
  ultimately have "case w of [c] \<Rightarrow> single_char_token c = Some t
      | [c, d] \<Rightarrow> two_char_operator c d = Some t | _ \<Rightarrow> False" by blast
  then show ?thesis by (cases w; cases "tl w"; cases "tl (tl w)") auto
qed

lemma operator_unique: "distinct (map fst operator_texts)"
  by code_simp

lemma lex_one:
  assumes ok: "token_ok k" and r: "rest lx = token_text k @ s" and s: "s = [] \<or> is_blank (hd s)"
  shows "\<exists>tok lx'. nix_lexer_next lx = (tok, lx') \<and> tok_kind tok = k \<and> rest lx' = s"
proof -
  obtain t st i where k: "k = (t, st, i)" by (cases k)
  show ?thesis
  proof (cases "t = NIX_TOK_INT")
    case True
    with ok r k have "rest lx = dec_str (unat i) @ s" "st = None"
      by (simp_all add: token_ok_def token_text_def)
    with lex_one_int [of lx "unat i" s] s k True show ?thesis by simp
  next
    case int: False
    then have i: "i = 0" using ok k by (simp add: token_ok_def)
    show ?thesis
    proof (cases st)
      case None
      with ok k int have "t \<in> fst ` set operator_texts" by (simp add: token_ok_def)
      then obtain w where w: "(t, w) \<in> set operator_texts" by auto
      have ts: "t \<noteq> NIX_TOK_STRING" using w by (auto simp: operator_texts_def)
      from r k int None ts have "rest lx = w @ s"
        using map_of_is_SomeI [OF operator_unique w] by (simp add: token_text_def)
      with operator_lexes [OF w] lex_one_single [of lx _ s t] lex_one_double [of lx _ _ s t] s
      show ?thesis using k None i by auto
    next
      case (Some w)
      with ok k int consider "t = NIX_TOK_STRING" "c_nul \<notin> set w" | "t = NIX_TOK_IDENT" "is_ident w"
        | "t = NIX_TOK_PATH" "is_path w" | "(w, t) \<in> set keyword_table"
        by (auto simp: token_ok_def)
      then show ?thesis
      proof cases
        case 1
        with r k Some have "rest lx = [CHR 0x22] @ nix_escape w @ [CHR 0x22] @ s"
          by (simp add: token_text_def)
        from lex_one_string [OF this 1(2)] k Some i 1(1) show ?thesis by simp
      next
        case 2
        with r k Some have "rest lx = w @ s" by (simp add: token_text_def)
        moreover have "ident_shape w" "find (\<lambda>kw. fst kw = w) keyword_table = None"
          using 2 not_keyword_find by (auto simp: is_ident_def)
        ultimately show ?thesis using lex_one_word [of lx w s] s k Some i 2(1) by auto
      next
        case 3
        with r k Some have "rest lx = w @ s" by (simp add: token_text_def)
        from lex_one_path [OF this 3(2) s] k Some i 3(1) show ?thesis by simp
      next
        case 4
        then have "t \<noteq> NIX_TOK_STRING" by (auto simp: keyword_table_def)
        with r k Some int have "rest lx = w @ s" by (simp add: token_text_def)
        from lex_one_word [OF this keyword_shape [OF 4] s] keyword_find [OF 4] k Some i show ?thesis
          by auto
      qed
    qed
  qed
qed

text \<open>Layout before a token is skipped with it.\<close>

lemma next_after_layout:
  assumes "rest lx = layout_text fs @ s" and "\<forall>f \<in> set fs. filler_ok f"
  shows "\<exists>lx'. nix_lexer_next lx = nix_lexer_next lx' \<and> rest lx' = s"
  using skip_layout [OF assms] by (auto simp: nix_lexer_next_def)

subsection \<open>Token streams\<close>


text \<open>The tokens a caller sees that asks for one after the other until the first \<open>NIX_TOK_EOF\<close>.\<close>

function nix_tokens :: "nix_lexer \<Rightarrow> tok_kind list" where
  "nix_tokens lx =
     (if tok_type (fst (nix_lexer_next lx)) = NIX_TOK_EOF then []
      else tok_kind (fst (nix_lexer_next lx)) # nix_tokens (snd (nix_lexer_next lx)))"
  by pat_completeness auto
termination
proof (relation "measure (\<lambda>lx. length (rest lx))")
  fix lx assume "tok_type (fst (nix_lexer_next lx)) \<noteq> NIX_TOK_EOF"
  then have "0 < tok_weight (fst (nix_lexer_next lx))" by (simp add: tok_weight_def)
  with next_weight [of lx] show "(snd (nix_lexer_next lx), lx) \<in> measure (\<lambda>lx. length (rest lx))"
    by simp
qed simp

declare nix_tokens.simps [simp del]

text \<open>
  A source text: tokens, each followed by layout that starts with a blank; the last one may
  end the text.
\<close>

definition source_text :: "(tok_kind \<times> filler list) list \<Rightarrow> string" where
  "source_text ts = concat (map (\<lambda>(k, fs). token_text k @ layout_text fs) ts)"

definition follows_token :: "filler list \<Rightarrow> bool" where
  "follows_token fs \<longleftrightarrow> (\<forall>f \<in> set fs. filler_ok f) \<and> (case fs of Blank c # _ \<Rightarrow> True | _ \<Rightarrow> False)"

fun source_ok :: "(tok_kind \<times> filler list) list \<Rightarrow> bool" where
  "source_ok [] \<longleftrightarrow> True"
| "source_ok ((k, fs) # ts) \<longleftrightarrow>
     token_ok k \<and> (follows_token fs \<or> fs = [] \<and> ts = []) \<and> source_ok ts"

definition unknown_char :: "char \<Rightarrow> bool" where
  "unknown_char c \<longleftrightarrow> \<not> is_blank c \<and> \<not> c_isalnum c \<and> c \<notin> set ''#_~&|'' \<and> c \<noteq> CHR 0x22
     \<and> single_char_token c = None"

lemma token_not_EOF: "token_ok k \<Longrightarrow> fst k \<noteq> NIX_TOK_EOF"
  by (auto simp: token_ok_def operator_texts_def keyword_table_def split: prod.splits if_splits option.splits)

lemma follows_blank: "follows_token fs \<Longrightarrow> layout_text fs @ s \<noteq> [] \<and> is_blank (hd (layout_text fs @ s))"
  by (auto simp: follows_token_def layout_text_def split: list.splits filler.splits)

lemma tokens_of_layout:
  "rest lx = layout_text fs @ s \<Longrightarrow> \<forall>f \<in> set fs. filler_ok f \<Longrightarrow>
   \<exists>lx'. nix_tokens lx = nix_tokens lx' \<and> rest lx' = s"
  using next_after_layout [of lx fs s] by (metis nix_tokens.simps)

lemma tokens_of_token:
  assumes "token_ok k" and "rest lx = token_text k @ s" and "s = [] \<or> is_blank (hd s)"
  shows "\<exists>lx'. nix_tokens lx = k # nix_tokens lx' \<and> rest lx' = s"
proof -
  from lex_one [OF assms] obtain tok lx' where
    n: "nix_lexer_next lx = (tok, lx')" "tok_kind tok = k" "rest lx' = s" by blast
  then have "tok_type tok \<noteq> NIX_TOK_EOF" using token_not_EOF [OF assms(1)] by (auto simp: tok_kind_def)
  with n show ?thesis by (subst nix_tokens.simps) auto
qed

lemma tokens_of_source:
  "rest lx = source_text ts @ s \<Longrightarrow> source_ok ts \<Longrightarrow>
   s = [] \<or> (ts \<noteq> [] \<longrightarrow> snd (last ts) \<noteq> []) \<Longrightarrow>
   \<exists>lx'. nix_tokens lx = map fst ts @ nix_tokens lx' \<and> rest lx' = s"
proof (induction ts arbitrary: lx)
  case Nil
  then show ?case by (auto simp: source_text_def)
next
  case (Cons t ts)
  obtain k fs where t: "t = (k, fs)" by (cases t)
  let ?s = "layout_text fs @ source_text ts @ s"
  have ok: "token_ok k" "source_ok ts" and fs: "follows_token fs \<or> fs = [] \<and> ts = []"
    using Cons.prems(2) t by auto
  have "?s = [] \<or> is_blank (hd ?s)"
    using fs follows_blank [of fs "source_text ts @ s"] Cons.prems(3) t
    by (auto simp: layout_text_def source_text_def)
  with tokens_of_token [OF ok(1), of lx ?s] Cons.prems(1) t obtain l1 where
    1: "nix_tokens lx = k # nix_tokens l1" "rest l1 = ?s" by (auto simp: source_text_def)
  have "\<forall>f \<in> set fs. filler_ok f" using fs by (auto simp: follows_token_def)
  from tokens_of_layout [OF 1(2) this] obtain l2 where
    2: "nix_tokens l1 = nix_tokens l2" "rest l2 = source_text ts @ s" by blast
  from Cons.IH [OF 2(2) ok(2)] Cons.prems(3) 1(1) 2(1) t show ?case
    by (cases "ts = []") (auto simp: source_text_def)
qed

lemma no_tokens_left: "rest lx = [] \<Longrightarrow> nix_tokens lx = []"
  by (subst nix_tokens.simps, simp add: nix_lexer_next_def skip_whitespace.simps Let_def)

lemma two_char_first: "two_char_operator c d = Some t \<Longrightarrow> c \<in> set ''+=!<>&|-''"
  by (auto simp: two_char_operator_def split: if_splits)

lemma no_tokens_at_unknown:
  assumes r: "rest lx = c # s" and c: "unknown_char c"
  shows "nix_tokens lx = []"
proof -
  have all: "\<forall>c \<in> set ''/.+=!<>&|-''. \<not> unknown_char c" by code_simp
  have nin: "c \<notin> set ''/.+=!<>&|-''"
  proof
    assume "c \<in> set ''/.+=!<>&|-''"
    from bspec [OF all this] c show False by (rule notE)
  qed
  then have ne: "c \<noteq> CHR ''/''" "c \<noteq> CHR ''.''" by simp_all
  then have sk: "skip_whitespace lx = lx"
    using c by (intro skip_none [OF r]) (auto simp: unknown_char_def)
  have "c \<notin> set ''+=!<>&|-''" using nin by simp
  then have two: "two_char_operator c d = None" for d
    using two_char_first [of c d] by (cases "two_char_operator c d") blast+
  have "tok_type (fst (nix_lexer_next lx)) = NIX_TOK_EOF"
    using r c ne two unfolding nix_lexer_next_def sk Let_def
    by (auto simp: unknown_char_def c_isalnum_def)
  then show ?thesis by (subst nix_tokens.simps) simp
qed

interpretation nix_lex: codec source_ok source_text "\<lambda>s. Some (nix_tokens (nix_lexer_new s))" "map fst"
proof
  fix ts assume "source_ok ts"
  with tokens_of_source [of "nix_lexer_new (source_text ts)" ts "[]"] no_tokens_left
  show "Some (nix_tokens (nix_lexer_new (source_text ts))) = Some (map fst ts)"
    by (auto simp: nix_lexer_new_def)
qed

subsection \<open>Properties\<close>

text \<open>
  C9.  The lexer reads back every text that is built from tokens and layout: words, integers
  below 2 to the 63, strings with any content but NUL, paths, operators and keywords,
  separated by blanks, line comments and nested block comments.
\<close>

theorem nix_lexer_roundtrip:
  assumes "source_ok ts" and "\<forall>f \<in> set fs. filler_ok f"
  shows "nix_tokens (nix_lexer_new (layout_text fs @ source_text ts)) = map fst ts"
proof -
  let ?l = "nix_lexer_new (layout_text fs @ source_text ts)"
  from tokens_of_layout [of ?l fs "source_text ts"] assms(2) obtain l1 where
    "nix_tokens ?l = nix_tokens l1" "rest l1 = source_text ts" by (auto simp: nix_lexer_new_def)
  with tokens_of_source [of l1 ts "[]"] assms(1) no_tokens_left show ?thesis by auto
qed

definition demo_source :: "(tok_kind \<times> filler list) list" where
  "demo_source =
     [((NIX_TOK_LBRACE, None, 0), [Blank CHR '' '', Line_comment ''packages'']),
      ((NIX_TOK_IDENT, Some ''n'', 0), [Blank CHR '' '']),
      ((NIX_TOK_EQUALS, None, 0), [Blank c_nl, Block_comment (Text ''in '' (Nested (Text ''in'' Close) Close))]),
      ((NIX_TOK_INT, None, 42), [Blank CHR '' '']),
      ((NIX_TOK_PLUS, None, 0), [Blank CHR '' '']),
      ((NIX_TOK_STRING, Some ''a$b'', 0), [Blank CHR '' '']),
      ((NIX_TOK_SEMICOLON, None, 0), [Blank CHR '' '']),
      ((NIX_TOK_RBRACE, None, 0), [Blank c_nl])]"

lemma demo_source_ok: "source_ok demo_source"
  by code_simp

theorem nix_lexer_roundtrip_witness:
  "nix_tokens (nix_lexer_new (layout_text [Line_comment ''config''] @ source_text demo_source)) = map fst demo_source"
  by (rule nix_lexer_roundtrip [OF demo_source_ok]) simp

text \<open>
  A character no token starts with ends the input: whatever follows it is never read,
  and the caller sees the same tokens as for the text before it.
\<close>

theorem stray_character_ends_input:
  assumes "source_ok ts" and "ts \<noteq> [] \<longrightarrow> snd (last ts) \<noteq> []" and "unknown_char c"
  shows "nix_tokens (nix_lexer_new (source_text ts @ c # junk)) = map fst ts"
proof -
  from tokens_of_source [of "nix_lexer_new (source_text ts @ c # junk)" ts "c # junk"] assms(1,2)
  obtain l1 where "nix_tokens (nix_lexer_new (source_text ts @ c # junk)) = map fst ts @ nix_tokens l1"
    "rest l1 = c # junk" by (auto simp: nix_lexer_new_def)
  with no_tokens_at_unknown [OF _ assms(3)] show ?thesis by auto
qed

theorem stray_character_ends_input_witness:
  "nix_tokens (nix_lexer_new (source_text demo_source @ ''@ services = 1;'')) = map fst demo_source"
proof -
  have "snd (last demo_source) \<noteq> []" "unknown_char CHR ''@''" by code_simp+
  with stray_character_ends_input [OF demo_source_ok, of "CHR ''@''" "'' services = 1;''"]
  show ?thesis by simp
qed

end
