(* ===== verification/Nix_Parser.thy ===== *)
theory Nix_Parser
  imports Nix_Lexer
begin

text \<open>
  \<open>lib/2O9/nix/nix_parser.c\<close>: the recursive-descent parser, on the lexer of \<open>Nix_Lexer\<close>, and
  \<open>nix_ast_clone\<close> of \<open>nix_eval.c\<close>, which it calls.

  Every C function is a definition of its own.  The calls that close a cycle of the call graph,
  to \<open>parse_expr\<close> and from nested places to \<open>parse_select\<close>, are its arguments \<open>pe\<close> and \<open>ps\<close>;
  \<open>parse_expr\<close> and \<open>parse_select\<close> tie the knot with a bound on the depth of such calls, and loops
  have a bound on their rounds.  The result \<open>Out_of_steps\<close> means that a bound was too small; it
  is shown that it never is.  Positions are kept in tokens and error messages; the copies of
  them in the nodes, which only show in messages of the evaluator, are left out.
\<close>

subsection \<open>Syntax trees\<close>

text \<open>\<open>NULL\<close> is the null pointer, which the parser stores in nodes after errors.\<close>

datatype nix_ast =
    NULL
  | NIX_NODE_ATTR_SET "(string option \<times> nix_ast) list"
  | NIX_NODE_REC_ATTR_SET "(string option \<times> nix_ast) list"
  | NIX_NODE_LIST "nix_ast list"
  | NIX_NODE_STRING "(string + nix_ast) list"
  | NIX_NODE_IDENT string
  | NIX_NODE_SELECT nix_ast string
  | NIX_NODE_APPLY nix_ast nix_ast
  | NIX_NODE_LAMBDA nix_ast nix_ast
  | NIX_NODE_LET "(string option \<times> nix_ast) list" nix_ast
  | NIX_NODE_IF nix_ast nix_ast nix_ast
  | NIX_NODE_WITH nix_ast nix_ast
  | NIX_NODE_ASSERT nix_ast nix_ast
  | NIX_NODE_BINOP nix_tok_type nix_ast nix_ast
  | NIX_NODE_UNARY_NOT nix_ast
  | NIX_NODE_NEGATE nix_ast
  | NIX_NODE_HAS_ATTR nix_ast string
  | NIX_NODE_OR_DEFAULT nix_ast string nix_ast
  | NIX_NODE_INT "64 word"
  | NIX_NODE_BOOL bool
  | NIX_NODE_NULL
  | NIX_NODE_PATH string
  | NIX_NODE_IMPORT string

text \<open>
  The copy of a node: the kinds of node without a case of their own keep only their type, with
  the pointers of the union zero.
\<close>

primrec nix_ast_clone :: "nix_ast \<Rightarrow> nix_ast" where
  "nix_ast_clone (NIX_NODE_ATTR_SET bs) = NIX_NODE_ATTR_SET (map (map_prod id nix_ast_clone) bs)"
| "nix_ast_clone (NIX_NODE_REC_ATTR_SET bs) = NIX_NODE_REC_ATTR_SET (map (map_prod id nix_ast_clone) bs)"
| "nix_ast_clone (NIX_NODE_LIST es) = NIX_NODE_LIST (map nix_ast_clone es)"
| "nix_ast_clone (NIX_NODE_STRING ps) = NIX_NODE_STRING (map (map_sum id nix_ast_clone) ps)"
| "nix_ast_clone (NIX_NODE_SELECT e a) = NIX_NODE_SELECT (nix_ast_clone e) a"
| "nix_ast_clone (NIX_NODE_HAS_ATTR e a) = NIX_NODE_HAS_ATTR (nix_ast_clone e) a"
| "nix_ast_clone (NIX_NODE_APPLY f e) = NIX_NODE_APPLY (nix_ast_clone f) (nix_ast_clone e)"
| "nix_ast_clone (NIX_NODE_LAMBDA q e) = NIX_NODE_LAMBDA (nix_ast_clone q) (nix_ast_clone e)"
| "nix_ast_clone (NIX_NODE_LET bs e) = NIX_NODE_LET (map (map_prod id nix_ast_clone) bs) (nix_ast_clone e)"
| "nix_ast_clone (NIX_NODE_IF c a b) = NIX_NODE_IF (nix_ast_clone c) (nix_ast_clone a) (nix_ast_clone b)"
| "nix_ast_clone (NIX_NODE_WITH e b) = NIX_NODE_WITH (nix_ast_clone e) (nix_ast_clone b)"
| "nix_ast_clone (NIX_NODE_ASSERT c b) = NIX_NODE_ASSERT (nix_ast_clone c) (nix_ast_clone b)"
| "nix_ast_clone (NIX_NODE_BINOP op a b) = NIX_NODE_BINOP op (nix_ast_clone a) (nix_ast_clone b)"
| "nix_ast_clone (NIX_NODE_UNARY_NOT e) = NIX_NODE_UNARY_NOT (nix_ast_clone e)"
| "nix_ast_clone (NIX_NODE_NEGATE e) = NIX_NODE_NEGATE NULL"
| "nix_ast_clone (NIX_NODE_OR_DEFAULT e a d) = NIX_NODE_OR_DEFAULT NULL [] NULL"
| "nix_ast_clone (NIX_NODE_IMPORT s) = NIX_NODE_IMPORT []"
| "nix_ast_clone NULL = NULL"
| "nix_ast_clone (NIX_NODE_IDENT s) = NIX_NODE_IDENT s"
| "nix_ast_clone (NIX_NODE_INT i) = NIX_NODE_INT i"
| "nix_ast_clone (NIX_NODE_BOOL b) = NIX_NODE_BOOL b"
| "nix_ast_clone NIX_NODE_NULL = NIX_NODE_NULL"
| "nix_ast_clone (NIX_NODE_PATH s) = NIX_NODE_PATH s"

subsection \<open>Parser state\<close>

type_synonym parse_message = "nat \<times> nat \<times> string"

record nix_parser =
  p_lex :: nix_lexer
  p_cur :: nix_token
  p_error :: "parse_message option"
  p_has_error :: bool

text \<open>What a call does: return a value, access memory out of bounds, or exceed a bound.\<close>

datatype 'a run = Ret 'a | Crash | Out_of_steps

fun andthen :: "'a run \<Rightarrow> ('a \<Rightarrow> 'b run) \<Rightarrow> 'b run" where
  "andthen (Ret x) f = f x"
| "andthen Crash f = Crash"
| "andthen Out_of_steps f = Out_of_steps"

type_synonym action = "nix_parser \<Rightarrow> (nix_ast \<times> nix_parser) run"

definition parser_error :: "string \<Rightarrow> nix_parser \<Rightarrow> nix_parser" where
  "parser_error msg p =
     (if p_has_error p then p
      else p\<lparr>p_has_error := True, p_error := Some (tok_line (p_cur p), tok_col (p_cur p), msg)\<rparr>)"

definition advance :: "nix_parser \<Rightarrow> nix_parser" where
  "advance p = (case nix_lexer_next (p_lex p) of (tok, lx) \<Rightarrow> p\<lparr>p_lex := lx, p_cur := tok\<rparr>)"

definition peek_type :: "nix_parser \<Rightarrow> nix_tok_type" where
  "peek_type p = tok_type (p_cur p)"

definition cur_text :: "nix_parser \<Rightarrow> string" where
  "cur_text p = (case tok_text (p_cur p) of Some t \<Rightarrow> t | None \<Rightarrow> [])"

definition expect :: "nix_tok_type \<Rightarrow> string \<Rightarrow> nix_parser \<Rightarrow> nix_parser" where
  "expect t msg p = (if peek_type p = t then advance p else parser_error msg p)"

definition parser_start :: "string \<Rightarrow> parse_message option \<Rightarrow> nix_parser" where
  "parser_start source err =
     (case nix_lexer_next (nix_lexer_new source) of
        (tok, lx) \<Rightarrow> \<lparr>p_lex = lx, p_cur = tok, p_error = err, p_has_error = False\<rparr>)"

text \<open>What is left to read, with the token that is looked at: every \<open>advance\<close> uses some of it.\<close>

definition p_mu :: "nix_parser \<Rightarrow> nat" where
  "p_mu p = length (rest (p_lex p)) + tok_weight (p_cur p)"

definition budget :: "nix_parser \<Rightarrow> nat" where
  "budget p = Suc (p_mu p)"

lemma tok_weight_pos: "tok_type tok \<noteq> NIX_TOK_EOF \<Longrightarrow> 0 < tok_weight tok"
  by (simp add: tok_weight_def)

lemma mu_advance_le: "p_mu (advance p) \<le> p_mu p"
  using next_weight [of "p_lex p"] by (simp add: p_mu_def advance_def case_prod_unfold)

lemma mu_advance: "peek_type p \<noteq> NIX_TOK_EOF \<Longrightarrow> p_mu (advance p) < p_mu p"
  using next_weight [of "p_lex p"] tok_weight_pos [of "p_cur p"]
  by (simp add: p_mu_def advance_def peek_type_def case_prod_unfold)

lemma error_advance [simp]: "p_has_error (advance p) = p_has_error p" "p_error (advance p) = p_error p"
  by (simp_all add: advance_def split: prod.split)

lemma parser_error_sets [simp]:
  "p_has_error (parser_error msg p)" "p_mu (parser_error msg p) = p_mu p"
  "peek_type (parser_error msg p) = peek_type p"
  by (simp_all add: parser_error_def p_mu_def peek_type_def)

lemma mu_expect: "p_mu (expect t msg p) \<le> p_mu p"
  by (simp add: expect_def mu_advance_le)

lemma error_expect: "p_has_error p \<Longrightarrow> p_has_error (expect t msg p)"
  by (simp add: expect_def)

lemma mu_start: "p_mu (parser_start source err) \<le> length source"
  using next_weight [of "nix_lexer_new source"]
  by (simp add: p_mu_def parser_start_def nix_lexer_new_def case_prod_unfold)

subsection \<open>Attribute paths and bindings\<close>

definition has_interpolation :: "string \<Rightarrow> bool" where
  "has_interpolation t \<longleftrightarrow> c_strstr t ''${''"

text \<open>The parts after dots; the flag says that the loop was left by an error.\<close>

function attrpath_loop :: "string list \<Rightarrow> nix_parser \<Rightarrow> bool \<times> string list \<times> nix_parser" where
  "attrpath_loop parts p =
     (if peek_type p = NIX_TOK_DOT then
        let p1 = advance p; nt = peek_type p1 in
        if nt \<noteq> NIX_TOK_IDENT \<and> nt \<noteq> NIX_TOK_STRING
        then (True, parts, parser_error (''expected identifier or string after '.'' @ [CHR 0x27]) p1)
        else if nt = NIX_TOK_STRING \<and> has_interpolation (cur_text p1)
        then (True, parts, parser_error ''interpolated strings cannot be attrset keys'' p1)
        else attrpath_loop (parts @ [cur_text p1]) (advance p1)
      else (False, parts, p))"
  by pat_completeness auto
termination
  by (relation "measure (\<lambda>(parts, p). p_mu p)")
    (auto intro!: le_less_trans [OF mu_advance_le] mu_advance)

declare attrpath_loop.simps [simp del]

definition parse_attrpath :: "nix_parser \<Rightarrow> string list \<times> nix_parser" where
  "parse_attrpath p =
     (let ft = peek_type p in
      if ft \<noteq> NIX_TOK_IDENT \<and> ft \<noteq> NIX_TOK_STRING
      then ([], parser_error ''expected identifier or string in attrpath'' p)
      else if ft = NIX_TOK_STRING \<and> has_interpolation (cur_text p)
      then ([], parser_error ''interpolated strings cannot be attrset keys'' p)
      else snd (attrpath_loop [cur_text p] (advance p)))"

type_synonym nix_bind = "string list \<times> nix_ast"

function inherit_loop :: "nix_ast \<Rightarrow> nix_bind list \<Rightarrow> nix_parser \<Rightarrow> nix_bind list \<times> nix_parser" where
  "inherit_loop src binds p =
     (if peek_type p = NIX_TOK_IDENT then
        let ident = cur_text p;
            value = (if src \<noteq> NULL then NIX_NODE_SELECT (nix_ast_clone src) ident else NIX_NODE_IDENT ident)
        in inherit_loop src (binds @ [([ident], value)]) (advance p)
      else (binds, p))"
  by pat_completeness auto
termination
  by (relation "measure (\<lambda>(src, binds, p). p_mu p)") (auto intro: mu_advance)

declare inherit_loop.simps [simp del]

definition parse_inherit :: "action \<Rightarrow> nix_bind list \<Rightarrow> nix_parser \<Rightarrow> (nix_bind list \<times> nix_parser) run" where
  "parse_inherit pe binds p =
     (let after_source = (\<lambda>src p.
        case inherit_loop src binds p of
          (binds', p') \<Rightarrow> Ret (binds', expect NIX_TOK_SEMICOLON ''expected ';' after inherit'' p'))
      in if peek_type p = NIX_TOK_LPAREN then
           andthen (pe (advance p)) (\<lambda>(src, p1).
             if p_has_error p1 then Ret (binds, p1)
             else let p2 = expect NIX_TOK_RPAREN ''expected ')' after inherit source expression'' p1
                  in if p_has_error p2 then Ret (binds, p2) else after_source src p2)
         else after_source NULL p)"

definition parse_bind :: "action \<Rightarrow> nix_bind list \<Rightarrow> nix_parser \<Rightarrow> (nix_bind list \<times> nix_parser) run" where
  "parse_bind pe binds p =
     (if peek_type p = NIX_TOK_IDENT \<and> cur_text p = ''inherit''
      then parse_inherit pe binds (advance p)
      else case parse_attrpath p of (ap, p1) \<Rightarrow>
        if p_has_error p1 then Ret (binds, p1)
        else let p2 = expect NIX_TOK_EQUALS ''expected '=' in binding'' p1 in
        if p_has_error p2 then Ret (binds, p2)
        else andthen (pe p2) (\<lambda>(val, p3).
          if p_has_error p3 then Ret (binds, p3)
          else let p4 = expect NIX_TOK_SEMICOLON ''expected ';' after binding'' p3 in
          if p_has_error p4 then Ret (binds, p4)
          else Ret (binds @ [(ap, val)], p4)))"

text \<open>
  The loops over bindings up to a closing token; the flag says that the caller returns NULL.
\<close>

fun binds_loop ::
    "action \<Rightarrow> nix_tok_type \<Rightarrow> nat \<Rightarrow> nix_bind list \<Rightarrow> nix_parser \<Rightarrow> (bool \<times> nix_bind list \<times> nix_parser) run" where
  "binds_loop pe stop 0 binds p = Out_of_steps"
| "binds_loop pe stop (Suc n) binds p =
     (if peek_type p = stop \<or> peek_type p = NIX_TOK_EOF then Ret (False, binds, p)
      else andthen (parse_bind pe binds p) (\<lambda>(binds', p').
        if p_has_error p' then Ret (True, binds', p') else binds_loop pe stop n binds' p'))"

subsection \<open>Strings\<close>

text \<open>
  A string token's text falls into literal pieces and the texts between \<open>${\<close> and the brace
  that closes it.  An unclosed one loses its last character, and when nothing follows \<open>${\<close> its
  length is -1, as a \<open>size_t\<close>, for the copy that follows.
\<close>

datatype piece = Literal string | Expr_text string | Wild_copy

fun brace_span :: "nat \<Rightarrow> string \<Rightarrow> string \<times> string" where
  "brace_span depth [] = ([], [])"
| "brace_span depth (c # s) =
     (if depth = 0 then ([], c # s) else apfst ((#) c) (brace_span (brace_depth c depth) s))"

fun literal_span :: "string \<Rightarrow> string \<times> string" where
  "literal_span [] = ([], [])"
| "literal_span (c # s) =
     (if c = CHR ''$'' \<and> take 1 s = ''{'' then ([], c # s) else apfst ((#) c) (literal_span s))"

lemma length_brace_span:
  "length (fst (brace_span depth s)) + length (snd (brace_span depth s)) = length s"
  by (induction depth s rule: brace_span.induct) auto

lemma length_literal_span: "length (snd (literal_span s)) \<le> length s"
  by (induction s rule: literal_span.induct) (auto intro: le_SucI)

function string_pieces :: "string \<Rightarrow> piece list" where
  "string_pieces [] = []"
| "string_pieces (c # s) =
     (if c = CHR ''$'' \<and> take 1 s = ''{'' then
        (case brace_span 1 (tl s) of
           (inside, s') \<Rightarrow>
             (if inside = [] then Wild_copy else Expr_text (butlast inside)) # string_pieces s')
      else (case literal_span s of (lit, s') \<Rightarrow> Literal (c # lit) # string_pieces s'))"
  by pat_completeness auto
termination
proof (relation "measure length")
  fix c :: char and s x s'
  assume "(x, s') = brace_span 1 (tl s)"
  then have "s' = snd (brace_span 1 (tl s))" by (metis snd_conv)
  with length_brace_span [of 1 "tl s"] show "(s', c # s) \<in> measure length" by simp
next
  fix c :: char and s x s'
  assume "(x, s') = literal_span s"
  then have "s' = snd (literal_span s)" by (metis snd_conv)
  with length_literal_span [of s] show "(s', c # s) \<in> measure length" by simp
qed simp

fun parse_pieces ::
    "action \<Rightarrow> piece list \<Rightarrow> parse_message option \<Rightarrow> ((string + nix_ast) list \<times> parse_message option) run" where
  "parse_pieces pe [] err = Ret ([], err)"
| "parse_pieces pe (Literal s # ps) err =
     andthen (parse_pieces pe ps err) (\<lambda>(qs, err'). Ret (Inl s # qs, err'))"
| "parse_pieces pe (Expr_text s # ps) err =
     andthen (pe (parser_start s err)) (\<lambda>(e, sub).
       andthen (parse_pieces pe ps (p_error sub)) (\<lambda>(qs, err'). Ret (Inr e # qs, err')))"
| "parse_pieces pe (Wild_copy # ps) err = Crash"

definition parse_string :: "action \<Rightarrow> string \<Rightarrow> action" where
  "parse_string pe text p =
     andthen (parse_pieces pe (string_pieces text) (p_error p)) (\<lambda>(parts, err).
       Ret (NIX_NODE_STRING parts, p\<lparr>p_error := err\<rparr>))"

subsection \<open>Braces: attribute sets and functions with named arguments\<close>

definition skip_comma :: "nix_parser \<Rightarrow> nix_parser" where
  "skip_comma p = (if peek_type p = NIX_TOK_COMMA then advance p else p)"

definition formal_default :: "action \<Rightarrow> action" where
  "formal_default pe p =
     (if peek_type p = NIX_TOK_QUESTION then pe (advance p) else Ret (NIX_NODE_NULL, p))"

text \<open>
  The formals that remain.  After a leading ellipsis the code has a copy of the loop that knows
  no further ellipsis; \<open>dots\<close> is false there.
\<close>

fun formals_loop ::
    "action \<Rightarrow> bool \<Rightarrow> nat \<Rightarrow> (string option \<times> nix_ast) list \<Rightarrow> nix_parser \<Rightarrow>
     ((string option \<times> nix_ast) list \<times> nix_parser) run" where
  "formals_loop pe dots 0 formals p = Out_of_steps"
| "formals_loop pe dots (Suc n) formals p =
     (if peek_type p = NIX_TOK_RBRACE \<or> peek_type p = NIX_TOK_EOF then Ret (formals, p)
      else if dots \<and> peek_type p = NIX_TOK_DOT then
        let p1 = advance p;
            msg = ''unexpected '.' in formals (did you mean '...'?)'' in
        if peek_type p1 \<noteq> NIX_TOK_DOT then Ret (formals, parser_error msg p1)
        else let p2 = advance p1 in
        if peek_type p2 \<noteq> NIX_TOK_DOT then Ret (formals, parser_error msg p2)
        else formals_loop pe dots n formals (skip_comma (advance p2))
      else if peek_type p \<noteq> NIX_TOK_IDENT
      then Ret (formals, parser_error ''expected identifier in formals'' p)
      else andthen (formal_default pe (advance p)) (\<lambda>(v, p').
        formals_loop pe dots n (formals @ [(Some (cur_text p), v)]) (skip_comma p')))"

definition finish_lambda :: "action \<Rightarrow> (string option \<times> nix_ast) list \<Rightarrow> action" where
  "finish_lambda pe formals p =
     andthen
       (pe (expect NIX_TOK_COLON ''expected ':' after formals''
             (expect NIX_TOK_RBRACE (''expected '}'' @ [CHR 0x27]) p)))
       (\<lambda>(body, p'). Ret (NIX_NODE_LAMBDA (NIX_NODE_ATTR_SET formals) body, p'))"

text \<open>\<open>{ ... }\<close> at the start: the first dot is the current token.\<close>

definition parse_ellipsis :: "action \<Rightarrow> action" where
  "parse_ellipsis pe p =
     (let p1 = advance p;
          err = (\<lambda>p. Ret (NULL, parser_error ''unexpected '.' in attrset'' p)) in
      if peek_type p1 \<noteq> NIX_TOK_DOT then err p1
      else let p2 = advance p1 in
      if peek_type p2 \<noteq> NIX_TOK_DOT then err p2
      else let p3 = skip_comma (advance p2) in
      andthen (formals_loop pe False (budget p3) [] p3) (\<lambda>(formals, p4). finish_lambda pe formals p4))"

text \<open>The key of a binding: the first part of its path only, or all parts joined with dots.\<close>

definition first_key :: "nix_bind \<Rightarrow> string option \<times> nix_ast" where
  "first_key b = (Some (hd (fst b)), snd b)"

fun join_dots :: "string list \<Rightarrow> string" where
  "join_dots [] = []"
| "join_dots [s] = s"
| "join_dots (s # ss) = s @ ''.'' @ join_dots ss"

definition joined_key :: "nix_bind \<Rightarrow> string option \<times> nix_ast" where
  "joined_key b = (Some (join_dots (fst b)), snd b)"

text \<open>In \<open>rec\<close> and \<open>let\<close> a path of several parts leaves the key NULL.\<close>

definition single_key :: "nix_bind \<Rightarrow> string option \<times> nix_ast" where
  "single_key b = (if length (fst b) = 1 then Some (hd (fst b)) else None, snd b)"

definition finish_attrset :: "action \<Rightarrow> (nix_bind \<Rightarrow> string option \<times> nix_ast) \<Rightarrow> nix_bind list \<Rightarrow> action" where
  "finish_attrset pe key binds p =
     (let p1 = expect NIX_TOK_RBRACE (''expected '}'' @ [CHR 0x27]) p in
      if peek_type p1 = NIX_TOK_COLON
      then andthen (pe (advance p1)) (\<lambda>(body, p2).
        Ret (NIX_NODE_LAMBDA (NIX_NODE_ATTR_SET (map first_key binds)) body, p2))
      else Ret (NIX_NODE_ATTR_SET (map key binds), p1))"

definition bindings_rest ::
    "action \<Rightarrow> (nix_bind \<Rightarrow> string option \<times> nix_ast) \<Rightarrow> nix_bind list \<Rightarrow> action" where
  "bindings_rest pe key binds p =
     andthen (binds_loop pe NIX_TOK_RBRACE (budget p) binds p) (\<lambda>(failed, binds', p').
       if failed then Ret (NULL, p') else finish_attrset pe key binds' p')"

definition parse_inherit_first :: "action \<Rightarrow> action" where
  "parse_inherit_first pe p =
     andthen (parse_bind pe [] p) (\<lambda>(binds, p').
       if p_has_error p' then Ret (NULL, p') else bindings_rest pe first_key binds p')"

definition parse_formals :: "action \<Rightarrow> string \<Rightarrow> action" where
  "parse_formals pe first_name p =
     andthen (formal_default pe p) (\<lambda>(v, p1).
       let p2 = skip_comma p1 in
       andthen (formals_loop pe True (budget p2) [(Some first_name, v)] p2) (\<lambda>(formals, p3).
         finish_lambda pe formals p3))"

definition parse_bindings :: "action \<Rightarrow> string \<Rightarrow> action" where
  "parse_bindings pe first_name p =
     (case attrpath_loop [first_name] p of (failed, ap, p1) \<Rightarrow>
        if failed then Ret (NULL, p1)
        else let p2 = expect NIX_TOK_EQUALS ''expected '=' in binding'' p1 in
        if p_has_error p2 then Ret (NULL, p2)
        else andthen (pe p2) (\<lambda>(val, p3).
          if p_has_error p3 then Ret (NULL, p3)
          else let p4 = expect NIX_TOK_SEMICOLON ''expected ';' after binding'' p3 in
          if p_has_error p4 then Ret (NULL, p4)
          else bindings_rest pe joined_key [(ap, val)] p4))"

text \<open>The current token is the one after \<open>{\<close>.\<close>

definition parse_braces :: "action \<Rightarrow> action" where
  "parse_braces pe p =
     (let first_t = peek_type p in
      if first_t = NIX_TOK_RBRACE then
        let p1 = advance p in
        if peek_type p1 = NIX_TOK_COLON
        then andthen (pe (advance p1)) (\<lambda>(body, p2).
          Ret (NIX_NODE_LAMBDA (NIX_NODE_ATTR_SET []) body, p2))
        else Ret (NIX_NODE_ATTR_SET [], p1)
      else if first_t = NIX_TOK_DOT then parse_ellipsis pe p
      else if first_t = NIX_TOK_IDENT \<and> cur_text p = ''inherit'' then parse_inherit_first pe p
      else if first_t \<noteq> NIX_TOK_IDENT \<and> first_t \<noteq> NIX_TOK_STRING
      then Ret (NULL, parser_error ''expected identifier, string, or '}' in attrset'' p)
      else if first_t = NIX_TOK_STRING \<and> has_interpolation (cur_text p)
      then Ret (NULL, parser_error ''interpolated strings cannot be attrset keys'' p)
      else
        let first_name = cur_text p; p1 = advance p; after_first = peek_type p1 in
        if first_t = NIX_TOK_IDENT \<and>
           (after_first = NIX_TOK_COMMA \<or> after_first = NIX_TOK_QUESTION \<or> after_first = NIX_TOK_RBRACE)
        then parse_formals pe first_name p1
        else parse_bindings pe first_name p1)"

subsection \<open>Base expressions\<close>

fun list_loop :: "action \<Rightarrow> nat \<Rightarrow> nix_ast list \<Rightarrow> nix_parser \<Rightarrow> (bool \<times> nix_ast list \<times> nix_parser) run" where
  "list_loop ps 0 items p = Out_of_steps"
| "list_loop ps (Suc n) items p =
     (if peek_type p = NIX_TOK_RBRACKET \<or> peek_type p = NIX_TOK_EOF then Ret (False, items, p)
      else andthen (ps p) (\<lambda>(e, p').
        if p_has_error p' then Ret (True, items @ [e], p') else list_loop ps n (items @ [e]) p'))"

definition parse_list :: "action \<Rightarrow> action" where
  "parse_list ps p =
     andthen (list_loop ps (budget p) [] p) (\<lambda>(failed, items, p').
       if failed then Ret (NULL, p')
       else Ret (NIX_NODE_LIST items, expect NIX_TOK_RBRACKET (''expected ']'' @ [CHR 0x27]) p'))"

definition parse_identifier :: "action \<Rightarrow> action" where
  "parse_identifier pe p =
     (let name = cur_text p; p1 = advance p in
      if peek_type p1 = NIX_TOK_COLON
      then andthen (pe (advance p1)) (\<lambda>(body, p2). Ret (NIX_NODE_LAMBDA (NIX_NODE_IDENT name) body, p2))
      else if name = ''import'' \<and> peek_type p1 = NIX_TOK_PATH
      then Ret (NIX_NODE_IMPORT (cur_text p1), advance p1)
      else if name = ''true'' then Ret (NIX_NODE_BOOL True, p1)
      else if name = ''false'' then Ret (NIX_NODE_BOOL False, p1)
      else if name = ''null'' then Ret (NIX_NODE_NULL, p1)
      else Ret (NIX_NODE_IDENT name, p1))"

definition parse_rec :: "action \<Rightarrow> action" where
  "parse_rec pe p =
     (let p1 = expect NIX_TOK_LBRACE (''expected '{' after 'rec'' @ [CHR 0x27]) p in
      if p_has_error p1 then Ret (NULL, p1)
      else andthen (binds_loop pe NIX_TOK_RBRACE (budget p1) [] p1) (\<lambda>(failed, binds, p2).
        if failed then Ret (NULL, p2)
        else Ret (NIX_NODE_REC_ATTR_SET (map single_key binds),
                  expect NIX_TOK_RBRACE (''expected '}'' @ [CHR 0x27]) p2)))"

definition parse_base :: "action \<Rightarrow> action \<Rightarrow> action" where
  "parse_base pe ps p =
     (case peek_type p of
        NIX_TOK_LPAREN \<Rightarrow>
          andthen (pe (advance p)) (\<lambda>(inner, p'). Ret (inner, expect NIX_TOK_RPAREN (''expected ')'' @ [CHR 0x27]) p'))
      | NIX_TOK_LBRACE \<Rightarrow> parse_braces pe (advance p)
      | NIX_TOK_LBRACKET \<Rightarrow> parse_list ps (advance p)
      | NIX_TOK_STRING \<Rightarrow> parse_string pe (cur_text p) (advance p)
      | NIX_TOK_PATH \<Rightarrow> Ret (NIX_NODE_PATH (cur_text p), advance p)
      | NIX_TOK_IDENT \<Rightarrow> parse_identifier pe p
      | NIX_TOK_INT \<Rightarrow> Ret (NIX_NODE_INT (tok_integer (p_cur p)), advance p)
      | NIX_TOK_KW_REC \<Rightarrow> parse_rec pe (advance p)
      | _ \<Rightarrow> Ret (NULL, parser_error ''unexpected token'' p))"

subsection \<open>Selection, application, operators\<close>

fun select_loop :: "action \<Rightarrow> nat \<Rightarrow> nix_ast \<Rightarrow> action" where
  "select_loop ps 0 e p = Out_of_steps"
| "select_loop ps (Suc n) e p =
     (if peek_type p \<noteq> NIX_TOK_DOT then Ret (e, p)
      else let p1 = advance p in
      if peek_type p1 \<noteq> NIX_TOK_IDENT
      then Ret (NULL, parser_error (''expected attribute name after '.'' @ [CHR 0x27]) p1)
      else let attr = cur_text p1; p2 = advance p1 in
      if peek_type p2 = NIX_TOK_KW_OR
      then andthen (ps (advance p2)) (\<lambda>(d, p3). select_loop ps n (NIX_NODE_OR_DEFAULT e attr d) p3)
      else select_loop ps n (NIX_NODE_SELECT e attr) p2)"

definition select_body :: "action \<Rightarrow> action \<Rightarrow> action" where
  "select_body pe ps p =
     andthen (parse_base pe ps p) (\<lambda>(e, p').
       if e = NULL \<or> p_has_error p' then Ret (e, p') else select_loop ps (budget p') e p')"

definition starts_argument :: "nix_tok_type \<Rightarrow> bool" where
  "starts_argument t \<longleftrightarrow> t \<in> {NIX_TOK_IDENT, NIX_TOK_INT, NIX_TOK_STRING, NIX_TOK_PATH,
     NIX_TOK_LPAREN, NIX_TOK_LBRACE, NIX_TOK_LBRACKET, NIX_TOK_KW_REC}"

fun apply_loop :: "action \<Rightarrow> nat \<Rightarrow> nix_ast \<Rightarrow> action" where
  "apply_loop sel 0 func p = Out_of_steps"
| "apply_loop sel (Suc n) func p =
     (if p_has_error p \<or> \<not> starts_argument (peek_type p) then Ret (func, p)
      else andthen (sel p) (\<lambda>(arg, p').
        if arg = NULL then Ret (func, p') else apply_loop sel n (NIX_NODE_APPLY func arg) p'))"

definition parse_apply :: "action \<Rightarrow> action" where
  "parse_apply sel p =
     andthen (sel p) (\<lambda>(func, p').
       if func = NULL \<or> p_has_error p' then Ret (func, p') else apply_loop sel (budget p') func p')"

fun binop_loop :: "action \<Rightarrow> nix_tok_type list \<Rightarrow> nat \<Rightarrow> nix_ast \<Rightarrow> action" where
  "binop_loop next_level ops 0 left p = Out_of_steps"
| "binop_loop next_level ops (Suc n) left p =
     (if p_has_error p \<or> peek_type p \<notin> set ops then Ret (left, p)
      else andthen (next_level (advance p)) (\<lambda>(right, p').
        if right = NULL then Ret (NULL, p')
        else binop_loop next_level ops n (NIX_NODE_BINOP (peek_type p) left right) p'))"

definition parse_binop_left :: "action \<Rightarrow> nix_tok_type list \<Rightarrow> action" where
  "parse_binop_left next_level ops p =
     andthen (next_level p) (\<lambda>(left, p').
       if left = NULL \<or> p_has_error p' then Ret (left, p')
       else binop_loop next_level ops (budget p') left p')"

fun binop_right :: "action \<Rightarrow> nix_tok_type \<Rightarrow> nat \<Rightarrow> action" where
  "binop_right next_level op 0 p = Out_of_steps"
| "binop_right next_level op (Suc n) p =
     andthen (next_level p) (\<lambda>(left, p').
       if left = NULL \<or> p_has_error p' \<or> peek_type p' \<noteq> op then Ret (left, p')
       else andthen (binop_right next_level op n (advance p')) (\<lambda>(right, p'').
         if right = NULL then Ret (NULL, p'') else Ret (NIX_NODE_BINOP op left right, p'')))"

definition parse_binop_right :: "action \<Rightarrow> nix_tok_type \<Rightarrow> action" where
  "parse_binop_right next_level op p = binop_right next_level op (budget p) p"

fun unary_loop :: "action \<Rightarrow> nat \<Rightarrow> action" where
  "unary_loop app 0 p = Out_of_steps"
| "unary_loop app (Suc n) p =
     (if peek_type p = NIX_TOK_NOT then
        andthen (unary_loop app n (advance p)) (\<lambda>(e, p').
          if e = NULL then Ret (NULL, p') else Ret (NIX_NODE_UNARY_NOT e, p'))
      else if peek_type p = NIX_TOK_MINUS then
        andthen (unary_loop app n (advance p)) (\<lambda>(e, p').
          if e = NULL then Ret (NULL, p') else Ret (NIX_NODE_NEGATE e, p'))
      else app p)"

text \<open>The levels, each in terms of the parser of selections.\<close>

definition parse_unary :: "action \<Rightarrow> action" where
  "parse_unary sel p = unary_loop (parse_apply sel) (budget p) p"

definition parse_mul :: "action \<Rightarrow> action" where
  "parse_mul sel = parse_binop_left (parse_unary sel) [NIX_TOK_STAR, NIX_TOK_SLASH]"

definition parse_add :: "action \<Rightarrow> action" where
  "parse_add sel = parse_binop_left (parse_mul sel) [NIX_TOK_PLUS, NIX_TOK_MINUS]"

definition parse_concat :: "action \<Rightarrow> action" where
  "parse_concat sel = parse_binop_right (parse_add sel) NIX_TOK_PLUS_PLUS"

definition parse_comparison :: "action \<Rightarrow> action" where
  "parse_comparison sel =
     parse_binop_left (parse_concat sel) [NIX_TOK_LT, NIX_TOK_LE, NIX_TOK_GT, NIX_TOK_GE]"

definition parse_equality :: "action \<Rightarrow> action" where
  "parse_equality sel = parse_binop_left (parse_comparison sel) [NIX_TOK_EQ, NIX_TOK_NEQ]"

definition parse_and :: "action \<Rightarrow> action" where
  "parse_and sel = parse_binop_left (parse_equality sel) [NIX_TOK_AND]"

definition parse_or :: "action \<Rightarrow> action" where
  "parse_or sel = parse_binop_left (parse_and sel) [NIX_TOK_OR]"

definition parse_implication :: "action \<Rightarrow> action" where
  "parse_implication sel = parse_binop_right (parse_or sel) NIX_TOK_ARROW"

subsection \<open>Expressions\<close>

definition parse_if :: "action \<Rightarrow> action" where
  "parse_if pe p =
     andthen (pe p) (\<lambda>(cond, p1).
     andthen (pe (expect NIX_TOK_KW_THEN (''expected 'then'' @ [CHR 0x27]) p1)) (\<lambda>(then_expr, p2).
     andthen (pe (expect NIX_TOK_KW_ELSE (''expected 'else'' @ [CHR 0x27]) p2)) (\<lambda>(else_expr, p3).
       Ret (NIX_NODE_IF cond then_expr else_expr, p3))))"

definition parse_assert :: "action \<Rightarrow> action" where
  "parse_assert pe p =
     andthen (pe p) (\<lambda>(cond, p1).
     andthen (pe (expect NIX_TOK_SEMICOLON ''expected ';' after assert'' p1)) (\<lambda>(body, p2).
       Ret (NIX_NODE_ASSERT cond body, p2)))"

definition parse_with :: "action \<Rightarrow> action" where
  "parse_with pe p =
     andthen (pe p) (\<lambda>(env_expr, p1).
     andthen (pe (expect NIX_TOK_SEMICOLON ''expected ';' after with'' p1)) (\<lambda>(body, p2).
       Ret (NIX_NODE_WITH env_expr body, p2)))"

definition parse_let :: "action \<Rightarrow> action" where
  "parse_let pe p =
     andthen (binds_loop pe NIX_TOK_KW_IN (budget p) [] p) (\<lambda>(failed, binds, p1).
       if failed then Ret (NULL, p1)
       else andthen (pe (expect NIX_TOK_KW_IN ''expected 'in' after let bindings'' p1)) (\<lambda>(body, p2).
         Ret (NIX_NODE_LET (map single_key binds) body, p2)))"

definition expr_body :: "action \<Rightarrow> action \<Rightarrow> action" where
  "expr_body pe ps p =
     (if p_has_error p then Ret (NULL, p)
      else case peek_type p of
        NIX_TOK_KW_IF \<Rightarrow> parse_if pe (advance p)
      | NIX_TOK_KW_ASSERT \<Rightarrow> parse_assert pe (advance p)
      | NIX_TOK_KW_WITH \<Rightarrow> parse_with pe (advance p)
      | NIX_TOK_KW_LET \<Rightarrow> parse_let pe (advance p)
      | _ \<Rightarrow> parse_implication (select_body pe ps) p)"

fun parse_expr :: "nat \<Rightarrow> action"
  and parse_select :: "nat \<Rightarrow> action" where
  "parse_expr 0 p = Out_of_steps"
| "parse_expr (Suc k) p = expr_body (parse_expr k) (parse_select k) p"
| "parse_select 0 p = Out_of_steps"
| "parse_select (Suc k) p = select_body (parse_expr k) (parse_select k) p"

text \<open>The result is the tree returned and the message stored for the caller.\<close>

definition nix_parse :: "string \<Rightarrow> (nix_ast \<times> parse_message option) run" where
  "nix_parse source =
     andthen (parse_expr (Suc (length source)) (parser_start source None)) (\<lambda>(ast, p).
       if \<not> p_has_error p \<and> peek_type p \<noteq> NIX_TOK_EOF
       then Ret (NULL, p_error (parser_error ''unexpected token after expression'' p))
       else Ret (ast, p_error p))"

subsection \<open>Termination\<close>


text \<open>
  The parser always comes to an end.  A call that works \<open>consumes\<close>: it uses up input or leaves
  the error flag set.
\<close>

fun run_sat :: "'a run \<Rightarrow> ('a \<Rightarrow> bool) \<Rightarrow> bool" where
  "run_sat (Ret x) Q \<longleftrightarrow> Q x"
| "run_sat Crash Q \<longleftrightarrow> True"
| "run_sat Out_of_steps Q \<longleftrightarrow> False"

lemma sat_then: "run_sat m P \<Longrightarrow> (\<And>x. P x \<Longrightarrow> run_sat (f x) Q) \<Longrightarrow> run_sat (andthen m f) Q"
  by (cases m) auto

definition consumes :: "nix_parser \<Rightarrow> 'a \<times> nix_parser \<Rightarrow> bool" where
  "consumes p r \<longleftrightarrow> p_mu (snd r) \<le> p_mu p \<and> (p_has_error (snd r) \<or> p_mu (snd r) < p_mu p)"

definition keeps :: "nix_parser \<Rightarrow> 'a \<times> nix_parser \<Rightarrow> bool" where
  "keeps p r \<longleftrightarrow> p_mu (snd r) \<le> p_mu p"

lemma consumes_keeps: "consumes p r \<Longrightarrow> keeps p r"
  by (simp add: consumes_def keeps_def)

text \<open>Everything after the first step need only keep the measure.\<close>

lemma sat_consumes_after:
  "run_sat r (keeps q) \<Longrightarrow> p_mu q < p_mu p \<Longrightarrow> run_sat r (consumes p)"
  by (cases r) (auto simp: consumes_def keeps_def)

lemma sat_keeps_after: "run_sat r (keeps q) \<Longrightarrow> p_mu q \<le> p_mu p \<Longrightarrow> run_sat r (keeps p)"
  by (cases r) (auto simp: keeps_def)

lemma mu_expect_le: "p_mu p \<le> m \<Longrightarrow> p_mu (expect t msg p) \<le> m"
  using mu_expect le_trans by blast

lemma mu_advance_leI: "p_mu p \<le> m \<Longrightarrow> p_mu (advance p) \<le> m"
  using mu_advance_le le_trans by blast

lemma mu_skip_comma: "p_mu (skip_comma p) \<le> p_mu p"
  by (simp add: skip_comma_def mu_advance_le)

definition calls_ok :: "nat \<Rightarrow> action \<Rightarrow> bool" where
  "calls_ok m pe \<longleftrightarrow> (\<forall>p. p_mu p < m \<longrightarrow> run_sat (pe p) (consumes p))"

lemma call_consumes: "calls_ok m pe \<Longrightarrow> p_mu p < m \<Longrightarrow> run_sat (pe p) (consumes p)"
  by (simp add: calls_ok_def)

lemma call_keeps: "calls_ok m pe \<Longrightarrow> p_mu p < m \<Longrightarrow> p_mu p \<le> p_mu q \<Longrightarrow> run_sat (pe p) (keeps q)"
  using call_consumes [of m pe p] by (cases "pe p") (auto simp: consumes_def keeps_def)

text \<open>A call whose result is only wrapped.\<close>

lemma call_wrap:
  assumes "calls_ok m pe" and "p_mu p < m" and "p_mu p \<le> p_mu q"
  shows "run_sat (andthen (pe p) (\<lambda>(e, p'). Ret (f e, p'))) (keeps q)"
  by (rule sat_then [OF call_keeps [OF assms]]) (auto simp: keeps_def)

subsubsection \<open>Bindings\<close>

lemma attrpath_loop_mu: "attrpath_loop parts p = (b, ap, p') \<Longrightarrow> p_mu p' \<le> p_mu p"
proof (induction parts p rule: attrpath_loop.induct)
  case (1 parts p)
  from 1(2) show ?case
    using mu_advance_le [of p] mu_advance_leI [OF mu_advance_le [of p]] 1(1) [OF _ refl refl]
    by (subst (asm) attrpath_loop.simps) (fastforce simp: Let_def split: if_splits)
qed

lemma parse_attrpath_mu:
  "parse_attrpath p = (ap, p') \<Longrightarrow> p_mu p' \<le> p_mu p \<and> (p_has_error p' \<or> p_mu p' < p_mu p)"
proof (cases "peek_type p = NIX_TOK_IDENT \<or> peek_type p = NIX_TOK_STRING \<and> \<not> has_interpolation (cur_text p)")
  case True
  assume "parse_attrpath p = (ap, p')"
  moreover obtain b ap1 p1 where "attrpath_loop [cur_text p] (advance p) = (b, ap1, p1)"
    by (cases "attrpath_loop [cur_text p] (advance p)")
  ultimately show ?thesis
    using True attrpath_loop_mu [of "[cur_text p]" "advance p" b ap1 p1] mu_advance [of p]
    by (auto simp: parse_attrpath_def Let_def)
next
  case False
  assume "parse_attrpath p = (ap, p')"
  with False show ?thesis by (auto simp: parse_attrpath_def Let_def split: if_splits)
qed

lemma inherit_loop_mu: "inherit_loop src binds p = (bs, p') \<Longrightarrow> p_mu p' \<le> p_mu p"
proof (induction src binds p rule: inherit_loop.induct)
  case (1 src binds p)
  from 1(2) show ?case
    using mu_advance_le [of p] 1(1) [OF _ refl refl]
    by (subst (asm) inherit_loop.simps) (fastforce simp: Let_def split: if_splits)
qed

lemma parse_inherit_ok:
  assumes pe: "calls_ok m pe" and p: "p_mu p < m"
  shows "run_sat (parse_inherit pe binds p) (keeps p)"
proof -
  have after: "run_sat (case inherit_loop src binds q of (bs, p') \<Rightarrow> Ret (bs, expect t msg p')) (keeps p)"
    if "p_mu q \<le> p_mu p" for src q t msg
  proof -
    obtain bs p' where "inherit_loop src binds q = (bs, p')" by fastforce
    with inherit_loop_mu that show ?thesis by (fastforce simp: keeps_def intro!: mu_expect_le)
  qed
  show ?thesis
  proof (cases "peek_type p = NIX_TOK_LPAREN")
    case True
    have "p_mu (advance p) < m" "p_mu (advance p) \<le> p_mu p"
      using mu_advance_le [of p] p by simp_all
    note sat = sat_then [OF call_keeps [OF pe this]]
    show ?thesis unfolding parse_inherit_def Let_def if_P [OF True]
    proof (rule sat)
      fix x :: "nix_ast \<times> nix_parser"
      assume "keeps p x"
      moreover obtain src p1 where x: "x = (src, p1)" by fastforce
      ultimately have le: "p_mu p1 \<le> p_mu p" by (simp add: keeps_def)
      let ?p2 = "expect NIX_TOK_RPAREN ''expected ')' after inherit source expression'' p1"
      have keep: "keeps p (binds, p1)" "keeps p (binds, ?p2)" using le by (simp_all add: keeps_def mu_expect_le)
      show "run_sat (case x of (src, p1) \<Rightarrow> if p_has_error p1 then Ret (binds, p1)
          else if p_has_error (expect NIX_TOK_RPAREN ''expected ')' after inherit source expression'' p1)
          then Ret (binds, expect NIX_TOK_RPAREN ''expected ')' after inherit source expression'' p1)
          else case inherit_loop src binds (expect NIX_TOK_RPAREN ''expected ')' after inherit source expression'' p1) of
            (binds', p') \<Rightarrow> Ret (binds', expect NIX_TOK_SEMICOLON ''expected ';' after inherit'' p')) (keeps p)"
        using keep after [OF mu_expect_le [OF le]] unfolding x
        by (simp only: case_prod_conv run_sat.simps if_split_mem1 split: if_split) simp
    qed
  next
    case False
    with after [of p] show ?thesis by (simp add: parse_inherit_def)
  qed
qed

lemma parse_bind_ok:
  assumes pe: "calls_ok m pe" and p: "p_mu p \<le> m"
  shows "run_sat (parse_bind pe binds p) (consumes p)"
proof (cases "peek_type p = NIX_TOK_IDENT \<and> cur_text p = ''inherit''")
  case True
  then have "p_mu (advance p) < p_mu p" by (intro mu_advance) simp
  with parse_inherit_ok [OF pe, of "advance p" binds] p True show ?thesis
    by (simp add: parse_bind_def sat_consumes_after)
next
  case False
  obtain ap p1 where ap: "parse_attrpath p = (ap, p1)" by fastforce
  note mu1 = parse_attrpath_mu [OF ap]
  let ?p2 = "expect NIX_TOK_EQUALS ''expected '=' in binding'' p1"
  show ?thesis
  proof (cases "p_has_error p1 \<or> p_has_error ?p2")
    case True
    with False ap mu1 mu_expect [of NIX_TOK_EQUALS "''expected '=' in binding''" p1] show ?thesis
      by (auto simp: parse_bind_def Let_def consumes_def)
  next
    case no: False
    then have lt: "p_mu ?p2 < p_mu p"
      using mu1 mu_expect [of NIX_TOK_EQUALS "''expected '=' in binding''" p1] by simp
    have "run_sat (pe ?p2) (keeps ?p2)" using call_keeps [OF pe] lt p by simp
    then have "run_sat (andthen (pe ?p2) (\<lambda>(val, p3).
          if p_has_error p3 then Ret (binds, p3)
          else let p4 = expect NIX_TOK_SEMICOLON ''expected ';' after binding'' p3 in
          if p_has_error p4 then Ret (binds, p4)
          else Ret (binds @ [(ap, val)], p4))) (keeps ?p2)"
      by (rule sat_then) (auto simp: keeps_def Let_def intro: mu_expect_le)
    from sat_consumes_after [OF this lt] False ap no show ?thesis
      by (simp only: parse_bind_def Let_def case_prod_conv if_False) simp
  qed
qed

lemma binds_loop_ok:
  assumes pe: "calls_ok m pe"
  shows "p_mu p < n \<Longrightarrow> p_mu p \<le> m \<Longrightarrow>
    run_sat (binds_loop pe stop n binds p) (\<lambda>r. keeps p (snd r) \<and> (fst r \<longrightarrow> p_has_error (snd (snd r))))"
proof (induction n arbitrary: binds p)
  case (Suc n)
  have "run_sat (parse_bind pe binds p) (consumes p)" using parse_bind_ok [OF pe Suc.prems(2)] .
  then have "run_sat (andthen (parse_bind pe binds p) (\<lambda>(binds', p').
      if p_has_error p' then Ret (True, binds', p') else binds_loop pe stop n binds' p'))
      (\<lambda>r. keeps p (snd r) \<and> (fst r \<longrightarrow> p_has_error (snd (snd r))))"
  proof (rule sat_then, clarsimp)
    fix bs :: "nix_bind list" and p' assume "consumes p (bs, p')"
    then have le: "p_mu p' \<le> p_mu p" and lt: "p_has_error p' \<or> p_mu p' < p_mu p"
      by (auto simp: consumes_def)
    show "(p_has_error p' \<longrightarrow> keeps p (bs, p')) \<and> (\<not> p_has_error p' \<longrightarrow>
        run_sat (binds_loop pe stop n bs p') (\<lambda>r. keeps p (snd r) \<and> (fst r \<longrightarrow> p_has_error (snd (snd r)))))"
    proof (intro conjI impI)
      assume "\<not> p_has_error p'"
      with lt Suc.prems have "p_mu p' < n" "p_mu p' \<le> m" by auto
      from Suc.IH [OF this, of bs] le
      show "run_sat (binds_loop pe stop n bs p') (\<lambda>r. keeps p (snd r) \<and> (fst r \<longrightarrow> p_has_error (snd (snd r))))"
        by (cases "binds_loop pe stop n bs p'") (auto simp: keeps_def)
    qed (simp add: keeps_def le)
  qed
  then show ?case by (simp add: keeps_def)
qed simp


subsubsection \<open>Strings\<close>

lemma string_pieces_shorter: "Expr_text s \<in> set (string_pieces t) \<Longrightarrow> length s \<le> length t"
proof (induction t rule: string_pieces.induct)
  case (2 c t)
  show ?case
  proof (cases "c = CHR ''$'' \<and> take 1 t = ''{''")
    case True
    obtain a b where br: "brace_span 1 (tl t) = (a, b)" by fastforce
    have "length a + length b \<le> length t" using length_brace_span [of 1 "tl t"] br by simp
    with 2(3) 2(1) [OF True br [symmetric]] True br show ?thesis
      by (auto split: if_splits simp flip: One_nat_def)
  next
    case False
    obtain l r where li: "literal_span t = (l, r)" by fastforce
    have "length r \<le> length t" using length_literal_span [of t] li by simp
    with 2(3) 2(2) [OF False li [symmetric]] False li show ?thesis
      by (auto simp flip: One_nat_def)
  qed
qed simp

lemma parse_pieces_ok:
  assumes "calls_ok m pe"
  shows "\<forall>s. Expr_text s \<in> set ps \<longrightarrow> length s < m \<Longrightarrow> run_sat (parse_pieces pe ps err) (\<lambda>_. True)"
proof (induction ps arbitrary: err)
  case (Cons x ps)
  have IH: "run_sat (parse_pieces pe ps e) (\<lambda>_. True)" for e using Cons by simp
  show ?case
  proof (cases x)
    case (Literal s)
    then show ?thesis by (auto intro!: sat_then [OF IH])
  next
    case (Expr_text s)
    have "p_mu (parser_start s err) < m"
      using mu_start [of s err] Cons.prems Expr_text by (meson le_less_trans list.set_intros(1))
    from call_consumes [OF assms this] show ?thesis unfolding Expr_text
      by (auto intro!: sat_then [where P = "\<lambda>_. True"] IH sat_then)
  qed simp
qed simp

lemma parse_string_ok:
  assumes "calls_ok m pe" and "length text < m"
  shows "run_sat (parse_string pe text p) (keeps p)"
proof -
  have "run_sat (parse_pieces pe (string_pieces text) (p_error p)) (\<lambda>_. True)"
    using string_pieces_shorter assms(2) by (intro parse_pieces_ok [OF assms(1)]) (meson le_less_trans)
  then show ?thesis unfolding parse_string_def
    by (rule sat_then) (auto simp: keeps_def p_mu_def)
qed

subsubsection \<open>Braces\<close>

lemma formal_default_ok:
  assumes "calls_ok m pe" and "p_mu p < m"
  shows "run_sat (formal_default pe p) (keeps p)"
  using call_keeps [OF assms(1), of "advance p" p] mu_advance_le [of p] assms(2)
  by (simp add: formal_default_def keeps_def)

lemma formals_loop_ok:
  assumes pe: "calls_ok m pe"
  shows "p_mu p < n \<Longrightarrow> p_mu p \<le> m \<Longrightarrow> run_sat (formals_loop pe dots n formals p) (keeps p)"
proof (induction n arbitrary: formals p)
  case (Suc n)
  have le: "p_mu (advance p) \<le> p_mu p" "p_mu (advance (advance p)) \<le> p_mu p"
    by (simp_all add: mu_advance_le mu_advance_leI)
  have ret: "run_sat (Ret (fs, parser_error msg q)) (keeps p)" if "p_mu q \<le> p_mu p" for fs :: "(string option \<times> nix_ast) list" and msg q
    using that by (simp add: keeps_def)
  show ?case
  proof (cases "peek_type p = NIX_TOK_RBRACE \<or> peek_type p = NIX_TOK_EOF")
    case True
    then show ?thesis by (auto simp: keeps_def)
  next
    case no: False
    then have lt: "p_mu (advance p) < p_mu p" by (simp add: mu_advance)
    show ?thesis
    proof (cases "dots \<and> peek_type p = NIX_TOK_DOT")
      case True
      let ?q = "skip_comma (advance (advance (advance p)))"
      have "p_mu ?q \<le> p_mu (advance p)" by (intro mu_skip_comma [THEN le_trans] mu_advance_leI order_refl)
      with lt Suc.prems have "p_mu ?q < n" "p_mu ?q \<le> m" "p_mu ?q \<le> p_mu p" by auto
      from sat_keeps_after [OF Suc.IH [OF this(1,2)] this(3)] True no ret [OF le(1)] ret [OF le(2)]
      show ?thesis by (simp add: Let_def)
    next
      case nodot: False
      show ?thesis
      proof (cases "peek_type p = NIX_TOK_IDENT")
        case True
        have "run_sat (formal_default pe (advance p)) (keeps (advance p))"
          using formal_default_ok [OF pe] lt Suc.prems(2) by simp
        then have "run_sat (andthen (formal_default pe (advance p)) (\<lambda>(v, p').
            formals_loop pe dots n (formals @ [(Some (cur_text p), v)]) (skip_comma p'))) (keeps p)"
        proof (rule sat_then)
          fix x :: "nix_ast \<times> nix_parser" assume "keeps (advance p) x"
          then have "p_mu (skip_comma (snd x)) \<le> p_mu (advance p)"
            using le_trans [OF mu_skip_comma] by (auto simp: keeps_def)
          with lt Suc.prems have "p_mu (skip_comma (snd x)) < n" "p_mu (skip_comma (snd x)) \<le> m"
            "p_mu (skip_comma (snd x)) \<le> p_mu p" by auto
          from sat_keeps_after [OF Suc.IH [OF this(1,2)] this(3)]
          show "run_sat (case x of (v, p') \<Rightarrow>
            formals_loop pe dots n (formals @ [(Some (cur_text p), v)]) (skip_comma p')) (keeps p)"
            by (simp add: case_prod_unfold)
        qed
        with no nodot True show ?thesis by simp
      next
        case False
        with no nodot ret [OF order_refl] show ?thesis by auto
      qed
    qed
  qed
qed simp

lemma finish_lambda_ok:
  assumes "calls_ok m pe" and "p_mu p < m"
  shows "run_sat (finish_lambda pe formals p) (keeps p)"
proof -
  let ?q = "expect NIX_TOK_COLON ''expected ':' after formals''
             (expect NIX_TOK_RBRACE (''expected '}'' @ [CHR 0x27]) p)"
  have "p_mu ?q \<le> p_mu p" by (intro mu_expect_le order_refl)
  with assms(2) call_wrap [OF assms(1), of ?q p] show ?thesis unfolding finish_lambda_def by simp
qed

lemma then_finish:
  assumes "run_sat r (keeps p)" and "calls_ok m pe" and "p_mu p < m"
  shows "run_sat (andthen r (\<lambda>(formals, p'). finish_lambda pe formals p')) (keeps p)"
  using assms(1)
proof (rule sat_then)
  fix x :: "(string option \<times> nix_ast) list \<times> nix_parser" assume "keeps p x"
  then have le: "p_mu (snd x) \<le> p_mu p" by (simp add: keeps_def)
  with assms(3) have "p_mu (snd x) < m" by simp
  from sat_keeps_after [OF finish_lambda_ok [OF assms(2) this] le]
  show "run_sat (case x of (formals, p') \<Rightarrow> finish_lambda pe formals p') (keeps p)"
    by (simp add: case_prod_unfold)
qed

lemma parse_ellipsis_ok:
  assumes pe: "calls_ok m pe" and p: "p_mu p < m"
  shows "run_sat (parse_ellipsis pe p) (keeps p)"
proof -
  let ?q = "skip_comma (advance (advance (advance p)))"
  have le: "p_mu (advance p) \<le> p_mu p" "p_mu (advance (advance p)) \<le> p_mu p" "p_mu ?q \<le> p_mu p"
    by (simp_all add: mu_advance_le mu_advance_leI le_trans [OF mu_skip_comma])
  have ret: "run_sat (Ret (NULL, parser_error msg q)) (keeps p)" if "p_mu q \<le> p_mu p" for msg q
    using that by (simp add: keeps_def)
  have "run_sat (formals_loop pe False (budget ?q) [] ?q) (keeps ?q)"
    using formals_loop_ok [OF pe, of ?q "budget ?q"] le(3) p by (simp add: budget_def)
  from sat_keeps_after [OF then_finish [OF this pe] le(3)] le(3) p ret [OF le(1)] ret [OF le(2)]
  show ?thesis by (simp add: parse_ellipsis_def Let_def)
qed


lemma finish_attrset_ok:
  assumes pe: "calls_ok m pe" and p: "p_mu p < m"
  shows "run_sat (finish_attrset pe key binds p) (keeps p)"
proof -
  let ?q = "expect NIX_TOK_RBRACE (''expected '}'' @ [CHR 0x27]) p"
  have le: "p_mu ?q \<le> p_mu p" "p_mu (advance ?q) \<le> p_mu p"
    by (simp_all add: mu_expect mu_advance_leI)
  from call_wrap [OF pe _ le(2), of "NIX_NODE_LAMBDA (NIX_NODE_ATTR_SET (map first_key binds))"] le p
  show ?thesis
    by (simp add: finish_attrset_def Let_def keeps_def)
qed

lemma bindings_rest_ok:
  assumes pe: "calls_ok m pe" and p: "p_mu p < m"
  shows "run_sat (bindings_rest pe key binds p) (keeps p)"
  unfolding bindings_rest_def
proof (rule sat_then [OF binds_loop_ok [OF pe, of p "budget p"]])
  show "p_mu p < budget p" "p_mu p \<le> m" using p by (simp_all add: budget_def)
  fix x :: "bool \<times> nix_bind list \<times> nix_parser"
  assume "keeps p (snd x) \<and> (fst x \<longrightarrow> p_has_error (snd (snd x)))"
  then have le: "p_mu (snd (snd x)) \<le> p_mu p" by (simp add: keeps_def)
  with p have "p_mu (snd (snd x)) < m" by simp
  from sat_keeps_after [OF finish_attrset_ok [OF pe this] le] le
  show "run_sat (case x of (failed, binds', p') \<Rightarrow>
      if failed then Ret (NULL, p') else finish_attrset pe key binds' p') (keeps p)"
    by (simp add: case_prod_unfold keeps_def)
qed

lemma parse_inherit_first_ok:
  assumes pe: "calls_ok m pe" and p: "p_mu p < m"
  shows "run_sat (parse_inherit_first pe p) (keeps p)"
  unfolding parse_inherit_first_def
proof (rule sat_then [OF parse_bind_ok [OF pe less_imp_le [OF p]]])
  fix x :: "nix_bind list \<times> nix_parser"
  assume "consumes p x"
  then have le: "p_mu (snd x) \<le> p_mu p" by (simp add: consumes_def)
  with p have "p_mu (snd x) < m" by simp
  from sat_keeps_after [OF bindings_rest_ok [OF pe this] le] le
  show "run_sat (case x of (binds, p') \<Rightarrow>
      if p_has_error p' then Ret (NULL, p') else bindings_rest pe first_key binds p') (keeps p)"
    by (simp add: case_prod_unfold keeps_def)
qed

lemma parse_formals_ok:
  assumes pe: "calls_ok m pe" and p: "p_mu p < m"
  shows "run_sat (parse_formals pe name p) (keeps p)"
  unfolding parse_formals_def Let_def
proof (rule sat_then [OF formal_default_ok [OF pe p]])
  fix x :: "nix_ast \<times> nix_parser"
  assume "keeps p x"
  then have le: "p_mu (skip_comma (snd x)) \<le> p_mu p"
    using le_trans [OF mu_skip_comma] by (auto simp: keeps_def)
  with p have lt: "p_mu (skip_comma (snd x)) < m" by simp
  have "run_sat (formals_loop pe True (budget (skip_comma (snd x))) [(Some name, fst x)] (skip_comma (snd x)))
      (keeps (skip_comma (snd x)))"
    by (rule formals_loop_ok [OF pe]) (use lt in \<open>simp_all add: budget_def\<close>)
  from sat_keeps_after [OF then_finish [OF this pe lt] le]
  show "run_sat (case x of (v, p1) \<Rightarrow> andthen
      (formals_loop pe True (budget (skip_comma p1)) [(Some name, v)] (skip_comma p1))
      (\<lambda>(formals, p3). finish_lambda pe formals p3)) (keeps p)"
    by (simp add: case_prod_unfold)
qed

lemma parse_bindings_ok:
  assumes pe: "calls_ok m pe" and p: "p_mu p < m"
  shows "run_sat (parse_bindings pe name p) (keeps p)"
proof -
  obtain failed ap p1 where ap: "attrpath_loop [name] p = (failed, ap, p1)"
    by (cases "attrpath_loop [name] p")
  let ?p2 = "expect NIX_TOK_EQUALS ''expected '=' in binding'' p1"
  have le1: "p_mu p1 \<le> p_mu p" using attrpath_loop_mu [OF ap] .
  then have le2: "p_mu ?p2 \<le> p_mu p" by (rule mu_expect_le)
  have "run_sat (andthen (pe ?p2) (\<lambda>(val, p3).
          if p_has_error p3 then Ret (NULL, p3)
          else let p4 = expect NIX_TOK_SEMICOLON ''expected ';' after binding'' p3 in
          if p_has_error p4 then Ret (NULL, p4)
          else bindings_rest pe joined_key [(ap, val)] p4)) (keeps p)"
  proof (rule sat_then [OF call_keeps [OF pe _ le2]])
    show "p_mu ?p2 < m" using le2 p by simp
    fix x :: "nix_ast \<times> nix_parser"
    assume "keeps p x"
    then have le: "p_mu (snd x) \<le> p_mu p" by (simp add: keeps_def)
    let ?p4 = "expect NIX_TOK_SEMICOLON ''expected ';' after binding'' (snd x)"
    have le4: "p_mu ?p4 \<le> p_mu p" by (rule mu_expect_le [OF le])
    with p have "p_mu ?p4 < m" by simp
    from sat_keeps_after [OF bindings_rest_ok [OF pe this] le4] le le4
    show "run_sat (case x of (val, p3) \<Rightarrow>
          if p_has_error p3 then Ret (NULL, p3)
          else let p4 = expect NIX_TOK_SEMICOLON ''expected ';' after binding'' p3 in
          if p_has_error p4 then Ret (NULL, p4)
          else bindings_rest pe joined_key [(ap, val)] p4) (keeps p)"
      by (simp add: case_prod_unfold keeps_def Let_def)
  qed
  with ap le1 le2 show ?thesis by (simp add: parse_bindings_def Let_def keeps_def)
qed

lemma parse_braces_ok:
  assumes pe: "calls_ok m pe" and p: "p_mu p < m"
  shows "run_sat (parse_braces pe p) (keeps p)"
proof -
  have le: "p_mu (advance p) \<le> p_mu p" "p_mu (advance (advance p)) \<le> p_mu p"
    by (simp_all add: mu_advance_le mu_advance_leI)
  with p have lt: "p_mu (advance p) < m" "p_mu (advance (advance p)) < m" by simp_all
  have ret: "run_sat (Ret (NULL, parser_error msg p)) (keeps p)" for msg
    by (simp add: keeps_def)
  show ?thesis
    using call_wrap [OF pe lt(2) le(2), of "\<lambda>e. NIX_NODE_LAMBDA (NIX_NODE_ATTR_SET []) e"]
      parse_ellipsis_ok [OF pe p] parse_inherit_first_ok [OF pe p] ret le
      sat_keeps_after [OF parse_formals_ok [OF pe lt(1)] le(1)]
      sat_keeps_after [OF parse_bindings_ok [OF pe lt(1)] le(1)]
    unfolding parse_braces_def Let_def by (simp add: keeps_def)
qed

subsubsection \<open>Base expressions and operators\<close>

lemma list_loop_ok:
  assumes ps: "calls_ok m ps"
  shows "p_mu p < n \<Longrightarrow> p_mu p < m \<Longrightarrow> run_sat (list_loop ps n items p) (\<lambda>r. keeps p (snd r))"
proof (induction n arbitrary: items p)
  case (Suc n)
  have "run_sat (andthen (ps p) (\<lambda>(e, p').
      if p_has_error p' then Ret (True, items @ [e], p') else list_loop ps n (items @ [e]) p'))
      (\<lambda>r. keeps p (snd r))"
  proof (rule sat_then [OF call_consumes [OF ps Suc.prems(2)]])
    fix x :: "nix_ast \<times> nix_parser" assume x: "consumes p x"
    have "run_sat (list_loop ps n (items @ [fst x]) (snd x)) (\<lambda>r. keeps p (snd r))" if "\<not> p_has_error (snd x)"
      using Suc.IH [of "snd x" "items @ [fst x]"] Suc.prems x that
      by (cases "list_loop ps n (items @ [fst x]) (snd x)") (auto simp: consumes_def keeps_def)
    with x show "run_sat (case x of (e, p') \<Rightarrow> if p_has_error p' then Ret (True, items @ [e], p')
        else list_loop ps n (items @ [e]) p') (\<lambda>r. keeps p (snd r))"
      by (auto simp: case_prod_unfold consumes_def keeps_def)
  qed
  then show ?case by (simp add: keeps_def)
qed simp

lemma parse_list_ok:
  assumes ps: "calls_ok m ps" and p: "p_mu p < m"
  shows "run_sat (parse_list ps p) (keeps p)"
  unfolding parse_list_def
  by (rule sat_then [OF list_loop_ok [OF ps _ p]])
    (auto simp: budget_def keeps_def mu_expect_le)

lemma parse_rec_ok:
  assumes pe: "calls_ok m pe" and p: "p_mu p < m"
  shows "run_sat (parse_rec pe p) (keeps p)"
proof -
  let ?p1 = "expect NIX_TOK_LBRACE (''expected '{' after 'rec'' @ [CHR 0x27]) p"
  have le: "p_mu ?p1 \<le> p_mu p" by (rule mu_expect)
  have "run_sat (andthen (binds_loop pe NIX_TOK_RBRACE (budget ?p1) [] ?p1) (\<lambda>(failed, binds, p2).
        if failed then Ret (NULL, p2)
        else Ret (NIX_NODE_REC_ATTR_SET (map single_key binds),
                  expect NIX_TOK_RBRACE (''expected '}'' @ [CHR 0x27]) p2))) (keeps ?p1)"
    by (rule sat_then [OF binds_loop_ok [OF pe]])
      (use le p in \<open>auto simp: budget_def keeps_def mu_expect_le\<close>)
  from sat_keeps_after [OF this le] le show ?thesis
    by (simp add: parse_rec_def Let_def keeps_def)
qed

lemma parse_identifier_ok:
  assumes pe: "calls_ok m pe" and p: "p_mu p \<le> m" and t: "peek_type p \<noteq> NIX_TOK_EOF"
  shows "run_sat (parse_identifier pe p) (consumes p)"
proof -
  have lt: "p_mu (advance p) < p_mu p" using t by (rule mu_advance)
  have le: "p_mu (advance (advance p)) \<le> p_mu (advance p)" by (rule mu_advance_le)
  have "p_mu (advance (advance p)) < m" using lt le p by simp
  from call_wrap [OF pe this le, of "NIX_NODE_LAMBDA (NIX_NODE_IDENT (cur_text p))"] le
  have "run_sat (parse_identifier pe p) (keeps (advance p))"
    by (cases "peek_type (advance p) = NIX_TOK_COLON")
      (simp_all add: parse_identifier_def Let_def keeps_def)
  from sat_consumes_after [OF this lt] show ?thesis .
qed

lemma cur_text_weight:
  "peek_type p = NIX_TOK_STRING \<Longrightarrow> length (cur_text p) < p_mu p"
  by (auto simp: peek_type_def cur_text_def p_mu_def tok_weight_def split: option.split)

lemma parse_base_ok:
  assumes pe: "calls_ok m pe" and ps: "calls_ok m ps" and p: "p_mu p \<le> m"
  shows "run_sat (parse_base pe ps p) (consumes p)"
proof (cases "peek_type p \<in> {NIX_TOK_LPAREN, NIX_TOK_LBRACE, NIX_TOK_LBRACKET, NIX_TOK_STRING,
    NIX_TOK_PATH, NIX_TOK_IDENT, NIX_TOK_INT, NIX_TOK_KW_REC}")
  case True
  then have t: "peek_type p \<noteq> NIX_TOK_EOF" by auto
  then have lt: "p_mu (advance p) < p_mu p" by (rule mu_advance)
  with p have m: "p_mu (advance p) < m" by simp
  have paren: "run_sat (andthen (pe (advance p)) (\<lambda>(inner, p'). Ret (inner, expect t msg p'))) (keeps (advance p))"
    for t msg
    by (rule sat_then [OF call_keeps [OF pe m order_refl]]) (auto simp: keeps_def mu_expect_le)
  have str: "peek_type p = NIX_TOK_STRING \<Longrightarrow> run_sat (parse_string pe (cur_text p) (advance p)) (keeps (advance p))"
    using parse_string_ok [OF pe] cur_text_weight p by (metis less_le_trans)
  show ?thesis
    using True sat_consumes_after [OF paren lt] sat_consumes_after [OF parse_braces_ok [OF pe m] lt]
      sat_consumes_after [OF parse_list_ok [OF ps m] lt] sat_consumes_after [OF str lt]
      parse_identifier_ok [OF pe p t] sat_consumes_after [OF parse_rec_ok [OF pe m] lt] lt
    by (auto simp: parse_base_def consumes_def)
next
  case False
  then show ?thesis
    by (cases "peek_type p") (simp_all add: parse_base_def consumes_def)
qed


lemma keeps_pair [simp]: "keeps p (e, q) \<longleftrightarrow> p_mu q \<le> p_mu p"
  by (simp add: keeps_def)

lemma consumes_pair [simp]:
  "consumes p (e, q) \<longleftrightarrow> p_mu q \<le> p_mu p \<and> (p_has_error q \<or> p_mu q < p_mu p)"
  by (simp add: consumes_def)

lemma select_loop_ok:
  assumes ps: "calls_ok m ps"
  shows "p_mu p < n \<Longrightarrow> p_mu p < m \<Longrightarrow> run_sat (select_loop ps n e p) (keeps p)"
proof (induction n arbitrary: e p)
  case (Suc n)
  let ?p1 = "advance p" and ?p2 = "advance (advance p)" and ?p3 = "advance (advance (advance p))"
  show ?case
  proof (cases "peek_type p = NIX_TOK_DOT")
    case True
    then have lt1: "p_mu ?p1 < p_mu p" by (simp add: mu_advance)
    then have lt: "p_mu ?p2 < p_mu p" "p_mu ?p3 < p_mu p"
      using mu_advance_le [of ?p1] mu_advance_le [of ?p2] by simp_all
    have rec: "run_sat (select_loop ps n e' q) (keeps p)" if "p_mu q < p_mu p" for e' q
      using sat_keeps_after [OF Suc.IH] that Suc.prems by (meson less_Suc_eq_le less_imp_le less_le_trans)
    have "run_sat (andthen (ps ?p3) (\<lambda>(d, p'). select_loop ps n (NIX_NODE_OR_DEFAULT e a d) p')) (keeps p)" for a
    proof (rule sat_then [OF call_keeps [OF ps _ order_refl]])
      show "p_mu ?p3 < m" using lt Suc.prems by simp
      fix x :: "nix_ast \<times> nix_parser" assume "keeps ?p3 x"
      then have "p_mu (snd x) < p_mu p" using lt by (simp add: keeps_def)
      from rec [OF this] show "run_sat (case x of (d, p') \<Rightarrow> select_loop ps n (NIX_NODE_OR_DEFAULT e a d) p') (keeps p)"
        by (cases x) simp
    qed
    with rec [OF lt(1)] True lt1 show ?thesis by (simp add: Let_def)
  next
    case False
    then show ?thesis by (simp add: keeps_def)
  qed
qed simp

text \<open>A parser of one level: it consumes, whatever is left to read up to \<open>m\<close>.\<close>

definition level_ok :: "nat \<Rightarrow> action \<Rightarrow> bool" where
  "level_ok m f \<longleftrightarrow> (\<forall>p. p_mu p \<le> m \<longrightarrow> run_sat (f p) (consumes p))"

lemma level_consumes: "level_ok m f \<Longrightarrow> p_mu p \<le> m \<Longrightarrow> run_sat (f p) (consumes p)"
  by (simp add: level_ok_def)

text \<open>A first operand, then a loop that keeps the measure.\<close>

lemma level_then_loop:
  assumes "run_sat (f p) (consumes p)"
    and "\<And>e p'. p_mu p' < p_mu p \<Longrightarrow> run_sat (loop e p') (keeps p')"
  shows "run_sat (andthen (f p) (\<lambda>(e, p'). if e = NULL \<or> p_has_error p' then Ret (e, p') else loop e p')) (consumes p)"
  using assms(1)
proof (rule sat_then)
  fix x :: "nix_ast \<times> nix_parser" assume x: "consumes p x"
  show "run_sat (case x of (e, p') \<Rightarrow> if e = NULL \<or> p_has_error p' then Ret (e, p') else loop e p') (consumes p)"
  proof (cases "p_has_error (snd x)")
    case True
    with x show ?thesis by (cases x) simp
  next
    case False
    with x have lt: "p_mu (snd x) < p_mu p" by (simp add: consumes_def)
    from sat_consumes_after [OF assms(2) [OF lt] lt] x False show ?thesis
      by (cases x) simp
  qed
qed

lemma select_body_ok:
  assumes "calls_ok m pe" and "calls_ok m ps"
  shows "level_ok m (select_body pe ps)"
  unfolding level_ok_def select_body_def
proof (intro allI impI level_then_loop)
  fix p assume p: "p_mu p \<le> m"
  from parse_base_ok [OF assms p] show "run_sat (parse_base pe ps p) (consumes p)" .
  fix e p' assume "p_mu p' < p_mu p"
  with p show "run_sat (select_loop ps (budget p') e p') (keeps p')"
    by (intro select_loop_ok [OF assms(2)]) (simp_all add: budget_def)
qed

lemma apply_loop_ok:
  assumes sel: "level_ok m sel"
  shows "0 < n \<Longrightarrow> p_has_error p \<or> p_mu p < n \<Longrightarrow> p_mu p \<le> m \<Longrightarrow> run_sat (apply_loop sel n e p) (keeps p)"
proof (induction n arbitrary: e p)
  case (Suc n)
  show ?case
  proof (cases "p_has_error p \<or> \<not> starts_argument (peek_type p)")
    case True
    then show ?thesis by (auto simp: keeps_def)
  next
    case False
    then have "peek_type p \<noteq> NIX_TOK_EOF" by (auto simp: starts_argument_def)
    then have pos: "0 < p_mu p" using mu_advance [of p] by simp
    have "run_sat (andthen (sel p) (\<lambda>(arg, p').
        if arg = NULL then Ret (e, p') else apply_loop sel n (NIX_NODE_APPLY e arg) p')) (keeps p)"
    proof (rule sat_then [OF level_consumes [OF sel Suc.prems(3)]])
      fix x :: "nix_ast \<times> nix_parser" assume x: "consumes p x"
      have "run_sat (apply_loop sel n (NIX_NODE_APPLY e (fst x)) (snd x)) (keeps (snd x))"
        using Suc.prems False pos x by (intro Suc.IH) (auto simp: consumes_def)
      from sat_keeps_after [OF this] x
      show "run_sat (case x of (arg, p') \<Rightarrow>
        if arg = NULL then Ret (e, p') else apply_loop sel n (NIX_NODE_APPLY e arg) p') (keeps p)"
        by (cases x) simp
    qed
    with False show ?thesis by simp
  qed
qed simp

lemma parse_apply_ok:
  assumes "level_ok m sel"
  shows "level_ok m (parse_apply sel)"
  unfolding level_ok_def parse_apply_def
proof (intro allI impI level_then_loop)
  fix p assume p: "p_mu p \<le> m"
  with assms show "run_sat (sel p) (consumes p)" by (rule level_consumes)
  fix e p' assume "p_mu p' < p_mu p"
  with p show "run_sat (apply_loop sel (budget p') e p') (keeps p')"
    by (intro apply_loop_ok [OF assms]) (simp_all add: budget_def)
qed

lemma binop_loop_ok:
  assumes f: "level_ok m f" and ops: "NIX_TOK_EOF \<notin> set ops"
  shows "0 < n \<Longrightarrow> p_has_error p \<or> p_mu p < n \<Longrightarrow> p_mu p \<le> m \<Longrightarrow> run_sat (binop_loop f ops n e p) (keeps p)"
proof (induction n arbitrary: e p)
  case (Suc n)
  show ?case
  proof (cases "p_has_error p \<or> peek_type p \<notin> set ops")
    case True
    then show ?thesis by (auto simp: keeps_def)
  next
    case False
    with ops have "peek_type p \<noteq> NIX_TOK_EOF" by auto
    then have lt: "p_mu (advance p) < p_mu p" by (rule mu_advance)
    have "run_sat (andthen (f (advance p)) (\<lambda>(right, p').
        if right = NULL then Ret (NULL, p')
        else binop_loop f ops n (NIX_NODE_BINOP (peek_type p) e right) p')) (keeps p)"
    proof (rule sat_then [OF level_consumes [OF f]])
      show "p_mu (advance p) \<le> m" using lt Suc.prems by simp
      fix x :: "nix_ast \<times> nix_parser" assume x: "consumes (advance p) x"
      have "run_sat (binop_loop f ops n (NIX_NODE_BINOP (peek_type p) e (fst x)) (snd x)) (keeps (snd x))"
        using Suc.prems False lt x by (intro Suc.IH) (auto simp: consumes_def)
      from sat_keeps_after [OF this] x lt
      show "run_sat (case x of (right, p') \<Rightarrow> if right = NULL then Ret (NULL, p')
          else binop_loop f ops n (NIX_NODE_BINOP (peek_type p) e right) p') (keeps p)"
        by (cases x) simp
    qed
    with False show ?thesis by simp
  qed
qed simp

lemma parse_binop_left_ok:
  assumes "level_ok m f" and "NIX_TOK_EOF \<notin> set ops"
  shows "level_ok m (parse_binop_left f ops)"
  unfolding level_ok_def parse_binop_left_def
proof (intro allI impI level_then_loop)
  fix p assume p: "p_mu p \<le> m"
  with assms(1) show "run_sat (f p) (consumes p)" by (rule level_consumes)
  fix e p' assume "p_mu p' < p_mu p"
  with p show "run_sat (binop_loop f ops (budget p') e p') (keeps p')"
    by (intro binop_loop_ok [OF assms]) (simp_all add: budget_def)
qed

lemma binop_right_ok:
  assumes f: "level_ok m f" and op: "op \<noteq> NIX_TOK_EOF"
  shows "p_mu p < n \<Longrightarrow> p_mu p \<le> m \<Longrightarrow> run_sat (binop_right f op n p) (consumes p)"
proof (induction n arbitrary: p)
  case (Suc n)
  have "run_sat (andthen (f p) (\<lambda>(left, p').
       if left = NULL \<or> p_has_error p' \<or> peek_type p' \<noteq> op then Ret (left, p')
       else andthen (binop_right f op n (advance p')) (\<lambda>(right, p'').
         if right = NULL then Ret (NULL, p'') else Ret (NIX_NODE_BINOP op left right, p'')))) (consumes p)"
  proof (rule sat_then [OF level_consumes [OF f Suc.prems(2)]])
    fix x :: "nix_ast \<times> nix_parser" assume "consumes p x"
    then obtain l r where xx: "x = (l, r)" and x: "consumes p (l, r)" by (cases x) auto
    let ?q = "advance r"
    have "run_sat (andthen (binop_right f op n ?q) (\<lambda>(right, p'').
         if right = NULL then Ret (NULL, p'') else Ret (NIX_NODE_BINOP op l right, p''))) (consumes p)"
      if "\<not> p_has_error r"
    proof -
      have lt: "p_mu ?q < p_mu p" using x that mu_advance_le [of r] by (simp add: consumes_def)
      with Suc.prems have "run_sat (binop_right f op n ?q) (consumes ?q)" by (intro Suc.IH) auto
      then show ?thesis by (rule sat_then) (use lt in \<open>auto simp: consumes_def\<close>)
    qed
    with x show "run_sat (case x of (left, p') \<Rightarrow>
       if left = NULL \<or> p_has_error p' \<or> peek_type p' \<noteq> op then Ret (left, p')
       else andthen (binop_right f op n (advance p')) (\<lambda>(right, p'').
         if right = NULL then Ret (NULL, p'') else Ret (NIX_NODE_BINOP op left right, p''))) (consumes p)"
      unfolding xx by auto
  qed
  then show ?case by simp
qed simp

lemma parse_binop_right_ok:
  "level_ok m f \<Longrightarrow> op \<noteq> NIX_TOK_EOF \<Longrightarrow> level_ok m (parse_binop_right f op)"
  unfolding level_ok_def [of m "parse_binop_right f op"] parse_binop_right_def
  by (intro allI impI binop_right_ok) (simp_all add: budget_def)

lemma unary_loop_ok:
  assumes f: "level_ok m f"
  shows "p_mu p < n \<Longrightarrow> p_mu p \<le> m \<Longrightarrow> run_sat (unary_loop f n p) (consumes p)"
proof (induction n arbitrary: p)
  case (Suc n)
  have wrap: "run_sat (andthen (unary_loop f n (advance p)) (\<lambda>(e, p').
      if e = NULL then Ret (NULL, p') else Ret (g e, p'))) (consumes p)" if "peek_type p \<noteq> NIX_TOK_EOF" for g
  proof -
    have lt: "p_mu (advance p) < p_mu p" using that by (rule mu_advance)
    with Suc.prems have "run_sat (unary_loop f n (advance p)) (consumes (advance p))"
      by (intro Suc.IH) auto
    then show ?thesis by (rule sat_then) (use lt in \<open>auto simp: consumes_def\<close>)
  qed
  from wrap [of NIX_NODE_UNARY_NOT] wrap [of NIX_NODE_NEGATE] level_consumes [OF f Suc.prems(2)]
  show ?case by simp
qed simp

lemma parse_unary_ok: "level_ok m sel \<Longrightarrow> level_ok m (parse_unary sel)"
  unfolding level_ok_def [of m "parse_unary sel"] parse_unary_def
  by (intro allI impI unary_loop_ok parse_apply_ok) (simp_all add: budget_def)

lemma parse_implication_ok: "level_ok m sel \<Longrightarrow> level_ok m (parse_implication sel)"
  unfolding parse_implication_def parse_or_def parse_and_def parse_equality_def parse_comparison_def
    parse_concat_def parse_add_def parse_mul_def
  by (intro parse_binop_right_ok parse_binop_left_ok parse_unary_ok) simp_all

subsubsection \<open>Expressions\<close>

lemma then_call:
  fixes r :: "('x \<times> nix_parser) run"
  assumes r: "run_sat r (keeps p)" and pe: "calls_ok m pe" and p: "p_mu p < m"
    and g: "\<And>e q. p_mu (g q) \<le> p_mu q"
    and h: "\<And>e e' q. p_mu q \<le> p_mu p \<Longrightarrow> run_sat (h e e' q) (keeps p)"
  shows "run_sat (andthen r (\<lambda>(e, p1). andthen (pe (g p1)) (\<lambda>(e', p2). h e e' p2))) (keeps p)"
  using r
proof (rule sat_then)
  fix x :: "'x \<times> nix_parser" assume "keeps p x"
  then obtain e q where x: "x = (e, q)" and le: "p_mu q \<le> p_mu p" by (cases x) auto
  then have le': "p_mu (g q) \<le> p_mu p" using g [of q] by simp
  with p have lt: "p_mu (g q) < m" by simp
  have "run_sat (andthen (pe (g q)) (\<lambda>(e', p2). h e e' p2)) (keeps p)"
    by (rule sat_then [OF call_keeps [OF pe lt le']]) (auto intro: h)
  then show "run_sat (case x of (e, p1) \<Rightarrow> andthen (pe (g p1)) (\<lambda>(e', p2). h e e' p2)) (keeps p)"
    by (simp add: x)
qed

lemma parse_if_ok:
  assumes pe: "calls_ok m pe" and p: "p_mu p < m"
  shows "run_sat (parse_if pe p) (keeps p)"
  unfolding parse_if_def
proof (rule then_call [OF call_keeps [OF pe p order_refl] pe p mu_expect])
  fix c t q assume le: "p_mu q \<le> p_mu p"
  then have le': "p_mu (expect NIX_TOK_KW_ELSE (''expected 'else'' @ [CHR 0x27]) q) \<le> p_mu p"
    by (rule mu_expect_le)
  with p have "p_mu (expect NIX_TOK_KW_ELSE (''expected 'else'' @ [CHR 0x27]) q) < m" by simp
  from call_wrap [OF pe this le']
  show "run_sat (andthen (pe (expect NIX_TOK_KW_ELSE (''expected 'else'' @ [CHR 0x27]) q))
    (\<lambda>(else_expr, p3). Ret (NIX_NODE_IF c t else_expr, p3))) (keeps p)" .
qed

lemma parse_assert_ok:
  assumes pe: "calls_ok m pe" and p: "p_mu p < m"
  shows "run_sat (parse_assert pe p) (keeps p)"
  unfolding parse_assert_def
  by (rule then_call [OF call_keeps [OF pe p order_refl] pe p mu_expect]) simp

lemma parse_with_ok:
  assumes pe: "calls_ok m pe" and p: "p_mu p < m"
  shows "run_sat (parse_with pe p) (keeps p)"
  unfolding parse_with_def
  by (rule then_call [OF call_keeps [OF pe p order_refl] pe p mu_expect]) simp

lemma parse_let_ok:
  assumes pe: "calls_ok m pe" and p: "p_mu p < m"
  shows "run_sat (parse_let pe p) (keeps p)"
  unfolding parse_let_def
proof (rule sat_then [OF binds_loop_ok [OF pe]])
  show "p_mu p < budget p" "p_mu p \<le> m" using p by (simp_all add: budget_def)
  fix x :: "bool \<times> nix_bind list \<times> nix_parser"
  assume "keeps p (snd x) \<and> (fst x \<longrightarrow> p_has_error (snd (snd x)))"
  then obtain b bs q where x: "x = (b, bs, q)" and le: "p_mu q \<le> p_mu p" by (cases x) auto
  let ?q = "expect NIX_TOK_KW_IN ''expected 'in' after let bindings'' q"
  have le': "p_mu ?q \<le> p_mu p" by (rule mu_expect_le [OF le])
  with p have "p_mu ?q < m" by simp
  from call_wrap [OF pe this le', of "NIX_NODE_LET (map single_key bs)"] le
  show "run_sat (case x of (failed, binds, p1) \<Rightarrow> if failed then Ret (NULL, p1)
       else andthen (pe (expect NIX_TOK_KW_IN ''expected 'in' after let bindings'' p1)) (\<lambda>(body, p2).
         Ret (NIX_NODE_LET (map single_key binds) body, p2))) (keeps p)"
    by (simp add: x)
qed

lemma expr_body_ok:
  assumes pe: "calls_ok m pe" and ps: "calls_ok m ps" and p: "p_mu p \<le> m"
  shows "run_sat (expr_body pe ps p) (consumes p)"
proof (cases "p_has_error p")
  case True
  then show ?thesis by (simp add: expr_body_def)
next
  case no: False
  have lt: "p_mu (advance p) < p_mu p \<and> p_mu (advance p) < m" if "peek_type p \<noteq> NIX_TOK_EOF"
    using mu_advance [OF that] p by simp
  have level: "run_sat (parse_implication (select_body pe ps) p) (consumes p)"
    by (rule level_consumes [OF parse_implication_ok [OF select_body_ok [OF pe ps]] p])
  show ?thesis
    using no lt level sat_consumes_after [OF parse_if_ok [OF pe]] sat_consumes_after [OF parse_assert_ok [OF pe]]
      sat_consumes_after [OF parse_with_ok [OF pe]] sat_consumes_after [OF parse_let_ok [OF pe]]
    by (cases "peek_type p") (simp_all add: expr_body_def)
qed

lemma parse_calls_ok: "calls_ok k (parse_expr k)" "calls_ok k (parse_select k)"
proof (induction k)
  case 0
  { case 1 show ?case by (simp add: calls_ok_def) next case 2 show ?case by (simp add: calls_ok_def) }
next
  case (Suc k)
  { case 1
    show ?case unfolding calls_ok_def by (simp add: less_Suc_eq_le expr_body_ok [OF Suc.IH])
  next
    case 2
    show ?case unfolding calls_ok_def
      by (simp add: less_Suc_eq_le level_consumes [OF select_body_ok [OF Suc.IH]]) }
qed

text \<open>
  C13.  The parser always ends, on every text: with the bounds \<open>nix_parse\<close> uses, no bound is
  ever too small.
\<close>

theorem nix_parse_total:
  "nix_parse source \<noteq> Out_of_steps"
proof -
  have "p_mu (parser_start source None) < Suc (length source)"
    using mu_start [of source None] by simp
  from call_consumes [OF parse_calls_ok(1) this] show ?thesis
    unfolding nix_parse_def
    by (cases "parse_expr (Suc (length source)) (parser_start source None)") (auto split: prod.splits)
qed

end
