(* ===== verification/Nix_Heap.thy ===== *)
theory Nix_Heap
  imports Nix_Parser "HOL-Library.Signed_Division"
begin

text \<open>
  The values and environments of the evaluator, \<open>lib/2O9/nix/nix_eval.c\<close>, and what it does to
  them: allocation, freeing, binding, lookup, comparison, output as JSON and input from JSON.

  The evaluator shares values freely and frees some of them while they are still referred to, so
  memory is explicit: a value, an environment or a syntax tree that was freed is a hole, and
  touching it is the result \<open>Crash\<close>.  A pointer is \<open>None\<close> for NULL or an address.  Loops over
  pointers that may be cyclic have a bound; \<open>Out_of_steps\<close> is its end, where the code would
  recurse on.
\<close>

subsection \<open>Values, environments, memory\<close>

type_synonym ref = "nat option"

text \<open>The C functions a builtin can point to.\<close>

datatype builtin_fn =
    builtin_map | builtin_filter | builtin_length | builtin_head | builtin_tail
  | builtin_attr_names | builtin_attr_values | builtin_has_attr | builtin_get_attr
  | builtin_to_json | builtin_from_json | builtin_trace | builtin_path_exists
  | builtin_read_file | builtin_abort | builtin_throw | builtin_to_string
  | builtin_string_length | builtin_replace_strings

text \<open>
  A lambda and a thunk point to an environment, and into a syntax tree that is owned by the file
  it came from: the number names that file's tree.
\<close>

datatype nix_value =
    NIX_VAL_NULL
  | NIX_VAL_BOOL bool
  | NIX_VAL_INT "64 word"
  | NIX_VAL_STRING "string option"
  | NIX_VAL_PATH string
  | NIX_VAL_LIST "ref list"
  | NIX_VAL_ATTR_SET "(string \<times> ref) list"
  | NIX_VAL_LAMBDA ref nat nix_ast nix_ast
  | NIX_VAL_THUNK ref nat nix_ast ref
  | NIX_VAL_BUILTIN string builtin_fn ref

record nix_env =
  e_entries :: "(string \<times> ref) list"
  e_parent :: ref
  e_base_dir :: "string option"

record nix_state =
  h_vals :: "nix_value option list"
  h_envs :: "nix_env option list"
  h_trees :: "bool list"
  h_error :: "string option"

type_synonym 'a step = "nix_state \<Rightarrow> ('a \<times> nix_state) run"

definition deref :: "ref \<Rightarrow> nix_state \<Rightarrow> nix_value run" where
  "deref r st =
     (case r of None \<Rightarrow> Crash
      | Some a \<Rightarrow> if a < length (h_vals st) then (case h_vals st ! a of Some v \<Rightarrow> Ret v | None \<Rightarrow> Crash) else Crash)"

definition store_value :: "ref \<Rightarrow> nix_value \<Rightarrow> nix_state \<Rightarrow> nix_state run" where
  "store_value r v st = andthen (deref r st) (\<lambda>_. Ret (st\<lparr>h_vals := (h_vals st)[the r := Some v]\<rparr>))"

definition nix_value_new :: "nix_value \<Rightarrow> nix_state \<Rightarrow> ref \<times> nix_state" where
  "nix_value_new v st = (Some (length (h_vals st)), st\<lparr>h_vals := h_vals st @ [Some v]\<rparr>)"

text \<open>A shallow free: what the value refers to stays.\<close>

definition nix_value_free :: "ref \<Rightarrow> nix_state \<Rightarrow> nix_state run" where
  "nix_value_free r st =
     (if r = None then Ret st
      else andthen (deref r st) (\<lambda>_. Ret (st\<lparr>h_vals := (h_vals st)[the r := None]\<rparr>)))"

definition new_value :: "nix_value \<Rightarrow> ref step" where
  "new_value v st = Ret (nix_value_new v st)"

text \<open>An error is recorded and NULL returned; the text here leaves out the line.\<close>

definition eval_error :: "string \<Rightarrow> ref step" where
  "eval_error msg st = Ret (None, st\<lparr>h_error := Some msg\<rparr>)"

subsection \<open>Environments\<close>

definition env_at :: "ref \<Rightarrow> nix_state \<Rightarrow> nix_env run" where
  "env_at e st =
     (case e of None \<Rightarrow> Crash
      | Some a \<Rightarrow> if a < length (h_envs st) then (case h_envs st ! a of Some v \<Rightarrow> Ret v | None \<Rightarrow> Crash) else Crash)"

definition set_env :: "ref \<Rightarrow> nix_env \<Rightarrow> nix_state \<Rightarrow> nix_state" where
  "set_env e v st = st\<lparr>h_envs := (h_envs st)[the e := Some v]\<rparr>"

definition nix_env_push :: "ref \<Rightarrow> ref step" where
  "nix_env_push parent st =
     (let child = (\<lambda>b. (Some (length (h_envs st)),
        st\<lparr>h_envs := h_envs st @ [Some \<lparr>e_entries = [], e_parent = parent, e_base_dir = b\<rparr>]\<rparr>)) in
      if parent = None then Ret (child None)
      else andthen (env_at parent st) (\<lambda>p. Ret (child (e_base_dir p))))"

definition nix_env_free :: "ref \<Rightarrow> nix_state \<Rightarrow> nix_state run" where
  "nix_env_free e st =
     (if e = None then Ret st
      else andthen (env_at e st) (\<lambda>_. Ret (st\<lparr>h_envs := (h_envs st)[the e := None]\<rparr>)))"

text \<open>The entry of that name is overwritten in place, or a new one added at the end.\<close>

fun put_attr :: "string \<Rightarrow> 'a \<Rightarrow> (string \<times> 'a) list \<Rightarrow> (string \<times> 'a) list" where
  "put_attr k v [] = [(k, v)]"
| "put_attr k v ((k', v') # es) = (if k' = k then (k', v) # es else (k', v') # put_attr k v es)"

definition nix_env_bind :: "ref \<Rightarrow> string option \<Rightarrow> ref \<Rightarrow> nix_state \<Rightarrow> nix_state run" where
  "nix_env_bind e name v st =
     (case name of
        None \<Rightarrow> Ret st
      | Some k \<Rightarrow>
          if e = None then Ret st
          else andthen (env_at e st) (\<lambda>env.
            Ret (set_env e (env\<lparr>e_entries := put_attr k v (e_entries env)\<rparr>) st)))"

fun lookup_from :: "nat \<Rightarrow> ref \<Rightarrow> string \<Rightarrow> nix_state \<Rightarrow> ref run" where
  "lookup_from 0 e name st = Out_of_steps"
| "lookup_from (Suc n) e name st =
     (if e = None then Ret None
      else andthen (env_at e st) (\<lambda>env.
        case map_of (e_entries env) name of
          Some v \<Rightarrow> Ret v
        | None \<Rightarrow> lookup_from n (e_parent env) name st))"

definition nix_env_lookup :: "ref \<Rightarrow> string \<Rightarrow> nix_state \<Rightarrow> ref run" where
  "nix_env_lookup e name st = lookup_from (length (h_envs st) + 1) e name st"

subsection \<open>Attribute sets\<close>

definition attrset_lookup :: "ref \<Rightarrow> string \<Rightarrow> nix_state \<Rightarrow> ref run" where
  "attrset_lookup s key st =
     (if s = None then Ret None
      else andthen (deref s st) (\<lambda>v. case v of
          NIX_VAL_ATTR_SET es \<Rightarrow> Ret (case map_of es key of Some r \<Rightarrow> r | None \<Rightarrow> None)
        | _ \<Rightarrow> Ret None))"

definition attrset_has :: "ref \<Rightarrow> string \<Rightarrow> nix_state \<Rightarrow> bool run" where
  "attrset_has s key st = andthen (attrset_lookup s key st) (\<lambda>r. Ret (r \<noteq> None))"

definition attrset_bind :: "ref \<Rightarrow> string \<Rightarrow> ref \<Rightarrow> nix_state \<Rightarrow> nix_state run" where
  "attrset_bind s key r st =
     (if s = None then Ret st
      else andthen (deref s st) (\<lambda>v. case v of
          NIX_VAL_ATTR_SET es \<Rightarrow> store_value s (NIX_VAL_ATTR_SET (put_attr key r es)) st
        | _ \<Rightarrow> Ret st))"

text \<open>The loop of \<open>attrset_bind_path\<close>: \<open>current\<close> is an attribute set.\<close>

fun bind_path_loop :: "ref \<Rightarrow> string list \<Rightarrow> ref \<Rightarrow> nix_state \<Rightarrow> nix_state run" where
  "bind_path_loop current [] val st = Ret st"
| "bind_path_loop current [part] val st = attrset_bind current part val st"
| "bind_path_loop current (part # p # parts) val st =
     andthen (attrset_lookup current part st) (\<lambda>next.
       let fresh = (\<lambda>st. case nix_value_new (NIX_VAL_ATTR_SET []) st of (r, st1) \<Rightarrow>
         andthen (attrset_bind current part r st1) (\<lambda>st2. bind_path_loop r (p # parts) val st2)) in
       if next = None then fresh st
       else andthen (deref next st) (\<lambda>v. case v of
           NIX_VAL_THUNK _ _ _ _ \<Rightarrow> attrset_bind current (last (p # parts)) val st
         | NIX_VAL_ATTR_SET _ \<Rightarrow> bind_path_loop next (p # parts) val st
         | _ \<Rightarrow> fresh st))"

definition attrset_bind_path :: "ref \<Rightarrow> string list \<Rightarrow> ref \<Rightarrow> nix_state \<Rightarrow> nix_state run" where
  "attrset_bind_path s parts val st =
     (if s = None then Ret st
      else andthen (deref s st) (\<lambda>v. case v of
          NIX_VAL_ATTR_SET _ \<Rightarrow> bind_path_loop s parts val st
        | _ \<Rightarrow> Ret st))"

text \<open>A binding whose key has dots is one of a path; a missing key is dereferenced.\<close>

definition bind_key :: "ref \<Rightarrow> string option \<Rightarrow> ref \<Rightarrow> nix_state \<Rightarrow> nix_state run" where
  "bind_key s key val st =
     (case key of
        None \<Rightarrow> Crash
      | Some k \<Rightarrow>
          if CHR ''.'' \<in> set k then attrset_bind_path s (c_strtok (\<lambda>c. c = CHR ''.'') k) val st
          else attrset_bind s k val st)"

subsection \<open>Truth, equality, paths\<close>

definition nix_is_truthy :: "ref \<Rightarrow> nix_state \<Rightarrow> bool run" where
  "nix_is_truthy r st =
     (if r = None then Ret False
      else andthen (deref r st) (\<lambda>v. Ret (case v of
          NIX_VAL_BOOL b \<Rightarrow> b
        | NIX_VAL_NULL \<Rightarrow> False
        | NIX_VAL_INT i \<Rightarrow> i \<noteq> 0
        | NIX_VAL_STRING s \<Rightarrow> (case s of Some (c # _) \<Rightarrow> True | _ \<Rightarrow> False)
        | NIX_VAL_LIST rs \<Rightarrow> rs \<noteq> []
        | _ \<Rightarrow> True)))"

fun all_equal :: "(ref \<Rightarrow> ref \<Rightarrow> bool run) \<Rightarrow> (ref \<times> ref) list \<Rightarrow> bool run" where
  "all_equal eq [] = Ret True"
| "all_equal eq ((a, b) # ps) = andthen (eq a b) (\<lambda>x. if x then all_equal eq ps else Ret False)"

text \<open>Each entry of one set must have a counterpart in the other: \<open>bs\<close> holds its entries.\<close>

fun entries_equal :: "(ref \<Rightarrow> ref \<Rightarrow> bool run) \<Rightarrow> (string \<times> ref) list \<Rightarrow> (string \<times> ref) list \<Rightarrow> bool run" where
  "entries_equal eq [] bs = Ret True"
| "entries_equal eq ((k, a) # as) bs =
     (case map_of bs k of
        Some (Some b) \<Rightarrow> andthen (eq a (Some b)) (\<lambda>x. if x then entries_equal eq as bs else Ret False)
      | _ \<Rightarrow> Ret False)"

fun nix_values_equal :: "nat \<Rightarrow> nix_state \<Rightarrow> ref \<Rightarrow> ref \<Rightarrow> bool run" where
  "nix_values_equal 0 st a b = Out_of_steps"
| "nix_values_equal (Suc n) st a b =
     (if a = None \<and> b = None then Ret True
      else if a = None \<or> b = None then Ret False
      else andthen (deref a st) (\<lambda>va. andthen (deref b st) (\<lambda>vb.
        case (va, vb) of
          (NIX_VAL_NULL, NIX_VAL_NULL) \<Rightarrow> Ret True
        | (NIX_VAL_BOOL x, NIX_VAL_BOOL y) \<Rightarrow> Ret (x = y)
        | (NIX_VAL_INT x, NIX_VAL_INT y) \<Rightarrow> Ret (x = y)
        | (NIX_VAL_STRING x, NIX_VAL_STRING y) \<Rightarrow>
            (case (x, y) of (Some s, Some t) \<Rightarrow> Ret (s = t) | _ \<Rightarrow> Crash)
        | (NIX_VAL_PATH x, NIX_VAL_PATH y) \<Rightarrow> Ret (x = y)
        | (NIX_VAL_LIST xs, NIX_VAL_LIST ys) \<Rightarrow>
            if length xs \<noteq> length ys then Ret False
            else all_equal (nix_values_equal n st) (zip xs ys)
        | (NIX_VAL_ATTR_SET xs, NIX_VAL_ATTR_SET ys) \<Rightarrow>
            if length xs \<noteq> length ys then Ret False
            else entries_equal (nix_values_equal n st) xs ys
        | _ \<Rightarrow> Ret False)))"

definition resolve_path :: "string option \<Rightarrow> string \<Rightarrow> string" where
  "resolve_path base_dir path =
     (if take 1 path = ''/'' then path
      else case base_dir of Some b \<Rightarrow> b @ ''/'' @ path | None \<Rightarrow> path)"

subsection \<open>JSON output\<close>

definition json_indent :: "nat \<Rightarrow> string" where
  "json_indent n = replicate n CHR '' ''"

definition hex4 :: "nat \<Rightarrow> string" where
  "hex4 n = map (\<lambda>i. ''0123456789abcdef'' ! (n div 16 ^ i mod 16)) [3, 2, 1, 0]"

definition json_escape_char :: "char \<Rightarrow> string" where
  "json_escape_char c =
     (if c = CHR 0x22 then [CHR 0x5C, CHR 0x22]
      else if c = CHR 0x5C then [CHR 0x5C, CHR 0x5C]
      else if c = c_nl then [CHR 0x5C, CHR ''n'']
      else if c = CHR 0x0D then [CHR 0x5C, CHR ''r'']
      else if c = CHR 0x09 then [CHR 0x5C, CHR ''t'']
      else if c = CHR 0x08 then [CHR 0x5C, CHR ''b'']
      else if c = CHR 0x0C then [CHR 0x5C, CHR ''f'']
      else if of_char c < (0x20 :: nat) then [CHR 0x5C, CHR ''u''] @ hex4 (of_char c)
      else [c])"

definition json_escape_string :: "string \<Rightarrow> string" where
  "json_escape_string s = [CHR 0x22] @ concat (map json_escape_char s) @ [CHR 0x22]"

text \<open>
  Items on lines of their own, with a comma after each but the last; \<open>ser\<close> gives the text of one.
\<close>

fun json_items :: "('a \<Rightarrow> string run) \<Rightarrow> nat \<Rightarrow> 'a list \<Rightarrow> string run" where
  "json_items ser indent [] = Ret []"
| "json_items ser indent (x # xs) =
     andthen (ser x) (\<lambda>t. andthen (json_items ser indent xs) (\<lambda>ts.
       Ret (json_indent indent @ t @ (if xs \<noteq> [] then '','' else []) @ [c_nl] @ ts)))"

definition json_block :: "char \<Rightarrow> char \<Rightarrow> ('a \<Rightarrow> string run) \<Rightarrow> nat \<Rightarrow> 'a list \<Rightarrow> string run" where
  "json_block open close ser indent xs =
     andthen (json_items ser (indent + 2) xs) (\<lambda>t.
       Ret ([open] @ (if xs = [] then [] else [c_nl] @ t @ json_indent indent) @ [close]))"

fun json_serialize :: "nat \<Rightarrow> nix_state \<Rightarrow> nat \<Rightarrow> ref \<Rightarrow> string run" where
  "json_serialize 0 st indent r = Out_of_steps"
| "json_serialize (Suc n) st indent r =
     (if r = None then Ret ''null''
      else andthen (deref r st) (\<lambda>v. case v of
          NIX_VAL_NULL \<Rightarrow> Ret ''null''
        | NIX_VAL_BOOL b \<Rightarrow> Ret (if b then ''true'' else ''false'')
        | NIX_VAL_INT i \<Rightarrow> Ret (dec_int_str (sint i))
        | NIX_VAL_STRING s \<Rightarrow> Ret (json_escape_string (case s of Some t \<Rightarrow> t | None \<Rightarrow> []))
        | NIX_VAL_PATH s \<Rightarrow> Ret (json_escape_string s)
        | NIX_VAL_LIST rs \<Rightarrow> json_block CHR ''['' CHR '']'' (json_serialize n st (indent + 2)) indent rs
        | NIX_VAL_ATTR_SET es \<Rightarrow>
            json_block CHR ''{'' CHR ''}'' (\<lambda>(k, r').
              andthen (json_serialize n st (indent + 2) r') (\<lambda>t.
                Ret (json_escape_string k @ '': '' @ t))) indent es
        | NIX_VAL_LAMBDA _ _ _ _ \<Rightarrow> Ret ([CHR 0x22] @ ''<lambda>'' @ [CHR 0x22])
        | NIX_VAL_BUILTIN name _ _ \<Rightarrow> Ret ([CHR 0x22] @ ''<builtin:'' @ name @ ''>'' @ [CHR 0x22])
        | NIX_VAL_THUNK _ _ _ forced \<Rightarrow>
            if forced \<noteq> None then json_serialize n st indent forced
            else Ret ([CHR 0x22] @ ''<thunk>'' @ [CHR 0x22])))"

definition nix_to_json :: "nat \<Rightarrow> nix_state \<Rightarrow> ref \<Rightarrow> string run" where
  "nix_to_json n st r = json_serialize n st 0 r"

subsection \<open>JSON input\<close>

text \<open>
  The reader works on a C string; a list here, whose end is the NUL.  Reading an escape at the
  end moves past the NUL.
\<close>

definition json_unescape :: "char \<Rightarrow> char" where
  "json_unescape c =
     (if c = CHR ''n'' then c_nl else if c = CHR ''t'' then CHR 0x09 else if c = CHR ''r'' then CHR 0x0D else c)"

fun json_string_loop :: "string \<Rightarrow> (string \<times> string) run" where
  "json_string_loop [] = Ret ([], [])"
| "json_string_loop (c # js) =
     (if c = CHR 0x22 then Ret ([], js)
      else if c = CHR 0x5C then
        (case js of
           [] \<Rightarrow> Crash
         | e # js' \<Rightarrow> andthen (json_string_loop js') (\<lambda>(t, r). Ret (json_unescape e # t, r)))
      else andthen (json_string_loop js) (\<lambda>(t, r). Ret (c # t, r)))"

definition json_parse_string :: "string \<Rightarrow> (string option \<times> string) run" where
  "json_parse_string js =
     (case js of
        c # js' \<Rightarrow> if c = CHR 0x22 then andthen (json_string_loop js') (\<lambda>(t, r). Ret (Some t, r)) else Ret (None, js)
      | [] \<Rightarrow> Ret (None, js))"

definition json_blank :: "char \<Rightarrow> bool" where
  "json_blank c \<longleftrightarrow> c = CHR '' '' \<or> c = CHR 0x09 \<or> c = c_nl \<or> c = CHR 0x0D"

definition json_number :: "string \<Rightarrow> 64 word \<times> string" where
  "json_number js =
     (let neg = (take 1 js = ''-''); ds = (if neg then tl js else js);
          n = foldl digit_step 0 (takeWhile c_isdigit ds)
      in (if neg then - n else n, dropWhile c_isdigit ds))"

text \<open>The value, the rest of the text, and the state with the new cells.\<close>

fun json_parse_value :: "nat \<Rightarrow> string \<Rightarrow> (ref \<times> string) step"
  and json_list_loop :: "nat \<Rightarrow> ref list \<Rightarrow> string \<Rightarrow> (ref list \<times> string) step"
  and json_object_loop :: "nat \<Rightarrow> ref \<Rightarrow> string \<Rightarrow> string step" where
  "json_parse_value 0 js st = Out_of_steps"
| "json_parse_value (Suc n) js st =
     (let js = dropWhile json_blank js in
      if take 1 js = [CHR 0x22] then
        andthen (json_parse_string js) (\<lambda>(t, r).
          case nix_value_new (NIX_VAL_STRING t) st of (v, st') \<Rightarrow> Ret ((v, r), st'))
      else if take 1 js = ''['' then
        andthen (json_list_loop n [] (tl js) st) (\<lambda>((items, r), st').
          case nix_value_new (NIX_VAL_LIST items) st' of (v, st'') \<Rightarrow> Ret ((v, r), st''))
      else if take 1 js = ''{'' then
        (case nix_value_new (NIX_VAL_ATTR_SET []) st of (v, st') \<Rightarrow>
          andthen (json_object_loop n v (tl js) st') (\<lambda>(r, st''). Ret ((v, r), st'')))
      else if starts_with ''true'' js then
        (case nix_value_new (NIX_VAL_BOOL True) st of (v, st') \<Rightarrow> Ret ((v, drop 4 js), st'))
      else if starts_with ''false'' js then
        (case nix_value_new (NIX_VAL_BOOL False) st of (v, st') \<Rightarrow> Ret ((v, drop 5 js), st'))
      else if starts_with ''null'' js then
        (case nix_value_new NIX_VAL_NULL st of (v, st') \<Rightarrow> Ret ((v, drop 4 js), st'))
      else if take 1 js = ''-'' \<or> js \<noteq> [] \<and> c_isdigit (hd js) then
        (case json_number js of (i, r) \<Rightarrow>
          case nix_value_new (NIX_VAL_INT i) st of (v, st') \<Rightarrow> Ret ((v, r), st'))
      else Ret ((None, js), st))"
| "json_list_loop 0 items js st = Out_of_steps"
| "json_list_loop (Suc n) items js st =
     (if js = [] then Ret ((items, js), st)
      else let js = dropWhile (\<lambda>c. json_blank c \<or> c = CHR '','') js in
        if take 1 js = '']'' then Ret ((items, tl js), st)
        else andthen (json_parse_value n js st) (\<lambda>((v, r), st').
          if v = None then Ret ((items, r), st') else json_list_loop n (items @ [v]) r st'))"
| "json_object_loop 0 obj js st = Out_of_steps"
| "json_object_loop (Suc n) obj js st =
     (if js = [] then Ret (js, st)
      else let js = dropWhile (\<lambda>c. json_blank c \<or> c = CHR '','') js in
        if take 1 js = ''}'' then Ret (tl js, st)
        else andthen (json_parse_string js) (\<lambda>(key, r).
          case key of
            None \<Rightarrow> Ret (r, st)
          | Some k \<Rightarrow>
              (case nix_value_new (NIX_VAL_STRING (Some k)) st of (kv, st1) \<Rightarrow>
                andthen (json_parse_value n (dropWhile (\<lambda>c. json_blank c \<or> c = CHR '':'') r) st1)
                  (\<lambda>((v, r'), st2).
                    if v = None then andthen (nix_value_free kv st2) (\<lambda>st3. Ret (r', st3))
                    else andthen (attrset_bind obj k v st2) (\<lambda>st3.
                      andthen (nix_value_free kv st3) (json_object_loop n obj r'))))))"

end
