(* ===== verification/Nix_Eval.thy ===== *)
theory Nix_Eval
  imports Nix_Heap
begin

text \<open>
  The evaluator of \<open>lib/2O9/nix/nix_eval.c\<close>: the builtin functions, \<open>nix_eval_inner\<close>,
  \<open>nix_force\<close> and \<open>nix_eval_file_with_base\<close>.

  As in the parser, the calls that close a cycle are arguments: \<open>ev\<close> for \<open>nix_eval_inner\<close> and
  \<open>call\<close> for a call through a builtin's function pointer; \<open>nix_eval_inner\<close> and \<open>call_builtin\<close> tie
  the knot with a bound on the depth of calls, which also bounds comparison and JSON output.
  The files that can be read, and whether a path exists, are parameters.
\<close>

type_synonym evaluator = "ref \<Rightarrow> nat \<Rightarrow> nix_ast \<Rightarrow> ref step"
type_synonym caller = "builtin_fn \<Rightarrow> ref \<Rightarrow> ref \<Rightarrow> ref \<Rightarrow> ref step"

text \<open>A call that reports its error to a local variable of its caller.\<close>

definition with_local_error :: "'a step \<Rightarrow> ('a \<times> string option) step" where
  "with_local_error act st =
     andthen (act (st\<lparr>h_error := None\<rparr>)) (\<lambda>(r, st'). Ret ((r, h_error st'), st'\<lparr>h_error := h_error st\<rparr>))"

definition tree_alive :: "nat \<Rightarrow> nix_state \<Rightarrow> bool" where
  "tree_alive tr st \<longleftrightarrow> tr < length (h_trees st) \<and> h_trees st ! tr"

text \<open>Evaluating a piece of a tree whose file may be gone.\<close>

definition eval_tree :: "evaluator \<Rightarrow> evaluator" where
  "eval_tree ev env tr ast st = (if tree_alive tr st then ev env tr ast st else Crash)"

definition nix_force :: "evaluator \<Rightarrow> ref \<Rightarrow> ref \<Rightarrow> ref step" where
  "nix_force ev env val st =
     (if val = None then Ret (None, st)
      else andthen (deref val st) (\<lambda>v. case v of
          NIX_VAL_THUNK te tr expr forced \<Rightarrow>
            if forced \<noteq> None then Ret (forced, st)
            else andthen (eval_tree ev env tr expr st) (\<lambda>(r, st1).
              andthen (store_value val (NIX_VAL_THUNK te tr expr r) st1) (\<lambda>st2. Ret (r, st2)))
        | _ \<Rightarrow> Ret (val, st)))"

subsection \<open>Builtin functions\<close>

definition partial :: "string \<Rightarrow> builtin_fn \<Rightarrow> ref \<Rightarrow> ref step" where
  "partial name f ctx = new_value (NIX_VAL_BUILTIN name f ctx)"

definition is_function :: "nix_value \<Rightarrow> bool" where
  "is_function v \<longleftrightarrow> (case v of NIX_VAL_LAMBDA _ _ _ _ \<Rightarrow> True | NIX_VAL_BUILTIN _ _ _ \<Rightarrow> True | _ \<Rightarrow> False)"

definition list_items :: "nix_value \<Rightarrow> ref list" where
  "list_items v = (case v of NIX_VAL_LIST rs \<Rightarrow> rs | _ \<Rightarrow> [])"

text \<open>One element of \<open>map\<close>: errors become null values.\<close>

definition map_item :: "evaluator \<Rightarrow> caller \<Rightarrow> ref \<Rightarrow> ref \<Rightarrow> ref \<Rightarrow> ref step" where
  "map_item ev call env func item st =
     andthen (deref func st) (\<lambda>f.
     andthen (case f of
        NIX_VAL_LAMBDA closure tr param body \<Rightarrow>
          if \<not> tree_alive tr st then Crash else
          andthen (nix_env_push closure st) (\<lambda>(call_env, st1).
          andthen (case param of NIX_NODE_IDENT x \<Rightarrow> nix_env_bind call_env (Some x) item st1
                                | NULL \<Rightarrow> Crash | _ \<Rightarrow> Ret st1) (\<lambda>st2.
          andthen (with_local_error (eval_tree ev call_env tr body) st2) (\<lambda>((r, _), st3).
          andthen (nix_env_free call_env st3) (\<lambda>st4. Ret (r, st4)))))
      | NIX_VAL_BUILTIN _ g ctx \<Rightarrow> call g ctx env item st
      | _ \<Rightarrow> Ret (None, st)) (\<lambda>(r, st').
     if r = None then new_value NIX_VAL_NULL st' else Ret (r, st')))"

text \<open>The list is read again for every element: a call may have emptied or freed it.\<close>

fun map_loop :: "(ref \<Rightarrow> ref step) \<Rightarrow> ref \<Rightarrow> nat \<Rightarrow> ref list \<Rightarrow> ref list step" where
  "map_loop item_fn arg 0 acc st = Ret (acc, st)"
| "map_loop item_fn arg (Suc n) acc st =
     andthen (deref arg st) (\<lambda>v.
       if length acc < length (list_items v)
       then andthen (item_fn (list_items v ! length acc) st) (\<lambda>(r, st'). map_loop item_fn arg n (acc @ [r]) st')
       else Ret (acc, st))"

definition do_map :: "evaluator \<Rightarrow> caller \<Rightarrow> ref \<Rightarrow> ref \<Rightarrow> ref \<Rightarrow> ref step" where
  "do_map ev call ctx env arg st =
     (if arg = None then Ret (None, st)
      else andthen (deref arg st) (\<lambda>v.
        if is_function v then partial ''map(partial)'' builtin_map arg st
        else case v of
          NIX_VAL_LIST rs \<Rightarrow>
            if ctx = None then Ret (None, st)
            else andthen (map_loop (map_item ev call env ctx) arg (length rs) [] st) (\<lambda>(acc, st').
              new_value (NIX_VAL_LIST (acc @ replicate (length rs - length acc) None)) st')
        | _ \<Rightarrow> Ret (None, st)))"

text \<open>Matching an item with the formals of a predicate: what is not an attribute set goes to each.\<close>

fun bind_formals_of_item :: "ref \<Rightarrow> (string option \<times> nix_ast) list \<Rightarrow> ref \<Rightarrow> nix_state \<Rightarrow> nix_state run" where
  "bind_formals_of_item call_env [] item st = Ret st"
| "bind_formals_of_item call_env ((key, _) # fs) item st =
     (case key of None \<Rightarrow> Crash | Some k \<Rightarrow>
      andthen (if item = None then Ret item
               else andthen (deref item st) (\<lambda>v.
                 case v of NIX_VAL_ATTR_SET _ \<Rightarrow> attrset_lookup item k st | _ \<Rightarrow> Ret item)) (\<lambda>pval.
      case (if pval = None then nix_value_new NIX_VAL_NULL st else (pval, st)) of (pv, st1) \<Rightarrow>
        andthen (nix_env_bind call_env key pv st1) (bind_formals_of_item call_env fs item)))"

definition filter_item :: "evaluator \<Rightarrow> caller \<Rightarrow> ref \<Rightarrow> ref \<Rightarrow> ref \<Rightarrow> (ref \<times> bool) step" where
  "filter_item ev call env pred item0 st0 =
     andthen (if item0 = None then Ret (None, st0)
              else andthen (deref item0 st0) (\<lambda>v. case v of
                  NIX_VAL_THUNK _ _ _ _ \<Rightarrow>
                    andthen (with_local_error (nix_force ev env item0) st0) (\<lambda>((r, _), st1). Ret (r, st1))
                | _ \<Rightarrow> Ret (item0, st0))) (\<lambda>(item, st).
     andthen (deref pred st) (\<lambda>f.
     andthen (case f of
        NIX_VAL_LAMBDA closure tr param body \<Rightarrow>
          if \<not> tree_alive tr st then Crash else
          andthen (nix_env_push closure st) (\<lambda>(call_env, st1).
          andthen (case param of
                     NIX_NODE_IDENT x \<Rightarrow> nix_env_bind call_env (Some x) item st1
                   | NIX_NODE_ATTR_SET fs \<Rightarrow> bind_formals_of_item call_env fs item st1
                   | NULL \<Rightarrow> Crash
                   | _ \<Rightarrow> Ret st1) (\<lambda>st2.
          andthen (with_local_error (eval_tree ev call_env tr body) st2) (\<lambda>((v, _), st3).
          andthen (nix_is_truthy v st3) (\<lambda>keep.
          andthen (nix_env_free call_env st3) (\<lambda>st4. Ret (keep, st4))))))
      | NIX_VAL_BUILTIN _ g ctx \<Rightarrow>
          andthen (call g ctx env item st) (\<lambda>(v, st1).
          andthen (nix_is_truthy v st1) (\<lambda>keep. Ret (keep, st1)))
      | _ \<Rightarrow> Ret (False, st)) (\<lambda>(keep, st').
     Ret ((item, keep), st'))))"

fun filter_loop :: "(ref \<Rightarrow> (ref \<times> bool) step) \<Rightarrow> ref \<Rightarrow> nat \<Rightarrow> nat \<Rightarrow> ref list \<Rightarrow> ref list step" where
  "filter_loop item_fn arg 0 i acc st = Ret (acc, st)"
| "filter_loop item_fn arg (Suc n) i acc st =
     andthen (deref arg st) (\<lambda>v.
       if i < length (list_items v)
       then andthen (item_fn (list_items v ! i) st) (\<lambda>((item, keep), st').
         filter_loop item_fn arg n (Suc i) (if keep then acc @ [item] else acc) st')
       else Ret (acc, st))"

definition do_filter :: "evaluator \<Rightarrow> caller \<Rightarrow> ref \<Rightarrow> ref \<Rightarrow> ref \<Rightarrow> ref step" where
  "do_filter ev call ctx env arg st =
     (if arg = None then Ret (None, st)
      else andthen (deref arg st) (\<lambda>v.
        if is_function v then partial ''filter(partial)'' builtin_filter arg st
        else case v of
          NIX_VAL_LIST rs \<Rightarrow>
            if ctx = None then Ret (None, st)
            else andthen (filter_loop (filter_item ev call env ctx) arg (length rs) 0 [] st) (\<lambda>(acc, st').
              new_value (NIX_VAL_LIST acc) st')
        | _ \<Rightarrow> Ret (None, st)))"

definition do_length :: "ref \<Rightarrow> ref step" where
  "do_length arg st =
     (if arg = None then new_value (NIX_VAL_INT 0) st
      else andthen (deref arg st) (\<lambda>v. case v of
          NIX_VAL_LIST rs \<Rightarrow> new_value (NIX_VAL_INT (of_nat (length rs))) st
        | NIX_VAL_STRING None \<Rightarrow> Crash
        | NIX_VAL_STRING (Some s) \<Rightarrow> new_value (NIX_VAL_INT (of_nat (length s))) st
        | _ \<Rightarrow> new_value (NIX_VAL_INT 0) st))"

definition do_head :: "ref \<Rightarrow> ref step" where
  "do_head arg st =
     (if arg = None then Ret (None, st)
      else andthen (deref arg st) (\<lambda>v. case v of
          NIX_VAL_LIST (r # _) \<Rightarrow> Ret (r, st) | _ \<Rightarrow> Ret (None, st)))"

definition do_tail :: "ref \<Rightarrow> ref step" where
  "do_tail arg st =
     (if arg = None then Ret (None, st)
      else andthen (deref arg st) (\<lambda>v. case v of
          NIX_VAL_LIST (_ # rs) \<Rightarrow> new_value (NIX_VAL_LIST rs) st | _ \<Rightarrow> Ret (None, st)))"

fun new_strings :: "string list \<Rightarrow> ref list step" where
  "new_strings [] st = Ret ([], st)"
| "new_strings (k # ks) st =
     (case nix_value_new (NIX_VAL_STRING (Some k)) st of (r, st1) \<Rightarrow>
        andthen (new_strings ks st1) (\<lambda>(rs, st2). Ret (r # rs, st2)))"

definition do_attr_names :: "ref \<Rightarrow> ref step" where
  "do_attr_names arg st =
     (if arg = None then Ret (None, st)
      else andthen (deref arg st) (\<lambda>v. case v of
          NIX_VAL_ATTR_SET es \<Rightarrow>
            andthen (new_strings (map fst es) st) (\<lambda>(rs, st'). new_value (NIX_VAL_LIST rs) st')
        | _ \<Rightarrow> Ret (None, st)))"

definition do_attr_values :: "ref \<Rightarrow> ref step" where
  "do_attr_values arg st =
     (if arg = None then Ret (None, st)
      else andthen (deref arg st) (\<lambda>v. case v of
          NIX_VAL_ATTR_SET es \<Rightarrow> new_value (NIX_VAL_LIST (map snd es)) st
        | _ \<Rightarrow> Ret (None, st)))"

text \<open>The key kept by \<open>hasAttr\<close> and \<open>getAttr\<close>.\<close>

definition key_of :: "ref \<Rightarrow> nix_state \<Rightarrow> string run" where
  "key_of ctx st = andthen (deref ctx st) (\<lambda>v. case v of
       NIX_VAL_STRING (Some s) \<Rightarrow> Ret s | NIX_VAL_STRING None \<Rightarrow> Crash | _ \<Rightarrow> Ret [])"

definition do_has_attr :: "ref \<Rightarrow> ref \<Rightarrow> ref step" where
  "do_has_attr ctx arg st =
     (if arg = None then Ret (None, st)
      else andthen (deref arg st) (\<lambda>v. case v of
          NIX_VAL_STRING _ \<Rightarrow> if ctx = None then partial ''hasAttr(partial)'' builtin_has_attr arg st else Ret (None, st)
        | NIX_VAL_ATTR_SET _ \<Rightarrow>
            if ctx = None then Ret (None, st)
            else andthen (key_of ctx st) (\<lambda>k. andthen (attrset_has arg k st) (\<lambda>b. new_value (NIX_VAL_BOOL b) st))
        | _ \<Rightarrow> Ret (None, st)))"

definition do_get_attr :: "ref \<Rightarrow> ref \<Rightarrow> ref step" where
  "do_get_attr ctx arg st =
     (if arg = None then Ret (None, st)
      else andthen (deref arg st) (\<lambda>v. case v of
          NIX_VAL_STRING _ \<Rightarrow> if ctx = None then partial ''getAttr(partial)'' builtin_get_attr arg st else Ret (None, st)
        | NIX_VAL_ATTR_SET _ \<Rightarrow>
            if ctx = None then Ret (None, st)
            else andthen (key_of ctx st) (\<lambda>k. andthen (attrset_lookup arg k st) (\<lambda>r. Ret (r, st)))
        | _ \<Rightarrow> Ret (None, st)))"

definition do_to_json :: "nat \<Rightarrow> ref \<Rightarrow> ref step" where
  "do_to_json n arg st =
     (if arg = None then Ret (None, st)
      else andthen (nix_to_json n st arg) (\<lambda>t. new_value (NIX_VAL_STRING (Some t)) st))"

definition do_from_json :: "ref \<Rightarrow> ref step" where
  "do_from_json arg st =
     (if arg = None then Ret (None, st)
      else andthen (deref arg st) (\<lambda>v. case v of
          NIX_VAL_STRING (Some s) \<Rightarrow>
            andthen (json_parse_value (2 * length s + 2) s st) (\<lambda>((r, _), st'). Ret (r, st'))
        | _ \<Rightarrow> Ret (None, st)))"

definition do_trace :: "ref \<Rightarrow> ref \<Rightarrow> ref step" where
  "do_trace ctx arg st =
     (if arg = None then Ret (None, st)
      else andthen (deref arg st) (\<lambda>v.
        if (case v of NIX_VAL_STRING _ \<Rightarrow> True | _ \<Rightarrow> False) \<and> ctx = None
        then partial ''trace(partial)'' builtin_trace arg st
        else if ctx = None then Ret (arg, st)
        else andthen (deref ctx st) (\<lambda>_. Ret (arg, st))))"

definition string_arg :: "ref \<Rightarrow> nix_state \<Rightarrow> string option run" where
  "string_arg arg st =
     (if arg = None then Ret None
      else andthen (deref arg st) (\<lambda>v. Ret (case v of NIX_VAL_STRING s \<Rightarrow> s | _ \<Rightarrow> None)))"

definition do_path_exists :: "(string \<Rightarrow> bool) \<Rightarrow> ref \<Rightarrow> ref step" where
  "do_path_exists exists arg st =
     andthen (string_arg arg st) (\<lambda>s. new_value (NIX_VAL_BOOL (case s of Some p \<Rightarrow> exists p | None \<Rightarrow> False)) st)"

definition do_read_file :: "(string \<Rightarrow> bytes option) \<Rightarrow> ref \<Rightarrow> ref step" where
  "do_read_file files arg st =
     andthen (string_arg arg st) (\<lambda>s.
       case (case s of Some p \<Rightarrow> files p | None \<Rightarrow> None) of
         Some content \<Rightarrow> new_value (NIX_VAL_STRING (Some (c_str content))) st
       | None \<Rightarrow> Ret (None, st))"

definition do_abort :: "ref \<Rightarrow> ref step" where
  "do_abort arg st = andthen (string_arg arg st) (\<lambda>_. Ret (None, st))"

definition do_to_string :: "nat \<Rightarrow> ref \<Rightarrow> ref step" where
  "do_to_string n arg st =
     (if arg = None then Ret (None, st)
      else andthen (deref arg st) (\<lambda>v.
        let text = (\<lambda>t. new_value (NIX_VAL_STRING (Some t)) st) in
        case v of
          NIX_VAL_STRING s \<Rightarrow> text (case s of Some t \<Rightarrow> t | None \<Rightarrow> [])
        | NIX_VAL_INT i \<Rightarrow> text (dec_int_str (sint i))
        | NIX_VAL_BOOL b \<Rightarrow> text (if b then ''true'' else ''false'')
        | NIX_VAL_NULL \<Rightarrow> text ''null''
        | NIX_VAL_PATH p \<Rightarrow> text p
        | _ \<Rightarrow> andthen (nix_to_json n st arg) text))"

definition do_string_length :: "ref \<Rightarrow> ref step" where
  "do_string_length arg st =
     andthen (string_arg arg st) (\<lambda>s.
       new_value (NIX_VAL_INT (case s of Some t \<Rightarrow> of_nat (length t) | None \<Rightarrow> 0)) st)"

text \<open>
  The replacement for the text at hand: the first string of \<open>from\<close> it starts with, empty strings
  and other values skipped, with what stands for it.
\<close>

definition replacement :: "ref list \<Rightarrow> nat \<Rightarrow> nix_state \<Rightarrow> string run" where
  "replacement tos j st =
     (if j < length tos \<and> tos ! j \<noteq> None
      then andthen (deref (tos ! j) st) (\<lambda>v. case v of
          NIX_VAL_STRING (Some s) \<Rightarrow> Ret s | NIX_VAL_STRING None \<Rightarrow> Crash | _ \<Rightarrow> Ret [])
      else Ret [])"

fun find_replacement :: "ref list \<Rightarrow> ref list \<Rightarrow> nat \<Rightarrow> string \<Rightarrow> nix_state \<Rightarrow> (nat \<times> string) option run" where
  "find_replacement [] tos j src st = Ret None"
| "find_replacement (r # froms) tos j src st =
     andthen (if r = None then Ret None else string_arg r st) (\<lambda>s.
       case s of
         Some t \<Rightarrow>
           if t \<noteq> [] \<and> starts_with t src
           then andthen (replacement tos j st) (\<lambda>u. Ret (Some (length t, u)))
           else find_replacement froms tos (Suc j) src st
       | None \<Rightarrow> find_replacement froms tos (Suc j) src st)"

lemma find_replacement_pos: "find_replacement froms tos j src st = Ret (Some (n, u)) \<Longrightarrow> 0 < n"
proof (induction froms tos j src st rule: find_replacement.induct)
  case (2 r froms tos j src st)
  then obtain s where "(if r = None then Ret None else string_arg r st) = Ret s"
    by (cases "if r = None then Ret None else string_arg r st") auto
  with 2 show ?case
    by (cases s; cases "replacement tos j st") (auto split: if_splits)
qed simp

function replace_loop :: "ref list \<Rightarrow> ref list \<Rightarrow> nix_state \<Rightarrow> string \<Rightarrow> string run" where
  "replace_loop froms tos st [] = Ret []"
| "replace_loop froms tos st (c # src) =
     (case find_replacement froms tos 0 (c # src) st of
        Ret (Some (n, u)) \<Rightarrow> andthen (replace_loop froms tos st (drop n (c # src))) (\<lambda>t. Ret (u @ t))
      | Ret None \<Rightarrow> andthen (replace_loop froms tos st src) (\<lambda>t. Ret (c # t))
      | Crash \<Rightarrow> Crash
      | Out_of_steps \<Rightarrow> Out_of_steps)"
  by pat_completeness auto
termination
  by (relation "measure (\<lambda>(froms, tos, st, src). length src)") (auto dest: find_replacement_pos)

definition do_replace_strings :: "ref \<Rightarrow> ref \<Rightarrow> ref step" where
  "do_replace_strings ctx arg st =
     (if arg = None then Ret (None, st)
      else if ctx = None then partial ''replaceStrings(partial1)'' builtin_replace_strings arg st
      else andthen (deref ctx st) (\<lambda>from. case from of
          NIX_VAL_LIST _ \<Rightarrow>
            (case nix_value_new (NIX_VAL_ATTR_SET [(''__from'', ctx), (''__to'', arg)]) st of (pair, st1) \<Rightarrow>
              partial ''replaceStrings(partial2)'' builtin_replace_strings pair st1)
        | NIX_VAL_ATTR_SET es \<Rightarrow>
            let get = (\<lambda>k. case map_of es k of Some r \<Rightarrow> r | None \<Rightarrow> None);
                froms = get ''__from''; tos = get ''__to'' in
            andthen (string_arg arg st) (\<lambda>s.
            if s = None \<or> froms = None then new_value (NIX_VAL_STRING None) st else
            andthen (deref froms st) (\<lambda>vf. case vf of
                NIX_VAL_LIST fs \<Rightarrow>
                  if tos = None then new_value (NIX_VAL_STRING None) st
                  else andthen (deref tos st) (\<lambda>vt. case vt of
                      NIX_VAL_LIST ts \<Rightarrow>
                        andthen (replace_loop fs ts st (the s)) (\<lambda>t. new_value (NIX_VAL_STRING (Some t)) st)
                    | _ \<Rightarrow> new_value (NIX_VAL_STRING None) st)
              | _ \<Rightarrow> new_value (NIX_VAL_STRING None) st))
        | _ \<Rightarrow> Ret (None, st)))"

definition builtin_body ::
    "(string \<Rightarrow> bytes option) \<Rightarrow> (string \<Rightarrow> bool) \<Rightarrow> nat \<Rightarrow> evaluator \<Rightarrow> caller \<Rightarrow> caller" where
  "builtin_body files exists n ev call f ctx env arg =
     (case f of
        builtin_map \<Rightarrow> do_map ev call ctx env arg
      | builtin_filter \<Rightarrow> do_filter ev call ctx env arg
      | builtin_length \<Rightarrow> do_length arg
      | builtin_head \<Rightarrow> do_head arg
      | builtin_tail \<Rightarrow> do_tail arg
      | builtin_attr_names \<Rightarrow> do_attr_names arg
      | builtin_attr_values \<Rightarrow> do_attr_values arg
      | builtin_has_attr \<Rightarrow> do_has_attr ctx arg
      | builtin_get_attr \<Rightarrow> do_get_attr ctx arg
      | builtin_to_json \<Rightarrow> do_to_json n arg
      | builtin_from_json \<Rightarrow> do_from_json arg
      | builtin_trace \<Rightarrow> do_trace ctx arg
      | builtin_path_exists \<Rightarrow> do_path_exists exists arg
      | builtin_read_file \<Rightarrow> do_read_file files arg
      | builtin_abort \<Rightarrow> do_abort arg
      | builtin_throw \<Rightarrow> do_abort arg
      | builtin_to_string \<Rightarrow> do_to_string n arg
      | builtin_string_length \<Rightarrow> do_string_length arg
      | builtin_replace_strings \<Rightarrow> do_replace_strings ctx arg)"

subsection \<open>The initial environment\<close>

definition builtin_table :: "(string \<times> builtin_fn) list" where
  "builtin_table =
     [(''map'', builtin_map), (''filter'', builtin_filter), (''length'', builtin_length),
      (''head'', builtin_head), (''tail'', builtin_tail), (''attrNames'', builtin_attr_names),
      (''attrValues'', builtin_attr_values), (''hasAttr'', builtin_has_attr),
      (''getAttr'', builtin_get_attr), (''toJSON'', builtin_to_json), (''fromJSON'', builtin_from_json),
      (''trace'', builtin_trace), (''pathExists'', builtin_path_exists), (''readFile'', builtin_read_file),
      (''abort'', builtin_abort), (''throw'', builtin_throw), (''toString'', builtin_to_string),
      (''stringLength'', builtin_string_length), (''replaceStrings'', builtin_replace_strings)]"

definition nix_env_new :: "string option \<Rightarrow> ref step" where
  "nix_env_new base_dir st =
     (let a = length (h_vals st); n = length builtin_table;
          set = NIX_VAL_ATTR_SET (zip (map fst builtin_table) (map (\<lambda>i. Some (a + 1 + i)) [0..<n]));
          cells = set # map (\<lambda>(name, f). NIX_VAL_BUILTIN name f None) builtin_table
            @ [NIX_VAL_BOOL True, NIX_VAL_BOOL False, NIX_VAL_NULL];
          entries = [(''builtins'', Some a), (''true'', Some (a + n + 1)), (''false'', Some (a + n + 2)),
            (''null'', Some (a + n + 3)), (''map'', Some (a + 1))]
      in Ret (Some (length (h_envs st)),
           st\<lparr>h_vals := h_vals st @ map Some cells,
              h_envs := h_envs st @ [Some \<lparr>e_entries = entries, e_parent = None, e_base_dir = base_dir\<rparr>]\<rparr>))"

subsection \<open>Evaluation\<close>

text \<open>
  The text an interpolated value stands for, \<open>None\<close> where the code reports an error: after freeing
  the value, whose type it then reads for the message.
\<close>

definition interpolated :: "nix_value \<Rightarrow> string option run" where
  "interpolated v =
     (case v of
        NIX_VAL_STRING None \<Rightarrow> Crash
      | NIX_VAL_STRING (Some s) \<Rightarrow> Ret (Some s)
      | NIX_VAL_PATH s \<Rightarrow> Ret (Some s)
      | NIX_VAL_INT i \<Rightarrow> Ret (Some (dec_int_str (sint i)))
      | NIX_VAL_BOOL b \<Rightarrow> Ret (Some (if b then ''true'' else ''false''))
      | NIX_VAL_NULL \<Rightarrow> Ret (Some ''null'')
      | _ \<Rightarrow> Ret None)"

fun string_parts :: "(nix_ast \<Rightarrow> ref step) \<Rightarrow> (string + nix_ast) list \<Rightarrow> string \<Rightarrow> ref step" where
  "string_parts evx [] buf st = new_value (NIX_VAL_STRING (Some buf)) st"
| "string_parts evx (Inl s # ps) buf st = string_parts evx ps (buf @ s) st"
| "string_parts evx (Inr e # ps) buf st =
     andthen (evx e st) (\<lambda>(r, st1).
       if r = None then Ret (None, st1)
       else andthen (deref r st1) (\<lambda>v. andthen (interpolated v) (\<lambda>t. andthen (nix_value_free r st1) (\<lambda>st2.
         case t of
           Some s \<Rightarrow> string_parts evx ps (buf @ s) st2
         | None \<Rightarrow> Crash))))"

fun bind_entries :: "(nix_ast \<Rightarrow> ref step) \<Rightarrow> (string option \<times> nix_ast) list \<Rightarrow> ref \<Rightarrow> ref step" where
  "bind_entries evx [] aset st = Ret (aset, st)"
| "bind_entries evx ((key, e) # bs) aset st =
     andthen (evx e st) (\<lambda>(val, st1).
       if val = None then andthen (nix_value_free aset st1) (\<lambda>st2. Ret (None, st2))
       else andthen (bind_key aset key val st1) (bind_entries evx bs aset))"

definition eval_attr_set :: "(nix_ast \<Rightarrow> ref step) \<Rightarrow> (string option \<times> nix_ast) list \<Rightarrow> ref step" where
  "eval_attr_set evx bs st =
     (case nix_value_new (NIX_VAL_ATTR_SET []) st of (aset, st1) \<Rightarrow> bind_entries evx bs aset st1)"

text \<open>The two passes over a recursive aset.  The second goes over its entries by index.\<close>

fun bind_thunks :: "nat \<Rightarrow> ref \<Rightarrow> (string option \<times> nix_ast) list \<Rightarrow> ref \<Rightarrow> nix_state \<Rightarrow> nix_state run" where
  "bind_thunks tr rec_env [] aset st = Ret st"
| "bind_thunks tr rec_env ((key, e) # bs) aset st =
     (case key of None \<Rightarrow> Crash | Some k \<Rightarrow>
      case nix_value_new (NIX_VAL_THUNK rec_env tr e None) st of (thunk, st1) \<Rightarrow>
        andthen (attrset_bind aset k thunk st1) (\<lambda>st2.
        andthen (nix_env_bind rec_env key thunk st2) (bind_thunks tr rec_env bs aset)))"

definition is_unforced :: "nix_value \<Rightarrow> bool" where
  "is_unforced v \<longleftrightarrow> (case v of NIX_VAL_THUNK _ _ _ None \<Rightarrow> True | _ \<Rightarrow> False)"

definition set_entries :: "nix_value \<Rightarrow> (string \<times> ref) list" where
  "set_entries v = (case v of NIX_VAL_ATTR_SET es \<Rightarrow> es | _ \<Rightarrow> [])"

fun force_entries :: "evaluator \<Rightarrow> ref \<Rightarrow> nat \<Rightarrow> nat \<Rightarrow> ref \<Rightarrow> ref step" where
  "force_entries ev rec_env 0 i aset st = andthen (nix_env_free rec_env st) (\<lambda>st1. Ret (aset, st1))"
| "force_entries ev rec_env (Suc n) i aset st =
     andthen (deref aset st) (\<lambda>v. let (k, thunk) = set_entries v ! i in
       if thunk = None then force_entries ev rec_env n (Suc i) aset st
       else andthen (deref thunk st) (\<lambda>t.
         if \<not> is_unforced t then force_entries ev rec_env n (Suc i) aset st
         else andthen (with_local_error (nix_force ev rec_env thunk) st) (\<lambda>((r, err), st1).
           if r = None then
             andthen (nix_env_free rec_env (st1\<lparr>h_error := err\<rparr>)) (\<lambda>st2.
             andthen (nix_value_free aset st2) (\<lambda>st3. Ret (None, st3)))
           else
             andthen (deref aset st1) (\<lambda>v1.
             andthen (store_value aset (NIX_VAL_ATTR_SET ((set_entries v1)[i := (k, r)])) st1) (\<lambda>st2.
             andthen (nix_env_bind rec_env (Some k) r st2) (\<lambda>st3.
             andthen (nix_value_free thunk st3) (force_entries ev rec_env n (Suc i) aset)))))))"

definition eval_rec_attr_set :: "evaluator \<Rightarrow> ref \<Rightarrow> nat \<Rightarrow> (string option \<times> nix_ast) list \<Rightarrow> ref step" where
  "eval_rec_attr_set ev env tr bs st =
     (case nix_value_new (NIX_VAL_ATTR_SET []) st of (aset, st1) \<Rightarrow>
        andthen (nix_env_push env st1) (\<lambda>(rec_env, st2).
        andthen (bind_thunks tr rec_env bs aset st2) (\<lambda>st3.
        andthen (deref aset st3) (\<lambda>v.
          force_entries ev rec_env (length (set_entries v)) 0 aset st3))))"

text \<open>The cell of the list exists while its items are evaluated, and is freed on failure.\<close>

fun list_elements :: "(nix_ast \<Rightarrow> ref step) \<Rightarrow> nix_ast list \<Rightarrow> ref list \<Rightarrow> ref \<Rightarrow> ref step" where
  "list_elements evx [] acc list st = andthen (store_value list (NIX_VAL_LIST acc) st) (\<lambda>st1. Ret (list, st1))"
| "list_elements evx (e # es) acc list st =
     andthen (evx e st) (\<lambda>(r, st1).
       if r = None then andthen (nix_value_free list st1) (\<lambda>st2. Ret (None, st2))
       else list_elements evx es (acc @ [r]) list st1)"

definition eval_list :: "(nix_ast \<Rightarrow> ref step) \<Rightarrow> nix_ast list \<Rightarrow> ref step" where
  "eval_list evx es st =
     (case nix_value_new (NIX_VAL_LIST (replicate (length es) None)) st of (list, st1) \<Rightarrow>
        list_elements evx es [] list st1)"

definition is_thunk :: "nix_value \<Rightarrow> bool" where
  "is_thunk v \<longleftrightarrow> (case v of NIX_VAL_THUNK _ _ _ _ \<Rightarrow> True | _ \<Rightarrow> False)"

definition is_attr_set :: "nix_value \<Rightarrow> bool" where
  "is_attr_set v \<longleftrightarrow> (case v of NIX_VAL_ATTR_SET _ \<Rightarrow> True | _ \<Rightarrow> False)"

definition eval_select :: "evaluator \<Rightarrow> ref \<Rightarrow> nat \<Rightarrow> nix_ast \<Rightarrow> string \<Rightarrow> ref step" where
  "eval_select ev env tr e attr st =
     andthen (ev env tr e st) (\<lambda>(obj0, st0).
       if obj0 = None then Ret (None, st0)
       else andthen (deref obj0 st0) (\<lambda>v0.
       andthen (if is_thunk v0 then nix_force ev env obj0 st0 else Ret (obj0, st0)) (\<lambda>(obj, st1).
       if obj = None then Ret (None, st1)
       else andthen (deref obj st1) (\<lambda>v.
         if is_attr_set v then
           andthen (attrset_lookup obj attr st1) (\<lambda>r.
             if r = None
             then andthen (nix_value_free obj st1) (eval_error (''attribute '' @ attr @ '' not found''))
             else Ret (r, st1))
         else andthen (nix_value_free obj st1) (eval_error (''cannot select '' @ attr @ '' from non-attrset''))))))"

definition eval_has_attr :: "(nix_ast \<Rightarrow> ref step) \<Rightarrow> nix_ast \<Rightarrow> string \<Rightarrow> ref step" where
  "eval_has_attr evx e attr st =
     andthen (evx e st) (\<lambda>(obj, st1).
       if obj = None then Ret (None, st1)
       else andthen (attrset_has obj attr st1) (\<lambda>b.
         case nix_value_new (NIX_VAL_BOOL b) st1 of (r, st2) \<Rightarrow>
           andthen (nix_value_free obj st2) (\<lambda>st3. Ret (r, st3))))"

definition eval_or_default :: "(nix_ast \<Rightarrow> ref step) \<Rightarrow> nix_ast \<Rightarrow> string \<Rightarrow> nix_ast \<Rightarrow> ref step" where
  "eval_or_default evx e attr d st =
     andthen (evx e st) (\<lambda>(obj, st1).
       if obj = None then Ret (None, st1)
       else andthen (attrset_lookup obj attr st1) (\<lambda>r.
         if r \<noteq> None then Ret (r, st1)
         else andthen (nix_value_free obj st1) (evx d)))"

text \<open>
  Binding the arguments of a function with named ones.  The flag says whether all were found;
  otherwise the caller returns NULL, with the environment freed.
\<close>

fun bind_formals :: "evaluator \<Rightarrow> nat \<Rightarrow> ref \<Rightarrow> (string option \<times> nix_ast) list \<Rightarrow> ref \<Rightarrow> bool step" where
  "bind_formals ev tr call_env [] arg st = Ret (True, st)"
| "bind_formals ev tr call_env ((key, d) # fs) arg st =
     (case key of None \<Rightarrow> Crash | Some k \<Rightarrow>
      andthen (deref arg st) (\<lambda>v.
      andthen (if is_attr_set v then attrset_lookup arg k st else Ret None) (\<lambda>pval.
        if pval \<noteq> None
        then andthen (nix_env_bind call_env key pval st) (bind_formals ev tr call_env fs arg)
        else if d \<noteq> NULL \<and> d \<noteq> NIX_NODE_NULL then
          andthen (with_local_error (ev call_env tr d) st) (\<lambda>((r, err), st1).
            if r = None
            then andthen (nix_env_free call_env (st1\<lparr>h_error := err\<rparr>)) (\<lambda>st2. Ret (False, st2))
            else andthen (nix_env_bind call_env key r st1) (bind_formals ev tr call_env fs arg))
        else andthen (nix_env_free call_env st) (\<lambda>st1.
          andthen (eval_error (''missing argument '' @ k) st1) (\<lambda>(_, st2). Ret (False, st2))))))"

text \<open>The rounds of the fixed point: the body is evaluated until its value repeats.\<close>

fun fixed_point :: "nat \<Rightarrow> evaluator \<Rightarrow> nat \<Rightarrow> ref \<Rightarrow> nix_ast \<Rightarrow> nat \<Rightarrow> ref \<Rightarrow> ref step" where
  "fixed_point n ev tr call_env body 0 prev st =
     andthen (nix_env_free call_env st) (eval_error ''fixed-point iteration did not converge'')"
| "fixed_point n ev tr call_env body (Suc iter) prev st =
     andthen (with_local_error (ev call_env tr body) st) (\<lambda>((r, err), st1).
       if r = None then
         andthen (nix_env_free call_env (st1\<lparr>h_error := err\<rparr>)) (\<lambda>st2. Ret (None, st2))
       else andthen (if prev = None then Ret False else nix_values_equal n st1 prev r) (\<lambda>same.
         if same then
           andthen (nix_value_free prev st1) (\<lambda>st2.
           andthen (nix_env_free call_env st2) (\<lambda>st3. Ret (r, st3)))
         else
           andthen (nix_env_bind call_env (Some ''config'') r st1) (\<lambda>st2.
           andthen (nix_value_free prev st2) (fixed_point n ev tr call_env body iter r))))"

text \<open>The environment outlives the call only when the result is a function that closes over it.\<close>

definition finish_call :: "evaluator \<Rightarrow> nat \<Rightarrow> ref \<Rightarrow> nix_ast \<Rightarrow> ref step" where
  "finish_call ev tr call_env body st =
     andthen (with_local_error (ev call_env tr body) st) (\<lambda>((r, err), st1).
       if r = None then
         andthen (nix_env_free call_env (st1\<lparr>h_error := err\<rparr>)) (\<lambda>st2. Ret (None, st2))
       else andthen (deref r st1) (\<lambda>v.
         if (case v of NIX_VAL_LAMBDA c _ _ _ \<Rightarrow> c = call_env | _ \<Rightarrow> False) then Ret (r, st1)
         else andthen (nix_env_free call_env st1) (\<lambda>st2. Ret (r, st2))))"

definition apply_lambda :: "nat \<Rightarrow> evaluator \<Rightarrow> ref \<Rightarrow> nat \<Rightarrow> nix_ast \<Rightarrow> nix_ast \<Rightarrow> ref \<Rightarrow> ref step" where
  "apply_lambda n ev closure tr param body arg st =
     (if \<not> tree_alive tr st then Crash
      else andthen (nix_env_push closure st) (\<lambda>(call_env, st1).
        case param of
          NULL \<Rightarrow> Crash
        | NIX_NODE_IDENT x \<Rightarrow>
            andthen (nix_env_bind call_env (Some x) arg st1) (finish_call ev tr call_env body)
        | NIX_NODE_ATTR_SET fs \<Rightarrow>
            andthen (bind_formals ev tr call_env fs arg st1) (\<lambda>(found, st2).
              if \<not> found then Ret (None, st2)
              else andthen (nix_env_lookup call_env ''config'' st2) (\<lambda>config_val.
                if config_val \<noteq> None then fixed_point n ev tr call_env body 100 None st2
                else finish_call ev tr call_env body st2))
        | _ \<Rightarrow> andthen (nix_env_free call_env st1) (eval_error ''invalid lambda parameter type'')))"

definition eval_apply :: "nat \<Rightarrow> evaluator \<Rightarrow> caller \<Rightarrow> ref \<Rightarrow> nat \<Rightarrow> nix_ast \<Rightarrow> nix_ast \<Rightarrow> ref step" where
  "eval_apply n ev call env tr f e st =
     andthen (ev env tr f st) (\<lambda>(func, st1).
       if func = None then Ret (None, st1)
       else andthen (ev env tr e st1) (\<lambda>(arg, st2).
         if arg = None then Ret (None, st2)
         else andthen (deref func st2) (\<lambda>v. case v of
             NIX_VAL_BUILTIN _ g ctx \<Rightarrow> call g ctx env arg st2
           | NIX_VAL_LAMBDA closure tr' param body \<Rightarrow> apply_lambda n ev closure tr' param body arg st2
           | _ \<Rightarrow> eval_error ''cannot apply non-function'' st2)))"

fun let_bindings :: "(nix_ast \<Rightarrow> ref step) \<Rightarrow> ref \<Rightarrow> (string option \<times> nix_ast) list \<Rightarrow> bool step" where
  "let_bindings evx let_env [] st = Ret (True, st)"
| "let_bindings evx let_env ((name, e) # bs) st =
     andthen (evx e st) (\<lambda>(val, st1).
       if val = None then andthen (nix_env_free let_env st1) (\<lambda>st2. Ret (False, st2))
       else andthen (nix_env_bind let_env name val st1) (let_bindings evx let_env bs))"

text \<open>Evaluate in an environment that is then freed.\<close>

definition eval_scoped :: "(nix_ast \<Rightarrow> ref step) \<Rightarrow> ref \<Rightarrow> nix_ast \<Rightarrow> ref step" where
  "eval_scoped evx scope e st =
     andthen (evx e st) (\<lambda>(r, st1). andthen (nix_env_free scope st1) (\<lambda>st2. Ret (r, st2)))"

definition eval_let :: "evaluator \<Rightarrow> ref \<Rightarrow> nat \<Rightarrow> (string option \<times> nix_ast) list \<Rightarrow> nix_ast \<Rightarrow> ref step" where
  "eval_let ev env tr bs e st =
     andthen (nix_env_push env st) (\<lambda>(let_env, st1).
     andthen (let_bindings (ev let_env tr) let_env bs st1) (\<lambda>(ok, st2).
       if \<not> ok then Ret (None, st2) else eval_scoped (ev let_env tr) let_env e st2))"

definition eval_if :: "(nix_ast \<Rightarrow> ref step) \<Rightarrow> nix_ast \<Rightarrow> nix_ast \<Rightarrow> nix_ast \<Rightarrow> ref step" where
  "eval_if evx c a b st =
     andthen (evx c st) (\<lambda>(cond, st1).
       if cond = None then Ret (None, st1)
       else andthen (nix_is_truthy cond st1) (\<lambda>truthy.
         andthen (nix_value_free cond st1) (\<lambda>st2. if truthy then evx a st2 else evx b st2)))"

fun bind_all :: "ref \<Rightarrow> (string \<times> ref) list \<Rightarrow> nix_state \<Rightarrow> nix_state run" where
  "bind_all env [] st = Ret st"
| "bind_all env ((k, r) # es) st = andthen (nix_env_bind env (Some k) r st) (bind_all env es)"

definition eval_with :: "evaluator \<Rightarrow> ref \<Rightarrow> nat \<Rightarrow> nix_ast \<Rightarrow> nix_ast \<Rightarrow> ref step" where
  "eval_with ev env tr e body st =
     andthen (ev env tr e st) (\<lambda>(with_val, st1).
       if with_val = None then Ret (None, st1)
       else andthen (deref with_val st1) (\<lambda>v.
         if \<not> is_attr_set v
         then andthen (nix_value_free with_val st1) (eval_error ''with expects attrset'')
         else andthen (nix_env_push env st1) (\<lambda>(with_env, st2).
           andthen (bind_all with_env (set_entries v) st2) (eval_scoped (ev with_env tr) with_env body))))"

definition eval_assert :: "(nix_ast \<Rightarrow> ref step) \<Rightarrow> nix_ast \<Rightarrow> nix_ast \<Rightarrow> ref step" where
  "eval_assert evx c e st =
     andthen (evx c st) (\<lambda>(cond, st1).
       if cond = None then Ret (None, st1)
       else andthen (nix_is_truthy cond st1) (\<lambda>truthy.
         andthen (nix_value_free cond st1) (\<lambda>st2.
           if truthy then evx e st2 else eval_error ''assertion failed'' st2)))"

text \<open>The operators that may not look at their right operand: \<open>stop\<close> is the result without it.\<close>

definition short_circuit :: "(nix_ast \<Rightarrow> ref step) \<Rightarrow> bool \<Rightarrow> bool \<Rightarrow> nix_ast \<Rightarrow> ref step" where
  "short_circuit evx stops result e st =
     (if stops then new_value (NIX_VAL_BOOL result) st
      else andthen (evx e st) (\<lambda>(right, st1).
        if right = None then Ret (None, st1)
        else andthen (nix_is_truthy right st1) (\<lambda>b. new_value (NIX_VAL_BOOL b) st1)))"

text \<open>Arithmetic on 64-bit integers; the quotient of the least integer and -1 traps.\<close>

definition int_operation :: "nix_tok_type \<Rightarrow> 64 word \<Rightarrow> 64 word \<Rightarrow> ref step" where
  "int_operation op x y =
     (case op of
        NIX_TOK_PLUS \<Rightarrow> new_value (NIX_VAL_INT (x + y))
      | NIX_TOK_MINUS \<Rightarrow> new_value (NIX_VAL_INT (x - y))
      | NIX_TOK_STAR \<Rightarrow> new_value (NIX_VAL_INT (x * y))
      | NIX_TOK_SLASH \<Rightarrow>
          if y = 0 then eval_error ''division by zero''
          else if x = 0x8000000000000000 \<and> y = - 1 then (\<lambda>st. Crash)
          else new_value (NIX_VAL_INT (word_of_int (sint x sdiv sint y)))
      | NIX_TOK_LT \<Rightarrow> new_value (NIX_VAL_BOOL (x <s y))
      | NIX_TOK_LE \<Rightarrow> new_value (NIX_VAL_BOOL (x \<le>s y))
      | NIX_TOK_GT \<Rightarrow> new_value (NIX_VAL_BOOL (y <s x))
      | NIX_TOK_GE \<Rightarrow> new_value (NIX_VAL_BOOL (y \<le>s x))
      | _ \<Rightarrow> eval_error ''unsupported binary op'')"

definition text_of :: "nix_value \<Rightarrow> string option run" where
  "text_of v = (case v of NIX_VAL_STRING (Some s) \<Rightarrow> Ret (Some s) | NIX_VAL_STRING None \<Rightarrow> Crash
     | NIX_VAL_PATH s \<Rightarrow> Ret (Some s) | _ \<Rightarrow> Ret None)"

definition int_of :: "nix_value \<Rightarrow> 64 word option" where
  "int_of v = (case v of NIX_VAL_INT i \<Rightarrow> Some i | _ \<Rightarrow> None)"

definition is_list :: "nix_value \<Rightarrow> bool" where
  "is_list v \<longleftrightarrow> (case v of NIX_VAL_LIST _ \<Rightarrow> True | _ \<Rightarrow> False)"

definition is_textual :: "nix_value \<Rightarrow> bool" where
  "is_textual v \<longleftrightarrow> (case v of NIX_VAL_STRING _ \<Rightarrow> True | NIX_VAL_PATH _ \<Rightarrow> True | _ \<Rightarrow> False)"

text \<open>Concatenation empties both lists.\<close>

definition concat_lists :: "ref \<Rightarrow> ref \<Rightarrow> ref list \<Rightarrow> ref list \<Rightarrow> ref step" where
  "concat_lists left right xs ys st =
     (case nix_value_new (NIX_VAL_LIST (xs @ ys)) st of (r, st1) \<Rightarrow>
        andthen (store_value left (NIX_VAL_LIST []) st1) (\<lambda>st2.
        andthen (store_value right (NIX_VAL_LIST []) st2) (\<lambda>st3. Ret (r, st3))))"

definition strict_operation :: "nat \<Rightarrow> nix_tok_type \<Rightarrow> ref \<Rightarrow> ref \<Rightarrow> ref step" where
  "strict_operation n op left right st =
     (if op = NIX_TOK_EQ then
        andthen (nix_values_equal n st left right) (\<lambda>b. new_value (NIX_VAL_BOOL b) st)
      else if op = NIX_TOK_NEQ then
        andthen (nix_values_equal n st left right) (\<lambda>b. new_value (NIX_VAL_BOOL (\<not> b)) st)
      else andthen (deref left st) (\<lambda>v. andthen (deref right st) (\<lambda>w.
        if op = NIX_TOK_PLUS_PLUS then
          if is_list v \<and> is_list w then concat_lists left right (list_items v) (list_items w) st
          else eval_error ''cannot concatenate non-lists'' st
        else if op = NIX_TOK_PLUS \<and> is_textual v \<and> is_textual w then
          andthen (text_of v) (\<lambda>s. andthen (text_of w) (\<lambda>t.
            new_value (NIX_VAL_STRING (Some (the s @ the t))) st))
        else case (int_of v, int_of w) of
            (Some x, Some y) \<Rightarrow> int_operation op x y st
          | _ \<Rightarrow> eval_error ''operands are not integers'' st)))"

definition eval_binop :: "nat \<Rightarrow> (nix_ast \<Rightarrow> ref step) \<Rightarrow> nix_tok_type \<Rightarrow> nix_ast \<Rightarrow> nix_ast \<Rightarrow> ref step" where
  "eval_binop n evx op l r st =
     andthen (evx l st) (\<lambda>(left, st1).
       if left = None then Ret (None, st1)
       else if op = NIX_TOK_AND then
         andthen (nix_is_truthy left st1) (\<lambda>b. short_circuit evx (\<not> b) False r st1)
       else if op = NIX_TOK_OR then
         andthen (nix_is_truthy left st1) (\<lambda>b. short_circuit evx b True r st1)
       else if op = NIX_TOK_ARROW then
         andthen (nix_is_truthy left st1) (\<lambda>b. short_circuit evx (\<not> b) True r st1)
       else andthen (evx r st1) (\<lambda>(right, st2).
         if right = None then Ret (None, st2) else strict_operation n op left right st2))"

definition eval_not :: "(nix_ast \<Rightarrow> ref step) \<Rightarrow> nix_ast \<Rightarrow> ref step" where
  "eval_not evx e st =
     andthen (evx e st) (\<lambda>(r, st1).
       if r = None then Ret (None, st1)
       else andthen (nix_is_truthy r st1) (\<lambda>b. new_value (NIX_VAL_BOOL (\<not> b)) st1))"

definition eval_negate :: "(nix_ast \<Rightarrow> ref step) \<Rightarrow> nix_ast \<Rightarrow> ref step" where
  "eval_negate evx e st =
     andthen (evx e st) (\<lambda>(r, st1).
       if r = None then Ret (None, st1)
       else andthen (deref r st1) (\<lambda>v. case int_of v of
           Some i \<Rightarrow> new_value (NIX_VAL_INT (- i)) st1
         | None \<Rightarrow> eval_error ''cannot negate non-integer'' st1))"

text \<open>The directory of a file: what is before the last slash, or the name itself.\<close>

definition directory_of :: "string \<Rightarrow> string" where
  "directory_of p = (case split_last CHR ''/'' p of Some (d, _) \<Rightarrow> d | None \<Rightarrow> p)"

text \<open>The tree of an imported file is freed once it is evaluated, and its environment too.\<close>

definition eval_import :: "(string \<Rightarrow> bytes option) \<Rightarrow> evaluator \<Rightarrow> ref \<Rightarrow> string \<Rightarrow> ref step" where
  "eval_import files ev env path st =
     andthen (env_at env st) (\<lambda>en. let resolved = resolve_path (e_base_dir en) path in
       case files resolved of
         None \<Rightarrow> eval_error (''cannot read import '' @ resolved) st
       | Some source \<Rightarrow> andthen (nix_parse source) (\<lambda>(ast, msg).
           if ast = NULL then eval_error (''import parse error in '' @ resolved) st
           else let tr = length (h_trees st); st1 = st\<lparr>h_trees := h_trees st @ [True]\<rparr> in
             andthen (nix_env_new (Some (directory_of resolved)) st1) (\<lambda>(import_env, st2).
             andthen (with_local_error (ev import_env tr ast) st2) (\<lambda>((r, err), st3).
             andthen (nix_env_free import_env (st3\<lparr>h_trees := (h_trees st3)[tr := False]\<rparr>)) (\<lambda>st4.
               Ret (r, if r = None then st4\<lparr>h_error := err\<rparr> else st4))))))"

definition eval_ident :: "ref \<Rightarrow> string \<Rightarrow> ref step" where
  "eval_ident env x st =
     andthen (nix_env_lookup env x st) (\<lambda>r.
       if r = None then eval_error (''undefined variable '' @ x) st else Ret (r, st))"

definition eval_path :: "ref \<Rightarrow> string \<Rightarrow> ref step" where
  "eval_path env p st = andthen (env_at env st) (\<lambda>en. new_value (NIX_VAL_PATH (resolve_path (e_base_dir en) p)) st)"

definition eval_body ::
    "(string \<Rightarrow> bytes option) \<Rightarrow> nat \<Rightarrow> evaluator \<Rightarrow> caller \<Rightarrow> evaluator" where
  "eval_body files n ev call env tr ast st =
     (if ast = NULL then eval_error ''null AST'' st
      else if env = None then eval_error ''null environment'' st
      else case ast of
        NIX_NODE_INT i \<Rightarrow> new_value (NIX_VAL_INT i) st
      | NIX_NODE_BOOL b \<Rightarrow> new_value (NIX_VAL_BOOL b) st
      | NIX_NODE_NULL \<Rightarrow> new_value NIX_VAL_NULL st
      | NIX_NODE_PATH p \<Rightarrow> eval_path env p st
      | NIX_NODE_IDENT x \<Rightarrow> eval_ident env x st
      | NIX_NODE_STRING ps \<Rightarrow> string_parts (ev env tr) ps [] st
      | NIX_NODE_ATTR_SET bs \<Rightarrow> eval_attr_set (ev env tr) bs st
      | NIX_NODE_REC_ATTR_SET bs \<Rightarrow> eval_rec_attr_set ev env tr bs st
      | NIX_NODE_LIST es \<Rightarrow> eval_list (ev env tr) es st
      | NIX_NODE_SELECT e a \<Rightarrow> eval_select ev env tr e a st
      | NIX_NODE_HAS_ATTR e a \<Rightarrow> eval_has_attr (ev env tr) e a st
      | NIX_NODE_OR_DEFAULT e a d \<Rightarrow> eval_or_default (ev env tr) e a d st
      | NIX_NODE_LAMBDA q e \<Rightarrow> new_value (NIX_VAL_LAMBDA env tr q e) st
      | NIX_NODE_APPLY f e \<Rightarrow> eval_apply n ev call env tr f e st
      | NIX_NODE_LET bs e \<Rightarrow> eval_let ev env tr bs e st
      | NIX_NODE_IF c a b \<Rightarrow> eval_if (ev env tr) c a b st
      | NIX_NODE_WITH e b \<Rightarrow> eval_with ev env tr e b st
      | NIX_NODE_ASSERT c e \<Rightarrow> eval_assert (ev env tr) c e st
      | NIX_NODE_BINOP op l r \<Rightarrow> eval_binop n (ev env tr) op l r st
      | NIX_NODE_UNARY_NOT e \<Rightarrow> eval_not (ev env tr) e st
      | NIX_NODE_NEGATE e \<Rightarrow> eval_negate (ev env tr) e st
      | NIX_NODE_IMPORT p \<Rightarrow> eval_import files ev env p st)"

fun nix_eval_inner :: "(string \<Rightarrow> bytes option) \<Rightarrow> (string \<Rightarrow> bool) \<Rightarrow> nat \<Rightarrow> evaluator"
  and call_builtin :: "(string \<Rightarrow> bytes option) \<Rightarrow> (string \<Rightarrow> bool) \<Rightarrow> nat \<Rightarrow> caller" where
  "nix_eval_inner files exists 0 env tr ast st = Out_of_steps"
| "nix_eval_inner files exists (Suc n) env tr ast st =
     eval_body files n (nix_eval_inner files exists n) (call_builtin files exists n) env tr ast st"
| "call_builtin files exists 0 f ctx env arg st = Out_of_steps"
| "call_builtin files exists (Suc n) f ctx env arg st =
     builtin_body files exists n (nix_eval_inner files exists n) (call_builtin files exists n) f ctx env arg st"

subsection \<open>Files\<close>

text \<open>The arguments of the function a configuration is: only \<open>config\<close> has a value.\<close>

fun bind_config_formals :: "evaluator \<Rightarrow> nat \<Rightarrow> ref \<Rightarrow> (string option \<times> nix_ast) list \<Rightarrow> ref \<Rightarrow> nix_state \<Rightarrow> nix_state run" where
  "bind_config_formals ev tr call_env [] arg st = Ret st"
| "bind_config_formals ev tr call_env ((key, d) # fs) arg st =
     (case key of None \<Rightarrow> Crash | Some k \<Rightarrow>
      andthen (attrset_lookup arg k st) (\<lambda>found.
      andthen (if found = None \<and> d \<noteq> NULL \<and> d \<noteq> NIX_NODE_NULL
               then andthen (with_local_error (ev call_env tr d) st) (\<lambda>((r, _), st1). Ret (r, st1))
               else Ret (found, st)) (\<lambda>(pval, st1).
      case (if pval = None then nix_value_new NIX_VAL_NULL st1 else (pval, st1)) of (pv, st2) \<Rightarrow>
        andthen (nix_env_bind call_env key pv st2) (bind_config_formals ev tr call_env fs arg))))"

text \<open>
  The bindings of its body, one by one into the set that \<open>config\<close> refers to.  The flag is false
  when a binding reported an error; one that gave NULL without an error is bound to NULL.
\<close>

fun config_bindings :: "(nix_ast \<Rightarrow> ref step) \<Rightarrow> (string option \<times> nix_ast) list \<Rightarrow> ref \<Rightarrow> bool step" where
  "config_bindings evx [] result_set st = Ret (True, st)"
| "config_bindings evx ((key, e) # bs) result_set st =
     andthen (with_local_error (evx e) st) (\<lambda>((r, err), st1).
       if err \<noteq> None then Ret (False, st1\<lparr>h_error := err\<rparr>)
       else andthen (bind_key result_set key r st1) (config_bindings evx bs result_set))"

text \<open>\<open>None\<close> for the first component is the jump to the end, without JSON.\<close>

definition apply_config :: "evaluator \<Rightarrow> ref \<Rightarrow> nat \<Rightarrow> nix_ast \<Rightarrow> nix_ast \<Rightarrow> ref \<Rightarrow> ref option step" where
  "apply_config ev closure tr param body val st =
     (case nix_value_new (NIX_VAL_ATTR_SET []) st of (result_set, st1) \<Rightarrow>
      case nix_value_new (NIX_VAL_THUNK None 0 NULL result_set) st1 of (config_thunk, st2) \<Rightarrow>
      case nix_value_new (NIX_VAL_ATTR_SET [(''config'', config_thunk)]) st2 of (arg, st3) \<Rightarrow>
      andthen (nix_env_push closure st3) (\<lambda>(call_env, st4).
      case param of
        NIX_NODE_ATTR_SET fs \<Rightarrow>
          andthen (bind_config_formals ev tr call_env fs arg st4) (\<lambda>st5.
          case body of
            NULL \<Rightarrow> Crash
          | NIX_NODE_ATTR_SET bs \<Rightarrow>
              andthen (config_bindings (ev call_env tr) bs result_set st5) (\<lambda>(ok, st6).
              andthen (nix_env_free call_env st6) (\<lambda>st7. Ret (if ok then Some result_set else None, st7)))
          | _ \<Rightarrow>
              andthen (with_local_error (ev call_env tr body) st5) (\<lambda>((r, err), st6).
              andthen (nix_env_free call_env (if err \<noteq> None then st6\<lparr>h_error := err\<rparr> else st6)) (\<lambda>st7.
                Ret (Some (if r \<noteq> None then r else val), st7))))
      | _ \<Rightarrow> Crash))"

text \<open>The JSON text and the error message.\<close>

definition eval_source :: "nat \<Rightarrow> evaluator \<Rightarrow> string option \<Rightarrow> nix_ast \<Rightarrow> string option \<Rightarrow> (string option \<times> string option) run" where
  "eval_source n ev base_dir ast msg =
     andthen (nix_env_new base_dir \<lparr>h_vals = [], h_envs = [], h_trees = [True], h_error = msg\<rparr>) (\<lambda>(env, st).
     if ast = NULL then Ret (None, h_error st)
     else andthen (ev env 0 ast st) (\<lambda>(val, st1).
       if val = None then Ret (None, h_error st1)
       else andthen (deref val st1) (\<lambda>v.
         andthen (case v of
             NIX_VAL_LAMBDA closure tr param body \<Rightarrow> apply_config ev closure tr param body val st1
           | _ \<Rightarrow> Ret (Some val, st1)) (\<lambda>(final, st2).
         case final of
           None \<Rightarrow> Ret (None, h_error st2)
         | Some r \<Rightarrow> andthen (nix_to_json n st2 r) (\<lambda>json. Ret (Some json, h_error st2))))))"

definition nix_eval_file_with_base ::
    "(string \<Rightarrow> bytes option) \<Rightarrow> (string \<Rightarrow> bool) \<Rightarrow> nat \<Rightarrow> string \<Rightarrow> string option \<Rightarrow> (string option \<times> string option) run" where
  "nix_eval_file_with_base files exists n source base_dir =
     andthen (nix_parse source) (\<lambda>(ast, msg).
       eval_source n (nix_eval_inner files exists n) base_dir ast (map_option (\<lambda>(l, c, m). m) msg))"

end
