(* ===== verification/Nix_Data.thy ===== *)
theory Nix_Data
  imports Nix_Eval
begin

text \<open>
  What the evaluator computes for expressions without variables: a denotation in terms of data
  trees, with no memory, and the proof that the evaluator refines it.  A cell is written only by
  the evaluation that made it, so every value the evaluator frees or empties here is its own.
\<close>

subsection \<open>Data trees and their representation\<close>

datatype nix_data =
    D_null | D_bool bool | D_int "64 word" | D_string string | D_path string
  | D_list "nix_data list" | D_set "(string \<times> nix_data) list"

fun leaf_value :: "nix_data \<Rightarrow> nix_value option" where
  "leaf_value D_null = Some NIX_VAL_NULL"
| "leaf_value (D_bool b) = Some (NIX_VAL_BOOL b)"
| "leaf_value (D_int i) = Some (NIX_VAL_INT i)"
| "leaf_value (D_string s) = Some (NIX_VAL_STRING (Some s))"
| "leaf_value (D_path s) = Some (NIX_VAL_PATH s)"
| "leaf_value _ = None"

definition cell :: "nix_state \<Rightarrow> nat \<Rightarrow> nix_value option" where
  "cell st a = (if a < length (h_vals st) then h_vals st ! a else None)"

lemma deref_cell [simp]: "cell st a = Some v \<Longrightarrow> deref (Some a) st = Ret v"
  by (simp add: cell_def deref_def split: if_splits)

text \<open>\<open>rep st d r F\<close>: the value at \<open>r\<close> is the tree \<open>d\<close>, in the cells \<open>F\<close>, with none shared.\<close>

inductive rep :: "nix_state \<Rightarrow> nix_data \<Rightarrow> ref \<Rightarrow> nat set \<Rightarrow> bool"
  and reps :: "nix_state \<Rightarrow> nix_data list \<Rightarrow> ref list \<Rightarrow> nat set \<Rightarrow> bool" for st where
  rep_leaf: "cell st a = Some v \<Longrightarrow> leaf_value d = Some v \<Longrightarrow> rep st d (Some a) {a}"
| rep_list: "cell st a = Some (NIX_VAL_LIST rs) \<Longrightarrow> reps st ds rs F \<Longrightarrow> a \<notin> F \<Longrightarrow>
    rep st (D_list ds) (Some a) (insert a F)"
| rep_set: "cell st a = Some (NIX_VAL_ATTR_SET es) \<Longrightarrow> map fst es = map fst kds \<Longrightarrow>
    reps st (map snd kds) (map snd es) F \<Longrightarrow> a \<notin> F \<Longrightarrow> rep st (D_set kds) (Some a) (insert a F)"
| reps_Nil: "reps st [] [] {}"
| reps_Cons: "rep st d r F \<Longrightarrow> reps st ds rs G \<Longrightarrow> F \<inter> G = {} \<Longrightarrow> reps st (d # ds) (r # rs) (F \<union> G)"

inductive_cases rep_listE: "rep st (D_list ds) r F"
inductive_cases rep_setE: "rep st (D_set kds) r F"
inductive_cases reps_ConsE: "reps st (d # ds) rs F"
inductive_cases reps_NilE: "reps st [] rs F"

text \<open>Only the cells of a tree matter to it.\<close>

definition agree :: "nat set \<Rightarrow> nix_state \<Rightarrow> nix_state \<Rightarrow> bool" where
  "agree F st st' \<longleftrightarrow> (\<forall>a \<in> F. cell st' a = cell st a)"

lemma rep_agree:
  "rep st d r F \<Longrightarrow> agree F st st' \<Longrightarrow> rep st' d r F"
  "reps st ds rs F \<Longrightarrow> agree F st st' \<Longrightarrow> reps st' ds rs F"
  by (induction rule: rep_reps.inducts) (auto simp: agree_def intro: rep_reps.intros)

lemma rep_live:
  "rep st d r F \<Longrightarrow> F \<subseteq> {..< length (h_vals st)}"
  "reps st ds rs F \<Longrightarrow> F \<subseteq> {..< length (h_vals st)}"
  by (induction rule: rep_reps.inducts) (auto simp: cell_def split: if_splits)

lemma rep_Some: "rep st d r F \<Longrightarrow> \<exists>a. r = Some a \<and> a \<in> F"
  by (cases rule: rep.cases) auto

lemma reps_length: "reps st ds rs F \<Longrightarrow> length rs = length ds"
  by (induction ds arbitrary: rs F) (auto elim: reps_ConsE reps_NilE)

lemma reps_append:
  "reps st ds rs F \<Longrightarrow> reps st ds' rs' G \<Longrightarrow> F \<inter> G = {} \<Longrightarrow> reps st (ds @ ds') (rs @ rs') (F \<union> G)"
proof (induction ds arbitrary: rs F)
  case (Cons d ds)
  from Cons.prems(1) obtain r rs1 F1 F2 where a: "rs = r # rs1" "F = F1 \<union> F2" "rep st d r F1"
    "reps st ds rs1 F2" "F1 \<inter> F2 = {}" by (rule reps_ConsE)
  with Cons.IH [OF a(4) Cons.prems(2)] Cons.prems(3)
  have "reps st (ds @ ds') (rs1 @ rs') (F2 \<union> G)" by blast
  then have "reps st (d # ds @ ds') (r # rs1 @ rs') (F1 \<union> (F2 \<union> G))"
    by (rule reps_Cons [OF a(3)]) (use a Cons.prems(3) in blast)
  with a show ?case by (simp add: Un_assoc)
qed (auto elim: reps_NilE)

subsection \<open>States that grow\<close>

text \<open>Old cells, all environments and trees are as before.\<close>

definition grows :: "nix_state \<Rightarrow> nix_state \<Rightarrow> bool" where
  "grows st st' \<longleftrightarrow> length (h_vals st) \<le> length (h_vals st') \<and>
     (\<forall>a < length (h_vals st). h_vals st' ! a = h_vals st ! a) \<and>
     h_envs st' = h_envs st \<and> h_trees st' = h_trees st"

lemma grows_refl [simp]: "grows st st"
  by (simp add: grows_def)

lemma grows_trans: "grows st st1 \<Longrightarrow> grows st1 st2 \<Longrightarrow> grows st st2"
  unfolding grows_def by (metis le_trans less_le_trans)

lemma grows_agree: "grows st st' \<Longrightarrow> F \<subseteq> {..< length (h_vals st)} \<Longrightarrow> agree F st st'"
  by (auto simp: grows_def agree_def cell_def)

lemma rep_grows: "rep st d r F \<Longrightarrow> grows st st' \<Longrightarrow> rep st' d r F"
  by (rule rep_agree(1) [OF _ grows_agree]) (auto dest: rep_live(1))

lemma grows_new [simp]: "grows st (snd (nix_value_new v st))"
  by (simp add: grows_def nix_value_new_def nth_append)

lemma cell_new: "cell (snd (nix_value_new v st)) (length (h_vals st)) = Some v"
  by (simp add: cell_def nix_value_new_def)

abbreviation fresh :: "nix_state \<Rightarrow> nix_state \<Rightarrow> nat set" where
  "fresh st st' \<equiv> {length (h_vals st) ..< length (h_vals st')}"

text \<open>Overwriting or freeing a cell that was not there at the start.\<close>

definition overwrite :: "nat \<Rightarrow> nix_value option \<Rightarrow> nix_state \<Rightarrow> nix_state" where
  "overwrite a v st = st\<lparr>h_vals := (h_vals st)[a := v]\<rparr>"

lemma grows_overwrite: "grows st st' \<Longrightarrow> length (h_vals st) \<le> a \<Longrightarrow> grows st (overwrite a v st')"
  by (auto simp: grows_def overwrite_def nth_list_update)

lemma cell_overwrite: "cell (overwrite a v st) b = (if b = a \<and> a < length (h_vals st) then v else cell st b)"
  by (auto simp: cell_def overwrite_def nth_list_update)

lemma length_overwrite [simp]: "length (h_vals (overwrite a v st)) = length (h_vals st)"
  by (simp add: overwrite_def)

lemma error_overwrite [simp]: "h_error (overwrite a v st) = h_error st"
  by (simp add: overwrite_def)

lemma agree_overwrite: "a \<notin> F \<Longrightarrow> agree F st (overwrite a v st)"
  by (auto simp: agree_def cell_overwrite)

lemma free_cell: "cell st a = Some v \<Longrightarrow> nix_value_free (Some a) st = Ret (overwrite a None st)"
  by (simp add: nix_value_free_def overwrite_def)

lemma store_cell: "cell st a = Some v \<Longrightarrow> store_value (Some a) w st = Ret (overwrite a (Some w) st)"
  by (simp add: store_value_def overwrite_def)

lemma cell_live: "cell st a = Some v \<Longrightarrow> a < length (h_vals st)"
  by (simp add: cell_def split: if_splits)

subsection \<open>The denotation\<close>

text \<open>The value of an expression without variables, for a file in a given directory.  An error of
  the evaluator is \<open>Ret None\<close>.\<close>

fun data_truthy :: "nix_data \<Rightarrow> bool" where
  "data_truthy D_null = False"
| "data_truthy (D_bool b) = b"
| "data_truthy (D_int i) = (i \<noteq> 0)"
| "data_truthy (D_string s) = (s \<noteq> [])"
| "data_truthy (D_list ds) = (ds \<noteq> [])"
| "data_truthy _ = True"

fun data_text :: "nix_data \<Rightarrow> string option" where
  "data_text (D_string s) = Some s"
| "data_text (D_path s) = Some s"
| "data_text (D_int i) = Some (dec_int_str (sint i))"
| "data_text (D_bool b) = Some (if b then ''true'' else ''false'')"
| "data_text D_null = Some ''null''"
| "data_text _ = None"

text \<open>Sets are equal when each entry of the one has an equal one in the other, in any order.\<close>

fun data_equal :: "nix_data \<Rightarrow> nix_data \<Rightarrow> bool"
  and items_equal :: "nix_data list \<Rightarrow> nix_data list \<Rightarrow> bool"
  and members_equal :: "(string \<times> nix_data) list \<Rightarrow> (string \<times> nix_data) list \<Rightarrow> bool" where
  "data_equal (D_list xs) (D_list ys) = (length xs = length ys \<and> items_equal xs ys)"
| "data_equal (D_set xs) (D_set ys) = (length xs = length ys \<and> members_equal xs ys)"
| "data_equal x y = (leaf_value x \<noteq> None \<and> x = y)"
| "items_equal (x # xs) (y # ys) = (data_equal x y \<and> items_equal xs ys)"
| "items_equal _ _ = True"
| "members_equal [] ys = True"
| "members_equal ((k, x) # xs) ys =
     (case map_of ys k of Some y \<Rightarrow> data_equal x y \<and> members_equal xs ys | None \<Rightarrow> False)"

text \<open>A path of keys makes sets on its way, in place of what is not a set.\<close>

fun sub_entries :: "nix_data option \<Rightarrow> (string \<times> nix_data) list" where
  "sub_entries (Some (D_set kds)) = kds"
| "sub_entries _ = []"

fun put_path :: "string list \<Rightarrow> nix_data \<Rightarrow> (string \<times> nix_data) list \<Rightarrow> (string \<times> nix_data) list" where
  "put_path [] v kds = kds"
| "put_path [p] v kds = put_attr p v kds"
| "put_path (p # q # ps) v kds = put_attr p (D_set (put_path (q # ps) v (sub_entries (map_of kds p)))) kds"

definition data_bind :: "string \<Rightarrow> nix_data \<Rightarrow> (string \<times> nix_data) list \<Rightarrow> (string \<times> nix_data) list" where
  "data_bind k v kds =
     (if CHR ''.'' \<in> set k then put_path (c_strtok (\<lambda>c. c = CHR ''.'') k) v kds else put_attr k v kds)"

definition data_int :: "nix_tok_type \<Rightarrow> 64 word \<Rightarrow> 64 word \<Rightarrow> nix_data option run" where
  "data_int op x y =
     (case op of
        NIX_TOK_PLUS \<Rightarrow> Ret (Some (D_int (x + y)))
      | NIX_TOK_MINUS \<Rightarrow> Ret (Some (D_int (x - y)))
      | NIX_TOK_STAR \<Rightarrow> Ret (Some (D_int (x * y)))
      | NIX_TOK_SLASH \<Rightarrow>
          if y = 0 then Ret None
          else if x = 0x8000000000000000 \<and> y = - 1 then Crash
          else Ret (Some (D_int (word_of_int (sint x sdiv sint y))))
      | NIX_TOK_LT \<Rightarrow> Ret (Some (D_bool (x <s y)))
      | NIX_TOK_LE \<Rightarrow> Ret (Some (D_bool (x \<le>s y)))
      | NIX_TOK_GT \<Rightarrow> Ret (Some (D_bool (y <s x)))
      | NIX_TOK_GE \<Rightarrow> Ret (Some (D_bool (y \<le>s x)))
      | _ \<Rightarrow> Ret None)"

fun data_string :: "nix_data \<Rightarrow> string option" where
  "data_string (D_string s) = Some s"
| "data_string (D_path s) = Some s"
| "data_string _ = None"

definition data_strict :: "nix_tok_type \<Rightarrow> nix_data \<Rightarrow> nix_data \<Rightarrow> nix_data option run" where
  "data_strict op d d' =
     (if op = NIX_TOK_EQ then Ret (Some (D_bool (data_equal d d')))
      else if op = NIX_TOK_NEQ then Ret (Some (D_bool (\<not> data_equal d d')))
      else if op = NIX_TOK_PLUS_PLUS then
        (case (d, d') of (D_list xs, D_list ys) \<Rightarrow> Ret (Some (D_list (xs @ ys))) | _ \<Rightarrow> Ret None)
      else if op = NIX_TOK_PLUS \<and> data_string d \<noteq> None \<and> data_string d' \<noteq> None
      then Ret (Some (D_string (the (data_string d) @ the (data_string d'))))
      else case (d, d') of (D_int x, D_int y) \<Rightarrow> data_int op x y | _ \<Rightarrow> Ret None)"

fun dthen :: "'a option run \<Rightarrow> ('a \<Rightarrow> 'b option run) \<Rightarrow> 'b option run" where
  "dthen (Ret None) f = Ret None"
| "dthen (Ret (Some x)) f = f x"
| "dthen Crash f = Crash"
| "dthen Out_of_steps f = Out_of_steps"

text \<open>Lists, the pieces of a string and bindings: the first one that fails decides.\<close>

fun den_list :: "nix_data option run list \<Rightarrow> nix_data list option run" where
  "den_list [] = Ret (Some [])"
| "den_list (D # Ds) = dthen D (\<lambda>d. dthen (den_list Ds) (\<lambda>ds. Ret (Some (d # ds))))"

fun den_parts :: "(string + nix_data option run) list \<Rightarrow> string \<Rightarrow> nix_data option run" where
  "den_parts [] buf = Ret (Some (D_string buf))"
| "den_parts (Inl s # ps) buf = den_parts ps (buf @ s)"
| "den_parts (Inr D # ps) buf =
     dthen D (\<lambda>d. case data_text d of Some t \<Rightarrow> den_parts ps (buf @ t) | None \<Rightarrow> Crash)"

fun den_bindings :: "(string option \<times> nix_data option run) list \<Rightarrow> (string \<times> nix_data) list \<Rightarrow> nix_data option run" where
  "den_bindings [] kds = Ret (Some (D_set kds))"
| "den_bindings ((k, D) # bs) kds =
     dthen D (\<lambda>d. case k of Some key \<Rightarrow> den_bindings bs (data_bind key d kds) | None \<Rightarrow> Crash)"

fun data_attr :: "nix_data \<Rightarrow> string \<Rightarrow> nix_data option" where
  "data_attr (D_set kds) a = map_of kds a"
| "data_attr _ a = None"

definition den_binop :: "nix_tok_type \<Rightarrow> nix_data option run \<Rightarrow> nix_data option run \<Rightarrow> nix_data option run" where
  "den_binop op L R =
     dthen L (\<lambda>x.
       if op = NIX_TOK_AND \<and> \<not> data_truthy x then Ret (Some (D_bool False))
       else if op = NIX_TOK_OR \<and> data_truthy x \<or> op = NIX_TOK_ARROW \<and> \<not> data_truthy x
       then Ret (Some (D_bool True))
       else dthen R (\<lambda>y.
         if op = NIX_TOK_AND \<or> op = NIX_TOK_OR \<or> op = NIX_TOK_ARROW then Ret (Some (D_bool (data_truthy y)))
         else data_strict op x y))"

primrec den :: "string option \<Rightarrow> nix_ast \<Rightarrow> nix_data option run" where
  "den b (NIX_NODE_INT i) = Ret (Some (D_int i))"
| "den b (NIX_NODE_BOOL x) = Ret (Some (D_bool x))"
| "den b NIX_NODE_NULL = Ret (Some D_null)"
| "den b (NIX_NODE_PATH p) = Ret (Some (D_path (resolve_path b p)))"
| "den b (NIX_NODE_STRING ps) = den_parts (map (map_sum id (den b)) ps) []"
| "den b (NIX_NODE_ATTR_SET bs) = den_bindings (map (map_prod id (den b)) bs) []"
| "den b (NIX_NODE_LIST es) = dthen (den_list (map (den b) es)) (\<lambda>ds. Ret (Some (D_list ds)))"
| "den b (NIX_NODE_SELECT e a) = dthen (den b e) (\<lambda>d. Ret (data_attr d a))"
| "den b (NIX_NODE_HAS_ATTR e a) = dthen (den b e) (\<lambda>d. Ret (Some (D_bool (data_attr d a \<noteq> None))))"
| "den b (NIX_NODE_OR_DEFAULT e a d) =
     dthen (den b e) (\<lambda>x. case data_attr x a of Some v \<Rightarrow> Ret (Some v) | None \<Rightarrow> den b d)"
| "den b (NIX_NODE_IF c x y) = dthen (den b c) (\<lambda>v. if data_truthy v then den b x else den b y)"
| "den b (NIX_NODE_ASSERT c e) = dthen (den b c) (\<lambda>v. if data_truthy v then den b e else Ret None)"
| "den b (NIX_NODE_BINOP op l r) = den_binop op (den b l) (den b r)"
| "den b (NIX_NODE_UNARY_NOT e) = dthen (den b e) (\<lambda>x. Ret (Some (D_bool (\<not> data_truthy x))))"
| "den b (NIX_NODE_NEGATE e) = dthen (den b e) (\<lambda>x. case x of D_int i \<Rightarrow> Ret (Some (D_int (- i))) | _ \<Rightarrow> Ret None)"
| "den b (NIX_NODE_IDENT x) = Ret None"
| "den b (NIX_NODE_REC_ATTR_SET bs) = Ret None"
| "den b (NIX_NODE_LAMBDA q e) = Ret None"
| "den b (NIX_NODE_APPLY f e) = Ret None"
| "den b (NIX_NODE_LET bs e) = Ret None"
| "den b (NIX_NODE_WITH e c) = Ret None"
| "den b (NIX_NODE_IMPORT p) = Ret None"

text \<open>The expressions it is for.\<close>

fun variable_free :: "nix_ast \<Rightarrow> bool" where
  "variable_free (NIX_NODE_ATTR_SET bs) = (\<forall>b \<in> set bs. variable_free (snd b))"
| "variable_free (NIX_NODE_LIST es) = (\<forall>e \<in> set es. variable_free e)"
| "variable_free (NIX_NODE_STRING ps) = (\<forall>p \<in> set ps. case p of Inl s \<Rightarrow> True | Inr e \<Rightarrow> variable_free e)"
| "variable_free (NIX_NODE_SELECT e a) = variable_free e"
| "variable_free (NIX_NODE_HAS_ATTR e a) = variable_free e"
| "variable_free (NIX_NODE_OR_DEFAULT e a d) = (variable_free e \<and> variable_free d)"
| "variable_free (NIX_NODE_IF c x y) = (variable_free c \<and> variable_free x \<and> variable_free y)"
| "variable_free (NIX_NODE_ASSERT c e) = (variable_free c \<and> variable_free e)"
| "variable_free (NIX_NODE_BINOP op l r) = (variable_free l \<and> variable_free r)"
| "variable_free (NIX_NODE_UNARY_NOT e) = variable_free e"
| "variable_free (NIX_NODE_NEGATE e) = variable_free e"
| "variable_free (NIX_NODE_INT i) = True"
| "variable_free (NIX_NODE_BOOL b) = True"
| "variable_free NIX_NODE_NULL = True"
| "variable_free (NIX_NODE_PATH p) = True"
| "variable_free _ = False"

subsection \<open>Refinement\<close>

definition refines :: "(ref \<times> nix_state) run \<Rightarrow> nix_data option run \<Rightarrow> nix_state \<Rightarrow> bool" where
  "refines R D st \<longleftrightarrow>
     (case D of
        Ret (Some d) \<Rightarrow> \<exists>r st' F. R = Ret (r, st') \<and> grows st st' \<and> h_error st' = h_error st \<and>
          rep st' d r F \<and> F \<subseteq> fresh st st'
      | Ret None \<Rightarrow> \<exists>st'. R = Ret (None, st') \<and> grows st st' \<and> h_error st' \<noteq> None
      | Crash \<Rightarrow> R = Crash
      | Out_of_steps \<Rightarrow> False)"

lemma refines_value:
  "grows st st' \<Longrightarrow> h_error st' = h_error st \<Longrightarrow> rep st' d r F \<Longrightarrow> F \<subseteq> fresh st st' \<Longrightarrow>
   refines (Ret (r, st')) (Ret (Some d)) st"
  by (auto simp: refines_def)

lemma refines_error: "grows st st' \<Longrightarrow> refines (eval_error msg st') (Ret None) st"
  by (auto simp: refines_def eval_error_def grows_def)

lemma refines_later:
  assumes "refines R D st1" and "grows st st1" and "h_error st1 = h_error st"
  shows "refines R D st"
proof -
  from assms(2) have "length (h_vals st) \<le> length (h_vals st1)" by (simp add: grows_def)
  then have "fresh st1 st' \<subseteq> fresh st st'" for st' by auto
  with assms show ?thesis
    by (fastforce simp: refines_def dest: grows_trans [OF assms(2)] split: run.splits option.splits)
qed

text \<open>The result of a step, then the rest: the rest may use the value, which only its own cells hold.\<close>

lemma refines_then:
  assumes "refines R D st1"
    and "\<And>st2. grows st1 st2 \<Longrightarrow> h_error st2 \<noteq> None \<Longrightarrow> refines (k (None, st2)) (Ret None) st"
    and "\<And>d a st2 F. D = Ret (Some d) \<Longrightarrow> grows st1 st2 \<Longrightarrow> h_error st2 = h_error st1 \<Longrightarrow>
           rep st2 d (Some a) F \<Longrightarrow> a \<in> F \<Longrightarrow> F \<subseteq> fresh st1 st2 \<Longrightarrow> refines (k (Some a, st2)) (f d) st"
  shows "refines (andthen R k) (dthen D f) st"
proof (cases D)
  case (Ret x)
  show ?thesis
  proof (cases x)
    case None
    with assms(1) Ret obtain st' where "R = Ret (None, st')" "grows st1 st'" "h_error st' \<noteq> None"
      by (auto simp: refines_def)
    with assms(2) Ret None show ?thesis by simp
  next
    case (Some d)
    with assms(1) Ret obtain r st' F where R: "R = Ret (r, st')" "grows st1 st'" "h_error st' = h_error st1"
      "rep st' d r F" "F \<subseteq> fresh st1 st'" by (auto simp: refines_def)
    from rep_Some [OF R(4)] obtain a where "r = Some a" "a \<in> F" by auto
    with assms(3) Ret Some R show ?thesis by simp
  qed
qed (use assms(1) in \<open>auto simp: refines_def\<close>)

lemma refines_none: "grows st st1 \<Longrightarrow> h_error st1 \<noteq> None \<Longrightarrow> refines (Ret (None, st1)) (Ret None) st"
  by (auto simp: refines_def)

lemma refines_new:
  assumes "leaf_value d = Some v" and "grows st st1" and "h_error st1 = h_error st"
  shows "refines (new_value v st1) (Ret (Some d)) st"
proof -
  let ?a = "length (h_vals st1)" and ?st' = "snd (nix_value_new v st1)"
  have n: "new_value v st1 = Ret (Some ?a, ?st')" by (simp add: new_value_def nix_value_new_def)
  have "rep ?st' d (Some ?a) {?a}" using assms(1) cell_new by (rule rep_leaf [rotated])
  moreover have "h_error ?st' = h_error st" "{?a} \<subseteq> fresh st ?st'"
    using assms(2,3) by (auto simp: nix_value_new_def grows_def)
  ultimately show ?thesis unfolding n
    by (intro refines_value grows_trans [OF assms(2) grows_new]) auto
qed

subsection \<open>Reading a represented value\<close>

lemma rep_cases:
  assumes "rep st d (Some a) F"
  obtains (leaf) v where "cell st a = Some v" "leaf_value d = Some v"
    | (list) ds rs G where "d = D_list ds" "cell st a = Some (NIX_VAL_LIST rs)" "reps st ds rs G" "F = insert a G" "a \<notin> G"
    | (aset) kds es G where "d = D_set kds" "cell st a = Some (NIX_VAL_ATTR_SET es)" "map fst es = map fst kds"
        "reps st (map snd kds) (map snd es) G" "F = insert a G" "a \<notin> G"
  using assms by (cases rule: rep.cases) auto

lemma rep_cell: "rep st d (Some a) F \<Longrightarrow> \<exists>v. cell st a = Some v"
  by (auto elim: rep_cases)

lemma leaf_value_cases:
  assumes "leaf_value d = Some v"
  obtains "d = D_null" "v = NIX_VAL_NULL" | b where "d = D_bool b" "v = NIX_VAL_BOOL b"
    | i where "d = D_int i" "v = NIX_VAL_INT i" | s where "d = D_string s" "v = NIX_VAL_STRING (Some s)"
    | s where "d = D_path s" "v = NIX_VAL_PATH s"
  using assms by (cases d) auto

lemma rep_truthy: "rep st d (Some a) F \<Longrightarrow> nix_is_truthy (Some a) st = Ret (data_truthy d)"
  by (erule rep_cases)
     (auto simp: nix_is_truthy_def dest: reps_length elim!: leaf_value_cases split: list.splits)

lemma rep_interpolated: "rep st d (Some a) F \<Longrightarrow> \<exists>v. deref (Some a) st = Ret v \<and> interpolated v = Ret (data_text d)"
  by (erule rep_cases) (auto simp: interpolated_def elim!: leaf_value_cases)

lemma reps_lookup:
  "reps st (map snd kds) (map snd es) G \<Longrightarrow> map fst es = map fst kds \<Longrightarrow>
   (case map_of kds k of
      None \<Rightarrow> map_of es k = None
    | Some d \<Rightarrow> \<exists>a F. map_of es k = Some (Some a) \<and> rep st d (Some a) F \<and> a \<in> F \<and> F \<subseteq> G)"
proof (induction kds arbitrary: es G)
  case (Cons kd kds)
  obtain k' d where kd: "kd = (k', d)" by (cases kd)
  from Cons.prems(2) obtain r es1 where es: "es = (k', r) # es1" "map fst es1 = map fst kds"
    by (cases es) (auto simp: kd)
  from Cons.prems(1) obtain F G1 where G: "G = F \<union> G1" "rep st d r F" "reps st (map snd kds) (map snd es1) G1"
    by (auto simp: kd es elim: reps_ConsE)
  from rep_Some [OF G(2)] obtain a where "r = Some a" "a \<in> F" by auto
  with Cons.IH [OF G(3) es(2)] G show ?case by (auto simp: kd es(1) split: option.splits)
qed simp

lemma rep_attr:
  assumes "rep st d (Some a) F"
  shows "case data_attr d k of
      None \<Rightarrow> attrset_lookup (Some a) k st = Ret None
    | Some d' \<Rightarrow> \<exists>a' F'. attrset_lookup (Some a) k st = Ret (Some a') \<and> rep st d' (Some a') F' \<and> a' \<in> F' \<and> F' \<subseteq> F"
  using assms
proof (cases rule: rep_cases)
  case (aset kds es G)
  from reps_lookup [OF aset(4,3), of k] aset show ?thesis
    by (fastforce simp: attrset_lookup_def split: option.splits)
qed (auto simp: attrset_lookup_def elim!: leaf_value_cases)

lemma attrset_lookup_error: "attrset_lookup r k st = Ret r' \<Longrightarrow> attrset_has r k st = Ret (r' \<noteq> None)"
  by (simp add: attrset_has_def)

lemma rep_is_attr_set:
  "rep st d (Some a) F \<Longrightarrow> \<exists>v. deref (Some a) st = Ret v \<and> \<not> is_thunk v \<and> (\<not> is_attr_set v \<longrightarrow> (\<forall>k. data_attr d k = None))"
  by (erule rep_cases) (auto simp: is_attr_set_def is_thunk_def elim!: leaf_value_cases)

lemma rep_free:
  assumes "rep st1 d (Some a) F" and "grows st st1" and "a \<in> fresh st st1" and "h_error st1 = h_error st"
  shows "\<exists>st2. nix_value_free (Some a) st1 = Ret st2 \<and> grows st st2 \<and> h_error st2 = h_error st \<and>
    length (h_vals st2) = length (h_vals st1) \<and> (\<forall>G. a \<notin> G \<longrightarrow> agree G st1 st2)"
proof -
  from rep_cell [OF assms(1)] obtain v where "cell st1 a = Some v" ..
  from free_cell [OF this] assms(2-4) show ?thesis
    by (auto intro!: exI [of _ "overwrite a None st1"] grows_overwrite agree_overwrite)
qed

subsection \<open>Steps that compute\<close>

definition in_dir :: "ref \<Rightarrow> string option \<Rightarrow> nix_state \<Rightarrow> bool" where
  "in_dir env b st \<longleftrightarrow> (\<exists>en. env_at env st = Ret en \<and> e_base_dir en = b)"

definition computes :: "ref \<Rightarrow> string option \<Rightarrow> ref step \<Rightarrow> nix_data option run \<Rightarrow> bool" where
  "computes env b E D \<longleftrightarrow> (\<forall>st. in_dir env b st \<longrightarrow> refines (E st) D st)"

lemma env_at_grows: "grows st st1 \<Longrightarrow> env_at e st1 = env_at e st"
  by (simp add: env_at_def grows_def split: option.split)

lemma in_dir_grows: "grows st st1 \<Longrightarrow> in_dir env b st \<Longrightarrow> in_dir env b st1"
  by (simp add: in_dir_def env_at_grows)

lemma computes_later:
  "computes env b E D \<Longrightarrow> in_dir env b st \<Longrightarrow> grows st st1 \<Longrightarrow> h_error st1 = h_error st \<Longrightarrow> refines (E st1) D st"
  using in_dir_grows refines_later unfolding computes_def by blast

lemma computes_then:
  assumes "computes env b E D"
    and "\<And>d a st st1 F. in_dir env b st \<Longrightarrow> grows st st1 \<Longrightarrow> h_error st1 = h_error st \<Longrightarrow> rep st1 d (Some a) F \<Longrightarrow>
           a \<in> F \<Longrightarrow> F \<subseteq> fresh st st1 \<Longrightarrow> refines (k (Some a, st1)) (f d) st"
    and "\<And>st1. k (None, st1) = Ret (None, st1)"
  shows "computes env b (\<lambda>st. andthen (E st) k) (dthen D f)"
  unfolding computes_def
proof (intro allI impI)
  fix st assume st: "in_dir env b st"
  with assms(1) have "refines (E st) D st" by (simp add: computes_def)
  then show "refines (andthen (E st) k) (dthen D f) st"
    by (rule refines_then) (auto simp: assms(3) intro: refines_none assms(2) [OF st])
qed

lemma computes_new: "leaf_value d = Some v \<Longrightarrow> computes env b (new_value v) (Ret (Some d))"
  by (auto simp: computes_def intro!: refines_new)

lemma computes_if:
  assumes "computes env b (evx c) C" "computes env b (evx x) X" "computes env b (evx y) Y"
  shows "computes env b (eval_if evx c x y) (dthen C (\<lambda>v. if data_truthy v then X else Y))"
  unfolding eval_if_def [abs_def]
proof (rule computes_then [OF assms(1)], goal_cases)
  case (1 d a st st1 F)
  then obtain st2 where "nix_value_free (Some a) st1 = Ret st2" "grows st st2" "h_error st2 = h_error st"
    using rep_free [OF 1(4,2)] by blast
  with 1(1) rep_truthy [OF 1(4)] assms(2,3) show ?case by (auto intro: computes_later)
qed simp

lemma computes_assert:
  assumes "computes env b (evx c) C" "computes env b (evx x) X"
  shows "computes env b (eval_assert evx c x) (dthen C (\<lambda>v. if data_truthy v then X else Ret None))"
  unfolding eval_assert_def [abs_def]
proof (rule computes_then [OF assms(1)], goal_cases)
  case (1 d a st st1 F)
  then obtain st2 where "nix_value_free (Some a) st1 = Ret st2" "grows st st2" "h_error st2 = h_error st"
    using rep_free [OF 1(4,2)] by blast
  with 1(1) rep_truthy [OF 1(4)] assms(2) show ?case by (auto intro: computes_later refines_error)
qed simp

lemma computes_not:
  assumes "computes env b (evx x) X"
  shows "computes env b (eval_not evx x) (dthen X (\<lambda>v. Ret (Some (D_bool (\<not> data_truthy v)))))"
  unfolding eval_not_def [abs_def]
proof (rule computes_then [OF assms(1)], goal_cases)
  case (1 d a st st1 F)
  then show ?case by (auto simp: rep_truthy intro: refines_new)
qed simp

lemma rep_int_of: "rep st d (Some a) F \<Longrightarrow> \<exists>v. deref (Some a) st = Ret v \<and> int_of v = (case d of D_int i \<Rightarrow> Some i | _ \<Rightarrow> None)"
  by (erule rep_cases) (auto simp: int_of_def elim!: leaf_value_cases)

lemma computes_negate:
  assumes "computes env b (evx x) X"
  shows "computes env b (eval_negate evx x)
    (dthen X (\<lambda>v. case v of D_int i \<Rightarrow> Ret (Some (D_int (- i))) | _ \<Rightarrow> Ret None))"
  unfolding eval_negate_def [abs_def]
proof (rule computes_then [OF assms(1)], goal_cases)
  case (1 d a st st1 F)
  with rep_int_of [OF 1(4)] show ?case
    by (auto intro!: refines_new refines_error split: nix_data.split)
qed simp

lemma computes_has_attr:
  assumes "computes env b (evx x) X"
  shows "computes env b (eval_has_attr evx x k) (dthen X (\<lambda>v. Ret (Some (D_bool (data_attr v k \<noteq> None)))))"
  unfolding eval_has_attr_def [abs_def]
proof (rule computes_then [OF assms(1)], goal_cases)
  case (1 d a st st1 F)
  let ?b = "data_attr d k \<noteq> None" and ?r = "length (h_vals st1)"
  obtain st2 where st2: "st2 = snd (nix_value_new (NIX_VAL_BOOL ?b) st1)" by simp
  have has: "attrset_has (Some a) k st1 = Ret ?b"
    using rep_attr [OF 1(4), of k] by (auto simp: attrset_has_def split: option.splits)
  have new: "nix_value_new (NIX_VAL_BOOL ?b) st1 = (Some ?r, st2)" by (simp add: nix_value_new_def st2)
  have a: "a < ?r" using 1(5,6) by auto
  have g: "grows st st2" "h_error st2 = h_error st" "grows st1 st2" 
    using 1(3) grows_trans [OF 1(2) grows_new] grows_new by (auto simp: st2 nix_value_new_def)
  have "a \<in> fresh st st2" using 1(5,6) by (auto simp: st2 nix_value_new_def)
  from rep_free [OF rep_grows [OF 1(4) g(3)] g(1) this g(2)] obtain st3 where st3:
    "nix_value_free (Some a) st2 = Ret st3" "grows st st3" "h_error st3 = h_error st"
    "length (h_vals st3) = length (h_vals st2)" "\<forall>G. a \<notin> G \<longrightarrow> agree G st2 st3" by blast
  have "rep st2 (D_bool ?b) (Some ?r) {?r}" unfolding st2 by (rule rep_leaf [OF cell_new]) simp
  moreover from a have "a \<notin> {?r}" by simp
  with st3(5) have "agree {?r} st2 st3" by blast
  ultimately have "rep st3 (D_bool ?b) (Some ?r) {?r}" by (rule rep_agree(1))
  moreover have "{?r} \<subseteq> fresh st st3" using 1(2) st3(4) by (auto simp: st2 nix_value_new_def grows_def)
  ultimately have "refines (Ret (Some ?r, st3)) (Ret (Some (D_bool ?b))) st" by (rule refines_value [OF st3(2,3)])
  then show ?case unfolding case_prod_conv by (simp only: has new st3(1) andthen.simps option.distinct if_False case_prod_conv)
qed simp

lemma computes_or_default:
  assumes "computes env b (evx x) X" "computes env b (evx y) Y"
  shows "computes env b (eval_or_default evx x k y)
    (dthen X (\<lambda>v. case data_attr v k of Some d \<Rightarrow> Ret (Some d) | None \<Rightarrow> Y))"
  unfolding eval_or_default_def [abs_def]
proof (rule computes_then [OF assms(1)], goal_cases)
  case (1 d a st st1 F)
  show ?case
  proof (cases "data_attr d k")
    case None
    from 1 obtain st2 where "nix_value_free (Some a) st1 = Ret st2" "grows st st2" "h_error st2 = h_error st"
      using rep_free [OF 1(4,2)] by blast
    with 1(1) None rep_attr [OF 1(4), of k] assms(2) show ?thesis by (auto intro: computes_later)
  next
    case (Some d')
    with rep_attr [OF 1(4), of k] obtain a' F' where
      "attrset_lookup (Some a) k st1 = Ret (Some a')" "rep st1 d' (Some a') F'" "F' \<subseteq> F" by auto
    with Some 1 show ?thesis by (auto intro!: refines_value)
  qed
qed simp

lemma computes_select:
  assumes "computes env b (ev env tr x) X"
  shows "computes env b (eval_select ev env tr x k) (dthen X (\<lambda>v. Ret (data_attr v k)))"
  unfolding eval_select_def [abs_def]
proof (rule computes_then [OF assms(1)], goal_cases)
  case (1 d a st st1 F)
  from rep_is_attr_set [OF 1(4)] obtain v where v: "deref (Some a) st1 = Ret v" "\<not> is_thunk v"
    "\<not> is_attr_set v \<longrightarrow> data_attr d k = None" by blast
  from 1 obtain st2 where free: "nix_value_free (Some a) st1 = Ret st2" "grows st st2" "h_error st2 = h_error st"
    using rep_free [OF 1(4,2)] by blast
  show ?case
  proof (cases "data_attr d k")
    case None
    with v free rep_attr [OF 1(4), of k] show ?thesis by (auto intro: refines_error)
  next
    case (Some d')
    with rep_attr [OF 1(4), of k] obtain a' F' where
      "attrset_lookup (Some a) k st1 = Ret (Some a')" "rep st1 d' (Some a') F'" "F' \<subseteq> F" by auto
    with Some v 1 show ?thesis by (auto intro!: refines_value)
  qed
qed simp

lemma dthen_assoc: "dthen (dthen D f) g = dthen D (\<lambda>x. dthen (f x) g)"
  by (cases "(D, f)" rule: dthen.cases) auto

lemma dthen_Ret [simp]: "dthen D (\<lambda>x. Ret (Some x)) = D"
  by (rule dthen.cases [of "(D, \<lambda>x. Ret (Some x))"]) auto

subsection \<open>Strings\<close>

lemma computes_parts:
  assumes "\<And>e. Inr e \<in> set ps \<Longrightarrow> computes env b (evx e) (den b e)"
  shows "computes env b (string_parts evx ps buf) (den_parts (map (map_sum id (den b)) ps) buf)"
  using assms
proof (induction ps arbitrary: buf)
  case Nil
  then show ?case by (simp add: computes_new string_parts.simps(1) [abs_def])
next
  case (Cons p ps)
  have IH: "\<And>buf. computes env b (string_parts evx ps buf) (den_parts (map (map_sum id (den b)) ps) buf)"
    by (rule Cons.IH) (simp add: Cons.prems)
  show ?case
  proof (cases p)
    case (Inl s)
    from IH [of "buf @ s"] show ?thesis
      unfolding Inl string_parts.simps list.map map_sum.simps den_parts.simps id_apply .
  next
    case (Inr e)
    have "computes env b (evx e) (den b e)" using Cons.prems Inr by simp
    then show ?thesis
      unfolding Inr string_parts.simps list.map map_sum.simps den_parts.simps
    proof (rule computes_then, goal_cases)
      case (1 d a st st1 F)
      then obtain st2 where st2: "nix_value_free (Some a) st1 = Ret st2" "grows st st2" "h_error st2 = h_error st"
        using rep_free [OF 1(4,2)] by blast
      from rep_interpolated [OF 1(4)] obtain v where "deref (Some a) st1 = Ret v" "interpolated v = Ret (data_text d)"
        by blast
      with st2 computes_later [OF IH 1(1) st2(2,3)] show ?case
        by (auto simp: refines_def [of Crash] split: option.split)
    qed simp
  qed
qed

subsection \<open>Lists\<close>

lemma refines_fail:
  assumes "cell st1 l = Some v" and "grows st st1" and "length (h_vals st) \<le> l" and "h_error st1 \<noteq> None"
  shows "refines (andthen (nix_value_free (Some l) st1) (\<lambda>st2. Ret (None, st2))) (Ret None) st"
  using assms free_cell [OF assms(1)] by (auto intro!: refines_none grows_overwrite)

lemma cell_grows: "cell st l = Some v \<Longrightarrow> grows st st1 \<Longrightarrow> cell st1 l = Some v"
  by (auto simp: cell_def grows_def split: if_splits)

lemma elements_compute:
  assumes "\<And>e. e \<in> set es \<Longrightarrow> computes env b (evx e) (den b e)" and "in_dir env b st"
    and "grows st st1" and "h_error st1 = h_error st" and "cell st1 l = Some v" and "length (h_vals st) \<le> l"
    and "reps st1 ds acc G" and "G \<subseteq> fresh st st1" and "l \<notin> G"
  shows "refines (list_elements evx es acc (Some l) st1)
    (dthen (den_list (map (den b) es)) (\<lambda>ds'. Ret (Some (D_list (ds @ ds'))))) st"
  using assms
proof (induction es arbitrary: st1 acc ds G)
  case Nil
  let ?st = "overwrite l (Some (NIX_VAL_LIST acc)) st1"
  have "reps ?st ds acc G" by (rule rep_agree(2) [OF Nil.prems(7) agree_overwrite]) (rule Nil.prems(9))
  moreover have "cell ?st l = Some (NIX_VAL_LIST acc)"
    using Nil.prems(5) by (simp add: cell_overwrite cell_live)
  ultimately have "rep ?st (D_list ds) (Some l) (insert l G)" using Nil.prems(9) by (intro rep_list)
  moreover have "insert l G \<subseteq> fresh st ?st" using Nil.prems(6,8) cell_live [OF Nil.prems(5)] by auto
  moreover have "grows st ?st" using Nil.prems(3,6) by (rule grows_overwrite)
  ultimately have "refines (Ret (Some l, ?st)) (Ret (Some (D_list ds))) st"
    by (intro refines_value [OF _ _ \<open>rep ?st (D_list ds) (Some l) (insert l G)\<close>]) (simp_all add: Nil.prems(4))
  then show ?case by (simp add: store_cell [OF Nil.prems(5)])
next
  case (Cons e es)
  let ?f = "\<lambda>d. dthen (den_list (map (den b) es)) (\<lambda>ds'. Ret (Some (D_list (ds @ d # ds'))))"
  have "refines (evx e st1) (den b e) st1"
    using Cons.prems(1) in_dir_grows [OF Cons.prems(3,2)] by (simp add: computes_def)
  then have "refines (list_elements evx (e # es) acc (Some l) st1) (dthen (den b e) ?f) st"
    unfolding list_elements.simps
  proof (rule refines_then, goal_cases)
    case (1 st2)
    with Cons.prems refines_fail [OF cell_grows [OF Cons.prems(5) 1(1)] grows_trans [OF Cons.prems(3) 1(1)]]
    show ?case by simp
  next
    case (2 d a st2 F)
    have G: "G \<subseteq> {..< length (h_vals st1)}" by (rule rep_live(2) [OF Cons.prems(7)])
    have F: "F \<inter> insert l G = {}" using 2(6) G cell_live [OF Cons.prems(5)] by (fastforce dest: subsetD)
    have "reps st2 ds acc G" by (rule rep_agree(2) [OF Cons.prems(7) grows_agree [OF 2(2) G]])
    moreover have "reps st2 [d] [Some a] F" using reps_Cons [OF 2(4) reps_Nil] by simp
    ultimately have "reps st2 (ds @ [d]) (acc @ [Some a]) (G \<union> F)" using F by (intro reps_append) auto
    moreover have "grows st st2" by (rule grows_trans [OF Cons.prems(3) 2(2)])
    moreover have "G \<union> F \<subseteq> fresh st st2" "l \<notin> G \<union> F" using Cons.prems(8,9) 2(2,6) F Cons.prems(3)
      by (auto simp: grows_def)
    ultimately show ?case
      using Cons.IH [of st2 "ds @ [d]" "acc @ [Some a]" "G \<union> F"] Cons.prems 2(3) cell_grows [OF Cons.prems(5) 2(2)]
      by simp
  qed
  then show ?case by (simp add: dthen_assoc)
qed

lemma computes_list:
  assumes "\<And>e. e \<in> set es \<Longrightarrow> computes env b (evx e) (den b e)"
  shows "computes env b (eval_list evx es) (den b (NIX_NODE_LIST es))"
  unfolding computes_def
proof (intro allI impI)
  fix st assume st: "in_dir env b st"
  let ?l = "length (h_vals st)"
  let ?v = "NIX_VAL_LIST (replicate (length es) None)"
  obtain st1 where st1: "nix_value_new ?v st = (Some ?l, st1)" by (simp add: nix_value_new_def)
  then have "grows st st1" "cell st1 ?l = Some ?v" "h_error st1 = h_error st"
    using grows_new [of st ?v] cell_new [of ?v st] by (auto simp: nix_value_new_def)
  from elements_compute [OF assms st this(1,3,2) _ reps_Nil] st1
  show "refines (eval_list evx es st) (den b (NIX_NODE_LIST es)) st" by (simp add: eval_list_def)
qed

subsection \<open>Comparison\<close>

lemma size_item: "d \<in> set ds \<Longrightarrow> size d < size (D_list ds)"
  by (induction ds) auto

lemma size_entry: "d \<in> snd ` set kds \<Longrightarrow> size d < size (D_set kds)"
  by (induction kds) (auto simp: rev_image_eqI less_SucI trans_less_add2)

lemma all_equal_reps:
  assumes "\<And>d d' r r' F F'. d \<in> set ds \<Longrightarrow> rep st d r F \<Longrightarrow> rep st d' r' F' \<Longrightarrow> eq r r' = Ret (data_equal d d')"
    and "reps st ds rs F" and "reps st ds' rs' F'" and "length ds = length ds'"
  shows "all_equal eq (zip rs rs') = Ret (items_equal ds ds')"
  using assms
proof (induction ds arbitrary: rs F ds' rs' F')
  case (Cons d ds)
  from Cons.prems(4) obtain d' ds1 where ds': "ds' = d' # ds1" "length ds = length ds1" by (cases ds') auto
  from Cons.prems(2) obtain r rs1 F1 F2 where a: "rs = r # rs1" "rep st d r F1" "reps st ds rs1 F2"
    by (auto elim: reps_ConsE)
  from Cons.prems(3) obtain r' rs1' F1' F2' where b: "rs' = r' # rs1'" "rep st d' r' F1'" "reps st ds1 rs1' F2'"
    by (auto simp: ds' elim: reps_ConsE)
  have "eq r r' = Ret (data_equal d d')" by (rule Cons.prems(1) [OF _ a(2) b(2)]) simp
  moreover have "all_equal eq (zip rs1 rs1') = Ret (items_equal ds ds1)"
    by (rule Cons.IH [OF Cons.prems(1) a(3) b(3) ds'(2)]) simp_all
  ultimately show ?case by (simp add: a(1) b(1) ds'(1))
qed (auto elim: reps_NilE)

lemma entries_equal_reps:
  assumes "\<And>d d' r r' F F'. d \<in> snd ` set kds \<Longrightarrow> rep st d r F \<Longrightarrow> rep st d' r' F' \<Longrightarrow> eq r r' = Ret (data_equal d d')"
    and "reps st (map snd kds) (map snd es) F" and "map fst es = map fst kds"
    and "reps st (map snd kds') (map snd es') F'" and "map fst es' = map fst kds'"
  shows "entries_equal eq es es' = Ret (members_equal kds kds')"
  using assms
proof (induction kds arbitrary: es F)
  case (Cons kd kds)
  obtain k d where kd: "kd = (k, d)" by (cases kd)
  from Cons.prems(3) obtain r es1 where es: "es = (k, r) # es1" "map fst es1 = map fst kds"
    by (cases es) (auto simp: kd)
  from Cons.prems(2) obtain F1 F2 where "rep st d r F1" "reps st (map snd kds) (map snd es1) F2"
    by (auto simp: kd es elim: reps_ConsE)
  moreover from this Cons.IH [of es1 F2] Cons.prems es kd have "entries_equal eq es1 es' = Ret (members_equal kds kds')"
    by auto
  ultimately show ?case
    using reps_lookup [OF Cons.prems(4,5), of k] Cons.prems(1) by (fastforce simp: kd es(1) split: option.splits)
qed simp

lemma leaf_equal:
  assumes "leaf_value d = Some v" "cell st a = Some v" "rep st d' (Some a') F'"
  shows "nix_values_equal (Suc n) st (Some a) (Some a') = Ret (data_equal d d')"
  using assms(3)
proof (cases rule: rep_cases)
  case (leaf w)
  with assms(1,2) show ?thesis by (auto elim!: leaf_value_cases)
next
  case (list ds rs G)
  with assms(1,2) show ?thesis by (auto elim!: leaf_value_cases)
next
  case (aset kds es G)
  with assms(1,2) show ?thesis by (auto elim!: leaf_value_cases)
qed

lemma values_equal:
  assumes "rep st d r F" and "rep st d' r' F'" and "size d \<le> n"
  shows "nix_values_equal (Suc n) st r r' = Ret (data_equal d d')"
  using assms
proof (induction n arbitrary: d d' r r' F F')
  case 0
  from rep_Some [OF 0(1)] rep_Some [OF 0(2)] obtain a a' where r: "r = Some a" "r' = Some a'" by auto
  with 0 have "rep st d (Some a) F" "size d = 0" by auto
  then show ?case
    by (cases rule: rep_cases) (use 0(2) leaf_equal r in auto)
next
  case (Suc n)
  from rep_Some [OF Suc.prems(1)] rep_Some [OF Suc.prems(2)] obtain a a' where
    r: "r = Some a" "r' = Some a'" by auto
  from Suc.prems(1) [unfolded r] show ?case
  proof (cases rule: rep_cases)
    case (leaf v)
    with leaf_equal Suc.prems(2) r show ?thesis by blast
  next
    case A: (list ds rs G)
    have IH: "nix_values_equal (Suc n) st r r' = Ret (data_equal d d')"
      if "d \<in> set ds" "rep st d r F" "rep st d' r' F'" for d d' r r' F F'
      by (rule Suc.IH [OF that(2,3)]) (use size_item [OF that(1)] Suc.prems(3) A(1) in simp)
    from Suc.prems(2) [unfolded r] show ?thesis
    proof (cases rule: rep_cases)
      case (leaf v)
      with A r show ?thesis by (auto elim!: leaf_value_cases)
    next
      case B: (list ds' rs' G')
      have "all_equal (nix_values_equal (Suc n) st) (zip rs rs') = Ret (items_equal ds ds')" if "length ds = length ds'"
        by (rule all_equal_reps [OF IH A(3) B(3) that])
      with A(1,2) B(1,2) r reps_length [OF A(3)] reps_length [OF B(3)] show ?thesis
        unfolding nix_values_equal.simps(2) [of "Suc n"] by simp
    next
      case (aset kds es G')
      with A r show ?thesis by simp
    qed
  next
    case A: (aset kds es G)
    have IH: "nix_values_equal (Suc n) st r r' = Ret (data_equal d d')"
      if "d \<in> snd ` set kds" "rep st d r F" "rep st d' r' F'" for d d' r r' F F'
      by (rule Suc.IH [OF that(2,3)]) (use size_entry [OF that(1)] Suc.prems(3) A(1) in simp)
    from Suc.prems(2) [unfolded r] show ?thesis
    proof (cases rule: rep_cases)
      case (leaf v)
      with A r show ?thesis by (auto elim!: leaf_value_cases)
    next
      case (list ds' rs' G')
      with A r show ?thesis by simp
    next
      case B: (aset kds' es' G')
      have "entries_equal (nix_values_equal (Suc n) st) es es' = Ret (members_equal kds kds')"
        by (rule entries_equal_reps [OF IH A(4,3) B(4,3)])
      with A(1,2) B(1,2) r arg_cong [OF A(3), of length] arg_cong [OF B(3), of length] show ?thesis
        unfolding nix_values_equal.simps(2) [of "Suc n"] by simp
    qed
  qed
qed

subsection \<open>Operators\<close>

lemma refines_crash [simp]: "refines Crash Crash st"
  by (simp add: refines_def)

lemma int_operation_refines:
  assumes "grows st st1" and "h_error st1 = h_error st"
  shows "refines (int_operation op x y st1) (data_int op x y) st"
proof -
  have new: "leaf_value d = Some v \<Longrightarrow> refines (new_value v st1) (Ret (Some d)) st" for d v
    by (rule refines_new [OF _ assms])
  show ?thesis
    by (cases op) (simp_all add: int_operation_def data_int_def new refines_error [OF assms(1)])
qed

lemma rep_value:
  "rep st d (Some a) F \<Longrightarrow> \<exists>v. deref (Some a) st = Ret v \<and>
     int_of v = (case d of D_int i \<Rightarrow> Some i | _ \<Rightarrow> None) \<and> is_textual v = (data_string d \<noteq> None) \<and>
     (data_string d \<noteq> None \<longrightarrow> text_of v = Ret (data_string d)) \<and> is_list v = (\<exists>ds. d = D_list ds)"
  by (erule rep_cases) (auto simp: int_of_def is_textual_def text_of_def is_list_def elim!: leaf_value_cases)

lemma grows_length: "grows st st1 \<Longrightarrow> length (h_vals st) \<le> length (h_vals st1)"
  by (simp add: grows_def)

lemma concat_refines:
  assumes a: "rep st (D_list ds) (Some a) F" and b: "rep st (D_list ds') (Some a') F'" and disj: "F \<inter> F' = {}"
    and st: "grows st0 st" "h_error st = h_error st0" and new: "F \<subseteq> fresh st0 st" "F' \<subseteq> fresh st0 st"
  shows "\<exists>rs rs'. deref (Some a) st = Ret (NIX_VAL_LIST rs) \<and> deref (Some a') st = Ret (NIX_VAL_LIST rs') \<and>
    refines (concat_lists (Some a) (Some a') rs rs' st) (Ret (Some (D_list (ds @ ds')))) st0"
proof -
  from a obtain rs G where A: "cell st a = Some (NIX_VAL_LIST rs)" "reps st ds rs G" "a \<notin> G" "F = insert a G"
    by (auto elim: rep_cases)
  from b obtain rs' G' where B: "cell st a' = Some (NIX_VAL_LIST rs')" "reps st ds' rs' G'" "a' \<notin> G'" "F' = insert a' G'"
    by (auto elim: rep_cases)
  let ?r = "length (h_vals st)"
  obtain st1 where st1: "st1 = snd (nix_value_new (NIX_VAL_LIST (rs @ rs')) st)" by simp
  have g: "grows st st1" "h_error st1 = h_error st" "length (h_vals st1) = Suc ?r"
    unfolding st1 by simp (simp_all add: nix_value_new_def)
  let ?st2 = "overwrite a (Some (NIX_VAL_LIST [])) st1"
  let ?st3 = "overwrite a' (Some (NIX_VAL_LIST [])) ?st2"
  have ne: "a \<noteq> a'" using disj A B by auto
  have live: "a < ?r" "a' < ?r" using A(1) B(1) cell_live by auto
  have c: "cell ?st2 a' = Some (NIX_VAL_LIST rs')"
    using ne cell_grows [OF B(1) g(1)] by (simp add: cell_overwrite)
  have run: "concat_lists (Some a) (Some a') rs rs' st = Ret (Some ?r, ?st3)"
    using store_cell [OF cell_grows [OF A(1) g(1)]] store_cell [OF c]
    by (simp add: concat_lists_def st1 nix_value_new_def)
  have sub: "G \<union> G' \<subseteq> {..< ?r}" using rep_live(2) [OF A(2)] rep_live(2) [OF B(2)] by auto
  have "reps st (ds @ ds') (rs @ rs') (G \<union> G')"
    using reps_append [OF A(2) B(2)] disj A(4) B(4) by auto
  then have "reps st1 (ds @ ds') (rs @ rs') (G \<union> G')"
    by (rule rep_agree(2) [OF _ grows_agree [OF g(1) sub]])
  moreover have "agree (G \<union> G') st1 ?st3"
    using disj A(3,4) B(3,4) by (auto simp: agree_def cell_overwrite)
  ultimately have "reps ?st3 (ds @ ds') (rs @ rs') (G \<union> G')" by (rule rep_agree(2))
  moreover have "cell ?st3 ?r = Some (NIX_VAL_LIST (rs @ rs'))"
    using live cell_new [of "NIX_VAL_LIST (rs @ rs')" st] by (simp add: cell_overwrite st1)
  moreover have "?r \<notin> G \<union> G'" using sub by auto
  ultimately have "rep ?st3 (D_list (ds @ ds')) (Some ?r) (insert ?r (G \<union> G'))" by (intro rep_list)
  moreover have "insert ?r (G \<union> G') \<subseteq> fresh st0 ?st3"
    using new A(4) B(4) grows_length [OF st(1)] g(3) by fastforce
  moreover have "grows st0 ?st3"
    using new A(4) B(4) by (intro grows_overwrite grows_trans [OF st(1) g(1)]) auto
  ultimately have "refines (Ret (Some ?r, ?st3)) (Ret (Some (D_list (ds @ ds')))) st0"
    by (intro refines_value [rotated 2]) (simp_all only: error_overwrite g(2) st(2))
  with run A(1) B(1) show ?thesis by auto
qed

lemma strict_refines:
  assumes a: "rep st d (Some a) F" and b: "rep st d' (Some a') F'" and disj: "F \<inter> F' = {}"
    and st: "grows st0 st" "h_error st = h_error st0" and new: "F \<subseteq> fresh st0 st" "F' \<subseteq> fresh st0 st"
    and n: "size d < n"
  shows "refines (strict_operation n op (Some a) (Some a') st) (data_strict op d d') st0"
proof -
  obtain m where m: "n = Suc m" "size d \<le> m" using n by (cases n) auto
  have bool: "refines (new_value (NIX_VAL_BOOL x) st) (Ret (Some (D_bool x))) st0" for x
    by (rule refines_new [OF _ st]) simp
  have str: "refines (new_value (NIX_VAL_STRING (Some x)) st) (Ret (Some (D_string x))) st0" for x
    by (rule refines_new [OF _ st]) simp
  from rep_value [OF a] obtain v where v: "deref (Some a) st = Ret v"
    "int_of v = (case d of D_int i \<Rightarrow> Some i | _ \<Rightarrow> None)" "is_textual v = (data_string d \<noteq> None)"
    "data_string d \<noteq> None \<Longrightarrow> text_of v = Ret (data_string d)" "is_list v = (\<exists>ds. d = D_list ds)" by blast
  from rep_value [OF b] obtain w where w: "deref (Some a') st = Ret w"
    "int_of w = (case d' of D_int i \<Rightarrow> Some i | _ \<Rightarrow> None)" "is_textual w = (data_string d' \<noteq> None)"
    "data_string d' \<noteq> None \<Longrightarrow> text_of w = Ret (data_string d')" "is_list w = (\<exists>ds. d' = D_list ds)" by blast
  have ints: "refines (case (int_of v, int_of w) of (Some x, Some y) \<Rightarrow> int_operation op x y st
      | _ \<Rightarrow> eval_error ''operands are not integers'' st)
      (case (d, d') of (D_int x, D_int y) \<Rightarrow> data_int op x y | _ \<Rightarrow> Ret None) st0"
    using v(2) w(2) int_operation_refines [OF st] refines_error [OF st(1)] by (auto split: nix_data.split)
  consider "op = NIX_TOK_EQ \<or> op = NIX_TOK_NEQ" | "op = NIX_TOK_PLUS_PLUS"
    | "op = NIX_TOK_PLUS" "is_textual v" "is_textual w"
    | "op \<noteq> NIX_TOK_EQ" "op \<noteq> NIX_TOK_NEQ" "op \<noteq> NIX_TOK_PLUS_PLUS"
      "\<not> (op = NIX_TOK_PLUS \<and> is_textual v \<and> is_textual w)" by auto
  then show ?thesis
  proof cases
    case 1
    with values_equal [OF a b m(2)] bool m(1) show ?thesis
      by (auto simp: strict_operation_def data_strict_def simp del: nix_values_equal.simps)
  next
    case 2
    show ?thesis
    proof (cases "is_list v \<and> is_list w")
      case True
      with v(5) w(5) obtain ds ds' where l: "d = D_list ds" "d' = D_list ds'" by blast
      from concat_refines [OF a [unfolded l] b [unfolded l] disj st new] True v(1) w(1) show ?thesis
        by (auto simp: strict_operation_def data_strict_def 2 l list_items_def)
    next
      case False
      then have "(case (d, d') of (D_list xs, D_list ys) \<Rightarrow> Ret (Some (D_list (xs @ ys))) | _ \<Rightarrow> Ret None) = Ret None"
        using v(5) w(5) by (auto split: nix_data.split)
      with False v(1) w(1) refines_error [OF st(1)] show ?thesis
        by (auto simp: strict_operation_def data_strict_def 2)
    qed
  next
    case 3
    with v w str show ?thesis by (auto simp: strict_operation_def data_strict_def)
  next
    case 4
    with v(1,3) w(1,3) ints show ?thesis
      unfolding strict_operation_def data_strict_def by (auto simp: Let_def)
  qed
qed

lemma computes_short_circuit:
  assumes "computes env b (evx r) R" and "in_dir env b st" and "grows st st1" and "h_error st1 = h_error st"
  shows "refines (short_circuit evx stops result r st1)
    (if stops then Ret (Some (D_bool result)) else dthen R (\<lambda>y. Ret (Some (D_bool (data_truthy y))))) st"
proof -
  have "refines (new_value (NIX_VAL_BOOL result) st1) (Ret (Some (D_bool result))) st"
    by (rule refines_new [OF _ assms(3,4)]) simp
  moreover have "computes env b (\<lambda>st. andthen (evx r st) (\<lambda>(right, st1). if right = None then Ret (None, st1)
      else andthen (nix_is_truthy right st1) (\<lambda>b. new_value (NIX_VAL_BOOL b) st1)))
    (dthen R (\<lambda>y. Ret (Some (D_bool (data_truthy y)))))"
  proof (rule computes_then [OF assms(1)], goal_cases)
    case (1 d a st st1 F)
    then show ?case by (auto simp: rep_truthy intro: refines_new)
  qed simp
  from computes_later [OF this assms(2-4)] calculation show ?thesis by (simp add: short_circuit_def)
qed

lemma computes_binop:
  assumes "computes env b (evx l) L" and "computes env b (evx r) R" and "\<And>d. L = Ret (Some d) \<Longrightarrow> size d < n"
  shows "computes env b (eval_binop n evx op l r) (den_binop op L R)"
  unfolding computes_def
proof (intro allI impI)
  fix st assume st: "in_dir env b st"
  with assms(1) have "refines (evx l st) L st" by (simp add: computes_def)
  then show "refines (eval_binop n evx op l r st) (den_binop op L R) st"
    unfolding eval_binop_def den_binop_def
  proof (rule refines_then, goal_cases)
    case (2 d a st1 F)
    note short = computes_short_circuit [of env b evx, OF assms(2) st 2(2,3)]
    have strict: "refines (andthen (evx r st1) (\<lambda>(right, st2).
        if right = None then Ret (None, st2) else strict_operation n op (Some a) right st2))
      (dthen R (data_strict op d)) st"
      using assms(2) in_dir_grows [OF 2(2) st] unfolding computes_def
    proof (intro refines_then [of "evx r st1" R st1], goal_cases)
      case 1
      then show ?case by blast
    next
      case (2 st2)
      then show ?case using grows_trans [OF \<open>grows st st1\<close> 2(3)] by (auto intro: refines_none)
    next
      case (3 d' a' st2 F')
      have "F \<inter> F' = {}" using rep_live(1) [OF 2(4)] 3(8) by (fastforce dest: subsetD)
      moreover have "F \<subseteq> fresh st st2" "F' \<subseteq> fresh st st2" using 2(2,6) 3(4,8) by (auto simp: grows_def)
      ultimately show ?case
        using strict_refines [OF rep_grows [OF 2(4) 3(4)] 3(6) _ grows_trans [OF 2(2) 3(4)]] 2(3) 3(5) assms(3) [OF 2(1)]
        by simp
    qed
    consider "op = NIX_TOK_AND" | "op = NIX_TOK_OR" | "op = NIX_TOK_ARROW"
      | "op \<noteq> NIX_TOK_AND" "op \<noteq> NIX_TOK_OR" "op \<noteq> NIX_TOK_ARROW" by blast
    then show ?case
    proof cases
      case 1
      with short [of "\<not> data_truthy d" False] rep_truthy [OF 2(4)] show ?thesis by (auto split: if_splits)
    next
      case 2
      with short [of "data_truthy d" True] rep_truthy [OF \<open>rep st1 d (Some a) F\<close>] show ?thesis by (auto split: if_splits)
    next
      case 3
      with short [of "\<not> data_truthy d" True] rep_truthy [OF 2(4)] show ?thesis by (auto split: if_splits)
    next
      case 4
      with strict show ?thesis by simp
    qed
  qed (auto intro: refines_none)
qed

end
