(* ===== verification/Nix_Refine.thy ===== *)
theory Nix_Refine
  imports Nix_Data
begin

text \<open>
  Attribute sets with dotted keys, where binding changes a set in place, and the refinement for
  every expression without variables: given steps enough, the evaluator computes its denotation.
\<close>


subsection \<open>Attribute sets\<close>

text \<open>Binding changes cells of the set only, and may add cells.\<close>

definition modifies :: "nat set \<Rightarrow> nix_state \<Rightarrow> nix_state \<Rightarrow> bool" where
  "modifies M st st' \<longleftrightarrow> length (h_vals st) \<le> length (h_vals st') \<and>
     (\<forall>a < length (h_vals st). a \<notin> M \<longrightarrow> h_vals st' ! a = h_vals st ! a) \<and>
     h_envs st' = h_envs st \<and> h_trees st' = h_trees st \<and> h_error st' = h_error st"

lemma modifies_refl [simp]: "modifies M st st"
  by (simp add: modifies_def)

lemma modifies_trans:
  "modifies M st st1 \<Longrightarrow> modifies N st1 st2 \<Longrightarrow> N \<inter> {..< length (h_vals st)} \<subseteq> M \<Longrightarrow> modifies M st st2"
  unfolding modifies_def by (clarsimp) (metis IntI lessThan_iff less_le_trans subsetD)

lemma modifies_mono: "modifies M st st' \<Longrightarrow> M \<subseteq> N \<Longrightarrow> modifies N st st'"
  by (auto simp: modifies_def)

lemma modifies_agree: "modifies M st st' \<Longrightarrow> F \<subseteq> {..< length (h_vals st)} \<Longrightarrow> F \<inter> M = {} \<Longrightarrow> agree F st st'"
  by (auto simp: modifies_def agree_def cell_def)

lemma modifies_new: "modifies M st (snd (nix_value_new v st))"
  by (simp add: modifies_def nix_value_new_def nth_append)

lemma modifies_overwrite: "a \<in> M \<Longrightarrow> modifies M st (overwrite a v st)"
  unfolding modifies_def overwrite_def by clarsimp (metis nth_list_update_neq)

lemma modifies_grows: "modifies M st1 st2 \<Longrightarrow> grows st st1 \<Longrightarrow> M \<inter> {..< length (h_vals st)} = {} \<Longrightarrow> grows st st2"
  unfolding modifies_def grows_def by (clarsimp) (metis IntI empty_iff lessThan_iff less_le_trans)

text \<open>Entries, written as lists of names, references and data.\<close>

definition entries_rep :: "nix_state \<Rightarrow> (string \<times> nix_data) list \<Rightarrow> (string \<times> ref) list \<Rightarrow> nat set \<Rightarrow> bool" where
  "entries_rep st kds es G \<longleftrightarrow> map fst es = map fst kds \<and> reps st (map snd kds) (map snd es) G"

lemma entries_rep_append:
  "entries_rep st kds es G \<Longrightarrow> entries_rep st kds' es' G' \<Longrightarrow> G \<inter> G' = {} \<Longrightarrow>
   entries_rep st (kds @ kds') (es @ es') (G \<union> G')"
  by (simp add: entries_rep_def reps_append)

lemma entries_rep_Cons:
  "rep st d r F \<Longrightarrow> entries_rep st kds es G \<Longrightarrow> F \<inter> G = {} \<Longrightarrow> entries_rep st ((k, d) # kds) ((k, r) # es) (F \<union> G)"
  by (simp add: entries_rep_def reps_Cons)

lemma entries_rep_agree: "entries_rep st kds es G \<Longrightarrow> agree G st st' \<Longrightarrow> entries_rep st' kds es G"
  using rep_agree(2) by (auto simp: entries_rep_def)

lemma entries_rep_live: "entries_rep st kds es G \<Longrightarrow> G \<subseteq> {..< length (h_vals st)}"
  by (auto simp: entries_rep_def dest: rep_live(2))

text \<open>An entry is found at one place, apart from the rest, or is not there.\<close>

lemma entries_rep_split:
  assumes "entries_rep st kds es G" and "map_of kds p = Some d"
  obtains k1 k2 e1 e2 r G1 F G2 where "kds = k1 @ (p, d) # k2" "es = e1 @ (p, r) # e2"
    "p \<notin> fst ` set k1" "map fst e1 = map fst k1" "entries_rep st k1 e1 G1" "rep st d r F" "entries_rep st k2 e2 G2"
    "G = G1 \<union> (F \<union> G2)" "G1 \<inter> F = {}" "G1 \<inter> G2 = {}" "F \<inter> G2 = {}"
  using assms
proof (induction kds arbitrary: es G thesis)
  case (Cons kd kds)
  obtain k d' where kd: "kd = (k, d')" by (cases kd)
  from Cons.prems(2) obtain r es1 F G' where es: "es = (k, r) # es1" "rep st d' r F" "entries_rep st kds es1 G'"
    "G = F \<union> G'" "F \<inter> G' = {}"
    unfolding entries_rep_def kd by (cases es) (auto elim!: reps_ConsE)
  show ?case
  proof (cases "k = p")
    case True
    with Cons.prems(3) kd have "d' = d" by simp
    with True es show ?thesis
      by (intro Cons.prems(1) [of "[]" kds "[]" r es1 "{}" F G']) (auto simp: kd entries_rep_def reps_Nil)
  next
    case False
    with Cons.prems(3) have "map_of kds p = Some d" by (simp add: kd)
    from Cons.IH [OF _ es(3) this] obtain k1 k2 e1 e2 r' G1 F' G2 where
      a: "kds = k1 @ (p, d) # k2" "es1 = e1 @ (p, r') # e2" "p \<notin> fst ` set k1" "map fst e1 = map fst k1"
      "entries_rep st k1 e1 G1" "rep st d r' F'" "entries_rep st k2 e2 G2" "G' = G1 \<union> (F' \<union> G2)"
      "G1 \<inter> F' = {}" "G1 \<inter> G2 = {}" "F' \<inter> G2 = {}" by blast
    have "entries_rep st ((k, d') # k1) ((k, r) # e1) (F \<union> G1)"
      using es(2,5) a(5,8) by (intro entries_rep_Cons) auto
    with a es False show ?thesis
      by (intro Cons.prems(1) [of "(k, d') # k1" k2 "(k, r) # e1" r' e2 "F \<union> G1" F' G2]) (auto simp: kd)
  qed
qed simp

lemma put_attr_split: "p \<notin> fst ` set k1 \<Longrightarrow> put_attr p x (k1 @ (p, d) # k2) = k1 @ (p, x) # k2"
  by (induction k1) auto

lemma put_attr_new: "map_of kds p = None \<Longrightarrow> put_attr p d kds = kds @ [(p, d)]"
  by (induction kds) (auto split: if_splits)

lemma put_attr_twice: "put_attr p x (put_attr p y kds) = put_attr p x kds"
  by (induction kds) auto

lemma map_of_put_attr [simp]: "map_of (put_attr p x kds) p = Some x"
  by (induction kds) auto

lemma map_of_fst_cong: "map fst es = map fst kds \<Longrightarrow> (map_of es p = None) = (map_of kds p = None)"
  by (simp add: map_of_eq_None_iff) (metis image_set)

lemma entries_rep_put:
  assumes "entries_rep st kds es G" and "rep st d r F" and "F \<inter> G = {}"
  shows "\<exists>G'. entries_rep st (put_attr p d kds) (put_attr p r es) G' \<and> G' \<subseteq> G \<union> F"
proof (cases "map_of kds p")
  case None
  with assms(1) have "map_of es p = None" by (simp add: entries_rep_def map_of_fst_cong [of es kds])
  moreover have "entries_rep st (kds @ [(p, d)]) (es @ [(p, r)]) (G \<union> F)"
    using assms entries_rep_Cons [OF assms(2), of "[]" "[]" "{}" p]
    by (intro entries_rep_append) (auto simp: entries_rep_def reps_Nil)
  ultimately show ?thesis using None by (auto simp: put_attr_new)
next
  case (Some d0)
  from entries_rep_split [OF assms(1) Some] obtain k1 k2 e1 e2 r0 G1 F0 G2 where
    a: "kds = k1 @ (p, d0) # k2" "es = e1 @ (p, r0) # e2" "p \<notin> fst ` set k1" "map fst e1 = map fst k1"
    "entries_rep st k1 e1 G1" "entries_rep st k2 e2 G2" "G = G1 \<union> (F0 \<union> G2)" "G1 \<inter> G2 = {}" by metis
  have "p \<notin> fst ` set e1" using a(3,4) by (metis image_set)
  moreover have "entries_rep st (k1 @ (p, d) # k2) (e1 @ (p, r) # e2) (G1 \<union> (F \<union> G2))"
    using a assms(2,3) by (intro entries_rep_append entries_rep_Cons) auto
  ultimately show ?thesis using a by (auto simp: put_attr_split)
qed

lemma rep_set_iff: "rep st (D_set kds) (Some a) F \<longleftrightarrow>
    (\<exists>es G. cell st a = Some (NIX_VAL_ATTR_SET es) \<and> entries_rep st kds es G \<and> F = insert a G \<and> a \<notin> G)"
proof
  assume "rep st (D_set kds) (Some a) F"
  then show "\<exists>es G. cell st a = Some (NIX_VAL_ATTR_SET es) \<and> entries_rep st kds es G \<and> F = insert a G \<and> a \<notin> G"
    by (rule rep_cases) (auto simp: entries_rep_def)
qed (auto simp: entries_rep_def intro: rep_set)

lemma bind_refines:
  assumes "rep st (D_set kds) (Some s) G" and "rep st d (Some a) F" and "F \<inter> G = {}"
  shows "\<exists>st' G'. attrset_bind (Some s) p (Some a) st = Ret st' \<and> modifies {s} st st' \<and>
    length (h_vals st') = length (h_vals st) \<and> rep st' (D_set (put_attr p d kds)) (Some s) G' \<and> G' \<subseteq> G \<union> F \<and>
    attrset_lookup (Some s) p st' = Ret (Some a)"
proof -
  from assms(1) obtain es H where c: "cell st s = Some (NIX_VAL_ATTR_SET es)" "entries_rep st kds es H"
    "G = insert s H" "s \<notin> H" by (auto simp: rep_set_iff)
  from entries_rep_put [OF c(2) assms(2)] c(3) assms(3) obtain H' where
    H': "entries_rep st (put_attr p d kds) (put_attr p (Some a) es) H'" "H' \<subseteq> H \<union> F" by blast
  let ?st = "overwrite s (Some (NIX_VAL_ATTR_SET (put_attr p (Some a) es))) st"
  have "s \<notin> H'" using H'(2) c(3,4) assms(3) by auto
  from entries_rep_agree [OF H'(1) agree_overwrite [OF this]] this
  have "rep ?st (D_set (put_attr p d kds)) (Some s) (insert s H')"
    by (auto simp: rep_set_iff cell_overwrite cell_live [OF c(1)])
  moreover have "attrset_bind (Some s) p (Some a) st = Ret ?st"
    using c(1) store_cell [OF c(1)] by (simp add: attrset_bind_def)
  moreover have "insert s H' \<subseteq> G \<union> F" using H'(2) c(3) by auto
  moreover have "attrset_lookup (Some s) p ?st = Ret (Some a)"
    by (simp add: attrset_lookup_def cell_overwrite cell_live [OF c(1)])
  ultimately show ?thesis by (intro exI [of _ ?st] exI [of _ "insert s H'"]) (simp add: modifies_overwrite)
qed

text \<open>An entry that is changed where it is.\<close>

lemma update_entry:
  assumes "rep st (D_set kds) (Some s) G" and "map_of kds p = Some d"
  shows "\<exists>a F. attrset_lookup (Some s) p st = Ret (Some a) \<and> rep st d (Some a) F \<and> F \<subseteq> G \<and>
    (\<forall>st' d' F'. modifies F st st' \<longrightarrow> rep st' d' (Some a) F' \<longrightarrow> F' \<inter> (G - F) = {} \<longrightarrow>
      (\<exists>G'. rep st' (D_set (put_attr p d' kds)) (Some s) G' \<and> G' \<subseteq> G \<union> F'))"
proof -
  from assms(1) obtain es H where c: "cell st s = Some (NIX_VAL_ATTR_SET es)" "entries_rep st kds es H"
    "G = insert s H" "s \<notin> H" by (auto simp: rep_set_iff)
  from entries_rep_split [OF c(2) assms(2)] obtain k1 k2 e1 e2 r G1 F G2 where
    a: "kds = k1 @ (p, d) # k2" "es = e1 @ (p, r) # e2" "p \<notin> fst ` set k1" "map fst e1 = map fst k1"
    "entries_rep st k1 e1 G1" "rep st d r F" "entries_rep st k2 e2 G2"
    "H = G1 \<union> (F \<union> G2)" "G1 \<inter> F = {}" "G1 \<inter> G2 = {}" "F \<inter> G2 = {}" by metis
  from rep_Some [OF a(6)] obtain q where q: "r = Some q" by auto
  have "map_of e1 p = None" using a(3,4) by (metis image_set map_of_eq_None_iff)
  then have "map_of es p = Some (Some q)" using a(2) q by (simp add: map_add_def)
  then have look: "attrset_lookup (Some s) p st = Ret (Some q)" using c(1) by (simp add: attrset_lookup_def)
  have "\<exists>G'. rep st' (D_set (put_attr p d' kds)) (Some s) G' \<and> G' \<subseteq> G \<union> F'"
    if m: "modifies F st st'" and r': "rep st' d' (Some q) F'" and disj: "F' \<inter> (G - F) = {}" for st' d' F'
  proof -
    have st': "entries_rep st' k1 e1 G1" "entries_rep st' k2 e2 G2" "cell st' s = cell st s"
      using a m c(3,4) entries_rep_agree [OF a(5) modifies_agree [OF m entries_rep_live [OF a(5)]]]
        entries_rep_agree [OF a(7) modifies_agree [OF m entries_rep_live [OF a(7)]]]
        modifies_agree [OF m, of "{s}"] cell_live [OF c(1)] by (auto simp: agree_def)
    have "entries_rep st' (k1 @ (p, d') # k2) es (G1 \<union> (F' \<union> G2))"
      unfolding a(2) q using st' r' disj a c(3) by (intro entries_rep_append entries_rep_Cons) auto
    moreover have "s \<notin> G1 \<union> (F' \<union> G2)" using c(3,4) a(8) disj by auto
    ultimately have "rep st' (D_set (put_attr p d' kds)) (Some s) (insert s (G1 \<union> (F' \<union> G2)))"
      using st'(3) c(1) a(1,3) by (auto simp: rep_set_iff put_attr_split)
    then show ?thesis using c(3) a(8) by blast
  qed
  with look a(6,8) c(3) q show ?thesis by blast
qed

lemma rep_empty_set: "cell st a = Some (NIX_VAL_ATTR_SET []) \<Longrightarrow> rep st (D_set []) (Some a) {a}"
  unfolding rep_set_iff entries_rep_def by (intro exI [of _ "[]"] exI [of _ "{}"]) (simp add: reps_Nil)

lemma rep_not_set:
  assumes "rep st d (Some a) F" and "\<nexists>kds. d = D_set kds"
  obtains v where "deref (Some a) st = Ret v" "\<not> is_thunk v" "\<not> is_attr_set v"
  using assms(1)
proof (cases rule: rep_cases)
  case (leaf v)
  with that [of v] show ?thesis by (auto simp: is_thunk_def is_attr_set_def elim!: leaf_value_cases)
next
  case (list ds rs G)
  with that [of "NIX_VAL_LIST rs"] show ?thesis by (simp add: is_thunk_def is_attr_set_def)
qed (use assms(2) in auto)

lemma rep_fresh_disjoint: "rep st d r G \<Longrightarrow> fresh st st' \<inter> G = {}"
  by (fastforce dest: rep_live(1) subsetD)

lemma path_refines:
  assumes "rep st (D_set kds) (Some s) G" and "rep st d (Some a) F" and "F \<inter> G = {}"
  shows "\<exists>st' G'. bind_path_loop (Some s) parts (Some a) st = Ret st' \<and> modifies G st st' \<and>
    rep st' (D_set (put_path parts d kds)) (Some s) G' \<and> G' \<subseteq> G \<union> F \<union> fresh st st'"
  using assms
proof (induction parts d kds arbitrary: s G F st rule: put_path.induct)
  case (1 d kds)
  then show ?case by (intro exI [of _ st] exI [of _ G]) auto
next
  case (2 p d kds)
  have "{s} \<subseteq> G" using rep_Some [OF 2(1)] by simp
  with bind_refines [OF 2, of p] show ?case by (fastforce intro: modifies_mono)
next
  case (3 p q ps d kds)
  note IH = 3(1) and prems = 3(2-4)
  note run = bind_path_loop.simps(3) [of "Some s" p q ps "Some a"]
  show ?case
  proof (cases "\<exists>sub. map_of kds p = Some (D_set sub)")
    case True
    then obtain sub where sub: "map_of kds p = Some (D_set sub)" ..
    from update_entry [OF prems(1) this] obtain a0 F0 where u: "attrset_lookup (Some s) p st = Ret (Some a0)"
      "rep st (D_set sub) (Some a0) F0" "F0 \<subseteq> G"
      "\<And>st' d' F'. modifies F0 st st' \<Longrightarrow> rep st' d' (Some a0) F' \<Longrightarrow> F' \<inter> (G - F0) = {} \<Longrightarrow>
        \<exists>G'. rep st' (D_set (put_attr p d' kds)) (Some s) G' \<and> G' \<subseteq> G \<union> F'" by blast
    have se: "sub_entries (map_of kds p) = sub" and "F \<inter> F0 = {}" using sub u(3) prems(3) by auto
    from IH [unfolded se, OF u(2) prems(2) this(2)] obtain st' G0 where r:
      "bind_path_loop (Some a0) (q # ps) (Some a) st = Ret st'" "modifies F0 st st'"
      "rep st' (D_set (put_path (q # ps) d sub)) (Some a0) G0" "G0 \<subseteq> F0 \<union> F \<union> fresh st st'" by blast
    have "G0 \<inter> (G - F0) = {}" using r(4) prems(3) rep_fresh_disjoint [OF prems(1), of st'] by blast
    from u(4) [OF r(2,3) this] obtain G' where g: "rep st' (D_set (put_path (p # q # ps) d kds)) (Some s) G'"
      "G' \<subseteq> G \<union> G0" by (auto simp: sub)
    from u(2) obtain es where "deref (Some a0) st = Ret (NIX_VAL_ATTR_SET es)" by (auto simp: rep_set_iff)
    with u(1) r(1) have "bind_path_loop (Some s) (p # q # ps) (Some a) st = Ret st'"
      unfolding run by (simp add: Let_def)
    moreover have "G' \<subseteq> G \<union> F \<union> fresh st st'" using g(2) r(4) u(3) by blast
    ultimately show ?thesis using g(1) modifies_mono [OF r(2) u(3)] by blast
  next
    case False
    let ?r = "length (h_vals st)" and ?v = "NIX_VAL_ATTR_SET []"
    obtain st1 where st1: "st1 = snd (nix_value_new ?v st)" by simp
    have m1: "modifies G st st1" "grows st st1" "length (h_vals st1) = Suc ?r"
      by (simp_all add: st1 modifies_new) (simp add: nix_value_new_def)
    have new: "nix_value_new ?v st = (Some ?r, st1)" by (simp add: st1 nix_value_new_def)
    have r1: "rep st1 (D_set kds) (Some s) G" "rep st1 d (Some a) F"
      using prems(1,2) m1(2) by (auto intro: rep_grows)
    have empty: "rep st1 (D_set []) (Some ?r) {?r}"
      using cell_new [of ?v st] by (auto simp: st1 intro: rep_empty_set)
    have live: "G \<subseteq> {..< ?r}" "F \<subseteq> {..< ?r}" using rep_live(1) [OF prems(1)] rep_live(1) [OF prems(2)] by auto
    have s: "s \<in> G" using rep_Some [OF prems(1)] by simp
    from bind_refines [OF r1(1) empty, of p] live obtain st2 G2 where b:
      "attrset_bind (Some s) p (Some ?r) st1 = Ret st2" "modifies {s} st1 st2" "length (h_vals st2) = length (h_vals st1)"
      "rep st2 (D_set (put_attr p (D_set []) kds)) (Some s) G2" "G2 \<subseteq> G \<union> {?r}"
      "attrset_lookup (Some s) p st2 = Ret (Some ?r)" by blast
    have "F \<subseteq> {..< length (h_vals st1)}" "F \<inter> {s} = {}" "{?r} \<subseteq> {..< length (h_vals st1)}" "{?r} \<inter> {s} = {}"
      using live s prems(3) m1(3) by (auto dest: subsetD)
    then have r2: "rep st2 d (Some a) F" "rep st2 (D_set []) (Some ?r) {?r}"
      using rep_agree(1) [OF r1(2) modifies_agree [OF b(2)]] rep_agree(1) [OF empty modifies_agree [OF b(2)]] by auto
    from update_entry [OF b(4), of p "D_set []"] b(6) obtain F0 where u: "rep st2 (D_set []) (Some ?r) F0"
      "\<And>st' d' F'. modifies F0 st2 st' \<Longrightarrow> rep st' d' (Some ?r) F' \<Longrightarrow> F' \<inter> (G2 - F0) = {} \<Longrightarrow>
        \<exists>G'. rep st' (D_set (put_attr p d' (put_attr p (D_set []) kds))) (Some s) G' \<and> G' \<subseteq> G2 \<union> F'" by auto
    from u(1) have F0: "F0 = {?r}" by (auto simp: rep_set_iff entries_rep_def elim: reps_NilE)
    have "F \<inter> {?r} = {}" using live by auto
    have sub: "sub_entries (map_of kds p) = []" using False
      by (cases "map_of kds p" rule: sub_entries.cases) auto
    from IH [of st2 "?r" "{?r}" F] r2 this \<open>F \<inter> {?r} = {}\<close> obtain st3 G3 where c:
      "bind_path_loop (Some ?r) (q # ps) (Some a) st2 = Ret st3" "modifies {?r} st2 st3"
      "rep st3 (D_set (put_path (q # ps) d [])) (Some ?r) G3" "G3 \<subseteq> {?r} \<union> F \<union> fresh st2 st3" by auto
    have "G3 \<inter> (G2 - F0) = {}"
      using c(4) b(5) live prems(3) b(3) m1(3) unfolding F0 by (fastforce dest: subsetD)
    from u(2) [OF _ c(3) this] c(2) obtain G' where g: "rep st3 (D_set (put_path (p # q # ps) d kds)) (Some s) G'"
      "G' \<subseteq> G2 \<union> G3" by (auto simp: F0 sub put_attr_twice)
    have "\<exists>v. attrset_lookup (Some s) p st = Ret None \<or>
      (\<exists>a0. attrset_lookup (Some s) p st = Ret (Some a0) \<and> deref (Some a0) st = Ret v \<and> \<not> is_thunk v \<and> \<not> is_attr_set v)"
    proof (cases "map_of kds p")
      case None
      with rep_attr [OF prems(1), of p] show ?thesis by simp
    next
      case (Some d0)
      with update_entry [OF prems(1)] obtain a0 F1 where
        "attrset_lookup (Some s) p st = Ret (Some a0)" "rep st d0 (Some a0) F1" by blast
      with rep_not_set [OF this(2)] False Some show ?thesis by metis
    qed
    then have "bind_path_loop (Some s) (p # q # ps) (Some a) st = Ret st3"
      unfolding run Let_def new using b(1) c(1)
      by (auto simp: is_thunk_def is_attr_set_def split: nix_value.splits)
    moreover have "modifies G st st3"
    proof -
      have "modifies G st st2" using modifies_trans [OF m1(1) b(2)] s by auto
      from modifies_trans [OF this c(2)] show ?thesis by auto
    qed
    moreover have "G' \<subseteq> G \<union> F \<union> fresh st st3"
      using g(2) c(2,4) b(3,5) m1(3) by (fastforce simp: modifies_def dest: subsetD)
    ultimately show ?thesis using g(1) by blast
  qed
qed

lemma bind_key_refines:
  assumes "rep st (D_set kds) (Some s) G" and "rep st d (Some a) F" and "F \<inter> G = {}"
  shows "\<exists>st' G'. bind_key (Some s) (Some k) (Some a) st = Ret st' \<and> modifies G st st' \<and>
    rep st' (D_set (data_bind k d kds)) (Some s) G' \<and> G' \<subseteq> G \<union> F \<union> fresh st st'"
proof (cases "CHR ''.'' \<in> set k")
  case True
  from assms(1) obtain es where "deref (Some s) st = Ret (NIX_VAL_ATTR_SET es)" by (auto simp: rep_set_iff)
  with True path_refines [OF assms] show ?thesis by (simp add: bind_key_def data_bind_def attrset_bind_path_def)
next
  case False
  have "{s} \<subseteq> G" using rep_Some [OF assms(1)] by simp
  with False bind_refines [OF assms, of k] show ?thesis
    by (fastforce simp: bind_key_def data_bind_def intro: modifies_mono)
qed

lemma entries_compute:
  assumes "\<And>e. e \<in> snd ` set bs \<Longrightarrow> computes env b (evx e) (den b e)" and "in_dir env b st"
    and "grows st st1" and "h_error st1 = h_error st" and "rep st1 (D_set kds) (Some s) G" and "G \<subseteq> fresh st st1"
  shows "refines (bind_entries evx bs (Some s) st1) (den_bindings (map (map_prod id (den b)) bs) kds) st"
  using assms
proof (induction bs arbitrary: st1 kds G)
  case Nil
  then show ?case by (auto intro: refines_value)
next
  case (Cons kb bs)
  obtain k e where kb: "kb = (k, e)" by (cases kb)
  have "refines (evx e st1) (den b e) st1"
    using Cons.prems(1) in_dir_grows [OF Cons.prems(3,2)] by (simp add: computes_def kb)
  then show ?case
    unfolding kb bind_entries.simps list.map map_prod_simp den_bindings.simps id_apply
  proof (rule refines_then, goal_cases)
    case (1 st2)
    from rep_cell [OF Cons.prems(5)] obtain v where v: "cell st1 s = Some v" ..
    have "s \<in> G" using rep_Some [OF Cons.prems(5)] by simp
    with Cons.prems(6) have "length (h_vals st) \<le> s" by auto
    with 1 refines_fail [OF cell_grows [OF v 1(1)] grows_trans [OF Cons.prems(3) 1(1)]] show ?case by simp
  next
    case (2 d a st2 F)
    show ?case
    proof (cases k)
      case None
      then show ?thesis by (simp add: bind_key_def)
    next
      case (Some key)
      have disj: "F \<inter> G = {}" using rep_live(1) [OF Cons.prems(5)] 2(6) by (fastforce dest: subsetD)
      from bind_key_refines [OF rep_grows [OF Cons.prems(5) 2(2)] 2(4) disj, of key] obtain st3 G' where
        b: "bind_key (Some s) (Some key) (Some a) st2 = Ret st3" "modifies G st2 st3"
        "rep st3 (D_set (data_bind key d kds)) (Some s) G'" "G' \<subseteq> G \<union> F \<union> fresh st2 st3" by blast
      have "grows st st3"
        by (rule modifies_grows [OF b(2) grows_trans [OF Cons.prems(3) 2(2)]])
          (use Cons.prems(6) in \<open>fastforce dest: subsetD\<close>)
      moreover have "h_error st3 = h_error st" using b(2) 2(3) Cons.prems(4) by (simp add: modifies_def)
      moreover have "G' \<subseteq> fresh st st3"
        using b(2,4) Cons.prems(3,6) 2(2,6) by (fastforce simp: modifies_def grows_def dest: subsetD)
      ultimately show ?thesis
        using Cons.IH [of st3 "data_bind key d kds" G'] Cons.prems(1,2) b(1,3) Some by simp
    qed
  qed
qed

lemma computes_set:
  assumes "\<And>e. e \<in> snd ` set bs \<Longrightarrow> computes env b (evx e) (den b e)"
  shows "computes env b (eval_attr_set evx bs) (den b (NIX_NODE_ATTR_SET bs))"
  unfolding computes_def
proof (intro allI impI)
  fix st assume st: "in_dir env b st"
  let ?s = "length (h_vals st)" and ?v = "NIX_VAL_ATTR_SET []"
  obtain st1 where st1: "st1 = snd (nix_value_new ?v st)" by simp
  have new: "nix_value_new ?v st = (Some ?s, st1)" by (simp add: st1 nix_value_new_def)
  have g: "grows st st1" "h_error st1 = h_error st" "length (h_vals st1) = Suc ?s"
    by (simp_all add: st1) (simp_all add: nix_value_new_def)
  have "rep st1 (D_set []) (Some ?s) {?s}"
    using cell_new [of ?v st] by (auto simp: st1 intro: rep_empty_set)
  from entries_compute [OF assms st g(1,2) this] g(3) new
  show "refines (eval_attr_set evx bs st) (den b (NIX_NODE_ATTR_SET bs)) st" by (simp add: eval_attr_set_def)
qed

subsection \<open>Expressions\<close>

definition for_large :: "(nat \<Rightarrow> bool) \<Rightarrow> bool" where
  "for_large P \<longleftrightarrow> (\<exists>N. \<forall>n \<ge> N. P n)"

lemma for_large_mp: "for_large P \<Longrightarrow> for_large Q \<Longrightarrow> (\<And>n. P n \<Longrightarrow> Q n \<Longrightarrow> R n) \<Longrightarrow> for_large R"
  unfolding for_large_def by (meson le_trans max.cobounded1 max.cobounded2)

lemma for_large_mono: "for_large P \<Longrightarrow> (\<And>n. P n \<Longrightarrow> Q n) \<Longrightarrow> for_large Q"
  by (auto simp: for_large_def)

lemma for_large_all [simp]: "for_large (\<lambda>n. True)"
  by (simp add: for_large_def)

lemma for_large_ge: "for_large (\<lambda>n. k \<le> n)"
  by (auto simp: for_large_def)

lemma for_large_ball: "(\<And>x. x \<in> set xs \<Longrightarrow> for_large (P x)) \<Longrightarrow> for_large (\<lambda>n. \<forall>x \<in> set xs. P x n)"
proof (induction xs)
  case (Cons x xs)
  then have "for_large (P x)" "for_large (\<lambda>n. \<forall>x \<in> set xs. P x n)" by auto
  then show ?case by (rule for_large_mp) auto
qed simp

lemma for_large_Suc: "for_large (\<lambda>n. P (Suc n)) \<Longrightarrow> for_large P"
  unfolding for_large_def by (metis Suc_le_D Suc_le_mono)

lemma for_large_Suc0: "(\<And>n. P (Suc n)) \<Longrightarrow> for_large P"
  by (rule for_large_Suc) simp

lemma for_large_Suc1: "for_large Q \<Longrightarrow> (\<And>n. Q n \<Longrightarrow> P (Suc n)) \<Longrightarrow> for_large P"
  by (rule for_large_Suc, erule for_large_mono)

lemma for_large_Suc2: "for_large Q \<Longrightarrow> for_large R \<Longrightarrow> (\<And>n. Q n \<Longrightarrow> R n \<Longrightarrow> P (Suc n)) \<Longrightarrow> for_large P"
  by (rule for_large_Suc, erule for_large_mp)

text \<open>An expression is computable if the evaluator computes its data once it has steps enough.\<close>

definition computable ::
    "(string \<Rightarrow> bytes option) \<Rightarrow> (string \<Rightarrow> bool) \<Rightarrow> string option \<Rightarrow> nix_ast \<Rightarrow> nat \<Rightarrow> bool" where
  "computable files exists b e n \<longleftrightarrow>
     (\<forall>c tr. computes (Some c) b (nix_eval_inner files exists n (Some c) tr e) (den b e))"

text \<open>One step of the evaluator, for each form.\<close>

lemma inner_step:
    "nix_eval_inner files exists (Suc n) (Some c) tr (NIX_NODE_INT i) = new_value (NIX_VAL_INT i)"
    "nix_eval_inner files exists (Suc n) (Some c) tr (NIX_NODE_BOOL y0) = new_value (NIX_VAL_BOOL y0)"
    "nix_eval_inner files exists (Suc n) (Some c) tr (NIX_NODE_NULL) = new_value NIX_VAL_NULL"
    "nix_eval_inner files exists (Suc n) (Some c) tr (NIX_NODE_PATH p) = eval_path (Some c) p"
    "nix_eval_inner files exists (Suc n) (Some c) tr (NIX_NODE_STRING ps) = string_parts (nix_eval_inner files exists n (Some c) tr) ps []"
    "nix_eval_inner files exists (Suc n) (Some c) tr (NIX_NODE_ATTR_SET bs) = eval_attr_set (nix_eval_inner files exists n (Some c) tr) bs"
    "nix_eval_inner files exists (Suc n) (Some c) tr (NIX_NODE_LIST es) = eval_list (nix_eval_inner files exists n (Some c) tr) es"
    "nix_eval_inner files exists (Suc n) (Some c) tr (NIX_NODE_SELECT e a) = eval_select (nix_eval_inner files exists n) (Some c) tr e a"
    "nix_eval_inner files exists (Suc n) (Some c) tr (NIX_NODE_HAS_ATTR e a) = eval_has_attr (nix_eval_inner files exists n (Some c) tr) e a"
    "nix_eval_inner files exists (Suc n) (Some c) tr (NIX_NODE_OR_DEFAULT e a d) = eval_or_default (nix_eval_inner files exists n (Some c) tr) e a d"
    "nix_eval_inner files exists (Suc n) (Some c) tr (NIX_NODE_IF d x y) = eval_if (nix_eval_inner files exists n (Some c) tr) d x y"
    "nix_eval_inner files exists (Suc n) (Some c) tr (NIX_NODE_ASSERT d e) = eval_assert (nix_eval_inner files exists n (Some c) tr) d e"
    "nix_eval_inner files exists (Suc n) (Some c) tr (NIX_NODE_BINOP op l r) = eval_binop n (nix_eval_inner files exists n (Some c) tr) op l r"
    "nix_eval_inner files exists (Suc n) (Some c) tr (NIX_NODE_UNARY_NOT e) = eval_not (nix_eval_inner files exists n (Some c) tr) e"
    "nix_eval_inner files exists (Suc n) (Some c) tr (NIX_NODE_NEGATE e) = eval_negate (nix_eval_inner files exists n (Some c) tr) e"
  by (simp_all add: eval_body_def fun_eq_iff)

lemma computable_all:
  assumes "variable_free e"
  shows "for_large (computable files exists b e)"
  using assms
proof (induction e)
  case (NIX_NODE_PATH p)
  have "computes env b (eval_path env p) (den b (NIX_NODE_PATH p))" for env
    unfolding computes_def
  proof (intro allI impI)
    fix st assume "in_dir env b st"
    then have "eval_path env p st = new_value (NIX_VAL_PATH (resolve_path b p)) st"
      by (auto simp: in_dir_def eval_path_def)
    then show "refines (eval_path env p st) (den b (NIX_NODE_PATH p)) st" by (simp add: refines_new)
  qed
  then show ?case by - (rule for_large_Suc0, simp add: computable_def inner_step)
next
  case (NIX_NODE_STRING ps)
  have "for_large (\<lambda>n. \<forall>p \<in> set ps. case p of Inl s \<Rightarrow> True | Inr e \<Rightarrow> computable files exists b e n)"
  proof (rule for_large_ball)
    fix p assume p: "p \<in> set ps"
    show "for_large (\<lambda>n. case p of Inl s \<Rightarrow> True | Inr e \<Rightarrow> computable files exists b e n)"
    proof (cases p)
      case (Inr e)
      with p NIX_NODE_STRING(2) have "variable_free e" by fastforce
      with NIX_NODE_STRING(1) [OF p, of e] Inr show ?thesis by (simp add: setr.simps)
    qed simp
  qed
  then show ?case
    by (rule for_large_Suc1) (auto simp: computable_def inner_step intro!: computes_parts)
next
  case (NIX_NODE_ATTR_SET bs)
  have "for_large (\<lambda>n. \<forall>p \<in> set bs. computable files exists b (snd p) n)"
  proof (rule for_large_ball)
    fix p assume p: "p \<in> set bs"
    with NIX_NODE_ATTR_SET(2) have "variable_free (snd p)" by simp
    with NIX_NODE_ATTR_SET(1) [OF p, of "snd p"] show "for_large (computable files exists b (snd p))"
      by (simp add: snds.simps)
  qed
  then show ?case
    by (rule for_large_Suc1) (auto simp: computable_def inner_step simp del: den.simps intro!: computes_set)
next
  case (NIX_NODE_LIST es)
  have "for_large (\<lambda>n. \<forall>e \<in> set es. computable files exists b e n)"
    by (rule for_large_ball) (use NIX_NODE_LIST in simp)
  then show ?case
    by (rule for_large_Suc1) (auto simp: computable_def inner_step simp del: den.simps intro!: computes_list)
next
  case (NIX_NODE_SELECT e a)
  then have "for_large (computable files exists b e)" by simp
  then show ?case
    by (rule for_large_Suc1) (simp add: computable_def inner_step computes_select)
next
  case (NIX_NODE_HAS_ATTR e a)
  then have "for_large (computable files exists b e)" by simp
  then show ?case
    by (rule for_large_Suc1) (simp only: computable_def inner_step den.simps computes_has_attr simp_thms)
next
  case (NIX_NODE_OR_DEFAULT e a d)
  then have "for_large (computable files exists b e)" "for_large (computable files exists b d)" by simp_all
  then show ?case
    by (rule for_large_Suc2) (simp add: computable_def inner_step computes_or_default)
next
  case (NIX_NODE_IF c x y)
  then have "for_large (computable files exists b c)" "for_large (computable files exists b x)"
    "for_large (computable files exists b y)" by simp_all
  then have "for_large (\<lambda>n. computable files exists b c n \<and> computable files exists b x n)"
    "for_large (computable files exists b y)" by (blast intro: for_large_mp)+
  then show ?case
    by (rule for_large_Suc2) (simp add: computable_def inner_step computes_if)
next
  case (NIX_NODE_ASSERT c e)
  then have "for_large (computable files exists b c)" "for_large (computable files exists b e)" by simp_all
  then show ?case
    by (rule for_large_Suc2) (simp add: computable_def inner_step computes_assert)
next
  case (NIX_NODE_BINOP op l r)
  then have "for_large (computable files exists b l)" "for_large (computable files exists b r)" by simp_all
  then have lr: "for_large (\<lambda>n. computable files exists b l n \<and> computable files exists b r n)"
    by (rule for_large_mp) simp
  have "for_large (\<lambda>n. \<forall>d. den b l = Ret (Some d) \<longrightarrow> size d < n)"
  proof (cases "\<exists>d. den b l = Ret (Some d)")
    case True
    then obtain d where "den b l = Ret (Some d)" ..
    then show ?thesis by (auto intro!: for_large_mono [OF for_large_ge [of "Suc (size d)"]])
  qed simp
  with lr show ?case
    by (rule for_large_Suc2) (simp add: computable_def inner_step computes_binop)
next
  case (NIX_NODE_UNARY_NOT e)
  then have "for_large (computable files exists b e)" by simp
  then show ?case
    by (rule for_large_Suc1) (simp add: computable_def inner_step computes_not)
next
  case (NIX_NODE_NEGATE e)
  then have "for_large (computable files exists b e)" by simp
  then show ?case
    by (rule for_large_Suc1) (simp only: computable_def inner_step den.simps computes_negate simp_thms)
next
  case (NIX_NODE_INT i)
  show ?case by (rule for_large_Suc0) (simp add: computable_def inner_step computes_new)
next
  case (NIX_NODE_BOOL x)
  show ?case by (rule for_large_Suc0) (simp add: computable_def inner_step computes_new)
next
  case NIX_NODE_NULL
  show ?case by (rule for_large_Suc0) (simp add: computable_def inner_step computes_new)
qed simp_all

end
