(* ===== verification/Nix_File.thy ===== *)
theory Nix_File
  imports Nix_Refine
begin

text \<open>
  JSON output and whole files: a file that is data, a configuration whose body is data, and
  where the evaluator touches memory it has freed, among them two examples of the manual.
\<close>


subsection \<open>Output\<close>

fun json_lines :: "nat \<Rightarrow> string list \<Rightarrow> string" where
  "json_lines indent [] = []"
| "json_lines indent (t # ts) = json_indent indent @ t @ (if ts \<noteq> [] then '','' else []) @ [c_nl] @ json_lines indent ts"

definition json_text :: "char \<Rightarrow> char \<Rightarrow> nat \<Rightarrow> string list \<Rightarrow> string" where
  "json_text open close indent ts =
     [open] @ (if ts = [] then [] else [c_nl] @ json_lines (indent + 2) ts @ json_indent indent) @ [close]"

primrec data_json :: "nix_data \<Rightarrow> nat \<Rightarrow> string" where
  "data_json D_null indent = ''null''"
| "data_json (D_bool b) indent = (if b then ''true'' else ''false'')"
| "data_json (D_int i) indent = dec_int_str (sint i)"
| "data_json (D_string s) indent = json_escape_string s"
| "data_json (D_path s) indent = json_escape_string s"
| "data_json (D_list ds) indent = json_text CHR ''['' CHR '']'' indent (map (\<lambda>d. data_json d (indent + 2)) ds)"
| "data_json (D_set kds) indent = json_text CHR ''{'' CHR ''}'' indent
     (map (\<lambda>(k, j). json_escape_string k @ '': '' @ j (indent + 2)) (map (map_prod id data_json) kds))"

lemma data_json_set: "data_json (D_set kds) indent = json_text CHR ''{'' CHR ''}'' indent
    (map (\<lambda>(k, d). json_escape_string k @ '': '' @ data_json d (indent + 2)) kds)"
  by (simp add: comp_def case_prod_unfold)

lemma json_items_reps:
  assumes "\<And>d r F. d \<in> set ds \<Longrightarrow> rep st d r F \<Longrightarrow> ser r = Ret (f d)" and "reps st ds rs F"
  shows "json_items ser indent rs = Ret (json_lines indent (map f ds))"
  using assms
proof (induction ds arbitrary: rs F)
  case (Cons d ds)
  from Cons.prems(2) obtain r rs1 F1 F2 where a: "rs = r # rs1" "rep st d r F1" "reps st ds rs1 F2"
    by (auto elim: reps_ConsE)
  with Cons.prems(1) [OF _ a(2)] Cons.IH [OF Cons.prems(1) a(3)] reps_length [OF a(3)] show ?case by auto
qed (auto elim: reps_NilE)

lemma json_items_entries:
  assumes "\<And>k d r F. d \<in> snd ` set kds \<Longrightarrow> rep st d r F \<Longrightarrow> ser (k, r) = Ret (f (k, d))"
    and "entries_rep st kds es F"
  shows "json_items ser indent es = Ret (json_lines indent (map f kds))"
  using assms
proof (induction kds arbitrary: es F)
  case Nil
  then show ?case by (simp add: entries_rep_def)
next
  case (Cons kd kds)
  obtain k d where kd: "kd = (k, d)" by (cases kd)
  from Cons.prems(2) obtain r es1 F1 F2 where a: "es = (k, r) # es1" "rep st d r F1" "entries_rep st kds es1 F2"
    unfolding entries_rep_def kd by (cases es) (auto elim!: reps_ConsE)
  have "es1 = [] \<longleftrightarrow> kds = []" using a(3) by (auto simp: entries_rep_def)
  with a Cons.prems(1) [OF _ a(2), of k] Cons.IH [OF Cons.prems(1) a(3)] show ?case by (auto simp: kd)
qed

lemma serialize_rep:
  assumes "rep st d r F" and "size d \<le> n"
  shows "json_serialize (Suc n) st indent r = Ret (data_json d indent)"
  using assms
proof (induction n arbitrary: d r F indent)
  case 0
  from rep_Some [OF 0(1)] obtain a where r: "r = Some a" by auto
  with 0 have "rep st d (Some a) F" "size d = 0" by auto
  then show ?case by (cases rule: rep_cases) (auto simp: r elim!: leaf_value_cases)
next
  case (Suc n)
  from rep_Some [OF Suc.prems(1)] obtain a where r: "r = Some a" by auto
  from Suc.prems(1) [unfolded r] show ?case
  proof (cases rule: rep_cases)
    case (leaf v)
    then show ?thesis by (auto simp: r elim!: leaf_value_cases)
  next
    case (list ds rs G)
    have "json_items (json_serialize (Suc n) st (indent + 2)) (indent + 2) rs
        = Ret (json_lines (indent + 2) (map (\<lambda>d. data_json d (indent + 2)) ds))"
    proof (rule json_items_reps [OF _ list(3)])
      fix d r F assume "d \<in> set ds" "rep st d r F"
      with size_item [of d ds] Suc.prems(2) list(1) Suc.IH [of d r F "indent + 2"]
      show "json_serialize (Suc n) st (indent + 2) r = Ret (data_json d (indent + 2))" by simp
    qed
    with list(1,2) reps_length [OF list(3)] show ?thesis
      unfolding r json_serialize.simps(2) [of "Suc n"] by (auto simp: json_block_def json_text_def)
  next
    case (aset kds es G)
    have "json_items (\<lambda>(k, r'). andthen (json_serialize (Suc n) st (indent + 2) r') (\<lambda>t.
        Ret (json_escape_string k @ '': '' @ t))) (indent + 2) es
      = Ret (json_lines (indent + 2) (map (\<lambda>(k, d). json_escape_string k @ '': '' @ data_json d (indent + 2)) kds))"
    proof (rule json_items_entries [of kds st])
      fix k d r F assume "d \<in> snd ` set kds" "rep st d r F"
      with size_entry [of d kds] Suc.prems(2) aset(1) Suc.IH [of d r F "indent + 2"]
      have "json_serialize (Suc n) st (indent + 2) r = Ret (data_json d (indent + 2))" by simp
      then show "(case (k, r) of (k, r') \<Rightarrow> andthen (json_serialize (Suc n) st (indent + 2) r') (\<lambda>t.
          Ret (json_escape_string k @ '': '' @ t)))
        = Ret (case (k, d) of (k, d) \<Rightarrow> json_escape_string k @ '': '' @ data_json d (indent + 2))" by simp
    next
      show "entries_rep st kds es G" using aset(3,4) by (simp add: entries_rep_def)
    qed
    moreover have "es = [] \<longleftrightarrow> kds = []" using aset(3) by auto
    ultimately show ?thesis using aset(1,2)
      unfolding r json_serialize.simps(2) [of "Suc n"] aset(1) data_json_set
      by (simp add: json_block_def json_text_def del: json_serialize.simps)
  qed
qed

subsection \<open>Files\<close>

lemma variable_free_not_NULL: "variable_free e \<Longrightarrow> e \<noteq> NULL"
  by auto

lemma env_new:
  obtains st where "nix_env_new base \<lparr>h_vals = [], h_envs = [], h_trees = [True], h_error = msg\<rparr> = Ret (Some 0, st)"
    "in_dir (Some 0) base st" "h_error st = msg" "tree_alive 0 st"
  by (auto simp: nix_env_new_def Let_def in_dir_def env_at_def tree_alive_def)

lemma rep_deref: "rep st d (Some a) F \<Longrightarrow> \<exists>v. deref (Some a) st = Ret v \<and> (\<forall>c tr p b. v \<noteq> NIX_VAL_LAMBDA c tr p b)"
  by (erule rep_cases) (auto elim!: leaf_value_cases)

lemma json_rep:
  assumes "rep st d r F" and "size d < n"
  shows "nix_to_json n st r = Ret (data_json d 0)"
  using serialize_rep [OF assms(1), of "n - 1" 0] assms(2) by (simp add: nix_to_json_def del: json_serialize.simps)

text \<open>What a file gives whose data are \<open>D\<close>: the JSON text with the parser's message, an error or a crash.\<close>

definition file_result :: "nix_data option run \<Rightarrow> string option \<Rightarrow> (string option \<times> string option) run \<Rightarrow> bool" where
  "file_result D msg R \<longleftrightarrow>
     (case D of
        Ret (Some d) \<Rightarrow> R = Ret (Some (data_json d 0), msg)
      | Ret None \<Rightarrow> \<exists>err. R = Ret (None, Some err)
      | _ \<Rightarrow> R = Crash)"

lemma file_result_refines:
  assumes "refines R D st" and "h_error st = msg" and "\<And>d. D = Ret (Some d) \<Longrightarrow> size d < n"
  shows "file_result D msg (andthen R (\<lambda>(val, st1). if val = None then Ret (None, h_error st1)
      else andthen (nix_to_json n st1 val) (\<lambda>json. Ret (Some json, h_error st1))))"
proof (cases D)
  case (Ret x)
  show ?thesis
  proof (cases x)
    case None
    with Ret assms(1) show ?thesis by (auto simp: refines_def file_result_def)
  next
    case (Some d)
    with Ret assms(1) obtain r st' F where r: "R = Ret (r, st')" "h_error st' = h_error st" "rep st' d r F"
      by (auto simp: refines_def)
    from rep_Some [OF r(3)] obtain a where "r = Some a" by auto
    with r json_rep [OF r(3), of n] assms(2,3) Ret Some show ?thesis by (simp add: file_result_def)
  qed
qed (use assms(1) in \<open>auto simp: refines_def file_result_def\<close>)

text \<open>A file whose value is no function.\<close>

lemma eval_source_data:
  assumes e: "variable_free e" and n: "computable files exists base e n" "\<And>d. den base e = Ret (Some d) \<Longrightarrow> size d < n"
  shows "file_result (den base e) msg (eval_source n (nix_eval_inner files exists n) base e msg)"
proof -
  obtain st where st: "nix_env_new base \<lparr>h_vals = [], h_envs = [], h_trees = [True], h_error = msg\<rparr> = Ret (Some 0, st)"
    "in_dir (Some 0) base st" "h_error st = msg" by (rule env_new)
  have r: "refines (nix_eval_inner files exists n (Some 0) 0 e st) (den base e) st"
    using n(1) st(2) by (simp add: computable_def computes_def)
  have "andthen (nix_eval_inner files exists n (Some 0) 0 e st) (\<lambda>(val, st1).
       if val = None then Ret (None, h_error st1)
       else andthen (deref val st1) (\<lambda>v.
         andthen (case v of
             NIX_VAL_LAMBDA closure tr param body \<Rightarrow>
               apply_config (nix_eval_inner files exists n) closure tr param body val st1
           | _ \<Rightarrow> Ret (Some val, st1)) (\<lambda>(final, st2).
         case final of
           None \<Rightarrow> Ret (None, h_error st2)
         | Some r \<Rightarrow> andthen (nix_to_json n st2 r) (\<lambda>json. Ret (Some json, h_error st2)))))
    = andthen (nix_eval_inner files exists n (Some 0) 0 e st) (\<lambda>(val, st1).
       if val = None then Ret (None, h_error st1)
       else andthen (nix_to_json n st1 val) (\<lambda>json. Ret (Some json, h_error st1)))"
  proof (cases "den base e")
    case (Ret x)
    show ?thesis
    proof (cases x)
      case None
      with Ret r show ?thesis by (auto simp: refines_def)
    next
      case (Some d)
      with Ret r obtain q st' F where q: "nix_eval_inner files exists n (Some 0) 0 e st = Ret (q, st')" "rep st' d q F"
        by (auto simp: refines_def)
      from rep_Some [OF q(2)] obtain a where a: "q = Some a" by auto
      from rep_deref [OF q(2) [unfolded a]] obtain v where
        "deref (Some a) st' = Ret v" "\<forall>c tr p b. v \<noteq> NIX_VAL_LAMBDA c tr p b" by blast
      with q(1) a show ?thesis by (cases v) auto
    qed
  qed (use r in \<open>auto simp: refines_def\<close>)
  with file_result_refines [OF r st(3) n(2)] variable_free_not_NULL [OF e] st(1) show ?thesis
    by (simp add: eval_source_def)
qed

lemma size_for_large: "for_large (\<lambda>n. \<forall>d. D = Ret (Some d) \<longrightarrow> size d < n)"
proof (cases "\<exists>d. D = Ret (Some d)")
  case True
  then obtain d where "D = Ret (Some d)" ..
  then show ?thesis by (auto intro!: for_large_mono [OF for_large_ge [of "Suc (size d)"]])
qed simp

text \<open>
  C2.  A file that refers to no variable, builtin or other file evaluates as its denotation says:
  given steps enough, the JSON text is the one of its data, an error of the denotation is an error
  of the evaluator, and only what the denotation calls a crash (a set or list in a string, the
  overflowing division, a dotted key in \<open>rec\<close>) touches freed memory.
\<close>

theorem data_file_evaluates:
  assumes "nix_parse source = Ret (e, msg)" and "variable_free e"
  shows "\<exists>N. \<forall>n \<ge> N. file_result (den base e) (map_option (\<lambda>(l, c, m). m) msg)
    (nix_eval_file_with_base files exists n source base)"
proof -
  have "for_large (computable files exists base e)" by (rule computable_all [OF assms(2)])
  moreover have "for_large (\<lambda>n. \<forall>d. den base e = Ret (Some d) \<longrightarrow> size d < n)" by (rule size_for_large)
  ultimately have "for_large (\<lambda>n. file_result (den base e) (map_option (\<lambda>(l, c, m). m) msg)
    (nix_eval_file_with_base files exists n source base))"
    by (rule for_large_mp) (simp add: nix_eval_file_with_base_def assms(1) eval_source_data [OF assms(2)])
  then show ?thesis by (simp add: for_large_def)
qed

theorem data_file_evaluates_witness:
  "\<exists>n. nix_eval_file_with_base (\<lambda>_. None) (\<lambda>_. False) n ''{ a = [ 1 2 ] ++ [ 3 ]; b.c = if 1 < 2 then true else null; }'' None
     = Ret (Some (data_json (D_set [(''a'', D_list [D_int 1, D_int 2, D_int 3]), (''b'', D_set [(''c'', D_bool True)])]) 0), None)"
proof -
  let ?e = "NIX_NODE_ATTR_SET
    [(Some ''a'', NIX_NODE_BINOP NIX_TOK_PLUS_PLUS (NIX_NODE_LIST [NIX_NODE_INT 1, NIX_NODE_INT 2]) (NIX_NODE_LIST [NIX_NODE_INT 3])),
     (Some ''b.c'', NIX_NODE_IF (NIX_NODE_BINOP NIX_TOK_LT (NIX_NODE_INT 1) (NIX_NODE_INT 2)) (NIX_NODE_BOOL True) NIX_NODE_NULL)]"
  have "nix_parse ''{ a = [ 1 2 ] ++ [ 3 ]; b.c = if 1 < 2 then true else null; }'' = Ret (?e, None)" by code_simp
  moreover have "den None ?e = Ret (Some (D_set [(''a'', D_list [D_int 1, D_int 2, D_int 3]), (''b'', D_set [(''c'', D_bool True)])]))"
    by code_simp
  ultimately show ?thesis
    using data_file_evaluates [of _ ?e None None "\<lambda>_. None" "\<lambda>_. False"] by (auto simp: file_result_def)
qed

subsection \<open>Configurations\<close>

lemma andthen_assoc: "andthen (andthen R f) g = andthen R (\<lambda>x. andthen (f x) g)"
  by (cases R) auto

text \<open>States that differ in their error only.\<close>

lemma cell_error [simp]: "cell (st\<lparr>h_error := m\<rparr>) = cell st"
  by (simp add: cell_def fun_eq_iff)

lemma rep_error: "rep st d r F \<Longrightarrow> rep (st\<lparr>h_error := m\<rparr>) d r F"
  by (erule rep_agree) (simp add: agree_def)

lemma grows_error [simp]: "grows (st\<lparr>h_error := m\<rparr>) st1 = grows st st1" "grows st (st1\<lparr>h_error := m\<rparr>) = grows st st1"
  by (simp_all add: grows_def)

lemma in_dir_envs: "h_envs st' = h_envs st \<Longrightarrow> in_dir env b st' = in_dir env b st"
  by (simp add: in_dir_def env_at_def split: option.split)

lemma in_dir_error [simp]: "in_dir env b (st\<lparr>h_error := m\<rparr>) = in_dir env b st"
  by (rule in_dir_envs) simp

text \<open>The bindings of a configuration, each with an error of its own.\<close>

lemma config_bindings_compute:
  assumes "\<And>e. e \<in> snd ` set bs \<Longrightarrow> computes env b (evx e) (den b e)" and "in_dir env b st"
    and "grows st st1" and "h_error st1 = h_error st" and "rep st1 (D_set kds) (Some s) G" and "G \<subseteq> fresh st st1"
  shows "refines (andthen (config_bindings evx bs (Some s) st1) (\<lambda>(ok, st2). Ret (if ok then Some s else None, st2)))
    (den_bindings (map (map_prod id (den b)) bs) kds) st"
  using assms
proof (induction bs arbitrary: st1 kds G)
  case Nil
  then show ?case by (auto intro: refines_value)
next
  case (Cons kb bs)
  obtain k e where kb: "kb = (k, e)" by (cases kb)
  let ?st1 = "st1\<lparr>h_error := None\<rparr>"
  have "refines (evx e ?st1) (den b e) ?st1"
    using Cons.prems(1) in_dir_grows [OF Cons.prems(3,2)] by (simp add: computes_def kb)
  then show ?case
    unfolding kb config_bindings.simps with_local_error_def andthen_assoc list.map map_prod_simp den_bindings.simps id_apply
  proof (rule refines_then, goal_cases)
    case (1 st2)
    then show ?case using grows_trans [OF Cons.prems(3), of st2] by (auto intro!: refines_none)
  next
    case (2 d a st2 F)
    let ?st2 = "st2\<lparr>h_error := h_error st1\<rparr>"
    have g: "grows st1 ?st2" "h_error ?st2 = h_error st1" using 2(2) by simp_all
    show ?case
    proof (cases k)
      case None
      with 2(3) show ?thesis by (simp add: bind_key_def)
    next
      case (Some key)
      have disj: "F \<inter> G = {}" using rep_live(1) [OF Cons.prems(5)] 2(6) by (fastforce dest: subsetD)
      from bind_key_refines [OF rep_grows [OF Cons.prems(5) g(1)] rep_error [OF 2(4)] disj, of key] obtain st3 G' where
        b: "bind_key (Some s) (Some key) (Some a) ?st2 = Ret st3" "modifies G ?st2 st3"
        "rep st3 (D_set (data_bind key d kds)) (Some s) G'" "G' \<subseteq> G \<union> F \<union> fresh ?st2 st3" by blast
      have "grows st st3"
        by (rule modifies_grows [OF b(2) grows_trans [OF Cons.prems(3) g(1)]])
          (use Cons.prems(6) in \<open>fastforce dest: subsetD\<close>)
      moreover have "h_error st3 = h_error st" using b(2) Cons.prems(4) by (simp add: modifies_def)
      moreover have "G' \<subseteq> fresh st st3"
        using b(2,4) Cons.prems(3,6) 2(2,6) by (fastforce simp: modifies_def grows_def dest: subsetD)
      ultimately show ?thesis
        using Cons.IH [of st3 "data_bind key d kds" G'] Cons.prems(1,2) b(1,3) Some 2(3) by simp
    qed
  qed
qed

text \<open>The arguments of a configuration that names them without defaults.\<close>

definition plain_formals :: "(string option \<times> nix_ast) list \<Rightarrow> bool" where
  "plain_formals fs \<longleftrightarrow> (\<forall>(k, d) \<in> set fs. k \<noteq> None \<and> (d = NULL \<or> d = NIX_NODE_NULL))"

lemma bind_config_formals_plain:
  assumes "plain_formals fs" and "cell st a = Some (NIX_VAL_ATTR_SET es)" and "in_dir env b st" and "env \<noteq> None"
  shows "\<exists>st'. bind_config_formals ev tr env fs (Some a) st = Ret st' \<and> in_dir env b st' \<and> h_error st' = h_error st \<and>
    (\<exists>vs. h_vals st' = h_vals st @ vs)"
  using assms
proof (induction fs arbitrary: st)
  case (Cons f fs)
  obtain k d where f: "f = (Some k, d)" "d = NULL \<or> d = NIX_NODE_NULL" using Cons.prems(1)
    by (cases f) (auto simp: plain_formals_def)
  have fs: "plain_formals fs" using Cons.prems(1) by (simp add: plain_formals_def)
  obtain e where env: "env = Some e" using Cons.prems(4) by auto
  define found where "found = (case map_of es k of Some r \<Rightarrow> r | None \<Rightarrow> None)"
  have look: "attrset_lookup (Some a) k st = Ret found" using Cons.prems(2) by (simp add: attrset_lookup_def found_def)
  obtain pv st2 where new: "(if found = None then nix_value_new NIX_VAL_NULL st else (found, st)) = (pv, st2)"
    by (cases "if found = None then nix_value_new NIX_VAL_NULL st else (found, st)") auto
  then have st2: "\<exists>vs. h_vals st2 = h_vals st @ vs" "h_envs st2 = h_envs st" "h_error st2 = h_error st"
    by (auto simp: nix_value_new_def split: if_splits)
  from Cons.prems(3) obtain en where en: "env_at (Some e) st2 = Ret en" "e_base_dir en = b" "e < length (h_envs st2)"
    using st2(2) unfolding in_dir_def env_at_def env by (auto split: if_splits option.splits)
  let ?st3 = "set_env (Some e) (en\<lparr>e_entries := put_attr k pv (e_entries en)\<rparr>) st2"
  have bind: "nix_env_bind env (Some k) pv st2 = Ret ?st3" using en by (simp add: nix_env_bind_def env)
  have "cell ?st3 a = Some (NIX_VAL_ATTR_SET es)" using Cons.prems(2) st2(1) cell_live [OF Cons.prems(2)]
    by (auto simp: cell_def set_env_def nth_append)
  moreover have "in_dir env b ?st3" using en by (simp add: in_dir_def env_at_def set_env_def env)
  ultimately obtain st' where st': "bind_config_formals ev tr env fs (Some a) ?st3 = Ret st'" "in_dir env b st'"
    "h_error st' = h_error ?st3" "\<exists>vs. h_vals st' = h_vals ?st3 @ vs"
    using Cons.IH [OF fs _ _ Cons.prems(4)] by blast
  have "bind_config_formals ev tr env (f # fs) (Some a) st = Ret st'"
    using look f(2) new bind st'(1) by (auto simp: f(1))
  with st' st2 show ?case by (auto simp: set_env_def)
qed auto

lemma nth_truncate: "grows (st\<lparr>h_vals := take n (h_vals st)\<rparr>) st"
  by (simp add: grows_def)

lemma env_push:
  assumes "in_dir env b st"
  obtains c st' where "nix_env_push env st = Ret (Some c, st')" "in_dir (Some c) b st'" "h_vals st' = h_vals st"
    "h_error st' = h_error st"
proof -
  from assms obtain en where "env_at env st = Ret en" "e_base_dir en = b" by (auto simp: in_dir_def)
  moreover from this have "env \<noteq> None" by (cases env) (auto simp: env_at_def)
  ultimately show ?thesis
    by (intro that [of "length (h_envs st)"
          "st\<lparr>h_envs := h_envs st @ [Some \<lparr>e_entries = [], e_parent = env, e_base_dir = b\<rparr>]\<rparr>"])
      (auto simp: nix_env_push_def Let_def in_dir_def env_at_def nth_append)
qed

lemma env_free: "in_dir (Some c) b st \<Longrightarrow> \<exists>st'. nix_env_free (Some c) st = Ret st' \<and> h_vals st' = h_vals st \<and> h_error st' = h_error st"
  by (auto simp: in_dir_def nix_env_free_def)

lemma cell_vals: "h_vals st' = h_vals st \<Longrightarrow> cell st' = cell st"
  by (simp add: cell_def fun_eq_iff)

text \<open>Applying the function of a configuration gives the data of its body.\<close>

lemma apply_config_data:
  assumes fs: "plain_formals fs" and env: "in_dir env b st"
    and ev: "\<And>c e. e \<in> snd ` set bs \<Longrightarrow> computes (Some c) b (ev (Some c) tr e) (den b e)"
    and n: "\<And>d. den b (NIX_NODE_ATTR_SET bs) = Ret (Some d) \<Longrightarrow> size d < n"
  shows "file_result (den b (NIX_NODE_ATTR_SET bs)) (h_error st)
    (andthen (apply_config ev env tr (NIX_NODE_ATTR_SET fs) (NIX_NODE_ATTR_SET bs) val st) (\<lambda>(final, st2).
      case final of None \<Rightarrow> Ret (None, h_error st2)
      | Some r \<Rightarrow> andthen (nix_to_json n st2 r) (\<lambda>json. Ret (Some json, h_error st2))))"
proof -
  let ?s = "length (h_vals st)"
  let ?st3 = "st\<lparr>h_vals := h_vals st @ [Some (NIX_VAL_ATTR_SET []), Some (NIX_VAL_THUNK None 0 NULL (Some ?s)),
    Some (NIX_VAL_ATTR_SET [(''config'', Some (Suc ?s))])]\<rparr>"
  have "in_dir env b ?st3" using env by (simp add: in_dir_envs [of ?st3 st])
  from env_push [OF this] obtain c st4 where st4: "nix_env_push env ?st3 = Ret (Some c, st4)" "in_dir (Some c) b st4"
    "h_vals st4 = h_vals ?st3" "h_error st4 = h_error st" by auto
  have "cell st4 (Suc (Suc ?s)) = Some (NIX_VAL_ATTR_SET [(''config'', Some (Suc ?s))])"
    using st4(3) by (simp add: cell_def nth_append)
  from bind_config_formals_plain [OF fs this st4(2) option.distinct(2), of ev tr] obtain st5 vs where st5:
    "bind_config_formals ev tr (Some c) fs (Some (Suc (Suc ?s))) st4 = Ret st5" "in_dir (Some c) b st5"
    "h_error st5 = h_error st4" "h_vals st5 = h_vals st4 @ vs" by blast
  let ?base = "st5\<lparr>h_vals := take ?s (h_vals st5)\<rparr>"
  have base: "in_dir (Some c) b ?base" using st5(2) by (simp add: in_dir_envs [of ?base st5])
  have s: "cell st5 ?s = Some (NIX_VAL_ATTR_SET [])" using st5(4) st4(3) by (simp add: cell_def nth_append)
  have len: "length (h_vals ?base) = ?s" "?s < length (h_vals st5)" using st5(4) st4(3) by simp_all
  let ?R = "andthen (config_bindings (ev (Some c) tr) bs (Some ?s) st5) (\<lambda>(ok, st2). Ret (if ok then Some ?s else None, st2))"
  have R: "refines ?R (den b (NIX_NODE_ATTR_SET bs)) ?base"
    using config_bindings_compute [OF ev base nth_truncate _ rep_empty_set [OF s]] len by simp
  have app: "apply_config ev env tr (NIX_NODE_ATTR_SET fs) (NIX_NODE_ATTR_SET bs) val st =
    andthen (config_bindings (ev (Some c) tr) bs (Some ?s) st5) (\<lambda>(ok, st6).
      andthen (nix_env_free (Some c) st6) (\<lambda>st7. Ret (if ok then Some (Some ?s) else None, st7)))"
    using st4(1) st5(1) by (simp add: apply_config_def nix_value_new_def)
  show ?thesis
  proof (cases "config_bindings (ev (Some c) tr) bs (Some ?s) st5")
    case (Ret x)
    obtain ok st6 where x: "x = (ok, st6)" by (cases x)
    have R': "refines (Ret (if ok then Some ?s else None, st6)) (den b (NIX_NODE_ATTR_SET bs)) ?base"
      using R Ret x by simp
    then have "grows ?base st6" by (auto simp: refines_def split: run.splits option.splits)
    with base have "in_dir (Some c) b st6" by (rule in_dir_grows [rotated])
    from env_free [OF this] obtain st7 where st7: "nix_env_free (Some c) st6 = Ret st7" "h_vals st7 = h_vals st6"
      "h_error st7 = h_error st6" by blast
    have "nix_to_json n st7 (Some ?s) = nix_to_json n st6 (Some ?s)" if "ok"
    proof -
      from R' that obtain d F where d: "den b (NIX_NODE_ATTR_SET bs) = Ret (Some d)" "rep st6 d (Some ?s) F"
        by (auto simp: refines_def split: run.splits option.splits)
      have "rep st7 d (Some ?s) F" by (rule rep_agree(1) [OF d(2)]) (simp add: agree_def cell_vals [OF st7(2)])
      from json_rep [OF this n [OF d(1)]] json_rep [OF d(2) n [OF d(1)]] show ?thesis by simp
    qed
    with file_result_refines [OF R', of "h_error st" n] n st5(3) st4(4) st7 Ret x show ?thesis
      by (auto simp: app split: if_splits)
  next
    case Crash
    with file_result_refines [OF R, of "h_error st" n] n st5(3) st4(4) show ?thesis by (simp add: app)
  next
    case Out_of_steps
    with R show ?thesis by (auto simp: refines_def split: run.splits option.splits)
  qed
qed

text \<open>
  C11.  A configuration, a function of named arguments without defaults whose body is a set of
  bindings that refer to no variable, evaluates to the JSON text of that set: the set that
  \<open>config\<close> refers to while the bindings are made is the result.
\<close>

theorem config_file_evaluates:
  assumes "nix_parse source = Ret (NIX_NODE_LAMBDA (NIX_NODE_ATTR_SET fs) (NIX_NODE_ATTR_SET bs), msg)"
    and "plain_formals fs" and "variable_free (NIX_NODE_ATTR_SET bs)"
  shows "\<exists>N. \<forall>n \<ge> N. file_result (den base (NIX_NODE_ATTR_SET bs)) (map_option (\<lambda>(l, c, m). m) msg)
    (nix_eval_file_with_base files exists n source base)"
proof -
  let ?D = "den base (NIX_NODE_ATTR_SET bs)" and ?msg = "map_option (\<lambda>(l, c, m). m) msg"
  have "for_large (\<lambda>n. \<forall>p \<in> set bs. computable files exists base (snd p) n)"
    by (rule for_large_ball) (use assms(3) in \<open>auto intro: computable_all\<close>)
  moreover have "for_large (\<lambda>n. \<forall>d. ?D = Ret (Some d) \<longrightarrow> size d < n)" by (rule size_for_large)
  ultimately have "for_large (\<lambda>n. (\<forall>p \<in> set bs. computable files exists base (snd p) n) \<and>
      (\<forall>d. ?D = Ret (Some d) \<longrightarrow> size d < n))" by (rule for_large_mp) blast
  then have "for_large (\<lambda>n. file_result ?D ?msg (nix_eval_file_with_base files exists n source base))"
  proof (rule for_large_mp [OF _ for_large_ge [of 1]], goal_cases)
    case (1 n)
    then obtain m where n: "n = Suc m" by (cases n) auto
    obtain st where st: "nix_env_new base \<lparr>h_vals = [], h_envs = [], h_trees = [True], h_error = ?msg\<rparr> = Ret (Some 0, st)"
      "in_dir (Some 0) base st" "h_error st = ?msg" by (rule env_new)
    obtain a st1 where st1: "nix_value_new (NIX_VAL_LAMBDA (Some 0) 0 (NIX_NODE_ATTR_SET fs) (NIX_NODE_ATTR_SET bs)) st
        = (Some a, st1)" "deref (Some a) st1 = Ret (NIX_VAL_LAMBDA (Some 0) 0 (NIX_NODE_ATTR_SET fs) (NIX_NODE_ATTR_SET bs))"
      "h_envs st1 = h_envs st" "h_error st1 = h_error st"
      by (simp add: nix_value_new_def deref_def)
    have "nix_eval_inner files exists n (Some 0) 0 (NIX_NODE_LAMBDA (NIX_NODE_ATTR_SET fs) (NIX_NODE_ATTR_SET bs)) st
        = Ret (Some a, st1)" by (simp add: n eval_body_def new_value_def st1(1))
    moreover have "file_result ?D (h_error st1)
      (andthen (apply_config (nix_eval_inner files exists n) (Some 0) 0 (NIX_NODE_ATTR_SET fs) (NIX_NODE_ATTR_SET bs) (Some a) st1)
        (\<lambda>(final, st2). case final of None \<Rightarrow> Ret (None, h_error st2)
          | Some r \<Rightarrow> andthen (nix_to_json n st2 r) (\<lambda>json. Ret (Some json, h_error st2))))"
      by (rule apply_config_data [OF assms(2)])
        (use 1 st(2) st1(3) in \<open>auto simp: computable_def in_dir_envs [of st1 st]\<close>)
    ultimately show ?case using st(1,3) st1(2,4)
      by (simp add: nix_eval_file_with_base_def assms(1) eval_source_def del: nix_eval_inner.simps)
  qed
  then show ?thesis by (simp add: for_large_def)
qed

theorem config_file_evaluates_witness:
  "\<exists>n. nix_eval_file_with_base (\<lambda>_. None) (\<lambda>_. False) n ''{ config, ... }: { services.sshd.enable = true; jobs = 2 * 4; }'' None
     = Ret (Some (data_json (D_set [(''services'', D_set [(''sshd'', D_set [(''enable'', D_bool True)])]), (''jobs'', D_int 8)]) 0), None)"
proof -
  let ?bs = "[(Some ''services.sshd.enable'', NIX_NODE_BOOL True),
    (Some ''jobs'', NIX_NODE_BINOP NIX_TOK_STAR (NIX_NODE_INT 2) (NIX_NODE_INT 4))]"
  have "nix_parse ''{ config, ... }: { services.sshd.enable = true; jobs = 2 * 4; }''
      = Ret (NIX_NODE_LAMBDA (NIX_NODE_ATTR_SET [(Some ''config'', NIX_NODE_NULL)]) (NIX_NODE_ATTR_SET ?bs), None)" by code_simp
  moreover have "den None (NIX_NODE_ATTR_SET ?bs)
      = Ret (Some (D_set [(''services'', D_set [(''sshd'', D_set [(''enable'', D_bool True)])]), (''jobs'', D_int 8)]))"
    by code_simp
  ultimately show ?thesis
    using config_file_evaluates [of _ "[(Some ''config'', NIX_NODE_NULL)]" ?bs None None "\<lambda>_. None" "\<lambda>_. False"]
    by (auto simp: file_result_def plain_formals_def)
qed

subsection \<open>Where evaluation touches freed memory\<close>

lemma let_bindings_bound:
  assumes "\<And>k e. (k, e) \<in> set bs \<Longrightarrow> computes (Some c) b (evx e) (den b e) \<and> (\<exists>d. den b e = Ret (Some d))"
    and "in_dir (Some c) b st"
  shows "\<exists>st'. let_bindings evx (Some c) bs st = Ret (True, st') \<and> in_dir (Some c) b st'"
  using assms
proof (induction bs arbitrary: st)
  case (Cons kb bs)
  obtain k e where kb: "kb = (k, e)" by (cases kb)
  from Cons.prems(1) [of k e] obtain d where d: "den b e = Ret (Some d)" "refines (evx e st) (den b e) st"
    using Cons.prems(2) by (auto simp: kb computes_def)
  then obtain r st1 F where r: "evx e st = Ret (r, st1)" "grows st st1" "rep st1 d r F" by (auto simp: refines_def)
  from rep_Some [OF r(3)] obtain a where a: "r = Some a" by auto
  from in_dir_grows [OF r(2) Cons.prems(2)] obtain en where en: "env_at (Some c) st1 = Ret en" "e_base_dir en = b"
    by (auto simp: in_dir_def)
  then have live: "c < length (h_envs st1)" by (auto simp: env_at_def split: if_splits)
  have "\<exists>st2. nix_env_bind (Some c) k r st1 = Ret st2 \<and> in_dir (Some c) b st2"
    using en live by (cases k) (auto simp: nix_env_bind_def in_dir_def env_at_def set_env_def)
  with Cons.IH [OF Cons.prems(1)] r(1) show ?case by (force simp: kb a)
qed simp

lemma freed_closure:
  "env_at env st = Crash \<Longrightarrow> env \<noteq> None \<Longrightarrow> apply_config ev env tr param body val st = Crash"
  by (simp add: apply_config_def nix_value_new_def nix_env_push_def env_at_def split: option.splits if_splits)



text \<open>
  The self-reference example of the manual: the condition of \<open>if\<close> is the value found in
  \<open>config\<close>, which \<open>if\<close> frees, so that printing the result reads freed memory.
\<close>

theorem self_reference_example_crashes:
  "nix_eval_file_with_base (\<lambda>_. None) (\<lambda>_. False) 60
     (''{ config, ... }: { services.sshd.enable = true; packages = if config.services.sshd.enable then [ '' @
      [CHR 0x22] @ ''openssh'' @ [CHR 0x22] @ '' ] else []; }'') None = Crash"
  by code_simp

text \<open>
  The function form the manual opens with, a \<open>let\<close> inside the function, does not evaluate to
  its packages: \<open>config\<close> is an empty set there, and the result printed is the function itself,
  together with an error message.
\<close>

theorem function_form_example_prints_lambda:
  "nix_eval_file_with_base (\<lambda>_. None) (\<lambda>_. False) 60
     (''{ config, ... }: let basePackages = [ '' @ [CHR 0x22] @ ''vim'' @ [CHR 0x22] @
      '' ]; in { packages = basePackages ++ (if config.services.sshd.enable then [ '' @
      [CHR 0x22] @ ''openssh'' @ [CHR 0x22] @ '' ] else []); }'') None
   = Ret (Some ([CHR 0x22] @ ''<lambda>'' @ [CHR 0x22]), Some ''attribute services not found'')"
  by code_simp

end
