(* ===== verification/Nix_Print.thy ===== *)
theory Nix_Print
  imports Nix_Parser
begin

text \<open>
  A printer for syntax trees, as a reference for the parser's grammar: with parentheses only
  where precedence or associativity need them.  The parser gives back every printable tree
  from its tokens, in whatever layout the text has.  Printable trees are those the parser can
  produce, less interpolated strings, dotted keys and tokens the lexer cannot spell.
\<close>

subsection \<open>Precedence\<close>

fun op_level :: "nix_tok_type \<Rightarrow> nat" where
  "op_level NIX_TOK_ARROW = 1"
| "op_level NIX_TOK_OR = 2"
| "op_level NIX_TOK_AND = 3"
| "op_level NIX_TOK_EQ = 4"
| "op_level NIX_TOK_NEQ = 4"
| "op_level NIX_TOK_LT = 5"
| "op_level NIX_TOK_LE = 5"
| "op_level NIX_TOK_GT = 5"
| "op_level NIX_TOK_GE = 5"
| "op_level NIX_TOK_PLUS_PLUS = 6"
| "op_level NIX_TOK_PLUS = 7"
| "op_level NIX_TOK_MINUS = 7"
| "op_level NIX_TOK_STAR = 8"
| "op_level NIX_TOK_SLASH = 8"
| "op_level _ = 0"

fun prec :: "nix_ast \<Rightarrow> nat" where
  "prec (NIX_NODE_IF _ _ _) = 0"
| "prec (NIX_NODE_WITH _ _) = 0"
| "prec (NIX_NODE_ASSERT _ _) = 0"
| "prec (NIX_NODE_LET _ _) = 0"
| "prec (NIX_NODE_LAMBDA _ _) = 0"
| "prec (NIX_NODE_BINOP op _ _) = op_level op"
| "prec (NIX_NODE_UNARY_NOT _) = 9"
| "prec (NIX_NODE_NEGATE _) = 9"
| "prec (NIX_NODE_APPLY _ _) = 10"
| "prec (NIX_NODE_SELECT _ _) = 11"
| "prec (NIX_NODE_OR_DEFAULT _ _ _) = 11"
| "prec _ = 12"

text \<open>The levels at which a token goes on with an expression before it; 0 ends every one.\<close>

definition cont_level :: "nix_tok_type \<Rightarrow> nat" where
  "cont_level t =
     (if t = NIX_TOK_COLON then 12
      else if t = NIX_TOK_DOT \<or> t = NIX_TOK_KW_OR then 11
      else if starts_argument t then 10
      else op_level t)"

definition right_assoc :: "nix_tok_type \<Rightarrow> bool" where
  "right_assoc t \<longleftrightarrow> t = NIX_TOK_ARROW \<or> t = NIX_TOK_PLUS_PLUS"

subsection \<open>The printer\<close>

definition op_tok :: "nix_tok_type \<Rightarrow> tok_kind" where
  "op_tok t = (t, None, 0)"

definition kw_tok :: "string \<Rightarrow> nix_tok_type \<Rightarrow> tok_kind" where
  "kw_tok w t = (t, Some w, 0)"

definition ident_tok :: "string \<Rightarrow> tok_kind" where
  "ident_tok s = (NIX_TOK_IDENT, Some s, 0)"

definition string_tok :: "string \<Rightarrow> tok_kind" where
  "string_tok s = (NIX_TOK_STRING, Some s, 0)"

definition parens :: "tok_kind list \<Rightarrow> tok_kind list" where
  "parens ts = op_tok NIX_TOK_LPAREN # ts @ [op_tok NIX_TOK_RPAREN]"

definition wrap :: "nat \<Rightarrow> nix_ast \<Rightarrow> tok_kind list \<Rightarrow> tok_kind list" where
  "wrap n e ts = (if prec e < n then parens ts else ts)"

text \<open>The left operand of a selection: a default would take the selection for itself.\<close>

fun is_default :: "nix_ast \<Rightarrow> bool" where
  "is_default (NIX_NODE_OR_DEFAULT _ _ _) = True"
| "is_default _ = False"

definition wrap_select :: "nix_ast \<Rightarrow> tok_kind list \<Rightarrow> tok_kind list" where
  "wrap_select e ts = (if prec e < 11 \<or> is_default e then parens ts else ts)"

definition bind_toks :: "string option \<Rightarrow> tok_kind list \<Rightarrow> tok_kind list" where
  "bind_toks k ts = string_tok (the k) # op_tok NIX_TOK_EQUALS # ts @ [op_tok NIX_TOK_SEMICOLON]"

definition formal_toks :: "string option \<Rightarrow> nix_ast \<Rightarrow> tok_kind list \<Rightarrow> tok_kind list" where
  "formal_toks k v ts = ident_tok (the k) # (if v = NIX_NODE_NULL then [] else op_tok NIX_TOK_QUESTION # ts)"

fun with_commas :: "tok_kind list list \<Rightarrow> tok_kind list" where
  "with_commas [] = []"
| "with_commas [t] = t"
| "with_commas (t # ts) = t @ op_tok NIX_TOK_COMMA # with_commas ts"

fun pr :: "nix_ast \<Rightarrow> tok_kind list" where
  "pr (NIX_NODE_ATTR_SET bs) =
     op_tok NIX_TOK_LBRACE # concat (map (\<lambda>b. bind_toks (fst b) (pr (snd b))) bs) @ [op_tok NIX_TOK_RBRACE]"
| "pr (NIX_NODE_REC_ATTR_SET bs) =
     kw_tok ''rec'' NIX_TOK_KW_REC #
     op_tok NIX_TOK_LBRACE # concat (map (\<lambda>b. bind_toks (fst b) (pr (snd b))) bs) @ [op_tok NIX_TOK_RBRACE]"
| "pr (NIX_NODE_LIST es) =
     op_tok NIX_TOK_LBRACKET # concat (map (\<lambda>e. wrap 11 e (pr e)) es) @ [op_tok NIX_TOK_RBRACKET]"
| "pr (NIX_NODE_STRING ps) = [string_tok (case ps of [Inl s] \<Rightarrow> s | _ \<Rightarrow> [])]"
| "pr (NIX_NODE_IDENT s) = [ident_tok s]"
| "pr (NIX_NODE_SELECT e a) = wrap_select e (pr e) @ [op_tok NIX_TOK_DOT, ident_tok a]"
| "pr (NIX_NODE_OR_DEFAULT e a d) =
     wrap_select e (pr e) @ [op_tok NIX_TOK_DOT, ident_tok a, kw_tok ''or'' NIX_TOK_KW_OR] @ wrap 11 d (pr d)"
| "pr (NIX_NODE_APPLY f e) = wrap 10 f (pr f) @ wrap 11 e (pr e)"
| "pr (NIX_NODE_LAMBDA (NIX_NODE_IDENT x) e) = ident_tok x # op_tok NIX_TOK_COLON # pr e"
| "pr (NIX_NODE_LAMBDA (NIX_NODE_ATTR_SET fs) e) =
     op_tok NIX_TOK_LBRACE # with_commas (map (\<lambda>f. formal_toks (fst f) (snd f) (pr (snd f))) fs)
     @ [op_tok NIX_TOK_RBRACE, op_tok NIX_TOK_COLON] @ pr e"
| "pr (NIX_NODE_LET bs e) =
     kw_tok ''let'' NIX_TOK_KW_LET # concat (map (\<lambda>b. bind_toks (fst b) (pr (snd b))) bs)
     @ kw_tok ''in'' NIX_TOK_KW_IN # pr e"
| "pr (NIX_NODE_IF c a b) =
     kw_tok ''if'' NIX_TOK_KW_IF # pr c @ kw_tok ''then'' NIX_TOK_KW_THEN # pr a
     @ kw_tok ''else'' NIX_TOK_KW_ELSE # pr b"
| "pr (NIX_NODE_WITH e b) =
     kw_tok ''with'' NIX_TOK_KW_WITH # pr e @ op_tok NIX_TOK_SEMICOLON # pr b"
| "pr (NIX_NODE_ASSERT c b) =
     kw_tok ''assert'' NIX_TOK_KW_ASSERT # pr c @ op_tok NIX_TOK_SEMICOLON # pr b"
| "pr (NIX_NODE_BINOP op l r) =
     (if right_assoc op then wrap (Suc (op_level op)) l (pr l) @ op_tok op # wrap (op_level op) r (pr r)
      else wrap (op_level op) l (pr l) @ op_tok op # wrap (Suc (op_level op)) r (pr r))"
| "pr (NIX_NODE_UNARY_NOT e) = op_tok NIX_TOK_NOT # wrap 9 e (pr e)"
| "pr (NIX_NODE_NEGATE e) = op_tok NIX_TOK_MINUS # wrap 9 e (pr e)"
| "pr (NIX_NODE_INT i) = [(NIX_TOK_INT, None, i)]"
| "pr (NIX_NODE_BOOL b) = [ident_tok (if b then ''true'' else ''false'')]"
| "pr NIX_NODE_NULL = [ident_tok ''null'']"
| "pr (NIX_NODE_PATH s) = [(NIX_TOK_PATH, Some s, 0)]"
| "pr _ = []"

subsection \<open>Printable trees\<close>

definition key_ok :: "string option \<Rightarrow> bool" where
  "key_ok k \<longleftrightarrow> (case k of Some s \<Rightarrow> \<not> has_interpolation s \<and> c_nul \<notin> set s | None \<Rightarrow> False)"

definition formal_ok :: "string option \<Rightarrow> bool" where
  "formal_ok k \<longleftrightarrow> (case k of Some s \<Rightarrow> is_ident s | None \<Rightarrow> False)"

text \<open>A first formal called \<open>inherit\<close> would be taken for the binding.\<close>

fun printable :: "nix_ast \<Rightarrow> bool" where
  "printable (NIX_NODE_ATTR_SET bs) = (\<forall>b \<in> set bs. key_ok (fst b) \<and> printable (snd b))"
| "printable (NIX_NODE_REC_ATTR_SET bs) = (\<forall>b \<in> set bs. key_ok (fst b) \<and> printable (snd b))"
| "printable (NIX_NODE_LIST es) = (\<forall>e \<in> set es. printable e)"
| "printable (NIX_NODE_STRING ps) =
     (case ps of [] \<Rightarrow> True | [Inl s] \<Rightarrow> s \<noteq> [] \<and> key_ok (Some s) | _ \<Rightarrow> False)"
| "printable (NIX_NODE_IDENT s) = (is_ident s \<and> s \<noteq> ''true'' \<and> s \<noteq> ''false'' \<and> s \<noteq> ''null'')"
| "printable (NIX_NODE_SELECT e a) = (printable e \<and> is_ident a)"
| "printable (NIX_NODE_OR_DEFAULT e a d) = (printable e \<and> is_ident a \<and> printable d)"
| "printable (NIX_NODE_APPLY f e) = (printable f \<and> printable e)"
| "printable (NIX_NODE_LAMBDA (NIX_NODE_IDENT x) e) = (is_ident x \<and> printable e)"
| "printable (NIX_NODE_LAMBDA (NIX_NODE_ATTR_SET fs) e) =
     ((\<forall>f \<in> set fs. formal_ok (fst f) \<and> printable (snd f)) \<and>
      (fs = [] \<or> fst (hd fs) \<noteq> Some ''inherit'') \<and> printable e)"
| "printable (NIX_NODE_LET bs e) = ((\<forall>b \<in> set bs. key_ok (fst b) \<and> printable (snd b)) \<and> printable e)"
| "printable (NIX_NODE_IF c a b) = (printable c \<and> printable a \<and> printable b)"
| "printable (NIX_NODE_WITH e b) = (printable e \<and> printable b)"
| "printable (NIX_NODE_ASSERT c b) = (printable c \<and> printable b)"
| "printable (NIX_NODE_BINOP op l r) = (0 < op_level op \<and> printable l \<and> printable r)"
| "printable (NIX_NODE_UNARY_NOT e) = printable e"
| "printable (NIX_NODE_NEGATE e) = printable e"
| "printable (NIX_NODE_INT i) = (i < 0x8000000000000000)"
| "printable (NIX_NODE_BOOL b) = True"
| "printable NIX_NODE_NULL = True"
| "printable (NIX_NODE_PATH s) = is_path s"
| "printable _ = False"

lemma printable_not_NULL: "printable e \<Longrightarrow> e \<noteq> NULL"
  by auto

subsection \<open>The tokens the parser has before it\<close>

definition upcoming :: "nix_parser \<Rightarrow> tok_kind list" where
  "upcoming p = (if peek_type p = NIX_TOK_EOF then [] else tok_kind (p_cur p) # nix_tokens (p_lex p))"

definition adv :: "nat \<Rightarrow> nix_parser \<Rightarrow> nix_parser" where
  "adv n p = (advance ^^ n) p"

lemma adv_0 [simp]: "adv 0 p = p"
  by (simp add: adv_def)

lemma adv_Suc: "adv (Suc n) p = adv n (advance p)"
  by (simp add: adv_def funpow_swap1)

lemma adv_adv [simp]: "adv n (adv m p) = adv (m + n) p"
  by (simp add: adv_def add.commute [of m] flip: funpow_add [THEN fun_cong, unfolded comp_def])

lemma advance_adv [simp]: "advance (adv n p) = adv (Suc n) p"
  by (simp add: adv_def)

lemma advance_is_adv: "advance p = adv 1 p"
  by (simp add: adv_def)

lemma adv_error [simp]: "p_has_error (adv n p) = p_has_error p" "p_error (adv n p) = p_error p"
  by (induction n) (simp_all add: adv_def)

lemma nix_tokens_end: "tok_type (fst (nix_lexer_next lx)) = NIX_TOK_EOF \<Longrightarrow> nix_tokens lx = []"
  by (subst nix_tokens.simps) simp

lemma nix_tokens_step: "tok_type (fst (nix_lexer_next lx)) \<noteq> NIX_TOK_EOF \<Longrightarrow>
    nix_tokens lx = tok_kind (fst (nix_lexer_next lx)) # nix_tokens (snd (nix_lexer_next lx))"
  by (subst nix_tokens.simps) simp

lemma upcoming_read:
  "p_lex p = snd (nix_lexer_next lx) \<Longrightarrow> p_cur p = fst (nix_lexer_next lx) \<Longrightarrow> upcoming p = nix_tokens lx"
  by (cases "tok_type (fst (nix_lexer_next lx)) = NIX_TOK_EOF")
    (simp_all add: upcoming_def peek_type_def nix_tokens_end nix_tokens_step)

lemma upcoming_advance: "upcoming p = k # ks \<Longrightarrow> upcoming (advance p) = ks"
proof -
  assume "upcoming p = k # ks"
  then have "nix_tokens (p_lex p) = ks" by (simp add: upcoming_def split: if_splits)
  moreover have "upcoming (advance p) = nix_tokens (p_lex p)"
    by (rule upcoming_read) (simp_all add: advance_def case_prod_unfold)
  ultimately show ?thesis by simp
qed

lemma upcoming_adv: "upcoming p = ts @ ks \<Longrightarrow> upcoming (adv (length ts) p) = ks"
proof (induction ts arbitrary: p)
  case (Cons t ts)
  then have "upcoming (advance p) = ts @ ks" by (intro upcoming_advance) simp
  with Cons.IH show ?case by (simp add: adv_Suc)
qed simp

lemma upcoming_cur: "upcoming p = k # ks \<Longrightarrow> tok_kind (p_cur p) = k"
  by (simp add: upcoming_def split: if_splits)

lemma peek_upcoming: "upcoming p = k # ks \<Longrightarrow> peek_type p = fst k"
  by (drule upcoming_cur) (auto simp: tok_kind_def peek_type_def)

lemma text_upcoming: "upcoming p = (t, Some s, i) # ks \<Longrightarrow> cur_text p = s"
  by (drule upcoming_cur) (simp add: tok_kind_def cur_text_def)

lemma integer_upcoming: "upcoming p = (t, s, i) # ks \<Longrightarrow> tok_integer (p_cur p) = i"
  by (drule upcoming_cur) (simp add: tok_kind_def)

lemma length_upcoming: "length (upcoming p) \<le> p_mu p"
proof (induction "p_mu p" arbitrary: p rule: less_induct)
  case less
  show ?case
  proof (cases "peek_type p = NIX_TOK_EOF")
    case True
    then show ?thesis by (simp add: upcoming_def)
  next
    case False
    then have "upcoming p = tok_kind (p_cur p) # nix_tokens (p_lex p)" by (simp add: upcoming_def)
    with upcoming_advance [OF this] have "length (upcoming p) = Suc (length (upcoming (advance p)))" by simp
    with less [OF mu_advance [OF False]] mu_advance [OF False] show ?thesis by simp
  qed
qed

lemma upcoming_start: "upcoming (parser_start s err) = nix_tokens (nix_lexer_new s)"
  by (rule upcoming_read) (simp_all add: parser_start_def case_prod_unfold)

text \<open>The type of the next token, at the end of the input included.\<close>

definition next_type :: "tok_kind list \<Rightarrow> nix_tok_type" where
  "next_type ks = (case ks of [] \<Rightarrow> NIX_TOK_EOF | k # _ \<Rightarrow> fst k)"

lemma peek_next: "upcoming p = ks \<Longrightarrow> peek_type p = next_type ks"
  by (cases ks) (simp_all add: next_type_def peek_upcoming, simp add: upcoming_def split: if_splits)

definition stops :: "nat \<Rightarrow> tok_kind list \<Rightarrow> bool" where
  "stops n ks \<longleftrightarrow> cont_level (next_type ks) < max 1 n"

lemma stops_mono: "stops n ks \<Longrightarrow> n \<le> m \<Longrightarrow> stops m ks"
  by (auto simp: stops_def)

end
