(* ===== verification/Nix_Roundtrip.thy ===== *)
theory Nix_Roundtrip
  imports Nix_Print
begin

text \<open>
  The parser gives back what the printer of \<open>Nix_Print\<close> wrote.  One lemma per construct of the
  grammar says that its tokens are parsed at its level when its parts are; chains of operators,
  applications and selections are followed by their loops.
\<close>

subsection \<open>The levels of the grammar\<close>

text \<open>0 is \<open>parse_expr\<close>, 1 to 8 the binary operators, then unary operators, application,
  selection and base expressions.\<close>

definition sel_of :: "nat \<Rightarrow> action" where
  "sel_of k = select_body (parse_expr k) (parse_select k)"

definition level_parser :: "nat \<Rightarrow> nat \<Rightarrow> action" where
  "level_parser n k =
     [expr_body (parse_expr k) (parse_select k), parse_implication (sel_of k), parse_or (sel_of k),
      parse_and (sel_of k), parse_equality (sel_of k), parse_comparison (sel_of k),
      parse_concat (sel_of k), parse_add (sel_of k), parse_mul (sel_of k), parse_unary (sel_of k),
      parse_apply (sel_of k), sel_of k, parse_base (parse_expr k) (parse_select k)] ! n"

definition level_ops :: "nat \<Rightarrow> nix_tok_type list" where
  "level_ops n =
     [[], [NIX_TOK_ARROW], [NIX_TOK_OR], [NIX_TOK_AND], [NIX_TOK_EQ, NIX_TOK_NEQ],
      [NIX_TOK_LT, NIX_TOK_LE, NIX_TOK_GT, NIX_TOK_GE], [NIX_TOK_PLUS_PLUS],
      [NIX_TOK_PLUS, NIX_TOK_MINUS], [NIX_TOK_STAR, NIX_TOK_SLASH]] ! n"

lemma level_left:
  "n \<in> {2, 3, 4, 5, 7, 8} \<Longrightarrow> level_parser n k = parse_binop_left (level_parser (Suc n) k) (level_ops n)"
  by (auto simp: level_parser_def level_ops_def parse_or_def parse_and_def parse_equality_def
      parse_comparison_def parse_add_def parse_mul_def)

lemma level_right:
  "n \<in> {1, 6} \<Longrightarrow> level_parser n k = parse_binop_right (level_parser (Suc n) k) (hd (level_ops n))"
  by (auto simp: level_parser_def level_ops_def parse_implication_def parse_concat_def)

lemma level_unary: "level_parser 9 k = (\<lambda>p. unary_loop (level_parser 10 k) (budget p) p)"
  by (simp add: level_parser_def parse_unary_def fun_eq_iff)

lemma level_apply: "level_parser 10 k = parse_apply (level_parser 11 k)"
  by (simp add: level_parser_def)

lemma level_select:
  "level_parser 11 k = (\<lambda>p. andthen (level_parser 12 k p) (\<lambda>(e, p').
     if e = NULL \<or> p_has_error p' then Ret (e, p') else select_loop (parse_select k) (budget p') e p'))"
  by (simp add: level_parser_def sel_of_def select_body_def fun_eq_iff)

lemma level_base: "level_parser 12 k = parse_base (parse_expr k) (parse_select k)"
  by (simp add: level_parser_def)

lemma level_expr: "level_parser 0 k = expr_body (parse_expr k) (parse_select k)"
  by (simp add: level_parser_def)

lemma parse_expr_level: "parse_expr (Suc k) = level_parser 0 k"
  by (simp add: level_expr fun_eq_iff)

lemma parse_select_level: "parse_select (Suc k) = level_parser 11 k"
  by (simp add: level_parser_def sel_of_def fun_eq_iff)

lemma ops_level: "1 \<le> n \<Longrightarrow> n \<le> 8 \<Longrightarrow> t \<in> set (level_ops n) \<longleftrightarrow> op_level t = n"
proof -
  have "\<forall>n \<in> {1..8}. \<forall>t. t \<in> set (level_ops n) \<longleftrightarrow> op_level t = n"
  proof (intro ballI allI)
    fix n t assume "n \<in> {1..8::nat}"
    then have "n = 1 \<or> n = 2 \<or> n = 3 \<or> n = 4 \<or> n = 5 \<or> n = 6 \<or> n = 7 \<or> n = 8" by auto
    then show "t \<in> set (level_ops n) \<longleftrightarrow> op_level t = n"
      by (elim disjE; cases t) (simp_all add: level_ops_def)
  qed
  then show "1 \<le> n \<Longrightarrow> n \<le> 8 \<Longrightarrow> t \<in> set (level_ops n) \<longleftrightarrow> op_level t = n" by simp
qed

lemma cont_op: "0 < op_level t \<Longrightarrow> cont_level t = op_level t"
  by (cases t) (simp_all add: cont_level_def starts_argument_def)

subsection \<open>Parsing a list of tokens\<close>

definition parses_by :: "(nat \<Rightarrow> action) \<Rightarrow> (tok_kind list \<Rightarrow> bool) \<Rightarrow> nix_ast \<Rightarrow> tok_kind list \<Rightarrow> bool" where
  "parses_by f ok e ts \<longleftrightarrow>
     (\<forall>k p ks. length ts \<le> k \<longrightarrow> upcoming p = ts @ ks \<longrightarrow> \<not> p_has_error p \<longrightarrow> ok ks \<longrightarrow>
        f k p = Ret (e, adv (length ts) p))"

abbreviation parses :: "nat \<Rightarrow> nix_ast \<Rightarrow> tok_kind list \<Rightarrow> bool" where
  "parses n \<equiv> parses_by (level_parser n) (stops n)"

lemma parses_byI:
  "(\<And>k p ks. length ts \<le> k \<Longrightarrow> upcoming p = ts @ ks \<Longrightarrow> \<not> p_has_error p \<Longrightarrow> ok ks \<Longrightarrow>
     f k p = Ret (e, adv (length ts) p)) \<Longrightarrow> parses_by f ok e ts"
  by (simp add: parses_by_def)

lemma parses_byD:
  "parses_by f ok e ts \<Longrightarrow> length ts \<le> k \<Longrightarrow> upcoming p = ts @ ks \<Longrightarrow> \<not> p_has_error p \<Longrightarrow> ok ks \<Longrightarrow>
     f k p = Ret (e, adv (length ts) p)"
  by (simp add: parses_by_def)

lemma parse_expr_parses:
  "parses 0 e ts \<Longrightarrow> length ts < k \<Longrightarrow> upcoming p = ts @ ks \<Longrightarrow> \<not> p_has_error p \<Longrightarrow> stops 0 ks \<Longrightarrow>
     parse_expr k p = Ret (e, adv (length ts) p)"
  by (cases k) (simp_all add: parse_expr_level parses_byD del: parse_expr.simps(2))

lemma parse_select_parses:
  "parses 11 e ts \<Longrightarrow> length ts < k \<Longrightarrow> upcoming p = ts @ ks \<Longrightarrow> \<not> p_has_error p \<Longrightarrow> stops 11 ks \<Longrightarrow>
     parse_select k p = Ret (e, adv (length ts) p)"
  by (cases k) (simp_all add: parse_select_level parses_byD del: parse_select.simps(2))

subsection \<open>From a level to the looser ones\<close>

definition starts_at :: "nat \<Rightarrow> nix_tok_type \<Rightarrow> bool" where
  "starts_at m t \<longleftrightarrow>
     (m = 9 \<longrightarrow> t \<noteq> NIX_TOK_NOT \<and> t \<noteq> NIX_TOK_MINUS) \<and>
     (m = 0 \<longrightarrow> t \<notin> {NIX_TOK_KW_IF, NIX_TOK_KW_ASSERT, NIX_TOK_KW_WITH, NIX_TOK_KW_LET})"

lemma lift_one:
  assumes r: "level_parser (Suc m) k p = Ret (e, q)" and e: "e \<noteq> NULL"
    and err: "\<not> p_has_error p" "\<not> p_has_error q"
    and st: "cont_level (peek_type q) < max 1 m" and m: "m < 12" and t: "starts_at m (peek_type p)"
  shows "level_parser m k p = Ret (e, q)"
proof -
  have "m = 0 \<or> m = 1 \<or> m = 2 \<or> m = 3 \<or> m = 4 \<or> m = 5 \<or> m = 6 \<or> m = 7 \<or> m = 8 \<or> m = 9 \<or> m = 10 \<or> m = 11"
    using m by arith
  then consider "m = 0" | "m \<in> {1, 6}" | "m \<in> {2, 3, 4, 5, 7, 8}" | "m = 9" | "m = 10" | "m = 11"
    by blast
  then show ?thesis
  proof cases
    case 1
    with t r err show ?thesis
      by (cases "peek_type p") (simp_all add: level_expr expr_body_def starts_at_def level_parser_def sel_of_def)
  next
    case 2
    have "peek_type q \<notin> set (level_ops m)"
      using st cont_op [of "peek_type q"] ops_level [of m "peek_type q"] 2 by auto
    moreover have "set (level_ops m) = {hd (level_ops m)}" using 2 by (auto simp: level_ops_def)
    ultimately show ?thesis
      using r e err by (simp add: level_right [OF 2] parse_binop_right_def budget_def)
  next
    case 3
    have "peek_type q \<notin> set (level_ops m)"
      using st cont_op [of "peek_type q"] ops_level [of m "peek_type q"] 3 by auto
    then show ?thesis
      using r e err by (simp add: level_left [OF 3] parse_binop_left_def budget_def)
  next
    case 4
    with r t show ?thesis by (simp add: level_unary budget_def starts_at_def)
  next
    case 5
    then have "\<not> starts_argument (peek_type q)"
      using st by (auto simp: cont_level_def starts_argument_def split: if_splits)
    with 5 r e err show ?thesis by (simp add: level_apply parse_apply_def budget_def)
  next
    case 6
    then have "peek_type q \<noteq> NIX_TOK_DOT"
      using st by (auto simp: cont_level_def)
    with 6 r e err show ?thesis by (simp add: level_select budget_def)
  qed
qed

lemma lift_parses_by:
  assumes "parses_by (level_parser n) ok e ts" and "m \<le> n" and n: "n \<le> 12" and e: "e \<noteq> NULL"
    and ne: "ts \<noteq> []" and ok: "\<And>ks. ok ks \<Longrightarrow> stops m ks"
    and t: "\<forall>i. m \<le> i \<longrightarrow> i < n \<longrightarrow> starts_at i (fst (hd ts))"
  shows "parses_by (level_parser m) ok e ts"
  using assms(2) t ok
proof (induction rule: inc_induct)
  case base
  from assms(1) show ?case .
next
  case (step i)
  have up: "\<And>ks. ok ks \<Longrightarrow> stops i ks" by (rule step.prems(2))
  then have "\<And>ks. ok ks \<Longrightarrow> stops (Suc i) ks" by (rule stops_mono) simp_all
  with step have p: "parses_by (level_parser (Suc i)) ok e ts" by simp
  show ?case
  proof (rule parses_byI)
    fix k p ks
    assume k: "length ts \<le> k" and u: "upcoming p = ts @ ks" and err: "\<not> p_has_error p" and st: "ok ks"
    have "peek_type (adv (length ts) p) = next_type ks"
      using upcoming_adv [OF u] by (rule peek_next)
    then have a: "cont_level (peek_type (adv (length ts) p)) < max 1 i"
      using up [OF st] by (simp add: stops_def)
    have "peek_type p = fst (hd ts)"
      using u ne by (cases ts) (simp_all add: peek_upcoming)
    then have b: "starts_at i (peek_type p)" using step by simp
    show "level_parser i k p = Ret (e, adv (length ts) p)"
      by (rule lift_one [OF parses_byD [OF p k u err st] e err _ a _ b]) (use err step n in simp_all)
  qed
qed

lemma parses_by_mono: "parses_by f ok e ts \<Longrightarrow> (\<And>ks. ok' ks \<Longrightarrow> ok ks) \<Longrightarrow> parses_by f ok' e ts"
  by (simp add: parses_by_def)

lemma lift_parses:
  assumes "parses n e ts" and "m \<le> n" and "n \<le> 12" and "e \<noteq> NULL"
    and "ts \<noteq> []" and "\<forall>i. m \<le> i \<longrightarrow> i < n \<longrightarrow> starts_at i (fst (hd ts))"
  shows "parses m e ts"
  by (rule lift_parses_by [OF parses_by_mono [OF assms(1)] assms(2-5) _ assms(6)])
    (auto intro: stops_mono assms(2))

subsection \<open>How printed expressions begin\<close>

fun is_lambda :: "nix_ast \<Rightarrow> bool" where
  "is_lambda (NIX_NODE_LAMBDA _ _) = True"
| "is_lambda _ = False"

definition operand_start :: "nix_ast \<Rightarrow> nix_tok_type \<Rightarrow> bool" where
  "operand_start e t \<longleftrightarrow>
     (10 \<le> prec e \<or> is_lambda e \<longrightarrow> starts_argument t) \<and>
     (1 \<le> prec e \<longrightarrow> starts_argument t \<or> t = NIX_TOK_NOT \<or> t = NIX_TOK_MINUS)"

lemma tok_type_simps [simp]:
  "fst (op_tok t) = t" "fst (kw_tok w t) = t" "fst (ident_tok s) = NIX_TOK_IDENT"
  "fst (string_tok s) = NIX_TOK_STRING"
  by (simp_all add: op_tok_def kw_tok_def ident_tok_def string_tok_def)

lemma starts_argument_simps [simp]:
  "starts_argument NIX_TOK_IDENT" "starts_argument NIX_TOK_STRING" "starts_argument NIX_TOK_INT"
  "starts_argument NIX_TOK_PATH" "starts_argument NIX_TOK_LPAREN" "starts_argument NIX_TOK_LBRACE"
  "starts_argument NIX_TOK_LBRACKET" "starts_argument NIX_TOK_KW_REC"
  by (simp_all add: starts_argument_def)

lemma op_level_le: "op_level t \<le> 8"
  by (cases t) simp_all

lemma op_level_small: "\<not> 10 \<le> op_level t" "\<not> 9 < op_level t"
  using op_level_le [of t] by simp_all

lemma hd_parens [simp]: "hd (parens ts @ us) = op_tok NIX_TOK_LPAREN" "parens ts \<noteq> []"
  "hd (parens ts) = op_tok NIX_TOK_LPAREN"
  by (simp_all add: parens_def)

lemma pr_start:
  "printable e \<Longrightarrow> pr e \<noteq> [] \<and> operand_start e (fst (hd (pr e)))"
proof (induction e rule: pr.induct)
qed (use op_level_le in \<open>auto simp: operand_start_def wrap_def wrap_select_def hd_append string_tok_def
      ident_tok_def op_level_small split: if_splits\<close>)

lemma starts_at_argument: "starts_argument t \<Longrightarrow> starts_at m t"
  by (auto simp: starts_argument_def starts_at_def)

lemma starts_at_operand: "starts_argument t \<or> t = NIX_TOK_NOT \<or> t = NIX_TOK_MINUS \<Longrightarrow> m \<noteq> 9 \<Longrightarrow> starts_at m t"
  by (auto simp: starts_argument_def starts_at_def)

lemma lift_pr:
  assumes p: "parses (prec e) e (pr e)" and e: "printable e" and m: "m \<le> prec e" and n: "prec e \<le> 12"
  shows "parses m e (pr e)"
proof (rule lift_parses [OF p m n printable_not_NULL [OF e]])
  show "pr e \<noteq> []" using pr_start [OF e] by simp
  show "\<forall>i. m \<le> i \<longrightarrow> i < prec e \<longrightarrow> starts_at i (fst (hd (pr e)))"
  proof (intro allI impI)
    fix i assume i: "m \<le> i" "i < prec e"
    show "starts_at i (fst (hd (pr e)))"
    proof (cases "10 \<le> prec e")
      case True
      then show ?thesis using pr_start [OF e] by (simp add: operand_start_def starts_at_argument)
    next
      case False
      with i have "i \<noteq> 9" by simp
      then show ?thesis using pr_start [OF e] i by (intro starts_at_operand) (auto simp: operand_start_def)
    qed
  qed
qed

subsection \<open>Parentheses\<close>

lemma peek_adv:
  "upcoming p = ts @ ks \<Longrightarrow> peek_type (adv (length ts) p) = next_type ks"
  by (rule peek_next [OF upcoming_adv])

lemma next_type_Cons [simp]: "next_type (k # ks) = fst k"
  by (simp add: next_type_def)

lemma stops_closing [simp]:
  "stops 0 (op_tok NIX_TOK_RPAREN # ks)" "stops 0 (op_tok NIX_TOK_RBRACE # ks)"
  "stops 0 (op_tok NIX_TOK_SEMICOLON # ks)" "stops 0 (op_tok NIX_TOK_COMMA # ks)"
  "stops 0 (kw_tok w NIX_TOK_KW_THEN # ks)" "stops 0 (kw_tok w NIX_TOK_KW_ELSE # ks)"
  "stops 0 (kw_tok w NIX_TOK_KW_IN # ks)"
  by (simp_all add: stops_def cont_level_def starts_argument_def)

lemma expect_next: "peek_type p = t \<Longrightarrow> expect t msg p = advance p"
  by (simp add: expect_def)

lemma parses_parens:
  assumes "parses 0 e ts" shows "parses 12 e (parens ts)"
proof (rule parses_byI)
  fix k p ks
  assume k: "length (parens ts) \<le> k" and u: "upcoming p = parens ts @ ks" and err: "\<not> p_has_error p"
    and "stops 12 ks"
  let ?p1 = "advance p"
  from u have u1: "upcoming ?p1 = ts @ op_tok NIX_TOK_RPAREN # ks"
    by (intro upcoming_advance [of _ "op_tok NIX_TOK_LPAREN"]) (simp add: parens_def)
  have "parse_expr k ?p1 = Ret (e, adv (length ts) ?p1)"
    by (rule parse_expr_parses [OF assms _ u1]) (use k err in \<open>simp_all add: parens_def advance_is_adv\<close>)
  moreover have "peek_type p = NIX_TOK_LPAREN" using u by (simp add: parens_def peek_upcoming)
  ultimately show "level_parser 12 k p = Ret (e, adv (length (parens ts)) p)"
    by (simp add: level_base parse_base_def expect_next peek_adv [OF u1])
      (simp add: advance_is_adv parens_def)
qed

lemma lift_parens:
  assumes "parses 0 e ts" and "e \<noteq> NULL" and "m \<le> 12"
  shows "parses m e (parens ts)"
  by (rule lift_parses [OF parses_parens [OF assms(1)] assms(3) _ assms(2)]) (simp_all add: starts_at_argument)

text \<open>What the printer needs of a tree: it parses at its own level.\<close>

definition settled :: "nix_ast \<Rightarrow> bool" where
  "settled e \<longleftrightarrow> printable e \<and> parses (prec e) e (pr e)"

lemma prec_le: "prec e \<le> 12"
  by (cases e rule: prec.cases) (simp_all add: order_trans [OF op_level_le])

lemma settled_pr: "settled e \<Longrightarrow> m \<le> prec e \<Longrightarrow> parses m e (pr e)"
  by (auto simp: settled_def intro: lift_pr prec_le)

lemma settled_wrap: "settled e \<Longrightarrow> m \<le> 12 \<Longrightarrow> parses m e (wrap m e (pr e))"
  using settled_pr [of e 0] settled_pr [of e m] lift_parens printable_not_NULL
  by (auto simp: wrap_def settled_def)

subsection \<open>Chains: operators to the left, applications, selections\<close>

text \<open>
  A level that reads a head and then loops.  \<open>chains\<close> says that after the tokens of \<open>e\<close> the
  parser is at the start of the loop with \<open>e\<close> in hand and enough bound for the rest; this holds
  of a head, is kept by each step of the loop, and gives \<open>parses\<close> where the loop stops.
\<close>

definition chains :: "(nat \<Rightarrow> action) \<Rightarrow> (nat \<Rightarrow> nat \<Rightarrow> nix_ast \<Rightarrow> action) \<Rightarrow> (tok_kind list \<Rightarrow> bool) \<Rightarrow> nix_ast \<Rightarrow> tok_kind list \<Rightarrow> bool" where
  "chains f loop ok e ts \<longleftrightarrow>
     (\<forall>k p ks. length ts \<le> k \<longrightarrow> upcoming p = ts @ ks \<longrightarrow> \<not> p_has_error p \<longrightarrow> ok ks \<longrightarrow>
        (\<exists>N. length ks \<le> N \<and> f k p = loop k (Suc N) e (adv (length ts) p)))"

lemma chainsD:
  assumes "chains f loop ok e ts" "length ts \<le> k" "upcoming p = ts @ ks" "\<not> p_has_error p" "ok ks"
  obtains N where "length ks \<le> N" "f k p = loop k (Suc N) e (adv (length ts) p)"
  using assms unfolding chains_def by blast

lemma chain_base:
  assumes head: "parses_by g ok e ts" and e: "e \<noteq> NULL"
    and f: "\<And>k p. f k p = andthen (g k p) (\<lambda>(e, p'). if e = NULL \<or> p_has_error p' then Ret (e, p')
                   else loop k (budget p') e p')"
  shows "chains f loop ok e ts"
  unfolding chains_def
proof (intro allI impI)
  fix k p ks
  assume "length ts \<le> k" and u: "upcoming p = ts @ ks" and err: "\<not> p_has_error p" and "ok ks"
  then have "g k p = Ret (e, adv (length ts) p)" using parses_byD [OF head] by blast
  with e err have "f k p = loop k (Suc (p_mu (adv (length ts) p))) e (adv (length ts) p)"
    by (simp add: f budget_def)
  moreover have "length ks \<le> p_mu (adv (length ts) p)"
    using length_upcoming [of "adv (length ts) p"] upcoming_adv [OF u] by simp
  ultimately show "\<exists>N. length ks \<le> N \<and> f k p = loop k (Suc N) e (adv (length ts) p)" by blast
qed

lemma chain_step:
  assumes c: "chains f loop ok l ts"
    and step: "\<And>k p ks N. \<lbrakk>length us \<le> k; upcoming p = us @ ks; \<not> p_has_error p; ok' ks\<rbrakk> \<Longrightarrow>
        ok (us @ ks) \<and> loop k (Suc N) l p = loop k N e (adv (length us) p)"
    and us: "us \<noteq> []"
  shows "chains f loop ok' e (ts @ us)"
  unfolding chains_def
proof (intro allI impI)
  fix k p ks
  assume k: "length (ts @ us) \<le> k" and u: "upcoming p = (ts @ us) @ ks"
    and err: "\<not> p_has_error p" and ok: "ok' ks"
  let ?p1 = "adv (length ts) p"
  from u have u': "upcoming p = ts @ us @ ks" by simp
  have s: "ok (us @ ks)" "\<And>N. loop k (Suc N) l ?p1 = loop k N e (adv (length us) ?p1)"
    using step [OF _ upcoming_adv [OF u'] _ ok, of k] k err by simp_all
  have "length ts \<le> k" using k by simp
  from chainsD [OF c this u' err s(1)]
  obtain N where N: "length (us @ ks) \<le> N" "f k p = loop k (Suc N) l ?p1" .
  then obtain M where M: "N = Suc M" "length ks \<le> M" using us by (cases N) (auto simp: neq_Nil_conv)
  with N s(2) [of N] have "f k p = loop k (Suc M) e (adv (length (ts @ us)) p)" by simp
  with M(2) show "\<exists>N. length ks \<le> N \<and> f k p = loop k (Suc N) e (adv (length (ts @ us)) p)" by blast
qed

lemma chain_finish:
  assumes c: "chains f loop ok e ts"
    and stop: "\<And>k p ks N. \<lbrakk>upcoming p = ks; \<not> p_has_error p; ok' ks\<rbrakk> \<Longrightarrow> ok ks \<and> loop k (Suc N) e p = Ret (e, p)"
  shows "parses_by f ok' e ts"
proof (rule parses_byI)
  fix k p ks
  assume k: "length ts \<le> k" and u: "upcoming p = ts @ ks" and err: "\<not> p_has_error p" and ok: "ok' ks"
  have s: "ok ks" "\<And>N. loop k (Suc N) e (adv (length ts) p) = Ret (e, adv (length ts) p)"
    using stop [OF upcoming_adv [OF u] _ ok] err by simp_all
  from chainsD [OF c k u err s(1)] s(2) show "f k p = Ret (e, adv (length ts) p)" by metis
qed

subsection \<open>Binary operators to the left\<close>

abbreviation left_levels :: "nat set" where
  "left_levels \<equiv> {2, 3, 4, 5, 7, 8}"

abbreviation left_chain :: "nat \<Rightarrow> nix_ast \<Rightarrow> tok_kind list \<Rightarrow> bool" where
  "left_chain n \<equiv> chains (level_parser n) (\<lambda>k. binop_loop (level_parser (Suc n) k) (level_ops n)) (stops (Suc n))"

lemma left_chain_base:
  "n \<in> left_levels \<Longrightarrow> parses (Suc n) e ts \<Longrightarrow> e \<noteq> NULL \<Longrightarrow> left_chain n e ts"
  by (rule chain_base) (simp_all add: level_left parse_binop_left_def)

lemma left_chain_step:
  assumes c: "left_chain n l ts" and r: "parses (Suc n) r us" "r \<noteq> NULL"
    and n: "op_level op = n" "n \<in> left_levels"
  shows "left_chain n (NIX_NODE_BINOP op l r) (ts @ op_tok op # us)"
proof (rule chain_step [OF c])
  fix k p ks N
  assume k: "length (op_tok op # us) \<le> k" and u: "upcoming p = (op_tok op # us) @ ks"
    and err: "\<not> p_has_error p" and st: "stops (Suc n) ks"
  have "op \<in> set (level_ops n)" using n ops_level [of n op] by auto
  moreover have t: "peek_type p = op" using u by (simp add: peek_upcoming)
  moreover have "upcoming (advance p) = us @ ks" using u by (intro upcoming_advance) simp
  then have "level_parser (Suc n) k (advance p) = Ret (r, adv (length us) (advance p))"
    using k err st by (intro parses_byD [OF r(1)]) (simp_all add: advance_is_adv)
  moreover have "cont_level op = n" using cont_op [of op] n by auto
  ultimately show "stops (Suc n) ((op_tok op # us) @ ks) \<and>
      binop_loop (level_parser (Suc n) k) (level_ops n) (Suc N) l p =
      binop_loop (level_parser (Suc n) k) (level_ops n) N (NIX_NODE_BINOP op l r) (adv (length (op_tok op # us)) p)"
    using err r(2) by (simp add: stops_def adv_Suc)
qed simp

lemma not_next_op: "stops n ks \<Longrightarrow> 1 \<le> n \<Longrightarrow> n \<le> 8 \<Longrightarrow> next_type ks \<notin> set (level_ops n)"
  using ops_level [of n "next_type ks"] cont_op [of "next_type ks"] by (auto simp: stops_def)

lemma left_chain_finish:
  assumes "left_chain n e ts" and n: "n \<in> left_levels" shows "parses n e ts"
proof (rule chain_finish [OF assms(1)])
  fix k p ks N
  assume "upcoming p = ks" "\<not> p_has_error p" "stops n ks"
  then show "stops (Suc n) ks \<and> binop_loop (level_parser (Suc n) k) (level_ops n) (Suc N) e p = Ret (e, p)"
    using not_next_op [of n ks] stops_mono [of n ks "Suc n"] n by (auto simp: peek_next)
qed

subsection \<open>Binary operators to the right\<close>

abbreviation rights :: "nat \<Rightarrow> nix_ast \<Rightarrow> tok_kind list \<Rightarrow> bool" where
  "rights n e ts \<equiv> \<forall>N. length ts \<le> N \<longrightarrow>
     parses_by (\<lambda>k. binop_right (level_parser (Suc n) k) (hd (level_ops n)) (Suc N)) (stops n) e ts"

lemma right_op: "n \<in> {1, 6} \<Longrightarrow> op_level op = n \<longleftrightarrow> op = hd (level_ops n)"
  using ops_level [of n op] by (auto simp: level_ops_def)

lemma rights_base:
  assumes "n \<in> {1, 6}" and "parses (Suc n) e ts" and "e \<noteq> NULL" shows "rights n e ts"
proof (intro allI impI parses_byI)
  fix N k p ks
  assume k: "length ts \<le> k" and u: "upcoming p = ts @ ks" and err: "\<not> p_has_error p" and st: "stops n ks"
  have "peek_type (adv (length ts) p) \<noteq> hd (level_ops n)"
    using not_next_op [OF st] assms(1) by (auto simp: peek_adv [OF u] level_ops_def)
  moreover have "stops (Suc n) ks" using st by (rule stops_mono) simp
  ultimately show "binop_right (level_parser (Suc n) k) (hd (level_ops n)) (Suc N) p = Ret (e, adv (length ts) p)"
    using parses_byD [OF assms(2) k u err] assms(3) by simp
qed

lemma rights_step:
  assumes n: "n \<in> {1, 6}" "op_level op = n" and l: "parses (Suc n) l ts" "l \<noteq> NULL"
    and r: "rights n r us" "r \<noteq> NULL"
  shows "rights n (NIX_NODE_BINOP op l r) (ts @ op_tok op # us)"
proof (intro allI impI parses_byI)
  fix N k p ks
  assume N: "length (ts @ op_tok op # us) \<le> N" and k: "length (ts @ op_tok op # us) \<le> k"
    and u: "upcoming p = (ts @ op_tok op # us) @ ks" and err: "\<not> p_has_error p" and st: "stops n ks"
  from N obtain M where M: "N = Suc M" "length us \<le> M" by (cases N) auto
  from u have u': "upcoming p = ts @ op_tok op # us @ ks" by simp
  let ?p1 = "adv (length ts) p"
  have "stops (Suc n) (op_tok op # us @ ks)" using n cont_op [of op] by (auto simp: stops_def)
  then have "level_parser (Suc n) k p = Ret (l, ?p1)" using k by (intro parses_byD [OF l(1) _ u' err]) simp_all
  moreover have "peek_type ?p1 = hd (level_ops n)" using n by (simp add: peek_adv [OF u'] right_op)
  moreover have "binop_right (level_parser (Suc n) k) (hd (level_ops n)) (Suc M) (advance ?p1)
      = Ret (r, adv (length us) (advance ?p1))"
  proof -
    have "parses_by (\<lambda>k. binop_right (level_parser (Suc n) k) (hd (level_ops n)) (Suc M)) (stops n) r us"
      using r(1) M(2) by blast
    moreover have "upcoming (advance ?p1) = us @ ks" by (rule upcoming_advance [OF upcoming_adv [OF u']])
    ultimately show ?thesis
      using k err parses_byD [of "\<lambda>k. binop_right (level_parser (Suc n) k) (hd (level_ops n)) (Suc M)" "stops n" r us k "advance ?p1" ks] st
      by simp
  qed
  moreover have "op = hd (level_ops n)" using n right_op by blast
  ultimately show "binop_right (level_parser (Suc n) k) (hd (level_ops n)) (Suc N) p
      = Ret (NIX_NODE_BINOP op l r, adv (length (ts @ op_tok op # us)) p)"
    using l(2) r(2) err M by simp
qed

lemma rights_finish:
  assumes "rights n e ts" and n: "n \<in> {1, 6}" shows "parses n e ts"
proof (rule parses_byI)
  fix k p ks
  assume k: "length ts \<le> k" and u: "upcoming p = ts @ ks" and err: "\<not> p_has_error p" and st: "stops n ks"
  have "length ts \<le> p_mu p" using length_upcoming [of p] u by simp
  then have "parses_by (\<lambda>k. binop_right (level_parser (Suc n) k) (hd (level_ops n)) (Suc (p_mu p))) (stops n) e ts"
    using assms(1) by blast
  from parses_byD [OF this k u err st] show "level_parser n k p = Ret (e, adv (length ts) p)"
    by (simp add: level_right [OF n] parse_binop_right_def budget_def)
qed

subsection \<open>Unary operators\<close>

abbreviation unaries :: "nix_ast \<Rightarrow> tok_kind list \<Rightarrow> bool" where
  "unaries e ts \<equiv> \<forall>N. length ts \<le> N \<longrightarrow>
     parses_by (\<lambda>k. unary_loop (level_parser 10 k) (Suc N)) (stops 9) e ts"

lemma unaries_base:
  assumes "parses 10 e ts" and "ts \<noteq> []" and "starts_argument (fst (hd ts))" shows "unaries e ts"
proof (intro allI impI parses_byI)
  fix N k p ks
  assume k: "length ts \<le> k" and u: "upcoming p = ts @ ks" and err: "\<not> p_has_error p" and st: "stops 9 ks"
  have "peek_type p = fst (hd ts)" using u assms(2) by (cases ts) (simp_all add: peek_upcoming)
  moreover have "stops 10 ks" using st by (rule stops_mono) simp
  ultimately show "unary_loop (level_parser 10 k) (Suc N) p = Ret (e, adv (length ts) p)"
    using parses_byD [OF assms(1) k u err] assms(3) by (auto simp: starts_argument_def)
qed

lemma unaries_step:
  assumes e: "unaries e ts" "e \<noteq> NULL"
  shows "unaries (NIX_NODE_UNARY_NOT e) (op_tok NIX_TOK_NOT # ts)"
    and "unaries (NIX_NODE_NEGATE e) (op_tok NIX_TOK_MINUS # ts)"
proof -
  have *: "unary_loop (level_parser 10 k) N (advance p) = Ret (e, adv (Suc (length ts)) p)"
    if "Suc (length ts) \<le> N" "Suc (length ts) \<le> k" "upcoming p = op_tok t # ts @ ks" "\<not> p_has_error p" "stops 9 ks"
    for N k p ks t
  proof -
    from that(1) obtain M where M: "N = Suc M" "length ts \<le> M" by (cases N) auto
    with e(1) have "parses_by (\<lambda>k. unary_loop (level_parser 10 k) N) (stops 9) e ts" by blast
    from parses_byD [OF this _ upcoming_advance [OF that(3)]] that show ?thesis by (simp add: adv_Suc)
  qed
  show "unaries (NIX_NODE_UNARY_NOT e) (op_tok NIX_TOK_NOT # ts)"
    by (intro allI impI parses_byI) (use e(2) in \<open>simp add: * peek_upcoming\<close>)
  show "unaries (NIX_NODE_NEGATE e) (op_tok NIX_TOK_MINUS # ts)"
    by (intro allI impI parses_byI) (use e(2) in \<open>simp add: * peek_upcoming\<close>)
qed

lemma unaries_finish:
  assumes "unaries e ts" shows "parses 9 e ts"
proof (rule parses_byI)
  fix k p ks
  assume k: "length ts \<le> k" and u: "upcoming p = ts @ ks" and err: "\<not> p_has_error p" and st: "stops 9 ks"
  have "length ts \<le> p_mu p" using length_upcoming [of p] u by simp
  then have "parses_by (\<lambda>k. unary_loop (level_parser 10 k) (Suc (p_mu p))) (stops 9) e ts"
    using assms by blast
  from parses_byD [OF this k u err st] show "level_parser 9 k p = Ret (e, adv (length ts) p)"
    by (simp add: level_unary budget_def)
qed

subsection \<open>Application\<close>

abbreviation apply_chain :: "nix_ast \<Rightarrow> tok_kind list \<Rightarrow> bool" where
  "apply_chain \<equiv> chains (level_parser 10) (\<lambda>k. apply_loop (level_parser 11 k)) (stops 11)"

lemma apply_chain_base: "parses 11 e ts \<Longrightarrow> e \<noteq> NULL \<Longrightarrow> apply_chain e ts"
  by (rule chain_base) (simp_all add: level_apply parse_apply_def)

lemma apply_chain_step:
  assumes c: "apply_chain f ts" and r: "parses 11 e us" "e \<noteq> NULL"
    and us: "us \<noteq> []" "starts_argument (fst (hd us))"
  shows "apply_chain (NIX_NODE_APPLY f e) (ts @ us)"
proof (rule chain_step [OF c])
  fix k p ks N
  assume k: "length us \<le> k" and u: "upcoming p = us @ ks" and err: "\<not> p_has_error p" and st: "stops 11 ks"
  have t: "peek_type p = fst (hd us)" using u us by (cases us) (simp_all add: peek_upcoming)
  have "cont_level (fst (hd us)) = 10" using us(2) by (auto simp: cont_level_def starts_argument_def)
  then have "stops 11 (us @ ks)" using us(1) by (cases us) (simp_all add: stops_def)
  then show "stops 11 (us @ ks) \<and> apply_loop (level_parser 11 k) (Suc N) f p =
      apply_loop (level_parser 11 k) N (NIX_NODE_APPLY f e) (adv (length us) p)"
    using parses_byD [OF r(1) k u err st] r(2) us t err by simp
qed (rule us)

lemma apply_chain_finish:
  assumes "apply_chain e ts" shows "parses 10 e ts"
proof (rule chain_finish [OF assms])
  fix k p ks N
  assume u: "upcoming p = ks" and "\<not> p_has_error p" and st: "stops 10 ks"
  have "\<not> starts_argument (next_type ks)"
    using st by (auto simp: stops_def cont_level_def starts_argument_def split: if_splits)
  then show "stops 11 ks \<and> apply_loop (level_parser 11 k) (Suc N) e p = Ret (e, p)"
    using stops_mono [OF st, of 11] by (simp add: peek_next [OF u])
qed

subsection \<open>Selection\<close>

abbreviation select_chain :: "nix_ast \<Rightarrow> tok_kind list \<Rightarrow> bool" where
  "select_chain \<equiv> chains (level_parser 11) (\<lambda>k. select_loop (parse_select k))
     (\<lambda>ks. stops 12 ks \<and> next_type ks \<noteq> NIX_TOK_KW_OR)"

lemma select_chain_base: "parses 12 e ts \<Longrightarrow> e \<noteq> NULL \<Longrightarrow> select_chain e ts"
  by (rule chain_base [OF parses_by_mono [where ok = "stops 12"]]) (simp_all add: level_select)

lemma stops_dot: "stops 12 (op_tok NIX_TOK_DOT # ks)"
  by (simp add: stops_def cont_level_def)

lemma dot_attr:
  assumes "upcoming p = op_tok NIX_TOK_DOT # ident_tok a # ks"
  shows "peek_type p = NIX_TOK_DOT" "peek_type (adv 1 p) = NIX_TOK_IDENT" "cur_text (adv 1 p) = a"
    "peek_type (adv 2 p) = next_type ks" "upcoming (adv 2 p) = ks"
  using peek_upcoming [OF assms] upcoming_advance [OF assms] upcoming_adv [of p "[op_tok NIX_TOK_DOT, ident_tok a]" ks] assms
  by (simp_all add: peek_upcoming text_upcoming ident_tok_def peek_next numeral_2_eq_2 advance_is_adv)

lemma select_chain_step:
  assumes c: "select_chain e ts"
  shows "select_chain (NIX_NODE_SELECT e a) (ts @ [op_tok NIX_TOK_DOT, ident_tok a])"
proof (rule chain_step [OF c])
  fix k p ks N
  assume u: "upcoming p = [op_tok NIX_TOK_DOT, ident_tok a] @ ks" and "\<not> p_has_error p"
    and st: "stops 12 ks \<and> next_type ks \<noteq> NIX_TOK_KW_OR"
  from u have "upcoming p = op_tok NIX_TOK_DOT # ident_tok a # ks" by simp
  note d = dot_attr [OF this]
  from st d show "(stops 12 ([op_tok NIX_TOK_DOT, ident_tok a] @ ks) \<and>
        next_type ([op_tok NIX_TOK_DOT, ident_tok a] @ ks) \<noteq> NIX_TOK_KW_OR) \<and>
      select_loop (parse_select k) (Suc N) e p =
      select_loop (parse_select k) N (NIX_NODE_SELECT e a) (adv (length [op_tok NIX_TOK_DOT, ident_tok a]) p)"
    by (simp add: stops_dot advance_is_adv numeral_2_eq_2)
qed simp

lemma select_stop: "stops 11 ks \<Longrightarrow> next_type ks \<noteq> NIX_TOK_DOT \<and> next_type ks \<noteq> NIX_TOK_KW_OR \<and> stops 12 ks"
  by (auto simp: stops_def cont_level_def split: if_splits)

lemma select_chain_finish: "select_chain e ts \<Longrightarrow> parses 11 e ts"
  by (erule chain_finish) (auto simp: select_stop peek_next)

lemma parses_default:
  assumes c: "select_chain e ts" and d: "parses 11 d us"
  shows "parses 11 (NIX_NODE_OR_DEFAULT e a d)
    (ts @ op_tok NIX_TOK_DOT # ident_tok a # kw_tok ''or'' NIX_TOK_KW_OR # us)"
proof (rule chain_finish)
  show "chains (level_parser 11) (\<lambda>k. select_loop (parse_select k)) (stops 11) (NIX_NODE_OR_DEFAULT e a d)
    (ts @ op_tok NIX_TOK_DOT # ident_tok a # kw_tok ''or'' NIX_TOK_KW_OR # us)"
  proof (rule chain_step [OF c])
    fix k p ks N
    let ?us = "op_tok NIX_TOK_DOT # ident_tok a # kw_tok ''or'' NIX_TOK_KW_OR # us"
    assume k: "length ?us \<le> k" and u: "upcoming p = ?us @ ks" and err: "\<not> p_has_error p" and st: "stops 11 ks"
    from u have "upcoming p = op_tok NIX_TOK_DOT # ident_tok a # (kw_tok ''or'' NIX_TOK_KW_OR # us @ ks)" by simp
    note dd = dot_attr [OF this]
    have "parse_select k (advance (adv 2 p)) = Ret (d, adv (length us) (advance (adv 2 p)))"
      by (rule parse_select_parses [OF d _ upcoming_advance [OF dd(5)] _ st]) (use k err in simp_all)
    with dd show "(stops 12 (?us @ ks) \<and> next_type (?us @ ks) \<noteq> NIX_TOK_KW_OR) \<and>
      select_loop (parse_select k) (Suc N) e p =
      select_loop (parse_select k) N (NIX_NODE_OR_DEFAULT e a d) (adv (length ?us) p)"
      by (simp add: stops_dot advance_is_adv numeral_2_eq_2 numeral_3_eq_3)
  qed simp
qed (simp add: select_stop peek_next)

subsection \<open>Leaves\<close>

lemma parses_leaf:
  assumes "\<And>k p ks. upcoming p = t # ks \<Longrightarrow> \<not> p_has_error p \<Longrightarrow> stops 12 ks \<Longrightarrow>
      parse_base (parse_expr k) (parse_select k) p = Ret (e, advance p)"
  shows "parses 12 e [t]"
  by (rule parses_byI) (use assms in \<open>simp add: level_base advance_is_adv\<close>)

lemma parses_int: "parses 12 (NIX_NODE_INT i) [(NIX_TOK_INT, None, i)]"
  by (rule parses_leaf) (simp add: parse_base_def peek_upcoming integer_upcoming)

lemma parses_path: "parses 12 (NIX_NODE_PATH s) [(NIX_TOK_PATH, Some s, 0)]"
  by (rule parses_leaf) (simp add: parse_base_def peek_upcoming text_upcoming)

definition ident_node :: "string \<Rightarrow> nix_ast" where
  "ident_node s = (if s = ''true'' then NIX_NODE_BOOL True else if s = ''false'' then NIX_NODE_BOOL False
     else if s = ''null'' then NIX_NODE_NULL else NIX_NODE_IDENT s)"

lemma stops_no_colon: "stops 12 ks \<Longrightarrow> next_type ks \<noteq> NIX_TOK_COLON"
  by (auto simp: stops_def cont_level_def)

lemma parses_ident:
  assumes "s \<noteq> ''import''" shows "parses 12 (ident_node s) [ident_tok s]"
proof (rule parses_leaf)
  fix k p ks
  assume u: "upcoming p = ident_tok s # ks" and err: "\<not> p_has_error p" and st: "stops 12 ks"
  have "cur_text p = s" using u by (simp add: ident_tok_def text_upcoming)
  moreover have "peek_type p = NIX_TOK_IDENT" using u by (simp add: peek_upcoming)
  moreover have "peek_type (advance p) \<noteq> NIX_TOK_COLON"
    using peek_next [OF upcoming_advance [OF u]] stops_no_colon [OF st] by simp
  ultimately show "parse_base (parse_expr k) (parse_select k) p = Ret (ident_node s, advance p)"
    using assms by (simp add: parse_base_def parse_identifier_def ident_node_def)
qed

lemma literal_span_plain: "\<not> has_interpolation s \<Longrightarrow> literal_span s = (s, [])"
proof (induction s)
  case (Cons c s)
  have "\<not> has_interpolation s" using Cons.prems by (simp add: has_interpolation_def)
  moreover have "\<not> (c = CHR ''$'' \<and> take 1 s = ''{'')"
  proof
    assume "c = CHR ''$'' \<and> take 1 s = ''{''"
    then have "c # s = [] @ ''${'' @ drop 1 s" using append_take_drop_id [of 1 s] by (simp del: append_take_drop_id)
    with Cons.prems show False unfolding has_interpolation_def c_strstr_iff by blast
  qed
  ultimately show ?case using Cons.IH by simp
qed simp

lemma string_pieces_plain: "\<not> has_interpolation s \<Longrightarrow> string_pieces s = (if s = [] then [] else [Literal s])"
proof (cases s)
  case (Cons c r)
  assume "\<not> has_interpolation s"
  from literal_span_plain [OF this] Cons show ?thesis by (auto split: if_splits prod.splits)
qed simp

lemma parses_string:
  assumes "\<not> has_interpolation s"
  shows "parses 12 (NIX_NODE_STRING (if s = [] then [] else [Inl s])) [string_tok s]"
proof (rule parses_leaf)
  fix k p ks
  assume u: "upcoming p = string_tok s # ks"
  have "cur_text p = s" using u by (simp add: string_tok_def text_upcoming)
  with u show "parse_base (parse_expr k) (parse_select k) p =
      Ret (NIX_NODE_STRING (if s = [] then [] else [Inl s]), advance p)"
    by (simp add: parse_base_def parse_string_def peek_upcoming string_pieces_plain [OF assms])
qed

subsection \<open>Bindings\<close>

abbreviation bindings_toks :: "(string option \<times> nix_ast) list \<Rightarrow> tok_kind list" where
  "bindings_toks bs \<equiv> concat (map (\<lambda>b. bind_toks (fst b) (pr (snd b))) bs)"

definition as_bind :: "string option \<times> nix_ast \<Rightarrow> nix_bind" where
  "as_bind b = ([the (fst b)], snd b)"

lemma attrpath_end: "peek_type p \<noteq> NIX_TOK_DOT \<Longrightarrow> attrpath_loop parts p = (False, parts, p)"
  by (subst attrpath_loop.simps) simp

lemma bind_value:
  assumes v: "parses 0 v ts" and k: "length ts < k" and err: "\<not> p_has_error p"
    and u: "upcoming p = op_tok NIX_TOK_EQUALS # ts @ op_tok NIX_TOK_SEMICOLON # ks"
  shows "peek_type p = NIX_TOK_EQUALS"
    and "parse_expr k (advance p) = Ret (v, adv (Suc (length ts)) p)"
    and "peek_type (adv (Suc (length ts)) p) = NIX_TOK_SEMICOLON"
proof -
  show "peek_type p = NIX_TOK_EQUALS" using u by (simp add: peek_upcoming)
  have u1: "upcoming (advance p) = ts @ op_tok NIX_TOK_SEMICOLON # ks" by (rule upcoming_advance [OF u])
  show "parse_expr k (advance p) = Ret (v, adv (Suc (length ts)) p)"
    using parse_expr_parses [OF v k u1] err by (simp add: advance_is_adv)
  show "peek_type (adv (Suc (length ts)) p) = NIX_TOK_SEMICOLON"
    using peek_adv [OF u1] by (simp add: advance_is_adv)
qed

lemma key_text:
  assumes "upcoming p = string_tok s # ks" and "key_ok (Some s)"
  shows "peek_type p = NIX_TOK_STRING" "cur_text p = s" "\<not> has_interpolation s" "upcoming (advance p) = ks"
  using assms upcoming_advance [OF assms(1)]
  by (simp_all add: peek_upcoming text_upcoming string_tok_def key_ok_def)

lemma parse_bind_printed:
  assumes v: "parses 0 v ts" and key: "key_ok key" and k: "length ts < k" and err: "\<not> p_has_error p"
    and u: "upcoming p = bind_toks key ts @ ks"
  shows "parse_bind (parse_expr k) acc p = Ret (acc @ [as_bind (key, v)], adv (length (bind_toks key ts)) p)"
proof -
  from key obtain s where s: "key = Some s" by (auto simp: key_ok_def split: option.splits)
  from u s have u0: "upcoming p = string_tok s # op_tok NIX_TOK_EQUALS # ts @ op_tok NIX_TOK_SEMICOLON # ks"
    by (simp add: bind_toks_def)
  note t = key_text [OF u0 key [unfolded s]]
  have err1: "\<not> p_has_error (advance p)" using err by (simp add: advance_is_adv)
  note b = bind_value [OF v k err1 t(4)]
  have "parse_attrpath p = ([s], advance p)"
    using t b(1) by (simp add: parse_attrpath_def attrpath_end)
  then show ?thesis
    using t b err by (simp add: parse_bind_def expect_next as_bind_def s bind_toks_def advance_is_adv)
qed

lemma binds_loop_printed:
  assumes "\<forall>b \<in> set bs. key_ok (fst b) \<and> parses 0 (snd b) (pr (snd b))"
    and "length (bindings_toks bs) \<le> k" and "length bs \<le> N" and "\<not> p_has_error p"
    and "upcoming p = bindings_toks bs @ ks" and "next_type ks = stop" and "stop \<noteq> NIX_TOK_STRING"
  shows "binds_loop (parse_expr k) stop (Suc N) acc p = Ret (False, acc @ map as_bind bs, adv (length (bindings_toks bs)) p)"
  using assms
proof (induction bs arbitrary: N acc p)
  case Nil
  then show ?case by (simp add: peek_next)
next
  case (Cons b bs)
  obtain key v where b: "b = (key, v)" by (cases b)
  from Cons.prems b have v: "parses 0 v (pr v)" "key_ok key" by auto
  from Cons.prems b have k: "length (pr v) < k" by (simp add: bind_toks_def)
  from Cons.prems b have u: "upcoming p = bind_toks key (pr v) @ bindings_toks bs @ ks" by simp
  from parse_bind_printed [OF v k _ u] Cons.prems b
  have one: "parse_bind (parse_expr k) acc p = Ret (acc @ [as_bind b], adv (length (bind_toks key (pr v))) p)" by simp
  from Cons.prems obtain M where M: "N = Suc M" "length bs \<le> M" by (cases N) auto
  have "binds_loop (parse_expr k) stop (Suc M) (acc @ [as_bind b]) (adv (length (bind_toks key (pr v))) p)
      = Ret (False, (acc @ [as_bind b]) @ map as_bind bs,
          adv (length (bindings_toks bs)) (adv (length (bind_toks key (pr v))) p))"
    by (rule Cons.IH) (use Cons.prems M upcoming_adv [OF u] in simp_all)
  moreover have "peek_type p = NIX_TOK_STRING" using u by (simp add: peek_upcoming bind_toks_def)
  ultimately show ?case
    using one Cons.prems M b by simp
qed

lemma length_bindings_toks: "length bs \<le> length (bindings_toks bs)"
  by (induction bs) (simp_all add: bind_toks_def)

lemma binds_loop_budget:
  assumes "\<forall>b \<in> set bs. key_ok (fst b) \<and> parses 0 (snd b) (pr (snd b))"
    and "length (bindings_toks bs) \<le> k" and "\<not> p_has_error p"
    and u: "upcoming p = bindings_toks bs @ t # ks" and "fst t = stop" and "stop \<noteq> NIX_TOK_STRING"
  shows "binds_loop (parse_expr k) stop (budget p) acc p = Ret (False, acc @ map as_bind bs, adv (length (bindings_toks bs)) p)"
proof -
  have "length bs \<le> p_mu p" using length_upcoming [of p] length_bindings_toks [of bs] u by simp
  then show ?thesis
    using binds_loop_printed [OF assms(1,2) _ assms(3) u] assms(5,6) by (simp add: budget_def)
qed

lemma joined_as_bind: "key_ok (fst b) \<Longrightarrow> joined_key (as_bind b) = b"
  by (cases b) (auto simp: joined_key_def as_bind_def key_ok_def split: option.splits)

lemma single_as_bind: "key_ok (fst b) \<Longrightarrow> single_key (as_bind b) = b"
  by (cases b) (auto simp: single_key_def as_bind_def key_ok_def split: option.splits)

abbreviation bindings_settled :: "(string option \<times> nix_ast) list \<Rightarrow> bool" where
  "bindings_settled bs \<equiv> \<forall>b \<in> set bs. key_ok (fst b) \<and> parses 0 (snd b) (pr (snd b))"

lemma parses_attrset:
  assumes bs: "bindings_settled bs" shows "parses 12 (NIX_NODE_ATTR_SET bs) (pr (NIX_NODE_ATTR_SET bs))"
proof (rule parses_byI)
  fix k p ks
  assume k: "length (pr (NIX_NODE_ATTR_SET bs)) \<le> k" and u: "upcoming p = pr (NIX_NODE_ATTR_SET bs) @ ks"
    and err: "\<not> p_has_error p" and st: "stops 12 ks"
  have brace: "level_parser 12 k p = parse_braces (parse_expr k) (advance p)"
    using u by (simp add: level_base parse_base_def peek_upcoming)
  show "level_parser 12 k p = Ret (NIX_NODE_ATTR_SET bs, adv (length (pr (NIX_NODE_ATTR_SET bs))) p)"
  proof (cases bs)
    case Nil
    with u have u1: "upcoming (advance p) = op_tok NIX_TOK_RBRACE # ks" by (intro upcoming_advance) simp
    have "peek_type (advance (advance p)) \<noteq> NIX_TOK_COLON"
      using peek_next [OF upcoming_advance [OF u1]] stops_no_colon [OF st] by simp
    with u1 brace Nil show ?thesis
      by (simp add: parse_braces_def peek_upcoming advance_is_adv numeral_2_eq_2)
  next
    case (Cons b bs')
    obtain key v where b: "b = (key, v)" by (cases b)
    with bs Cons obtain s where s: "key = Some s" "key_ok (Some s)" and v: "parses 0 v (pr v)"
      by (auto simp: key_ok_def split: option.splits)
    let ?ts = "pr v" and ?p1 = "advance p"
    from u Cons b s have u1: "upcoming ?p1 = string_tok s # op_tok NIX_TOK_EQUALS # ?ts @ op_tok NIX_TOK_SEMICOLON #
        bindings_toks bs' @ op_tok NIX_TOK_RBRACE # ks"
      by (intro upcoming_advance) (simp add: bind_toks_def)
    note t = key_text [OF u1 s(2)]
    have kv: "length ?ts < k" "length (bindings_toks bs') \<le> k" using k Cons b by (simp_all add: bind_toks_def)
    have err2: "\<not> p_has_error (advance ?p1)" using err by (simp add: advance_is_adv)
    note bv = bind_value [OF v kv(1) err2 t(4)]
    let ?p2 = "adv (length (bind_toks key ?ts)) ?p1"
    have p2: "upcoming ?p2 = bindings_toks bs' @ op_tok NIX_TOK_RBRACE # ks"
      by (rule upcoming_adv) (use u1 s in \<open>simp add: bind_toks_def\<close>)
    have "binds_loop (parse_expr k) NIX_TOK_RBRACE (budget ?p2) [as_bind b] ?p2
        = Ret (False, map as_bind bs, adv (length (bindings_toks bs')) ?p2)"
      using binds_loop_budget [OF _ kv(2) _ p2] bs err Cons by (simp add: advance_is_adv)
    moreover have "peek_type (adv (length (bindings_toks bs')) ?p2) = NIX_TOK_RBRACE"
      using peek_adv [OF p2] by simp
    moreover have "peek_type (advance (adv (length (bindings_toks bs')) ?p2)) \<noteq> NIX_TOK_COLON"
      using peek_next [OF upcoming_advance [OF upcoming_adv [OF p2]]] stops_no_colon [OF st] by simp
    moreover have "map joined_key (map as_bind bs) = bs"
      using bs by (simp add: joined_as_bind map_idI)
    ultimately have "bindings_rest (parse_expr k) joined_key [as_bind b] ?p2
        = Ret (NIX_NODE_ATTR_SET bs, advance (adv (length (bindings_toks bs')) ?p2))"
      by (simp add: bindings_rest_def finish_attrset_def expect_next)
    then have "parse_bindings (parse_expr k) s (advance ?p1)
        = Ret (NIX_NODE_ATTR_SET bs, advance (adv (length (bindings_toks bs')) ?p2))"
      using bv err by (simp add: parse_bindings_def attrpath_end expect_next b s as_bind_def bind_toks_def advance_is_adv)
    with t brace show ?thesis
      by (simp add: parse_braces_def Cons b bind_toks_def advance_is_adv)
  qed
qed

lemma parses_rec:
  assumes bs: "bindings_settled bs" shows "parses 12 (NIX_NODE_REC_ATTR_SET bs) (pr (NIX_NODE_REC_ATTR_SET bs))"
proof (rule parses_byI)
  fix k p ks
  assume k: "length (pr (NIX_NODE_REC_ATTR_SET bs)) \<le> k" and u: "upcoming p = pr (NIX_NODE_REC_ATTR_SET bs) @ ks"
    and err: "\<not> p_has_error p" and st: "stops 12 ks"
  from u have u1: "upcoming (advance p) = op_tok NIX_TOK_LBRACE # bindings_toks bs @ op_tok NIX_TOK_RBRACE # ks"
    by (intro upcoming_advance) simp
  note u2 = upcoming_advance [OF u1]
  have "binds_loop (parse_expr k) NIX_TOK_RBRACE (budget (adv 2 p)) [] (adv 2 p)
      = Ret (False, map as_bind bs, adv (length (bindings_toks bs)) (adv 2 p))"
    using binds_loop_budget [OF bs, of k "adv 2 p"] u2 k err by (simp add: advance_is_adv numeral_2_eq_2)
  moreover have "map single_key (map as_bind bs) = bs" using bs by (simp add: single_as_bind map_idI)
  ultimately show "level_parser 12 k p = Ret (NIX_NODE_REC_ATTR_SET bs, adv (length (pr (NIX_NODE_REC_ATTR_SET bs))) p)"
    using u peek_upcoming [OF u1] peek_adv [OF u2] err
    by (simp add: level_base parse_base_def parse_rec_def peek_upcoming expect_next advance_is_adv numeral_2_eq_2)
qed

lemma parses_let:
  assumes bs: "bindings_settled bs" and e: "parses 0 e (pr e)"
  shows "parses 0 (NIX_NODE_LET bs e) (pr (NIX_NODE_LET bs e))"
proof (rule parses_byI)
  fix k p ks
  assume k: "length (pr (NIX_NODE_LET bs e)) \<le> k" and u: "upcoming p = pr (NIX_NODE_LET bs e) @ ks"
    and err: "\<not> p_has_error p" and st: "stops 0 ks"
  from u have u1: "upcoming (advance p) = bindings_toks bs @ kw_tok ''in'' NIX_TOK_KW_IN # pr e @ ks"
    by (intro upcoming_advance) simp
  have "binds_loop (parse_expr k) NIX_TOK_KW_IN (budget (advance p)) [] (advance p)
      = Ret (False, map as_bind bs, adv (length (bindings_toks bs)) (advance p))"
    using binds_loop_budget [OF bs _ _ u1] k err by (simp add: advance_is_adv)
  moreover have "parse_expr k (advance (adv (length (bindings_toks bs)) (advance p)))
      = Ret (e, adv (length (pr e)) (advance (adv (length (bindings_toks bs)) (advance p))))"
    by (rule parse_expr_parses [OF e _ upcoming_advance [OF upcoming_adv [OF u1]] _ st])
      (use k err in \<open>simp_all add: advance_is_adv\<close>)
  moreover have "map single_key (map as_bind bs) = bs" using bs by (simp add: single_as_bind map_idI)
  ultimately show "level_parser 0 k p = Ret (NIX_NODE_LET bs e, adv (length (pr (NIX_NODE_LET bs e))) p)"
    using u peek_adv [OF u1] err
    by (simp add: level_expr expr_body_def parse_let_def peek_upcoming expect_next advance_is_adv add.commute)
qed

subsection \<open>Lists\<close>

abbreviation items_toks :: "nix_ast list \<Rightarrow> tok_kind list" where
  "items_toks es \<equiv> concat (map (\<lambda>e. wrap 11 e (pr e)) es)"

definition starts_well :: "tok_kind list \<Rightarrow> bool" where
  "starts_well ts \<longleftrightarrow> ts \<noteq> [] \<and> starts_argument (fst (hd ts))"

lemma starts_well_stops: "starts_well ts \<Longrightarrow> stops 11 (ts @ ks)"
  by (cases ts) (auto simp: starts_well_def stops_def cont_level_def starts_argument_def)

lemma wrap_starts_well: "printable e \<Longrightarrow> 10 \<le> n \<Longrightarrow> starts_well (wrap n e (pr e))"
  using pr_start [of e] by (auto simp: starts_well_def wrap_def operand_start_def)

lemma stops_rbracket: "stops n (op_tok NIX_TOK_RBRACKET # ks)"
  by (simp add: stops_def cont_level_def starts_argument_def)

lemma items_stop: "\<forall>e \<in> set es. printable e \<Longrightarrow> stops 11 (items_toks es @ op_tok NIX_TOK_RBRACKET # ks)"
  by (cases es) (simp_all add: stops_rbracket starts_well_stops wrap_starts_well)

lemma list_loop_printed:
  assumes "\<forall>e \<in> set es. printable e \<and> parses 11 e (wrap 11 e (pr e))"
    and "length (items_toks es) < k" and "length es \<le> N" and "\<not> p_has_error p"
    and "upcoming p = items_toks es @ op_tok NIX_TOK_RBRACKET # ks"
  shows "list_loop (parse_select k) (Suc N) acc p = Ret (False, acc @ es, adv (length (items_toks es)) p)"
  using assms
proof (induction es arbitrary: N acc p)
  case Nil
  then show ?case by (simp add: peek_upcoming)
next
  case (Cons e es)
  let ?ts = "wrap 11 e (pr e)"
  from Cons.prems have u: "upcoming p = ?ts @ items_toks es @ op_tok NIX_TOK_RBRACKET # ks" by simp
  have w: "starts_well ?ts" using Cons.prems(1) by (simp add: wrap_starts_well)
  have one: "parse_select k p = Ret (e, adv (length ?ts) p)"
    by (rule parse_select_parses [OF _ _ u Cons.prems(4) items_stop]) (use Cons.prems in simp_all)
  from Cons.prems obtain M where M: "N = Suc M" "length es \<le> M" by (cases N) auto
  have "list_loop (parse_select k) (Suc M) (acc @ [e]) (adv (length ?ts) p)
      = Ret (False, (acc @ [e]) @ es, adv (length (items_toks es)) (adv (length ?ts) p))"
    by (rule Cons.IH) (use Cons.prems M upcoming_adv [OF u] in simp_all)
  moreover have "starts_argument (peek_type p)"
    using u w by (cases ?ts) (simp_all add: peek_upcoming starts_well_def)
  then have "peek_type p \<noteq> NIX_TOK_RBRACKET" "peek_type p \<noteq> NIX_TOK_EOF"
    by (auto simp: starts_argument_def)
  ultimately show ?case using one Cons.prems M by simp
qed

lemma length_items: "\<forall>e \<in> set es. printable e \<Longrightarrow> length es \<le> length (items_toks es)"
proof (induction es)
  case (Cons e es)
  moreover have "1 \<le> length (wrap 11 e (pr e))"
    using Cons.prems wrap_starts_well [of e 11] by (simp add: starts_well_def Suc_le_eq)
  ultimately show ?case by simp
qed simp

lemma parses_list:
  assumes es: "\<forall>e \<in> set es. printable e \<and> parses 11 e (wrap 11 e (pr e))"
  shows "parses 12 (NIX_NODE_LIST es) (pr (NIX_NODE_LIST es))"
proof (rule parses_byI)
  fix k p ks
  assume k: "length (pr (NIX_NODE_LIST es)) \<le> k" and u: "upcoming p = pr (NIX_NODE_LIST es) @ ks"
    and err: "\<not> p_has_error p" and st: "stops 12 ks"
  from u have u1: "upcoming (advance p) = items_toks es @ op_tok NIX_TOK_RBRACKET # ks"
    by (intro upcoming_advance) simp
  have "length es \<le> length (items_toks es)" using es by (intro length_items) simp
  also have "\<dots> \<le> p_mu (advance p)" using length_upcoming [of "advance p"] u1 by simp
  finally have "list_loop (parse_select k) (budget (advance p)) [] (advance p)
      = Ret (False, es, adv (length (items_toks es)) (advance p))"
    using list_loop_printed [OF es _ _ _ u1] k err by (simp add: budget_def advance_is_adv)
  then show "level_parser 12 k p = Ret (NIX_NODE_LIST es, adv (length (pr (NIX_NODE_LIST es))) p)"
    using u peek_adv [OF u1] by (simp add: level_base parse_base_def parse_list_def peek_upcoming expect_next advance_is_adv)
qed

subsection \<open>Functions\<close>

lemma parses_by_lambda:
  assumes e: "parses 0 e (pr e)"
  shows "parses_by (level_parser 12) (stops 0) (NIX_NODE_LAMBDA (NIX_NODE_IDENT x) e)
    (ident_tok x # op_tok NIX_TOK_COLON # pr e)"
proof (rule parses_byI)
  fix k p ks
  assume k: "length (ident_tok x # op_tok NIX_TOK_COLON # pr e) \<le> k"
    and u: "upcoming p = (ident_tok x # op_tok NIX_TOK_COLON # pr e) @ ks"
    and err: "\<not> p_has_error p" and st: "stops 0 ks"
  from u have u1: "upcoming (advance p) = op_tok NIX_TOK_COLON # pr e @ ks" by (intro upcoming_advance) simp
  have "cur_text p = x" using u by (simp add: ident_tok_def text_upcoming)
  moreover have "parse_expr k (advance (advance p)) = Ret (e, adv (length (pr e)) (advance (advance p)))"
    by (rule parse_expr_parses [OF e _ upcoming_advance [OF u1] _ st]) (use k err in \<open>simp_all add: advance_is_adv\<close>)
  ultimately show "level_parser 12 k p = Ret (NIX_NODE_LAMBDA (NIX_NODE_IDENT x) e,
      adv (length (ident_tok x # op_tok NIX_TOK_COLON # pr e)) p)"
    using u peek_upcoming [OF u1]
    by (simp add: level_base parse_base_def parse_identifier_def peek_upcoming advance_is_adv)
qed

abbreviation formals_toks :: "(string option \<times> nix_ast) list \<Rightarrow> tok_kind list" where
  "formals_toks fs \<equiv> with_commas (map (\<lambda>f. formal_toks (fst f) (snd f) (pr (snd f))) fs)"

lemma with_commas_Cons: "with_commas (t # ts) = t @ (if ts = [] then [] else op_tok NIX_TOK_COMMA # with_commas ts)"
  by (cases ts) simp_all

abbreviation formals_settled :: "(string option \<times> nix_ast) list \<Rightarrow> bool" where
  "formals_settled fs \<equiv> \<forall>f \<in> set fs. formal_ok (fst f) \<and> parses 0 (snd f) (pr (snd f))"

lemma formal_default_printed:
  assumes v: "parses 0 v (pr v)" and k: "length (formal_toks key v (pr v)) \<le> k" and err: "\<not> p_has_error p"
    and u: "upcoming p = tl (formal_toks key v (pr v)) @ ks"
    and ks: "next_type ks = NIX_TOK_COMMA \<or> next_type ks = NIX_TOK_RBRACE"
  shows "formal_default (parse_expr k) p = Ret (v, adv (length (formal_toks key v (pr v)) - 1) p)"
proof (cases "v = NIX_NODE_NULL")
  case True
  then have "peek_type p \<noteq> NIX_TOK_QUESTION" using u ks by (auto simp: formal_toks_def peek_next)
  with True show ?thesis by (simp add: formal_default_def formal_toks_def)
next
  case False
  with u have u': "upcoming p = op_tok NIX_TOK_QUESTION # pr v @ ks" by (simp add: formal_toks_def)
  have "stops 0 ks" using ks by (auto simp: stops_def cont_level_def starts_argument_def)
  then have "parse_expr k (advance p) = Ret (v, adv (length (pr v)) (advance p))"
    using parse_expr_parses [OF v _ upcoming_advance [OF u']] k err False by (simp add: formal_toks_def advance_is_adv)
  with False u' show ?thesis by (simp add: formal_default_def formal_toks_def peek_upcoming advance_is_adv)
qed

lemma formals_rest:
  assumes u: "upcoming p = (if fs = [] then [] else op_tok NIX_TOK_COMMA # formals_toks fs) @ op_tok NIX_TOK_RBRACE # ks"
  shows "upcoming (skip_comma p) = formals_toks fs @ op_tok NIX_TOK_RBRACE # ks"
    and "skip_comma p = adv (if fs = [] then 0 else 1) p"
  using u upcoming_advance [of p "op_tok NIX_TOK_COMMA"]
  by (cases fs; simp add: skip_comma_def peek_upcoming advance_is_adv)+

lemma formals_loop_printed:
  assumes "formals_settled fs" and "length (formals_toks fs) \<le> k" and "length fs \<le> N" and "\<not> p_has_error p"
    and "upcoming p = formals_toks fs @ op_tok NIX_TOK_RBRACE # ks"
  shows "formals_loop (parse_expr k) True (Suc N) acc p = Ret (acc @ fs, adv (length (formals_toks fs)) p)"
  using assms
proof (induction fs arbitrary: N acc p)
  case Nil
  then show ?case by (simp add: peek_upcoming)
next
  case (Cons f fs)
  obtain key v where f: "f = (key, v)" by (cases f)
  with Cons.prems obtain s where s: "key = Some s" by (auto simp: formal_ok_def split: option.splits)
  let ?ts = "formal_toks key v (pr v)"
  let ?more = "(if fs = [] then [] else op_tok NIX_TOK_COMMA # formals_toks fs) @ op_tok NIX_TOK_RBRACE # ks"
  from Cons.prems f have u: "upcoming p = ?ts @ ?more" by (simp add: with_commas_Cons)
  then have u0: "upcoming p = ident_tok s # tl ?ts @ ?more" by (simp add: formal_toks_def s)
  note u1 = upcoming_advance [OF u0]
  have "formal_default (parse_expr k) (advance p) = Ret (v, adv (length ?ts - 1) (advance p))"
    by (rule formal_default_printed [OF _ _ _ u1])
      (use Cons.prems f in \<open>simp_all add: with_commas_Cons advance_is_adv\<close>)
  then have one: "formal_default (parse_expr k) (advance p) = Ret (v, adv (length ?ts) p)"
    by (simp add: advance_is_adv formal_toks_def)
  note r = formals_rest [OF upcoming_adv [OF u]]
  from Cons.prems obtain M where M: "N = Suc M" "length fs \<le> M" by (cases N) auto
  have "formals_loop (parse_expr k) True (Suc M) (acc @ [f]) (skip_comma (adv (length ?ts) p))
      = Ret ((acc @ [f]) @ fs, adv (length (formals_toks fs)) (skip_comma (adv (length ?ts) p)))"
    by (rule Cons.IH [OF _ _ M(2) _ r(1)])
      (use Cons.prems r(2) in \<open>auto simp: with_commas_Cons split: if_splits\<close>)
  moreover have "cur_text p = s" "peek_type p = NIX_TOK_IDENT"
    using u0 by (simp_all add: ident_tok_def text_upcoming peek_upcoming)
  moreover have "adv (length (formals_toks fs)) (skip_comma (adv (length ?ts) p)) = adv (length (formals_toks (f # fs))) p"
    by (simp add: r(2) with_commas_Cons f)
  ultimately show ?case
    using one M by (simp add: f s)
qed

lemma length_formals: "length fs \<le> length (formals_toks fs)"
  by (induction fs) (simp_all add: with_commas_Cons formal_toks_def)

lemma skip_comma_error: "p_has_error (skip_comma p) = p_has_error p"
  by (simp add: skip_comma_def advance_is_adv)

lemma finish_lambda_printed:
  assumes e: "parses 0 e (pr e)" and k: "length (pr e) < k" and err: "\<not> p_has_error p" and st: "stops 0 ks"
    and u: "upcoming p = op_tok NIX_TOK_RBRACE # op_tok NIX_TOK_COLON # pr e @ ks"
  shows "finish_lambda (parse_expr k) fs p = Ret (NIX_NODE_LAMBDA (NIX_NODE_ATTR_SET fs) e, adv (2 + length (pr e)) p)"
proof -
  note u1 = upcoming_advance [OF u] and u2 = upcoming_advance [OF upcoming_advance [OF u]]
  have "parse_expr k (advance (advance p)) = Ret (e, adv (length (pr e)) (advance (advance p)))"
    by (rule parse_expr_parses [OF e k u2 _ st]) (use err in \<open>simp add: advance_is_adv\<close>)
  then show ?thesis
    using peek_upcoming [OF u] peek_upcoming [OF u1]
    by (simp add: finish_lambda_def expect_next) (simp add: advance_is_adv)
qed

lemma parses_by_formals:
  assumes fs: "formals_settled fs" "fs = [] \<or> fst (hd fs) \<noteq> Some ''inherit''" and e: "parses 0 e (pr e)"
  shows "parses_by (level_parser 12) (stops 0) (NIX_NODE_LAMBDA (NIX_NODE_ATTR_SET fs) e)
    (pr (NIX_NODE_LAMBDA (NIX_NODE_ATTR_SET fs) e))" (is "parses_by _ _ ?e (pr ?e)")
proof (rule parses_byI)
  fix k p ks
  assume k: "length (pr ?e) \<le> k" and u: "upcoming p = pr ?e @ ks" and err: "\<not> p_has_error p" and st: "stops 0 ks"
  let ?p1 = "advance p"
  have err1: "\<not> p_has_error ?p1" using err by (simp add: advance_is_adv)
  have brace: "level_parser 12 k p = parse_braces (parse_expr k) ?p1"
    using u by (simp add: level_base parse_base_def peek_upcoming)
  let ?close = "op_tok NIX_TOK_RBRACE # op_tok NIX_TOK_COLON # pr e @ ks"
  from u have u1: "upcoming ?p1 = formals_toks fs @ ?close" by (intro upcoming_advance) simp
  show "level_parser 12 k p = Ret (?e, adv (length (pr ?e)) p)"
  proof (cases fs)
    case Nil
    with u1 have u1': "upcoming ?p1 = ?close" by simp
    note u2 = upcoming_advance [OF u1']
    have "parse_expr k (advance (advance ?p1)) = Ret (e, adv (length (pr e)) (advance (advance ?p1)))"
      by (rule parse_expr_parses [OF e _ upcoming_advance [OF u2] _ st])
        (use k err in \<open>simp_all add: advance_is_adv\<close>)
    with brace peek_upcoming [OF u1'] peek_upcoming [OF u2] Nil show ?thesis
      by (simp add: parse_braces_def advance_is_adv)
  next
    case (Cons f fs')
    obtain key v where f: "f = (key, v)" by (cases f)
    with Cons fs obtain s where s: "key = Some s" "s \<noteq> ''inherit''" and v: "parses 0 v (pr v)"
      by (auto simp: formal_ok_def split: option.splits)
    let ?ts = "formal_toks key v (pr v)"
    let ?more = "(if fs' = [] then [] else op_tok NIX_TOK_COMMA # formals_toks fs') @ ?close"
    from u1 have u1': "upcoming ?p1 = ?ts @ ?more" by (simp add: with_commas_Cons Cons f)
    then have u0: "upcoming ?p1 = ident_tok s # tl ?ts @ ?more" by (simp add: formal_toks_def s)
    note u2 = upcoming_advance [OF u0]
    have k': "length ?ts \<le> k" "length (formals_toks fs') \<le> k" "length (pr e) < k"
      using k by (simp_all add: with_commas_Cons Cons f split: if_splits)
    have "formal_default (parse_expr k) (advance ?p1) = Ret (v, adv (length ?ts - 1) (advance ?p1))"
      by (rule formal_default_printed [OF v k'(1) _ u2]) (use err in \<open>simp_all add: advance_is_adv\<close>)
    then have one: "formal_default (parse_expr k) (advance ?p1) = Ret (v, adv (length ?ts) ?p1)"
      by (simp add: advance_is_adv formal_toks_def)
    note r = formals_rest [OF upcoming_adv [OF u1']]
    let ?p2 = "skip_comma (adv (length ?ts) ?p1)"
    have p2: "?p2 = adv (Suc (length ?ts) + (if fs' = [] then 0 else 1)) p"
      using r(2) by (simp add: advance_is_adv)
    have err2: "\<not> p_has_error ?p2" using err by (simp add: skip_comma_error advance_is_adv)
    have "length fs' \<le> p_mu ?p2" using length_upcoming [of ?p2] length_formals [of fs'] r(1) by simp
    then have "formals_loop (parse_expr k) True (budget ?p2) [f] ?p2 = Ret ([f] @ fs', adv (length (formals_toks fs')) ?p2)"
      using formals_loop_printed [OF _ k'(2) _ err2 r(1)] fs Cons by (simp add: budget_def)
    moreover have "finish_lambda (parse_expr k) fs (adv (length (formals_toks fs')) ?p2)
        = Ret (?e, adv (2 + length (pr e)) (adv (length (formals_toks fs')) ?p2))"
      by (rule finish_lambda_printed [OF e k'(3) _ st upcoming_adv [OF r(1)]]) (simp only: adv_error(1), rule err2)
    moreover have "adv (2 + length (pr e)) (adv (length (formals_toks fs')) ?p2) = adv (length (pr ?e)) p"
      unfolding p2 by (simp add: with_commas_Cons Cons f add.assoc)
    ultimately have "parse_formals (parse_expr k) s (advance ?p1) = Ret (?e, adv (length (pr ?e)) p)"
      using one by (simp add: parse_formals_def Cons f s)
    moreover have "peek_type ?p1 = NIX_TOK_IDENT" "cur_text ?p1 = s"
      using u0 by (simp_all add: peek_upcoming ident_tok_def text_upcoming)
    moreover have "peek_type (advance ?p1) \<in> {NIX_TOK_COMMA, NIX_TOK_QUESTION, NIX_TOK_RBRACE}"
      using peek_next [OF u2] by (auto simp: formal_toks_def)
    ultimately show ?thesis using brace s(2) by (auto simp: parse_braces_def)
  qed
qed

subsection \<open>Statement-like expressions\<close>

lemma parse_sub:
  assumes "parses 0 e (pr e)" "length (pr e) < k" "upcoming p = pr e @ t # ks" "\<not> p_has_error p" "stops 0 (t # ks)"
  shows "parse_expr k p = Ret (e, adv (length (pr e)) p)"
    and "expect (fst t) msg (adv (length (pr e)) p) = adv (Suc (length (pr e))) p"
    and "upcoming (adv (Suc (length (pr e))) p) = ks"
  using parse_expr_parses [OF assms] upcoming_adv [OF assms(3)] upcoming_advance [OF upcoming_adv [OF assms(3)]]
  by (simp_all add: expect_next peek_upcoming)

lemma parses_if:
  assumes c: "parses 0 c (pr c)" and a: "parses 0 a (pr a)" and b: "parses 0 b (pr b)"
  shows "parses 0 (NIX_NODE_IF c a b) (pr (NIX_NODE_IF c a b))"
proof (rule parses_byI)
  fix k p ks
  let ?e = "NIX_NODE_IF c a b"
  assume k: "length (pr ?e) \<le> k" and u: "upcoming p = pr ?e @ ks" and err: "\<not> p_has_error p" and st: "stops 0 ks"
  from u have u1: "upcoming (advance p) = pr c @ kw_tok ''then'' NIX_TOK_KW_THEN # pr a @ kw_tok ''else'' NIX_TOK_KW_ELSE # pr b @ ks"
    by (intro upcoming_advance) simp
  have k': "length (pr c) < k" "length (pr a) < k" "length (pr b) < k" using k by simp_all
  have e1: "\<not> p_has_error (advance p)" using err by (simp add: advance_is_adv)
  note 1 = parse_sub [OF c k'(1) u1 e1 stops_closing(5), simplified]
  note 2 = parse_sub [OF a k'(2) 1(3) _ stops_closing(6), simplified, OF err]
  note 3 = parse_expr_parses [OF b k'(3) 2(3) _ st, simplified, OF err]
  show "level_parser 0 k p = Ret (?e, adv (length (pr ?e)) p)"
    using err u by (simp add: level_expr expr_body_def peek_upcoming parse_if_def 1 2 3)
      (simp add: advance_is_adv add_ac)
qed

lemma parses_with:
  assumes a: "parses 0 a (pr a)" and b: "parses 0 b (pr b)"
  shows "parses 0 (NIX_NODE_WITH a b) (pr (NIX_NODE_WITH a b))"
proof (rule parses_byI)
  fix k p ks
  let ?e = "NIX_NODE_WITH a b"
  assume k: "length (pr ?e) \<le> k" and u: "upcoming p = pr ?e @ ks" and err: "\<not> p_has_error p" and st: "stops 0 ks"
  from u have u1: "upcoming (advance p) = pr a @ op_tok NIX_TOK_SEMICOLON # pr b @ ks"
    by (intro upcoming_advance) simp
  have k': "length (pr a) < k" "length (pr b) < k" using k by simp_all
  have e1: "\<not> p_has_error (advance p)" using err by (simp add: advance_is_adv)
  note 1 = parse_sub [OF a k'(1) u1 e1 stops_closing(3), simplified]
  note 2 = parse_expr_parses [OF b k'(2) 1(3) _ st, simplified, OF err]
  show "level_parser 0 k p = Ret (?e, adv (length (pr ?e)) p)"
    using err u by (simp add: level_expr expr_body_def peek_upcoming parse_with_def 1 2)
      (simp add: advance_is_adv add_ac)
qed

lemma parses_assert:
  assumes a: "parses 0 a (pr a)" and b: "parses 0 b (pr b)"
  shows "parses 0 (NIX_NODE_ASSERT a b) (pr (NIX_NODE_ASSERT a b))"
proof (rule parses_byI)
  fix k p ks
  let ?e = "NIX_NODE_ASSERT a b"
  assume k: "length (pr ?e) \<le> k" and u: "upcoming p = pr ?e @ ks" and err: "\<not> p_has_error p" and st: "stops 0 ks"
  from u have u1: "upcoming (advance p) = pr a @ op_tok NIX_TOK_SEMICOLON # pr b @ ks"
    by (intro upcoming_advance) simp
  have k': "length (pr a) < k" "length (pr b) < k" using k by simp_all
  have e1: "\<not> p_has_error (advance p)" using err by (simp add: advance_is_adv)
  note 1 = parse_sub [OF a k'(1) u1 e1 stops_closing(3), simplified]
  note 2 = parse_expr_parses [OF b k'(2) 1(3) _ st, simplified, OF err]
  show "level_parser 0 k p = Ret (?e, adv (length (pr ?e)) p)"
    using err u by (simp add: level_expr expr_body_def peek_upcoming parse_assert_def 1 2)
      (simp add: advance_is_adv add_ac)
qed

subsection \<open>Every printable tree\<close>

text \<open>A tree is ready to be an operand: it parses at its level, and heads a chain of that level.\<close>

definition chained :: "nix_ast \<Rightarrow> bool" where
  "chained e \<longleftrightarrow>
     (prec e \<in> left_levels \<longrightarrow> left_chain (prec e) e (pr e)) \<and>
     (prec e \<in> {1, 6} \<longrightarrow> rights (prec e) e (pr e)) \<and>
     (prec e = 9 \<longrightarrow> unaries e (pr e)) \<and>
     (prec e = 10 \<longrightarrow> apply_chain e (pr e)) \<and>
     (prec e = 11 \<and> \<not> is_default e \<longrightarrow> select_chain e (pr e))"

definition ready :: "nix_ast \<Rightarrow> bool" where
  "ready e \<longleftrightarrow> settled e \<and> chained e"

lemma ready_not_NULL: "ready e \<Longrightarrow> e \<noteq> NULL"
  by (auto simp: ready_def settled_def)

lemma ready_wrap: "ready e \<Longrightarrow> m \<le> 12 \<Longrightarrow> parses m e (wrap m e (pr e))"
  by (simp add: ready_def settled_wrap)

lemma ready_above:
  assumes "ready e" "m \<le> 11" "prec e \<noteq> m" shows "parses (Suc m) e (wrap m e (pr e))"
  using assms settled_pr [of e "Suc m"] settled_wrap [of e "Suc m"] by (auto simp: ready_def wrap_def)

lemma ready_left_chain: "ready e \<Longrightarrow> prec e \<in> left_levels \<Longrightarrow> left_chain (prec e) e (pr e)"
  unfolding ready_def chained_def by blast

lemma ready_rights: "ready e \<Longrightarrow> prec e \<in> {1, 6} \<Longrightarrow> rights (prec e) e (pr e)"
  unfolding ready_def chained_def by blast

lemma wrap_same: "prec e = n \<Longrightarrow> wrap n e ts = ts"
  by (simp add: wrap_def)

lemma left_operand:
  assumes e: "ready e" and n: "n \<in> left_levels" shows "left_chain n e (wrap n e (pr e))"
proof (cases "prec e = n")
  case True
  with ready_left_chain [OF e] n show ?thesis by (simp only: wrap_same)
next
  case False
  from n have "n \<le> 11" by auto
  from left_chain_base [OF n ready_above [OF e this False] ready_not_NULL [OF e]] show ?thesis .
qed

lemma right_operand:
  assumes e: "ready e" and n: "n \<in> {1, 6}" shows "rights n e (wrap n e (pr e))"
proof (cases "prec e = n")
  case True
  with ready_rights [OF e] n show ?thesis by (simp only: wrap_same) blast
next
  case False
  from n have "n \<le> 11" by auto
  from rights_base [OF n ready_above [OF e this False] ready_not_NULL [OF e]] show ?thesis .
qed

lemma ready_leftI:
  assumes "printable e" "prec e \<in> left_levels" "left_chain (prec e) e (pr e)" shows "ready e"
proof -
  have "prec e \<notin> {1, 6} \<and> prec e \<noteq> 9 \<and> prec e \<noteq> 10 \<and> prec e \<noteq> 11" using assms(2) by auto
  moreover have "parses (prec e) e (pr e)" by (rule left_chain_finish [OF assms(3,2)])
  ultimately show ?thesis using assms unfolding ready_def settled_def chained_def by blast
qed

lemma ready_rightI:
  assumes "printable e" "prec e \<in> {1, 6}" "rights (prec e) e (pr e)" shows "ready e"
proof -
  have "prec e \<notin> left_levels \<and> prec e \<noteq> 9 \<and> prec e \<noteq> 10 \<and> prec e \<noteq> 11" using assms(2) by auto
  moreover have "parses (prec e) e (pr e)" by (rule rights_finish [OF assms(3,2)])
  ultimately show ?thesis using assms unfolding ready_def settled_def chained_def by blast
qed

lemma ready_printable: "ready e \<Longrightarrow> printable e"
  by (simp add: ready_def settled_def)

lemma unary_operand: "ready e \<Longrightarrow> unaries e (wrap 9 e (pr e))"
proof (cases "prec e = 9")
  case False
  assume e: "ready e"
  have "starts_well (wrap 9 e (pr e))"
    using pr_start [OF ready_printable [OF e]] False by (auto simp: starts_well_def wrap_def operand_start_def)
  with ready_above [OF e _ False] show ?thesis by (intro unaries_base) (simp_all add: starts_well_def)
qed (simp add: ready_def chained_def wrap_def)

lemma apply_operand: "ready e \<Longrightarrow> apply_chain e (wrap 10 e (pr e))"
  using apply_chain_base [of e, OF _ ready_not_NULL] ready_above [of e 10]
  by (cases "prec e = 10") (auto simp: wrap_def ready_def chained_def)

lemma select_operand:
  assumes e: "ready e" shows "select_chain e (wrap_select e (pr e))"
proof (cases "prec e = 11 \<and> \<not> is_default e")
  case True
  with e show ?thesis by (simp add: ready_def chained_def wrap_select_def)
next
  case False
  have "parses 12 e (parens (pr e))" using e settled_pr [of e 0] by (simp add: ready_def parses_parens)
  moreover have "parses 12 e (pr e)" if "12 \<le> prec e" using e that settled_pr [of e 12] by (simp add: ready_def)
  moreover have "is_default e \<longrightarrow> prec e = 11" by (cases e) simp_all
  ultimately have "parses 12 e (wrap_select e (pr e))" using False by (auto simp: wrap_select_def)
  then show ?thesis by (rule select_chain_base [OF _ ready_not_NULL [OF e]])
qed

lemma ready_left:
  assumes l: "ready l" and r: "ready r" and n: "op_level op \<in> left_levels"
  shows "ready (NIX_NODE_BINOP op l r)" (is "ready ?e")
proof (rule ready_leftI)
  let ?n = "op_level op"
  have p: "pr ?e = wrap ?n l (pr l) @ op_tok op # wrap (Suc ?n) r (pr r)"
    using n by (auto simp: right_assoc_def)
  have "Suc ?n \<le> 12" and "0 < ?n" using n by auto
  show "left_chain (prec ?e) ?e (pr ?e)" unfolding p prec.simps
    by (rule left_chain_step [OF left_operand [OF l n] ready_wrap [OF r] ready_not_NULL [OF r] refl n]) fact
  show "printable ?e" "prec ?e \<in> left_levels"
    using n ready_printable [OF l] ready_printable [OF r] \<open>0 < ?n\<close> by (simp_all only: printable.simps prec.simps)
qed

lemma ready_right:
  assumes l: "ready l" and r: "ready r" and n: "op_level op \<in> {1, 6}"
  shows "ready (NIX_NODE_BINOP op l r)" (is "ready ?e")
proof (rule ready_rightI)
  let ?n = "op_level op"
  have "right_assoc op" using n by (cases op) (auto simp: right_assoc_def)
  then have p: "pr ?e = wrap (Suc ?n) l (pr l) @ op_tok op # wrap ?n r (pr r)" by simp
  have "Suc ?n \<le> 12" and "0 < ?n" using n by auto
  show "rights (prec ?e) ?e (pr ?e)" unfolding p prec.simps
    by (rule rights_step [OF n refl ready_wrap [OF l] ready_not_NULL [OF l] right_operand [OF r n] ready_not_NULL [OF r]]) fact
  show "printable ?e" "prec ?e \<in> {1, 6}"
    using n ready_printable [OF l] ready_printable [OF r] \<open>0 < ?n\<close> by (simp_all only: printable.simps prec.simps)
qed

lemma op_level_cases: "0 < op_level op \<Longrightarrow> op_level op \<in> left_levels \<or> op_level op \<in> {1, 6}"
  by (cases op) simp_all

lemma ready_unary:
  assumes "ready e" shows "ready (NIX_NODE_UNARY_NOT e)" "ready (NIX_NODE_NEGATE e)"
proof -
  have u: "unaries (NIX_NODE_UNARY_NOT e) (pr (NIX_NODE_UNARY_NOT e))"
    "unaries (NIX_NODE_NEGATE e) (pr (NIX_NODE_NEGATE e))"
    using unaries_step [OF unary_operand [OF assms] ready_not_NULL [OF assms]] by simp_all
  with unaries_finish [OF u(1)] unaries_finish [OF u(2)] ready_printable [OF assms]
  show "ready (NIX_NODE_UNARY_NOT e)" "ready (NIX_NODE_NEGATE e)"
    by (simp_all add: ready_def settled_def chained_def del: pr.simps)
qed

lemma ready_apply:
  assumes f: "ready f" and e: "ready e" shows "ready (NIX_NODE_APPLY f e)"
proof -
  have "apply_chain (NIX_NODE_APPLY f e) (pr (NIX_NODE_APPLY f e))"
    using apply_chain_step [OF apply_operand [OF f] ready_wrap [OF e] ready_not_NULL [OF e]]
      wrap_starts_well [OF ready_printable [OF e], of 11] by (simp add: starts_well_def)
  with apply_chain_finish [OF this] ready_printable [OF f] ready_printable [OF e]
  show ?thesis by (simp add: ready_def settled_def chained_def del: pr.simps)
qed

lemma ready_select:
  assumes e: "ready e" and a: "is_ident a" shows "ready (NIX_NODE_SELECT e a)"
proof -
  have "select_chain (NIX_NODE_SELECT e a) (pr (NIX_NODE_SELECT e a))"
    using select_chain_step [OF select_operand [OF e], of a] by simp
  with select_chain_finish [OF this] ready_printable [OF e] a
  show ?thesis by (simp add: ready_def settled_def chained_def del: pr.simps)
qed

lemma ready_default:
  assumes e: "ready e" and a: "is_ident a" and d: "ready d" shows "ready (NIX_NODE_OR_DEFAULT e a d)"
  using parses_default [OF select_operand [OF e] ready_wrap [OF d], of a] assms ready_printable
  by (simp add: ready_def settled_def chained_def)

lemma ready_base: "printable e \<Longrightarrow> prec e = 12 \<Longrightarrow> parses 12 e (pr e) \<Longrightarrow> ready e"
  by (simp add: ready_def settled_def chained_def)

lemma ready_expr: "printable e \<Longrightarrow> prec e = 0 \<Longrightarrow> parses 0 e (pr e) \<Longrightarrow> ready e"
  by (simp add: ready_def settled_def chained_def)

lemma ready_parses: "ready e \<Longrightarrow> parses 0 e (pr e)"
  by (simp add: ready_def settled_pr)

lemma parses_lambda:
  assumes "parses_by (level_parser 12) (stops 0) e (pr e)" and "e \<noteq> NULL" and "pr e \<noteq> []"
    and "starts_argument (fst (hd (pr e)))"
  shows "parses 0 e (pr e)"
  by (rule lift_parses_by [OF assms(1) _ _ assms(2,3)]) (simp_all add: starts_at_argument assms(4))

lemma import_not_ident: "\<not> is_ident ''import''"
  by code_simp

lemma printable_ready: "printable e \<Longrightarrow> ready e"
proof (induction e rule: printable.induct)
  case (1 bs) then show ?case by (intro ready_base parses_attrset) (auto intro: ready_parses)
next
  case (2 bs) then show ?case by (intro ready_base parses_rec) (auto intro: ready_parses)
next
  case (3 es) then show ?case by (intro ready_base parses_list) (auto intro: ready_wrap)
next
  case (4 ps)
  define s where "s = (case ps of [Inl s] \<Rightarrow> s | _ \<Rightarrow> [])"
  from 4 have "\<not> has_interpolation s" "ps = (if s = [] then [] else [Inl s])"
    by (auto simp: key_ok_def has_interpolation_def s_def split: list.splits sum.splits)
  with 4 parses_string [of s] show ?case by (intro ready_base) (auto split: if_splits)
next
  case (5 s)
  then have "s \<noteq> ''import''" using import_not_ident by auto
  with 5 parses_ident [of s] show ?case by (intro ready_base) (simp_all add: ident_node_def)
next
  case (6 e a) then show ?case by (simp add: ready_select)
next
  case (7 e a d) then show ?case by (simp add: ready_default)
next
  case (8 f e) then show ?case by (simp add: ready_apply)
next
  case (9 x e) then show ?case
    using parses_by_lambda [of e x] by (intro ready_expr parses_lambda) (auto intro: ready_parses)
next
  case (10 fs e)
  then have "formals_settled fs" and "parses 0 e (pr e)" by (auto intro: ready_parses)
  with parses_by_formals [of fs e] 10 show ?case by (intro ready_expr parses_lambda) auto
next
  case (11 bs e) then show ?case by (intro ready_expr parses_let) (auto intro: ready_parses)
next
  case (12 c a b) then show ?case by (intro ready_expr parses_if) (auto intro: ready_parses)
next
  case (13 a b) then show ?case by (intro ready_expr parses_with) (auto intro: ready_parses)
next
  case (14 a b) then show ?case by (intro ready_expr parses_assert) (auto intro: ready_parses)
next
  case (15 op l r) then show ?case using op_level_cases [of op] by (auto intro: ready_left ready_right)
next
  case (16 e) then show ?case by (simp add: ready_unary)
next
  case (17 e) then show ?case by (simp add: ready_unary)
next
  case (18 i) then show ?case using parses_int [of i] by (intro ready_base) simp_all
next
  case (19 b) then show ?case
    using parses_ident [of "''true''"] parses_ident [of "''false''"]
    by (cases b; intro ready_base) (simp_all add: ident_node_def)
next
  case 20 then show ?case using parses_ident [of "''null''"] by (intro ready_base) (simp_all add: ident_node_def)
next
  case (21 s) then show ?case using parses_path [of s] by (intro ready_base) simp_all
qed simp_all

subsection \<open>Whole texts\<close>

lemma tokens_shorter: "length (nix_tokens (nix_lexer_new s)) \<le> length s"
  using length_upcoming [of "parser_start s None"] mu_start [of s None] by (simp add: upcoming_start)

lemma parse_tokens:
  assumes e: "printable e" and t: "nix_tokens (nix_lexer_new s) = pr e"
  shows "nix_parse s = Ret (e, None)"
proof -
  let ?p = "parser_start s None"
  have n: "length (pr e) \<le> length s" using tokens_shorter [of s] t by simp
  have u: "upcoming ?p = pr e @ []" using upcoming_start [of s None] t by simp
  have err: "\<not> p_has_error ?p" "p_error ?p = None" by (simp_all add: parser_start_def case_prod_unfold)
  have "stops 0 []" by (simp add: stops_def next_type_def cont_level_def starts_argument_def)
  from parse_expr_parses [OF ready_parses [OF printable_ready [OF e]] le_imp_less_Suc [OF n] u err(1) this]
  have "parse_expr (Suc (length s)) ?p = Ret (e, adv (length (pr e)) ?p)" .
  moreover have "peek_type (adv (length (pr e)) ?p) = NIX_TOK_EOF"
    using peek_adv [OF u] by (simp add: next_type_def)
  ultimately show ?thesis using err by (simp add: nix_parse_def del: parse_expr.simps)
qed

subsection \<open>The printed tokens can be spelled\<close>

lemma op_tok_ok: "t \<in> fst ` set operator_texts \<Longrightarrow> token_ok (op_tok t)"
  by (force simp: op_tok_def token_ok_def operator_texts_def)

lemma binary_operators_ok: "0 < op_level t \<Longrightarrow> token_ok (op_tok t)"
  by (rule op_tok_ok) (cases t; simp add: operator_texts_def)

lemma punctuation_ok [simp]:
  "token_ok (op_tok NIX_TOK_LBRACE)" "token_ok (op_tok NIX_TOK_RBRACE)" "token_ok (op_tok NIX_TOK_LBRACKET)"
  "token_ok (op_tok NIX_TOK_RBRACKET)" "token_ok (op_tok NIX_TOK_LPAREN)" "token_ok (op_tok NIX_TOK_RPAREN)"
  "token_ok (op_tok NIX_TOK_COLON)" "token_ok (op_tok NIX_TOK_SEMICOLON)" "token_ok (op_tok NIX_TOK_COMMA)"
  "token_ok (op_tok NIX_TOK_DOT)" "token_ok (op_tok NIX_TOK_EQUALS)" "token_ok (op_tok NIX_TOK_QUESTION)"
  "token_ok (op_tok NIX_TOK_NOT)" "token_ok (op_tok NIX_TOK_MINUS)"
  by (rule op_tok_ok, simp add: operator_texts_def)+

lemma keywords_ok [simp]:
  "token_ok (kw_tok ''if'' NIX_TOK_KW_IF)" "token_ok (kw_tok ''then'' NIX_TOK_KW_THEN)"
  "token_ok (kw_tok ''else'' NIX_TOK_KW_ELSE)" "token_ok (kw_tok ''let'' NIX_TOK_KW_LET)"
  "token_ok (kw_tok ''in'' NIX_TOK_KW_IN)" "token_ok (kw_tok ''with'' NIX_TOK_KW_WITH)"
  "token_ok (kw_tok ''rec'' NIX_TOK_KW_REC)" "token_ok (kw_tok ''assert'' NIX_TOK_KW_ASSERT)"
  "token_ok (kw_tok ''or'' NIX_TOK_KW_OR)"
  by (simp_all add: kw_tok_def token_ok_def keyword_table_def)

lemma ident_tok_ok: "is_ident s \<Longrightarrow> token_ok (ident_tok s)"
  by (simp add: ident_tok_def token_ok_def)

lemma string_tok_ok: "key_ok (Some s) \<Longrightarrow> token_ok (string_tok s)"
  by (simp add: string_tok_def token_ok_def key_ok_def)

abbreviation tokens_ok :: "tok_kind list \<Rightarrow> bool" where
  "tokens_ok ts \<equiv> \<forall>k \<in> set ts. token_ok k"

lemma wrap_ok [simp]: "tokens_ok (wrap n e ts) \<longleftrightarrow> tokens_ok ts" "tokens_ok (wrap_select e ts) \<longleftrightarrow> tokens_ok ts"
  by (auto simp: wrap_def wrap_select_def parens_def)

lemma bind_toks_ok: "key_ok k \<Longrightarrow> tokens_ok ts \<Longrightarrow> tokens_ok (bind_toks k ts)"
  by (auto simp: bind_toks_def string_tok_ok key_ok_def split: option.splits)

lemma bindings_toks_ok:
  "\<forall>b \<in> set bs. key_ok (fst b) \<and> tokens_ok (pr (snd b)) \<Longrightarrow> tokens_ok (bindings_toks bs)"
proof (induction bs)
  case (Cons b bs)
  then have "tokens_ok (bind_toks (fst b) (pr (snd b)))" by (intro bind_toks_ok) simp_all
  with Cons show ?case by (simp add: ball_Un)
qed simp

lemma formal_toks_ok: "formal_ok k \<Longrightarrow> tokens_ok ts \<Longrightarrow> tokens_ok (formal_toks k v ts)"
  by (auto simp: formal_toks_def ident_tok_ok formal_ok_def split: option.splits if_splits)

lemma formals_toks_ok:
  "\<forall>f \<in> set fs. formal_ok (fst f) \<and> tokens_ok (pr (snd f)) \<Longrightarrow> tokens_ok (formals_toks fs)"
proof (induction fs)
  case (Cons f fs)
  then have "tokens_ok (formal_toks (fst f) (snd f) (pr (snd f)))" by (intro formal_toks_ok) simp_all
  with Cons show ?case by (simp add: with_commas_Cons ball_Un)
qed simp

lemma literals_ok: "is_ident ''true''" "is_ident ''false''" "is_ident ''null''"
  by code_simp+

lemma printed_tokens_ok: "printable e \<Longrightarrow> tokens_ok (pr e)"
proof (induction e rule: printable.induct)
  case (1 bs) then show ?case using bindings_toks_ok [of bs] by (simp add: ball_Un)
next
  case (2 bs) then show ?case using bindings_toks_ok [of bs] by (simp add: ball_Un)
next
  case (10 fs e) then show ?case using formals_toks_ok [of fs] by (simp add: ball_Un)
next
  case (11 bs e) then show ?case using bindings_toks_ok [of bs] by (simp add: ball_Un)
next
  case (4 ps)
  moreover have "token_ok (string_tok [])" by (rule string_tok_ok) (simp add: key_ok_def has_interpolation_def)
  ultimately show ?case by (auto simp: string_tok_ok split: list.splits sum.splits)
next
  case (18 i) then show ?case by (simp add: token_ok_def)
next
  case (21 s) then show ?case by (simp add: token_ok_def)
next
  case (3 es) then show ?case by (auto simp: wrap_def parens_def split: if_splits)
qed (simp_all add: ball_Un ident_tok_ok literals_ok binary_operators_ok)

subsection \<open>Properties\<close>

text \<open>The text the printer writes: its tokens with a blank after each.\<close>

definition nix_print :: "nix_ast \<Rightarrow> string" where
  "nix_print e = source_text (map (\<lambda>k. (k, [Blank CHR '' ''])) (pr e))"

lemma printed_source_ok: "tokens_ok ts \<Longrightarrow> source_ok (map (\<lambda>k. (k, [Blank CHR '' ''])) ts)"
  by (induction ts) (simp_all add: follows_token_def is_blank_def)

lemma parse_print: "printable e \<Longrightarrow> nix_parse (nix_print e) = Ret (e, None)"
proof (rule parse_tokens)
  assume e: "printable e"
  let ?ts = "map (\<lambda>k. (k, [Blank CHR '' ''])) (pr e)"
  have "source_ok ?ts" by (rule printed_source_ok [OF printed_tokens_ok [OF e]])
  from nix_lex.dec_enc [OF this] show "nix_tokens (nix_lexer_new (nix_print e)) = pr e"
    by (simp add: nix_print_def comp_def)
qed

interpretation nix_text: codec printable nix_print
  "\<lambda>s. case nix_parse s of Ret (e, None) \<Rightarrow> Some e | _ \<Rightarrow> None" "\<lambda>e. e"
  by unfold_locales (simp add: parse_print)


text \<open>\<open>let x = a - b - c; in x: f (g x).y or 1 ++ [ 2 (- 3) ]\<close> and more.\<close>

definition demo_config :: nix_ast where
  "demo_config =
     NIX_NODE_LET [(Some ''x'', NIX_NODE_BINOP NIX_TOK_MINUS
         (NIX_NODE_BINOP NIX_TOK_MINUS (NIX_NODE_IDENT ''a'') (NIX_NODE_IDENT ''b''))
         (NIX_NODE_BINOP NIX_TOK_STAR (NIX_NODE_IDENT ''c'') (NIX_NODE_INT 2)))]
       (NIX_NODE_LAMBDA (NIX_NODE_ATTR_SET [(Some ''pkgs'', NIX_NODE_NULL), (Some ''n'', NIX_NODE_INT 1)])
         (NIX_NODE_BINOP NIX_TOK_PLUS_PLUS
           (NIX_NODE_APPLY (NIX_NODE_IDENT ''f'')
             (NIX_NODE_OR_DEFAULT (NIX_NODE_IDENT ''pkgs'') ''vim'' (NIX_NODE_BOOL False)))
           (NIX_NODE_LIST [NIX_NODE_INT 2, NIX_NODE_NEGATE (NIX_NODE_INT 3), NIX_NODE_STRING [Inl ''s'']])))"

lemma demo_config_printable: "printable demo_config"
  by code_simp


text \<open>
  A character the scanner does not know hides a syntax error: when the text before it is a
  complete expression, that expression is returned without any message and the rest of the
  file is ignored.
\<close>

theorem nix_parse_ignores_rest:
  assumes "printable e" and "map fst ts = pr e" and "source_ok ts" and "snd (last ts) \<noteq> []"
    and "unknown_char c"
  shows "nix_parse (source_text ts @ c # junk) = Ret (e, None)"
proof (rule parse_tokens [OF assms(1)])
  from tokens_of_source [of "nix_lexer_new (source_text ts @ c # junk)" ts "c # junk"] assms(3,4)
  obtain l1 where "nix_tokens (nix_lexer_new (source_text ts @ c # junk)) = map fst ts @ nix_tokens l1"
    "rest l1 = c # junk" by (auto simp: nix_lexer_new_def)
  with no_tokens_at_unknown [OF _ assms(5)] assms(2)
  show "nix_tokens (nix_lexer_new (source_text ts @ c # junk)) = pr e" by auto
qed

theorem nix_parse_ignores_rest_witness:
  "nix_parse (source_text (map (\<lambda>k. (k, [Blank CHR '' ''])) (pr demo_config)) @ ''@ packages = [];'')
     = Ret (demo_config, None)"
proof -
  let ?ts = "map (\<lambda>k. (k, [Blank CHR '' ''])) (pr demo_config)"
  have "pr demo_config \<noteq> []" using pr_start [OF demo_config_printable] by simp
  then have l: "snd (last ?ts) \<noteq> []" by (simp add: last_map)
  have u: "unknown_char CHR ''@''" by code_simp
  have "nix_parse (source_text ?ts @ CHR ''@'' # '' packages = [];'') = Ret (demo_config, None)"
    by (rule nix_parse_ignores_rest [OF demo_config_printable _ printed_source_ok
          [OF printed_tokens_ok [OF demo_config_printable]] l u]) (simp add: comp_def)
  then show ?thesis by simp
qed

lemma unclosed_paren:
  assumes e: "parses 0 e (pr e)" and k: "length (pr e) < k" and err: "\<not> p_has_error p"
    and u: "upcoming p = op_tok NIX_TOK_LPAREN # pr e"
  shows "parse_expr (Suc k) p = Ret (e, parser_error (''expected ')'' @ [CHR 0x27]) (adv (length (pr e)) (advance p)))"
proof -
  have u1: "upcoming (advance p) = pr e @ []" using upcoming_advance [OF u] by simp
  have "stops 0 []" by (simp add: stops_def next_type_def cont_level_def starts_argument_def)
  from parse_expr_parses [OF e k u1 _ this]
  have "parse_expr k (advance p) = Ret (e, adv (length (pr e)) (advance p))" using err by (simp add: advance_is_adv)
  moreover have "peek_type (adv (length (pr e)) (advance p)) = NIX_TOK_EOF"
    using peek_adv [OF u1] by (simp add: next_type_def)
  moreover have "peek_type p = NIX_TOK_LPAREN" using u by (simp add: peek_upcoming)
  moreover have "p_has_error (parser_error m q)" for m q by (simp add: parser_error_def)
  ultimately show ?thesis using err
    by (simp add: expr_body_def parse_implication_def parse_binop_right_def budget_def parse_or_def parse_and_def
        parse_binop_left_def parse_equality_def parse_comparison_def parse_concat_def parse_add_def parse_mul_def
        parse_unary_def parse_apply_def select_body_def parse_base_def expect_def)
qed

text \<open>
  A syntax error does not make the parser return NULL: a text that lacks its closing
  parenthesis gives the tree of what is inside, with a message that only a caller that looks
  for it sees.
\<close>

theorem nix_parse_keeps_tree_on_error:
  assumes "printable e" and "map fst ts = op_tok NIX_TOK_LPAREN # pr e" and "source_ok ts"
  shows "\<exists>msg. nix_parse (source_text ts) = Ret (e, Some msg)"
proof -
  let ?s = "source_text ts" and ?p = "parser_start (source_text ts) None"
  have t: "nix_tokens (nix_lexer_new ?s) = op_tok NIX_TOK_LPAREN # pr e"
    using nix_lex.dec_enc [OF assms(3)] assms(2) by simp
  then have "upcoming ?p = op_tok NIX_TOK_LPAREN # pr e" by (simp add: upcoming_start)
  moreover have "\<not> p_has_error ?p" "p_error ?p = None" by (simp_all add: parser_start_def case_prod_unfold)
  moreover have "length (pr e) < length ?s" using tokens_shorter [of ?s] t by simp
  ultimately have "parse_expr (Suc (length ?s)) ?p =
      Ret (e, parser_error (''expected ')'' @ [CHR 0x27]) (adv (length (pr e)) (advance ?p)))"
    by (intro unclosed_paren ready_parses printable_ready assms(1))
  then show ?thesis
    using \<open>\<not> p_has_error ?p\<close> \<open>p_error ?p = None\<close>
    by (simp add: nix_parse_def parser_error_def advance_is_adv del: parse_expr.simps)
qed

theorem nix_parse_keeps_tree_on_error_witness:
  "\<exists>msg. nix_parse (source_text (map (\<lambda>k. (k, [Blank CHR '' ''])) (op_tok NIX_TOK_LPAREN # pr demo_config)))
     = Ret (demo_config, Some msg)"
proof (rule nix_parse_keeps_tree_on_error [OF demo_config_printable])
  show "source_ok (map (\<lambda>k. (k, [Blank CHR '' ''])) (op_tok NIX_TOK_LPAREN # pr demo_config))"
    by (rule printed_source_ok) (simp add: printed_tokens_ok [OF demo_config_printable])
qed (simp add: comp_def)

lemma literal_before_open: "\<not> has_interpolation w \<Longrightarrow> literal_span (w @ ''${'') = (w, ''${'')"
proof (induction w)
  case (Cons c w)
  have "\<not> has_interpolation w" using Cons.prems by (simp add: has_interpolation_def)
  moreover have "\<not> (c = CHR ''$'' \<and> take 1 (w @ ''${'') = ''{'')"
  proof
    assume a: "c = CHR ''$'' \<and> take 1 (w @ ''${'') = ''{''"
    then obtain w' where "w = CHR ''{'' # w'" by (cases w) auto
    with a have "c # w = [] @ ''${'' @ w'" by simp
    with Cons.prems show False unfolding has_interpolation_def c_strstr_iff by blast
  qed
  ultimately show ?case using Cons.IH by simp
qed simp

lemma pieces_before_open:
  assumes "\<not> has_interpolation w" shows "string_pieces (w @ ''${'') = (if w = [] then [] else [Literal w]) @ [Wild_copy]"
proof (cases w)
  case (Cons c r)
  with literal_before_open [OF assms]
  have "\<not> (c = CHR ''$'' \<and> take 1 (r @ ''${'') = ''{'')" "literal_span (r @ ''${'') = (r, ''${'')"
    by (cases "literal_span (r @ ''${'')"; auto split: if_splits)+
  with Cons show ?thesis by auto
qed simp

text \<open>
  A string literal that ends in \<open>${\<close> crashes the parser: the length of the empty
  interpolation is computed as -1 and passed to \<open>memcpy\<close>.  Escaping the dollar sign does not
  help, since the scanner removes the backslash.
\<close>

theorem nix_parse_crashes_on_open_interpolation:
  assumes "\<not> has_interpolation w" and "c_nul \<notin> set w"
  shows "nix_parse (source_text [((NIX_TOK_STRING, Some (w @ ''${''), 0), [])]) = Crash"
proof -
  let ?t = "(NIX_TOK_STRING, Some (w @ ''${''), 0)" and ?s = "source_text [((NIX_TOK_STRING, Some (w @ ''${''), 0), [])]"
  let ?p = "parser_start ?s None"
  have "source_ok [(?t, [])]" using assms(2) by (simp add: token_ok_def)
  from nix_lex.dec_enc [OF this] have u: "upcoming ?p = [?t]" by (simp add: upcoming_start)
  have "peek_type ?p = NIX_TOK_STRING" "cur_text ?p = w @ ''${''"
    using peek_upcoming [OF u] text_upcoming [OF u] by simp_all
  moreover have "\<not> p_has_error ?p" by (simp add: parser_start_def case_prod_unfold)
  moreover have "parse_pieces pe (string_pieces (w @ ''${'')) err = Crash" for pe err
    by (simp add: pieces_before_open [OF assms(1)])
  ultimately have "parse_expr (Suc (length ?s)) ?p = Crash"
    by (simp add: expr_body_def parse_implication_def parse_binop_right_def budget_def parse_or_def parse_and_def
        parse_binop_left_def parse_equality_def parse_comparison_def parse_concat_def parse_add_def parse_mul_def
        parse_unary_def parse_apply_def select_body_def parse_base_def parse_string_def)
  then show ?thesis by (simp add: nix_parse_def del: parse_expr.simps)
qed

theorem nix_parse_crashes_on_open_interpolation_witness:
  "nix_parse (source_text [((NIX_TOK_STRING, Some (''cost: '' @ ''${''), 0), [])]) = Crash"
  by (rule nix_parse_crashes_on_open_interpolation) code_simp+

end
