(* ===== verification/Nix_Json.thy ===== *)
theory Nix_Json
  imports Nix_File Nix_Roundtrip
begin

text \<open>
  What \<open>toJSON\<close> writes \<open>fromJSON\<close> reads back.  The writer escapes every control character, the
  reader knows three of those escapes only, so strings may have newlines, carriage returns and
  tabs but no other control characters; a path comes back as a string.
\<close>

subsection \<open>Strings and numbers\<close>

definition json_char :: "char \<Rightarrow> bool" where
  "json_char c \<longleftrightarrow> c = c_nl \<or> c = CHR 0x0D \<or> c = CHR 0x09 \<or> 0x20 \<le> (of_char c :: nat)"

lemma escape_read:
  assumes "json_char c"
  shows "json_string_loop (json_escape_char c @ r) = andthen (json_string_loop r) (\<lambda>(t, r'). Ret (c # t, r'))"
proof -
  have ctl: "c \<noteq> CHR 0x08" "c \<noteq> CHR 0x0C" if "c \<noteq> c_nl" "c \<noteq> CHR 0x0D" "c \<noteq> CHR 0x09"
    using assms that by (auto simp: json_char_def)
  show ?thesis
    using assms ctl by (auto simp: json_escape_char_def json_char_def json_unescape_def)
qed

lemma string_read:
  "\<forall>c \<in> set s. json_char c \<Longrightarrow> json_string_loop (concat (map json_escape_char s) @ CHR 0x22 # r) = Ret (s, r)"
  by (induction s) (simp_all add: escape_read)

lemma parse_string_read:
  "\<forall>c \<in> set s. json_char c \<Longrightarrow> json_parse_string (json_escape_string s @ r) = Ret (Some s, r)"
  by (simp add: json_parse_string_def json_escape_string_def string_read)

lemma takeWhile_digits: "\<forall>c \<in> set w. c_isdigit c \<Longrightarrow> (r \<noteq> [] \<Longrightarrow> \<not> c_isdigit (hd r)) \<Longrightarrow>
    takeWhile c_isdigit (w @ r) = w \<and> dropWhile c_isdigit (w @ r) = r"
  by (cases r) (simp_all add: takeWhile_append2 dropWhile_append2)

lemma number_read:
  assumes "r \<noteq> [] \<Longrightarrow> \<not> c_isdigit (hd r)"
  shows "json_number (dec_int_str (sint (i :: 64 word)) @ r) = (i, r)"
proof (cases "sint i < 0")
  case True
  have "word_of_nat (nat (- sint i)) = - i"
    using True by (simp add: of_nat_nat)
  with True show ?thesis
    by (simp add: json_number_def dec_int_str_def takeWhile_digits [OF dec_str_digits assms] foldl_digit_dec)
next
  case False
  obtain c t where ct: "dec_str (nat (sint i)) = c # t" by (cases "dec_str (nat (sint i))") auto
  then have "c_isdigit c" using dec_str_digits [of "nat (sint i)"] by simp
  then have "c \<noteq> CHR ''-''" by (auto simp: c_isdigit_def)
  with ct have "take 1 (dec_str (nat (sint i)) @ r) \<noteq> ''-''" by simp
  moreover have "word_of_nat (nat (sint i)) = i" using False by (simp add: of_nat_nat)
  ultimately show ?thesis using False
    by (simp add: json_number_def dec_int_str_def takeWhile_digits [OF dec_str_digits assms] foldl_digit_dec del: take_append take_Suc_Cons One_nat_def)
qed

subsection \<open>What can be read back\<close>

fun json_clean :: "nix_data \<Rightarrow> bool" where
  "json_clean (D_string s) = (\<forall>c \<in> set s. json_char c)"
| "json_clean (D_path s) = (\<forall>c \<in> set s. json_char c)"
| "json_clean (D_list ds) = (\<forall>d \<in> set ds. json_clean d)"
| "json_clean (D_set kds) = (distinct (map fst kds) \<and>
     (\<forall>p \<in> set kds. (\<forall>c \<in> set (fst p). json_char c) \<and> json_clean (snd p)))"
| "json_clean _ = True"

fun json_norm :: "nix_data \<Rightarrow> nix_data" where
  "json_norm (D_path s) = D_string s"
| "json_norm (D_list ds) = D_list (map json_norm ds)"
| "json_norm (D_set kds) = D_set (map (\<lambda>p. (fst p, json_norm (snd p))) kds)"
| "json_norm d = d"

definition json_start :: "char \<Rightarrow> bool" where
  "json_start c \<longleftrightarrow> \<not> json_blank c \<and> c \<notin> {CHR '','', CHR '':'', CHR '']'', CHR ''}''}"

lemma data_json_start: "\<exists>c t. data_json d indent = c # t \<and> json_start c"
proof (cases d)
  case (D_int i)
  obtain c t where ct: "dec_str (nat (sint i)) = c # t" by (cases "dec_str (nat (sint i))") auto
  then have "c_isdigit c" using dec_str_digits [of "nat (sint i)"] by simp
  then have "json_start c" by (auto simp: c_isdigit_def json_start_def json_blank_def)
  then show ?thesis using ct by (simp add: D_int dec_int_str_def) (simp add: json_start_def json_blank_def)
qed (auto simp: json_start_def json_blank_def json_text_def json_escape_string_def)

abbreviation sep :: "char \<Rightarrow> bool" where
  "sep \<equiv> \<lambda>c. json_blank c \<or> c = CHR '',''"

definition ends :: "string \<Rightarrow> bool" where
  "ends r \<longleftrightarrow> (r = [] \<or> \<not> c_isdigit (hd r))"

text \<open>Reading \<open>js\<close> gives the data \<open>d\<close> in new cells and leaves \<open>r\<close>.\<close>

definition reads :: "nat \<Rightarrow> string \<Rightarrow> nix_data \<Rightarrow> string \<Rightarrow> nix_state \<Rightarrow> bool" where
  "reads n js d r st \<longleftrightarrow> (\<exists>a st' F. json_parse_value n js st = Ret ((Some a, r), st') \<and>
     grows st st' \<and> h_error st' = h_error st \<and> rep st' d (Some a) F \<and> F \<subseteq> fresh st st')"

lemma reads_new:
  assumes "json_parse_value n js st = Ret ((fst (nix_value_new v st), r), snd (nix_value_new v st))" and "leaf_value d = Some v"
  shows "reads n js d r st"
proof -
  have "refines (new_value v st) (Ret (Some d)) st" by (rule refines_new [OF assms(2)]) simp_all
  then show ?thesis using assms(1) rep_Some by (fastforce simp: refines_def reads_def new_value_def)
qed

lemma drop_blank: "json_start c \<Longrightarrow> dropWhile json_blank (c # t) = c # t"
  by (simp add: json_start_def)

lemma leaf_read:
  assumes "leaf_value d \<noteq> None" and "json_clean d" and "ends r"
  shows "reads (Suc n) (data_json d indent @ r) (json_norm d) r st"
proof -
  have r: "r \<noteq> [] \<Longrightarrow> \<not> c_isdigit (hd r)" using assms(3) by (auto simp: ends_def)
  show ?thesis
  proof (cases d)
    case (D_int i)
    obtain c t where ct: "data_json d indent = c # t" "json_start c" using data_json_start by blast
    have "dec_int_str (sint i) = c # t" using ct(1) D_int by simp
    then have c: "c = CHR ''-'' \<or> c_isdigit c"
      using dec_str_digits [of "nat (sint i)"] by (auto simp: dec_int_str_def split: if_splits)
    have ne: "c \<noteq> CHR 0x22" "c \<noteq> CHR ''[''" "c \<noteq> CHR ''{''" "c \<noteq> CHR ''t''" "c \<noteq> CHR ''f''" "c \<noteq> CHR ''n''"
      using c by (auto simp: c_isdigit_def)
    have "json_number (c # t @ r) = (i, r)" using number_read [OF r, of i] ct(1) D_int by simp
    then have "json_parse_value (Suc n) (data_json d indent @ r) st
        = Ret ((fst (nix_value_new (NIX_VAL_INT i) st), r), snd (nix_value_new (NIX_VAL_INT i) st))"
      using ct(2) by (simp add: ct(1) json_start_def Let_def ne ne [symmetric] c split: prod.split)
    then show ?thesis by (rule reads_new) (simp add: D_int)
  next
    case (D_string s)
    then have "json_parse_value (Suc n) (data_json d indent @ r) st
        = Ret ((fst (nix_value_new (NIX_VAL_STRING (Some s)) st), r), snd (nix_value_new (NIX_VAL_STRING (Some s)) st))"
      using parse_string_read [of s r] assms(2)
      by (simp add: json_escape_string_def json_blank_def split: prod.split)
    then show ?thesis by (rule reads_new) (simp add: D_string)
  next
    case (D_path s)
    then have "json_parse_value (Suc n) (data_json d indent @ r) st
        = Ret ((fst (nix_value_new (NIX_VAL_STRING (Some s)) st), r), snd (nix_value_new (NIX_VAL_STRING (Some s)) st))"
      using parse_string_read [of s r] assms(2)
      by (simp add: json_escape_string_def json_blank_def split: prod.split)
    then show ?thesis by (rule reads_new) (simp add: D_path)
  qed (use assms(1) in \<open>auto simp: json_blank_def nix_value_new_def intro!: reads_new\<close>)
qed

subsection \<open>Lists and objects\<close>

definition reads_all :: "nat \<Rightarrow> nix_data \<Rightarrow> bool" where
  "reads_all n d \<longleftrightarrow> (\<forall>m \<ge> n. \<forall>indent r st. ends r \<longrightarrow> reads m (data_json d indent @ r) (json_norm d) r st)"

lemma json_blank_chars [simp]: "json_blank c_nl" "json_blank CHR '' ''" "\<not> json_blank CHR '']''" "\<not> json_blank CHR ''}''"
  "\<not> json_blank CHR '',''" "\<not> json_blank CHR '':''" "\<not> json_blank CHR 0x22"
  by (simp_all add: json_blank_def)

lemma dropWhile_indent [simp]: "dropWhile sep (json_indent i @ r) = dropWhile sep r"
  by (induction i) (simp_all add: json_indent_def)

lemma dropWhile_start: "json_start c \<Longrightarrow> dropWhile sep (c # t) = c # t"
  by (simp add: json_start_def)

lemma list_read:
  assumes "\<forall>d \<in> set ds. reads_all N d" and "N + length ds < n"
    and "dropWhile sep js = dropWhile sep (json_lines i (map (\<lambda>d. data_json d i) ds) @ json_indent k @ CHR '']'' # r)"
    and "js \<noteq> []" and "reps st done items G" and "grows st0 st" and "h_error st = h_error st0" and "G \<subseteq> fresh st0 st"
  shows "\<exists>items' st' G'. json_list_loop n items js st = Ret ((items', r), st') \<and> grows st0 st' \<and>
    h_error st' = h_error st0 \<and> reps st' (done @ map json_norm ds) items' G' \<and> G' \<subseteq> fresh st0 st'"
  using assms
proof (induction ds arbitrary: n js st "done" items G)
  case Nil
  then obtain m where n: "n = Suc m" by (cases n) auto
  have "dropWhile sep js = CHR '']'' # r" using Nil.prems(3) by simp
  then have "json_list_loop n items js st = Ret ((items, r), st)" using Nil.prems(4) by (simp add: n)
  then show ?case using Nil.prems(5-8) by auto
next
  case (Cons d ds)
  from Cons.prems(2) obtain m where n: "n = Suc m" "N + length ds < m" by (cases n) auto
  let ?rest = "(if ds \<noteq> [] then '','' else []) @ [c_nl] @ json_lines i (map (\<lambda>d. data_json d i) ds) @ json_indent k @ CHR '']'' # r"
  obtain c t where ct: "data_json d i = c # t" "json_start c" using data_json_start by blast
  have js: "dropWhile sep js = data_json d i @ ?rest"
    using Cons.prems(3) dropWhile_start [OF ct(2)] by (simp add: ct(1))
  have "ends ?rest" by (simp add: ends_def c_isdigit_def)
  moreover have "reads_all N d" "N \<le> m" using Cons.prems(1) n(2) by auto
  ultimately have "reads m (data_json d i @ ?rest) (json_norm d) ?rest st" by (simp add: reads_all_def)
  then obtain a st1 F where st1: "json_parse_value m (data_json d i @ ?rest) st = Ret ((Some a, ?rest), st1)"
    "grows st st1" "h_error st1 = h_error st" "rep st1 (json_norm d) (Some a) F" "F \<subseteq> fresh st st1"
    unfolding reads_def by blast
  have live: "G \<subseteq> {..< length (h_vals st)}" by (rule rep_live(2) [OF Cons.prems(5)])
  have "reps st1 [json_norm d] [Some a] F" using reps_Cons [OF st1(4) reps_Nil] by simp
  moreover have "reps st1 done items G" by (rule rep_agree(2) [OF Cons.prems(5) grows_agree [OF st1(2) live]])
  moreover have "G \<inter> F = {}" using live st1(5) by (fastforce dest: subsetD)
  ultimately have "reps st1 (done @ [json_norm d]) (items @ [Some a]) (G \<union> F)" by (intro reps_append)
  moreover have "G \<union> F \<subseteq> fresh st0 st1"
    using Cons.prems(6,8) st1(2,5) by (fastforce simp: grows_def dest: subsetD)
  moreover have "dropWhile sep ?rest = dropWhile sep (json_lines i (map (\<lambda>d. data_json d i) ds) @ json_indent k @ CHR '']'' # r)"
    by simp
  moreover have "?rest \<noteq> []" by simp
  moreover have "\<forall>d \<in> set ds. reads_all N d" using Cons.prems(1) by simp
  ultimately obtain items' st' G' where IH: "json_list_loop m (items @ [Some a]) ?rest st1 = Ret ((items', r), st')"
    "grows st0 st'" "h_error st' = h_error st0" "reps st' ((done @ [json_norm d]) @ map json_norm ds) items' G'" "G' \<subseteq> fresh st0 st'"
    using Cons.IH [OF _ n(2), of ?rest st1 "done @ [json_norm d]" "items @ [Some a]" "G \<union> F"]
      grows_trans [OF Cons.prems(6) st1(2)] Cons.prems(7) st1(3) by auto
  have "c \<noteq> CHR '']''" using ct(2) by (simp add: json_start_def)
  then have "json_list_loop n items js st = Ret ((items', r), st')"
    using Cons.prems(4) js st1(1) IH(1) by (simp add: n(1) Let_def) (simp add: ct(1))
  then show ?case using IH(2-5) by auto
qed

definition entry_text :: "nat \<Rightarrow> string \<times> nix_data \<Rightarrow> string" where
  "entry_text i p = json_escape_string (fst p) @ '': '' @ data_json (snd p) i"

lemma escape_start: "json_escape_string k @ r = CHR 0x22 # concat (map json_escape_char k) @ CHR 0x22 # r"
  by (simp add: json_escape_string_def)

text \<open>One entry: the cell of its key lives until it is bound.\<close>

lemma entry_read:
  assumes "rep st (D_set kds) (Some s) G" and "reads m js d r (snd (nix_value_new (NIX_VAL_STRING (Some k)) st))"
    and "map_of kds k = None"
  shows "\<exists>a st2 st3 st4 G'. json_parse_value m js (snd (nix_value_new (NIX_VAL_STRING (Some k)) st)) = Ret ((Some a, r), st2) \<and>
    attrset_bind (Some s) k (Some a) st2 = Ret st3 \<and> nix_value_free (Some (length (h_vals st))) st3 = Ret st4 \<and>
    modifies {s} st st4 \<and> rep st4 (D_set (kds @ [(k, d)])) (Some s) G' \<and> G' \<subseteq> G \<union> fresh st st4"
proof -
  let ?kv = "length (h_vals st)" and ?v = "NIX_VAL_STRING (Some k)"
  let ?st1 = "snd (nix_value_new ?v st)"
  have len: "length (h_vals ?st1) = Suc ?kv" by (simp add: nix_value_new_def)
  from assms(2) obtain a st2 F where st2: "json_parse_value m js ?st1 = Ret ((Some a, r), st2)" "grows ?st1 st2"
    "h_error st2 = h_error ?st1" "rep st2 d (Some a) F" "F \<subseteq> fresh ?st1 st2" unfolding reads_def by blast
  have G: "G \<subseteq> {..< ?kv}" by (rule rep_live(1) [OF assms(1)])
  have s: "s \<in> G" using rep_Some [OF assms(1)] by simp
  have g: "grows st st2" by (rule grows_trans [OF grows_new st2(2)])
  have F: "F \<inter> G = {}" "?kv \<notin> F" using st2(5) G len by (fastforce dest: subsetD)+
  from bind_refines [OF rep_grows [OF assms(1) g] st2(4) F(1), of k] obtain st3 G' where st3:
    "attrset_bind (Some s) k (Some a) st2 = Ret st3" "modifies {s} st2 st3" "length (h_vals st3) = length (h_vals st2)"
    "rep st3 (D_set (kds @ [(k, d)])) (Some s) G'" "G' \<subseteq> G \<union> F" by (auto simp: put_attr_new [OF assms(3)])
  have kv: "?kv < length (h_vals st2)" using st2(2) len by (simp add: grows_def)
  have ne: "?kv \<noteq> s" using s G by auto
  have "cell st2 ?kv = Some ?v" by (rule cell_grows [OF cell_new st2(2)])
  moreover have "agree {?kv} st2 st3" by (rule modifies_agree [OF st3(2)]) (use kv ne in auto)
  ultimately have "cell st3 ?kv = Some ?v" by (simp add: agree_def)
  then have free: "nix_value_free (Some ?kv) st3 = Ret (overwrite ?kv None st3)" by (rule free_cell)
  have "?kv \<notin> G'" using st3(5) F(2) G by auto
  from rep_agree(1) [OF st3(4) agree_overwrite [OF this]]
  have "rep (overwrite ?kv None st3) (D_set (kds @ [(k, d)])) (Some s) G'" .
  moreover have "G' \<subseteq> G \<union> fresh st (overwrite ?kv None st3)"
    using st3(3,5) st2(5) len by (fastforce dest: subsetD)
  moreover have "modifies {s} st (overwrite ?kv None st3)"
    using g st2(3) st3(2,3) unfolding modifies_def grows_def overwrite_def
    by (auto simp: nth_list_update nix_value_new_def)
  ultimately show ?thesis using st2(1) st3(1) free by blast
qed

lemma object_read:
  assumes "\<forall>p \<in> set kds. reads_all N (snd p) \<and> (\<forall>c \<in> set (fst p). json_char c)" and "N + length kds < n"
    and "dropWhile sep js = dropWhile sep (json_lines i (map (entry_text i) kds) @ json_indent k @ CHR ''}'' # r)"
    and "js \<noteq> []" and "rep st (D_set done) (Some s) G" and "grows st0 st" and "h_error st = h_error st0" and "G \<subseteq> fresh st0 st"
    and "distinct (map fst kds)" and "fst ` set kds \<inter> fst ` set done = {}"
  shows "\<exists>st' G'. json_object_loop n (Some s) js st = Ret (r, st') \<and> grows st0 st' \<and> h_error st' = h_error st0 \<and>
    rep st' (D_set (done @ map (\<lambda>p. (fst p, json_norm (snd p))) kds)) (Some s) G' \<and> G' \<subseteq> fresh st0 st'"
  using assms
proof (induction kds arbitrary: n js st "done" G)
  case Nil
  then obtain m where n: "n = Suc m" by (cases n) auto
  have "dropWhile sep js = CHR ''}'' # r" using Nil.prems(3) by simp
  then have "json_object_loop n (Some s) js st = Ret (r, st)" using Nil.prems(4) by (simp add: n)
  then show ?case using Nil.prems(5-8) by auto
next
  case (Cons kd kds)
  obtain key d where kd: "kd = (key, d)" by (cases kd)
  from Cons.prems(2) obtain m where n: "n = Suc m" "N + length kds < m" by (cases n) auto
  let ?rest = "(if kds \<noteq> [] then '','' else []) @ [c_nl] @ json_lines i (map (entry_text i) kds) @ json_indent k @ CHR ''}'' # r"
  obtain c t where ct: "data_json d i = c # t" "json_start c" using data_json_start by blast
  have js: "dropWhile sep js = json_escape_string key @ '': '' @ data_json d i @ ?rest"
    using Cons.prems(3) by (simp add: kd entry_text_def [of _ "(key, d)"] escape_start)
  have parse: "json_parse_string (json_escape_string key @ '': '' @ data_json d i @ ?rest)
      = Ret (Some key, '': '' @ data_json d i @ ?rest)"
    using Cons.prems(1) by (intro parse_string_read) (simp add: kd)
  have drop: "dropWhile (\<lambda>c. json_blank c \<or> c = CHR '':'') ('': '' @ data_json d i @ ?rest) = data_json d i @ ?rest"
    using ct(2) by (simp add: ct(1) json_start_def)
  have "ends ?rest" by (simp add: ends_def c_isdigit_def)
  moreover have "reads_all N d" "N \<le> m" using Cons.prems(1) n(2) by (auto simp: kd)
  ultimately have "reads m (data_json d i @ ?rest) (json_norm d) ?rest (snd (nix_value_new (NIX_VAL_STRING (Some key)) st))"
    by (simp add: reads_all_def)
  moreover have "map_of done key = None" using Cons.prems(10) by (auto simp: kd map_of_eq_None_iff)
  ultimately obtain a st2 st3 st4 G' where e:
    "json_parse_value m (data_json d i @ ?rest) (snd (nix_value_new (NIX_VAL_STRING (Some key)) st)) = Ret ((Some a, ?rest), st2)"
    "attrset_bind (Some s) key (Some a) st2 = Ret st3" "nix_value_free (Some (length (h_vals st))) st3 = Ret st4"
    "modifies {s} st st4" "rep st4 (D_set (done @ [(key, json_norm d)])) (Some s) G'" "G' \<subseteq> G \<union> fresh st st4"
    using entry_read [OF Cons.prems(5)] by blast
  have s: "s \<in> fresh st0 st" using rep_Some [OF Cons.prems(5)] Cons.prems(8) by auto
  have "grows st0 st4" by (rule modifies_grows [OF e(4) Cons.prems(6)]) (use s in auto)
  moreover have "h_error st4 = h_error st0" using e(4) Cons.prems(7) by (simp add: modifies_def)
  moreover have "G' \<subseteq> fresh st0 st4" using e(4,6) Cons.prems(6,8) by (fastforce simp: modifies_def grows_def dest: subsetD)
  moreover have "dropWhile sep ?rest = dropWhile sep (json_lines i (map (entry_text i) kds) @ json_indent k @ CHR ''}'' # r)"
    by simp
  moreover have "?rest \<noteq> []" by simp
  moreover have "\<forall>p \<in> set kds. reads_all N (snd p) \<and> (\<forall>c \<in> set (fst p). json_char c)" "distinct (map fst kds)"
    "fst ` set kds \<inter> fst ` set (done @ [(key, json_norm d)]) = {}"
    using Cons.prems(1,9,10) by (auto simp: kd)
  ultimately obtain st' G'' where IH: "json_object_loop m (Some s) ?rest st4 = Ret (r, st')" "grows st0 st'"
    "h_error st' = h_error st0" "G'' \<subseteq> fresh st0 st'"
    "rep st' (D_set ((done @ [(key, json_norm d)]) @ map (\<lambda>p. (fst p, json_norm (snd p))) kds)) (Some s) G''"
    using Cons.IH [OF _ n(2) _ _ e(5)] by blast
  have "json_object_loop n (Some s) js st = Ret (r, st')"
    using Cons.prems(4) js parse drop e(1-3) IH(1)
    by (simp add: n(1) Let_def nix_value_new_def escape_start)
  then show ?case using IH(2-5) by (auto simp: kd)
qed

subsection \<open>The round trip\<close>

text \<open>Steps that suffice for a tree.\<close>

fun json_need :: "nix_data \<Rightarrow> nat" where
  "json_need (D_list ds) = sum_list (map json_need ds) + length ds + 2"
| "json_need (D_set kds) = sum_list (map (\<lambda>p. json_need (snd p)) kds) + length kds + 2"
| "json_need d = 1"

lemma reads_all_mono: "reads_all N d \<Longrightarrow> N \<le> M \<Longrightarrow> reads_all M d"
  by (auto simp: reads_all_def)

lemma member_le_sum_list: "x \<in> set xs \<Longrightarrow> f x \<le> sum_list (map f xs)" for f :: "'a \<Rightarrow> nat"
  by (induction xs) auto

lemma json_lines_Nil [simp]: "json_lines i ts = [] \<longleftrightarrow> ts = []"
  by (cases ts) auto

lemma leaf_read_all:
  assumes "leaf_value d \<noteq> None" and "json_clean d"
  shows "reads_all (Suc 0) d"
  unfolding reads_all_def
proof (intro allI impI)
  fix m indent r st assume "Suc 0 \<le> m" "ends r"
  with leaf_read [OF assms, of r "m - 1" indent st] show "reads m (data_json d indent @ r) (json_norm d) r st"
    by simp
qed

lemma data_read: "json_clean d \<Longrightarrow> reads_all (json_need d) d"
proof (induction d rule: json_need.induct)
  case (1 ds)
  let ?N = "sum_list (map json_need ds)"
  have items: "\<forall>d \<in> set ds. reads_all ?N d"
    using 1 reads_all_mono member_le_sum_list by (metis json_clean.simps(3))
  have "reads m (data_json (D_list ds) indent @ r) (json_norm (D_list ds)) r st"
    if m: "json_need (D_list ds) \<le> m" for m indent r st
  proof -
    obtain n where n: "m = Suc n" "?N + length ds < n" using m by (cases m) auto
    let ?js = "tl (data_json (D_list ds) indent @ r)"
    have drop: "dropWhile sep ?js = dropWhile sep (json_lines (indent + 2) (map (\<lambda>d. data_json d (indent + 2)) ds)
        @ json_indent (if ds = [] then 0 else indent) @ CHR '']'' # r)"
      by (simp add: json_text_def)
    have "?js \<noteq> []" by (simp add: json_text_def)
    from list_read [OF items n(2) drop this reps_Nil grows_refl [of st] refl empty_subsetI] obtain items st' G where loop: "json_list_loop n [] ?js st = Ret ((items, r), st')" "grows st st'"
      "h_error st' = h_error st" "reps st' (map json_norm ds) items G" "G \<subseteq> fresh st st'"
      unfolding append_Nil by blast
    let ?v = "NIX_VAL_LIST items" and ?l = "length (h_vals st')"
    let ?st = "snd (nix_value_new ?v st')"
    have "json_parse_value m (data_json (D_list ds) indent @ r) st = Ret ((Some ?l, r), ?st)"
      using loop(1) by (simp add: n(1) Let_def json_text_def json_blank_def nix_value_new_def)
    moreover have "reps ?st (map json_norm ds) items G"
      by (rule rep_agree(2) [OF loop(4) grows_agree [OF grows_new rep_live(2) [OF loop(4)]]])
    then have "rep ?st (json_norm (D_list ds)) (Some ?l) (insert ?l G)"
      using cell_new [of ?v st'] rep_live(2) [OF loop(4)] by (auto intro!: rep_list)
    moreover have "grows st ?st" by (rule grows_trans [OF loop(2) grows_new])
    moreover have "insert ?l G \<subseteq> fresh st ?st" "h_error ?st = h_error st"
      using loop(2,3,5) by (auto simp: nix_value_new_def grows_def)
    ultimately show ?thesis unfolding reads_def by blast
  qed
  then show ?case by (simp add: reads_all_def del: data_json.simps json_need.simps json_norm.simps)
next
  case (2 kds)
  let ?N = "sum_list (map (\<lambda>p. json_need (snd p)) kds)"
  have entries: "\<forall>p \<in> set kds. reads_all ?N (snd p) \<and> (\<forall>c \<in> set (fst p). json_char c)"
  proof
    fix p assume p: "p \<in> set kds"
    with 2(2) have "json_clean (snd p)" "\<forall>c \<in> set (fst p). json_char c" by simp_all
    with 2(1) [OF p] reads_all_mono [OF _ member_le_sum_list [OF p, of "\<lambda>p. json_need (snd p)"]]
    show "reads_all ?N (snd p) \<and> (\<forall>c \<in> set (fst p). json_char c)" by blast
  qed
  have "reads m (data_json (D_set kds) indent @ r) (json_norm (D_set kds)) r st"
    if m: "json_need (D_set kds) \<le> m" for m indent r st
  proof -
    obtain n where n: "m = Suc n" "?N + length kds < n" using m by (cases m) auto
    let ?js = "tl (data_json (D_set kds) indent @ r)"
    have "dropWhile sep ?js = dropWhile sep (json_lines (indent + 2) (map (entry_text (indent + 2)) kds)
        @ json_indent (if kds = [] then 0 else indent) @ CHR ''}'' # r)"
      unfolding data_json_set
      by (simp add: json_text_def case_prod_unfold entry_text_def [abs_def] del: data_json.simps)
    moreover have "?js \<noteq> []" by (simp add: json_text_def)
    moreover let ?v = "NIX_VAL_ATTR_SET []" and ?s = "length (h_vals st)"
    let ?st1 = "snd (nix_value_new ?v st)"
    have "rep ?st1 (D_set []) (Some ?s) {?s}" using cell_new by (rule rep_empty_set)
    moreover have "{?s} \<subseteq> fresh st ?st1" "h_error ?st1 = h_error st" by (simp_all add: nix_value_new_def)
    moreover have "distinct (map fst kds)" using 2 by simp
    ultimately obtain st' G where loop: "json_object_loop n (Some ?s) ?js ?st1 = Ret (r, st')" "grows st st'"
      "h_error st' = h_error st" "rep st' (D_set (map (\<lambda>p. (fst p, json_norm (snd p))) kds)) (Some ?s) G" "G \<subseteq> fresh st st'"
      using object_read [OF entries n(2) _ _ _ grows_new] by fastforce
    have "json_parse_value m (data_json (D_set kds) indent @ r) st = Ret ((Some ?s, r), st')"
      using loop(1) by (simp add: n(1) Let_def json_text_def json_blank_def nix_value_new_def)
    with loop(2-5) show ?thesis unfolding reads_def by auto
  qed
  then show ?case by (simp add: reads_all_def del: data_json.simps json_need.simps json_norm.simps)
qed (simp_all add: leaf_read_all)

lemma json_lines_length: "length (json_lines i ts) \<ge> sum_list (map length ts) + length ts"
  by (induction ts) auto

lemma json_need_length: "json_need d \<le> length (data_json d i)"
proof (induction d arbitrary: i rule: json_need.induct)
  case (1 ds)
  let ?ts = "map (\<lambda>d. data_json d (i + 2)) ds"
  have "sum_list (map json_need ds) \<le> sum_list (map (\<lambda>d. length (data_json d (i + 2))) ds)"
    by (rule sum_list_mono) (use 1 in auto)
  with json_lines_length [of ?ts "i + 2"] show ?case
    by (simp add: json_text_def comp_def del: add_2_eq_Suc add_2_eq_Suc')
next
  case (2 kds)
  let ?ts = "map (entry_text (i + 2)) kds"
  have "sum_list (map (\<lambda>p. json_need (snd p)) kds) \<le> sum_list (map (\<lambda>p. length (entry_text (i + 2) p)) kds)"
  proof (rule sum_list_mono)
    fix p assume "p \<in> set kds"
    with 2 [of p "i + 2"] show "json_need (snd p) \<le> length (entry_text (i + 2) p)" by (simp add: entry_text_def)
  qed
  with json_lines_length [of ?ts "i + 2"] show ?case
    unfolding data_json_set
    by (simp add: json_text_def comp_def case_prod_unfold entry_text_def [abs_def] del: data_json.simps add_2_eq_Suc add_2_eq_Suc')
qed (use data_json_start in \<open>metis Suc_leI length_greater_0_conv list.distinct(1) One_nat_def json_need.simps\<close>)+

text \<open>
  C12.  What \<open>builtins.toJSON\<close> writes for a value \<open>builtins.fromJSON\<close> reads back as a separate
  copy of it, paths as strings, when no string in it has a control character other than newline,
  carriage return and tab, and no set has one name twice.
\<close>

theorem to_json_from_json:
  assumes "rep st d r F" and "json_clean d"
  shows "\<exists>N. \<forall>n \<ge> N. \<exists>a st1 r' st2 G. do_to_json n r st = Ret (Some a, st1) \<and>
    do_from_json (Some a) st1 = Ret (r', st2) \<and> rep st2 (json_norm d) r' G \<and> rep st2 d r F \<and> F \<inter> G = {}"
proof (rule exI [of _ "Suc (size d)"], intro allI impI)
  fix n assume "Suc (size d) \<le> n"
  then have json: "nix_to_json n st r = Ret (data_json d 0)" by (intro json_rep [OF assms(1)]) simp
  let ?t = "data_json d 0" and ?a = "length (h_vals st)"
  let ?st1 = "snd (nix_value_new (NIX_VAL_STRING (Some ?t)) st)"
  have "r \<noteq> None" using rep_Some [OF assms(1)] by auto
  with json have written: "do_to_json n r st = Ret (Some ?a, ?st1)"
    by (simp add: do_to_json_def new_value_def nix_value_new_def)
  have "json_need d \<le> 2 * length ?t + 2" using json_need_length [of d 0] by simp
  with data_read [OF assms(2)] have "reads (2 * length ?t + 2) (?t @ []) (json_norm d) [] ?st1"
    unfolding reads_all_def by (blast intro: ends_def [THEN iffD2])
  then obtain b st2 G where st2: "json_parse_value (2 * length ?t + 2) ?t ?st1 = Ret ((Some b, []), st2)" "grows ?st1 st2"
    "rep st2 (json_norm d) (Some b) G" "G \<subseteq> fresh ?st1 st2" unfolding reads_def append_Nil2 by blast
  have "deref (Some ?a) ?st1 = Ret (NIX_VAL_STRING (Some ?t))" by (rule deref_cell [OF cell_new])
  with st2(1) have read_back: "do_from_json (Some ?a) ?st1 = Ret (Some b, st2)" by (simp add: do_from_json_def)
  have "rep st2 d r F" by (rule rep_grows [OF assms(1) grows_trans [OF grows_new st2(2)]])
  moreover have "F \<inter> G = {}" using rep_live(1) [OF assms(1)] st2(4) by (fastforce simp: nix_value_new_def dest: subsetD)
  ultimately show "\<exists>a st1 r' st2 G. do_to_json n r st = Ret (Some a, st1) \<and>
    do_from_json (Some a) st1 = Ret (r', st2) \<and> rep st2 (json_norm d) r' G \<and> rep st2 d r F \<and> F \<inter> G = {}"
    using written read_back st2(3) by blast
qed

theorem to_json_from_json_witness:
  "\<exists>n a st1 r' st2 G. do_to_json n (Some 2)
       \<lparr>h_vals = [Some (NIX_VAL_INT (- 5)), Some (NIX_VAL_STRING (Some [CHR 0x22, c_nl])), Some (NIX_VAL_LIST [Some 0, Some 1])],
        h_envs = [], h_trees = [], h_error = None\<rparr> = Ret (Some a, st1) \<and>
     do_from_json (Some a) st1 = Ret (r', st2) \<and> rep st2 (D_list [D_int (- 5), D_string [CHR 0x22, c_nl]]) r' G"
proof -
  let ?st = "\<lparr>h_vals = [Some (NIX_VAL_INT (- 5)), Some (NIX_VAL_STRING (Some [CHR 0x22, c_nl])), Some (NIX_VAL_LIST [Some 0, Some 1])],
    h_envs = [], h_trees = [], h_error = None\<rparr>"
  let ?ds = "[D_int (- 5), D_string [CHR 0x22, c_nl]]"
  have "rep ?st (D_int (- 5)) (Some 0) {0}" "rep ?st (D_string [CHR 0x22, c_nl]) (Some 1) {1}"
    by (auto intro!: rep_leaf simp: cell_def)
  then have "reps ?st ?ds [Some 0, Some 1] ({0} \<union> ({1} \<union> {}))"
    by (intro reps_Cons reps_Nil) auto
  then have "rep ?st (D_list ?ds) (Some 2) (insert 2 ({0} \<union> ({1} \<union> {})))"
    by (intro rep_list) (auto simp: cell_def)
  moreover have "json_clean (D_list ?ds)" by (simp add: json_char_def)
  ultimately show ?thesis using to_json_from_json [of ?st "D_list ?ds"] by fastforce
qed

subsection \<open>The reader ends\<close>

lemma string_loop_total: "json_string_loop js \<noteq> Out_of_steps \<and> (\<forall>t r. json_string_loop js = Ret (t, r) \<longrightarrow> length r \<le> length js)"
proof (induction js rule: json_string_loop.induct)
  case (2 c js)
  show ?case
  proof (cases "c = CHR 0x5C")
    case True
    show ?thesis
    proof (cases js)
      case (Cons e js')
      with 2(1) [OF _ True Cons] True show ?thesis by (cases "json_string_loop js'") (auto simp: le_SucI)
    qed (simp add: True)
  next
    case False
    with 2(2) show ?thesis by (cases "json_string_loop js") (auto simp: le_SucI)
  qed
qed simp

lemma parse_string_total:
  "json_parse_string js \<noteq> Out_of_steps \<and>
   (\<forall>t r. json_parse_string js = Ret (t, r) \<longrightarrow> length r \<le> length js \<and> (t \<noteq> None \<longrightarrow> length r < length js))"
proof (cases js)
  case (Cons c js')
  with string_loop_total [of js'] show ?thesis
    by (cases "json_string_loop js'") (auto simp: json_parse_string_def le_imp_less_Suc)
qed (simp add: json_parse_string_def)

lemma parse_string_quote: "take 1 js = [CHR 0x22] \<Longrightarrow> json_parse_string js = Ret (t, r) \<Longrightarrow> t \<noteq> None"
  by (cases js; cases "json_string_loop (tl js)") (auto simp: json_parse_string_def)

declare json_parse_value.simps [simp del] json_list_loop.simps [simp del] json_object_loop.simps [simp del]

lemma json_total:
  "2 * length js + 1 \<le> n \<Longrightarrow> json_parse_value n js st \<noteq> Out_of_steps \<and>
     (\<forall>v r st'. json_parse_value n js st = Ret ((v, r), st') \<longrightarrow> length r \<le> length js \<and> (v \<noteq> None \<longrightarrow> length r < length js))"
  "2 * length js + 2 \<le> n \<Longrightarrow> json_list_loop n items js st \<noteq> Out_of_steps \<and>
     (\<forall>v r st'. json_list_loop n items js st = Ret ((v, r), st') \<longrightarrow> length r \<le> length js)"
  "2 * length js + 2 \<le> n \<Longrightarrow> json_object_loop n obj js st \<noteq> Out_of_steps \<and>
     (\<forall>r st'. json_object_loop n obj js st = Ret (r, st') \<longrightarrow> length r \<le> length js)"
proof (induction n arbitrary: js items obj st)
  case 0
  {
    case 1
    then show ?case by simp
  next
    case 2
    then show ?case by simp
  next
    case 3
    then show ?case by simp
  }
next
  case (Suc n)
  {
    case 1
    define js' where "js' = dropWhile json_blank js"
    have len: "length js' \<le> length js" by (simp add: js'_def length_dropWhile_le)
    have tl: "2 * length (tl js') + 2 \<le> n" if "js' \<noteq> []" using that len 1 by (cases js') auto
    have ne: "js' \<noteq> []" if "take 1 js' = [c]" for c using that by (cases js') auto
    have num: "length (snd (json_number js')) < length js'" if "take 1 js' = ''-'' \<or> js' \<noteq> [] \<and> c_isdigit (hd js')"
      using that by (cases js') (auto simp: json_number_def Let_def less_Suc_eq_le length_dropWhile_le)
    note parse = json_parse_value.simps(2) [of n js st, unfolded Let_def, folded js'_def]
    consider (str) "take 1 js' = [CHR 0x22]" | (list) "take 1 js' = ''[''" | (obj) "take 1 js' = ''{''"
      | (other) "take 1 js' \<notin> {[CHR 0x22], ''['', ''{''}" by blast
    then show ?case
    proof cases
      case str
      with parse_string_total [of js'] parse_string_quote [OF str] len show ?thesis
        by (cases "json_parse_string js'") (auto simp: parse nix_value_new_def)
    next
      case list
      note IH = Suc.IH(2) [OF tl [OF ne [OF list]], of "[]" st]
      have lt: "length (tl js') < length js" using len ne [OF list] by (cases js') auto
      show ?thesis
      proof (cases "json_list_loop n [] (tl js') st")
        case (Ret x)
        obtain items r st' where x: "x = ((items, r), st')" by (metis prod.exhaust)
        with IH Ret lt have "length r < length js" by auto
        with list Ret x show ?thesis by (simp add: parse nix_value_new_def)
      qed (use IH list in \<open>simp_all add: parse\<close>)
    next
      case obj
      let ?l = "Some (length (h_vals st))" and ?st = "snd (nix_value_new (NIX_VAL_ATTR_SET []) st)"
      note IH = Suc.IH(3) [OF tl [OF ne [OF obj]], of ?l ?st]
      have lt: "length (tl js') < length js" using len ne [OF obj] by (cases js') auto
      show ?thesis
      proof (cases "json_object_loop n ?l (tl js') ?st")
        case (Ret x)
        obtain r st' where x: "x = (r, st')" by (cases x)
        with IH Ret lt have "length r < length js" by auto
        with obj Ret x show ?thesis by (simp add: parse nix_value_new_def)
      qed (use IH obj in \<open>simp_all add: parse nix_value_new_def\<close>)
    next
      case other
      have sw: "length js' - k < length js" if "starts_with (c # p) js'" "0 < k" for c p k
        using that len by (cases js') auto
      from other show ?thesis using len num
        by (auto simp: parse nix_value_new_def split: prod.splits dest: sw [of _ _ 4] sw [of _ _ 5])
    qed
  next
    case 2
    define js' where "js' = dropWhile sep js"
    have len: "length js' \<le> length js" by (simp add: js'_def length_dropWhile_le)
    then have "2 * length js' + 1 \<le> n" using 2 by simp
    note parsed = Suc.IH(1) [OF this, of st]
    note loop = json_list_loop.simps(2) [of n items js st, unfolded Let_def, folded js'_def]
    show ?case
    proof (cases "js = [] \<or> take 1 js' = '']''")
      case True
      with len show ?thesis by (auto simp: loop)
    next
      case False
      show ?thesis
      proof (cases "json_parse_value n js' st")
        case (Ret x)
        obtain v r st' where x: "x = ((v, r), st')" by (metis prod.exhaust)
        show ?thesis
        proof (cases "v = None")
          case True
          with False Ret x parsed len show ?thesis by (auto simp: loop)
        next
          case v: False
          with parsed Ret x have "length r < length js'" by auto
          with len 2 have "2 * length r + 2 \<le> n" "length r \<le> length js" by auto
          with Suc.IH(2) [of r "items @ [v]" st'] False v Ret x show ?thesis by (fastforce simp: loop)
        qed
      qed (use False parsed in \<open>auto simp: loop\<close>)
    qed
  next
    case 3
    define js' where "js' = dropWhile sep js"
    have len: "length js' \<le> length js" by (simp add: js'_def length_dropWhile_le)
    note loop = json_object_loop.simps(2) [of n obj js st, unfolded Let_def, folded js'_def]
    show ?case
    proof (cases "js = [] \<or> take 1 js' = ''}''")
      case True
      with len show ?thesis by (auto simp: loop)
    next
      case False
      show ?thesis
      proof (cases "json_parse_string js'")
        case (Ret x)
        obtain key r where x: "x = (key, r)" by (cases x)
        have r: "length r \<le> length js'" "key \<noteq> None \<Longrightarrow> length r < length js'"
          using parse_string_total [of js'] Ret x by auto
        show ?thesis
        proof (cases key)
          case None
          with False Ret x r len show ?thesis by (auto simp: loop)
        next
          case (Some k)
          let ?st1 = "snd (nix_value_new (NIX_VAL_STRING (Some k)) st)" and ?kv = "Some (length (h_vals st))"
          let ?r = "dropWhile (\<lambda>c. json_blank c \<or> c = CHR '':'') r"
          have r': "length ?r \<le> length r" by (rule length_dropWhile_le)
          moreover have "length r < length js'" using r(2) Some by simp
          ultimately have "2 * length ?r + 1 \<le> n" using len 3 by linarith
          note parsed = Suc.IH(1) [OF this, of ?st1]
          show ?thesis
          proof (cases "json_parse_value n ?r ?st1")
            case P: (Ret y)
            obtain v r2 st2 where y: "y = ((v, r2), st2)" by (metis prod.exhaust)
            with parsed P have r2: "length r2 \<le> length ?r" by auto
            moreover have "length r < length js'" using r(2) Some by simp
            ultimately have "2 * length r2 + 2 \<le> n" "length r2 \<le> length js" using r' len 3 by linarith+
            with Suc.IH(3) [of r2 obj] have IH: "\<And>st. json_object_loop n obj r2 st \<noteq> Out_of_steps"
              "\<And>st r st'. json_object_loop n obj r2 st = Ret (r, st') \<Longrightarrow> length r \<le> length js" by (auto intro: le_trans)
            have fr: "nix_value_free ?kv st \<noteq> Out_of_steps" "attrset_bind obj k v st \<noteq> Out_of_steps" for st
              by (auto simp: nix_value_free_def attrset_bind_def store_value_def deref_def split: option.splits nix_value.splits)
            show ?thesis
            proof (cases "v = None")
              case True
              with False Ret x Some P y fr(1) [of st2] \<open>length r2 \<le> length js\<close> show ?thesis
                by (cases "nix_value_free ?kv st2") (auto simp: loop nix_value_new_def)
            next
              case v: False
              show ?thesis
              proof (cases "attrset_bind obj k v st2")
                case B: (Ret st3)
                with False Ret x Some P y v fr(1) [of st3] IH show ?thesis
                  by (cases "nix_value_free ?kv st3") (auto simp: loop nix_value_new_def)
              qed (use False Ret x Some P y v fr(2) [of st2] in \<open>auto simp: loop nix_value_new_def\<close>)
            qed
          qed (use False Ret x Some parsed in \<open>auto simp: loop nix_value_new_def\<close>)
        qed
      qed (use False parse_string_total [of js'] in \<open>auto simp: loop\<close>)
    qed
  }
qed


end
